(* ===== verification/Ioc_Prelude.thy ===== *)
theory Ioc_Prelude
  imports Main "HOL-Library.Word" "HOL-Library.Monad_Syntax"
begin

text \<open>
  Shared vocabulary of the development: the C integer types the sources use, memory regions
  as byte lists with checked access, the status codes of the operating system abstraction layer,
  and the lemmas on lists, options and words that the component theories rely on.

  A C memory region is a \<open>byte list\<close>. Every access goes through \<open>rd\<close>, \<open>wr\<close>,
  \<open>rds\<close> or \<open>wrs\<close>, whose result is \<open>None\<close> when the access leaves the region:
  in the models \<open>None\<close> always means that the C code touches memory outside the object it was
  given (undefined behaviour). A theorem that a model returns \<open>Some\<close> is therefore a memory
  safety theorem. Addresses are \<open>int\<close>, as \<open>os_int\<close> is signed in the sources; the
  flow control counters, which the code lets wrap around, are \<open>32 word\<close>.
\<close>

unbundle bit_operations_syntax

section \<open>Types\<close>

type_synonym byte = "8 word"
type_synonym u16 = "16 word"
type_synonym u32 = "32 word"

text \<open>
  Status codes of eosal used by the sources. The library fixes \<open>OSAL_SUCCESS\<close> as zero, so
  \<open>if (status)\<close> is true for every other value.
\<close>

datatype osalStatus =
    OSAL_SUCCESS
  | OSAL_PENDING
  | OSAL_COMPLETED
  | OSAL_STATUS_FAILED
  | OSAL_STATUS_CONNECTION_REFUSED
  | OSAL_STATUS_NOT_SUPPORTED
  | OSAL_STATUS_MEMORY_ALLOCATION_FAILED
  | OSAL_STATUS_OTHER nat

text \<open>
  Effects that leave the modelled state: the event that wakes the worker thread of a connection,
  the call of an application callback of a memory block (function, context, callback flags,
  start and end address), the call of a connection's callback, and a root event about a memory
  block, given by its reference.
\<close>

datatype iocConnectionEvent = IOC_CONNECTION_ESTABLISHED | IOC_CONNECTION_DROPPED

datatype iocEvent =
    IOC_NEW_MEMORY_BLOCK | IOC_MBLK_CONNECTED_AS_SOURCE | IOC_MBLK_CONNECTED_AS_TARGET
  | IOC_MEMORY_BLOCK_DELETED | IOC_NEW_NETWORK | IOC_NETWORK_DISCONNECTED | IOC_NEW_DEVICE
  | IOC_DEVICE_DISCONNECTED

datatype ioc_event =
    WorkerTrig
  | MblkCallback nat nat u16 int int
  | ConCallback iocConnectionEvent
  | RootEvent iocEvent nat

text \<open>\<open>if (flags & mask)\<close> of the sources.\<close>

definition has_flag :: "'a::len word \<Rightarrow> 'a word \<Rightarrow> bool" where
  "has_flag flags bits \<longleftrightarrow> flags AND bits \<noteq> 0"

section \<open>Checked memory access\<close>

definition rd :: "'a list \<Rightarrow> int \<Rightarrow> 'a option" where
  "rd m i = (if 0 \<le> i \<and> i < int (length m) then Some (m ! nat i) else None)"

definition wr :: "'a list \<Rightarrow> int \<Rightarrow> 'a \<Rightarrow> 'a list option" where
  "wr m i v = (if 0 \<le> i \<and> i < int (length m) then Some (m[nat i := v]) else None)"

definition rds :: "'a list \<Rightarrow> int \<Rightarrow> int \<Rightarrow> 'a list option" where
  "rds m i n = (if 0 \<le> i \<and> 0 \<le> n \<and> i + n \<le> int (length m)
     then Some (take (nat n) (drop (nat i) m)) else None)"

definition splice :: "'a list \<Rightarrow> nat \<Rightarrow> 'a list \<Rightarrow> 'a list" where
  "splice m i xs = take i m @ xs @ drop (i + length xs) m"

definition wrs :: "'a list \<Rightarrow> int \<Rightarrow> 'a list \<Rightarrow> 'a list option" where
  "wrs m i xs = (if 0 \<le> i \<and> i + int (length xs) \<le> int (length m)
     then Some (splice m (nat i) xs) else None)"

text \<open>\<open>os_memcpy(dst + i, src + j, n)\<close> and \<open>os_memclear(dst + i, n)\<close>.\<close>

definition os_memcpy :: "'a list \<Rightarrow> int \<Rightarrow> 'a list \<Rightarrow> int \<Rightarrow> int \<Rightarrow> 'a list option" where
  "os_memcpy dst i src j n = do { xs \<leftarrow> rds src j n; wrs dst i xs }"

definition os_memclear :: "byte list \<Rightarrow> int \<Rightarrow> int \<Rightarrow> byte list option" where
  "os_memclear dst i n = (if n < 0 then None else wrs dst i (replicate (nat n) 0))"

section \<open>Lemmas on memory access\<close>

named_theorems mem_simps \<open>evaluation rules of the checked memory operations\<close>

lemma rd_in [mem_simps]: "0 \<le> i \<Longrightarrow> i < int (length m) \<Longrightarrow> rd m i = Some (m ! nat i)"
  by (simp add: rd_def)

lemma rd_out: "i < 0 \<or> int (length m) \<le> i \<Longrightarrow> rd m i = None"
  by (auto simp: rd_def)

lemma rd_SomeD: "rd m i = Some v \<Longrightarrow> 0 \<le> i \<and> i < int (length m) \<and> v = m ! nat i"
  by (auto simp: rd_def split: if_splits)

lemma rd_int [simp]: "rd m (int i) = (if i < length m then Some (m ! i) else None)"
  by (simp add: rd_def)

lemma rd_append_ge: "int (length pre) \<le> i \<Longrightarrow> rd (pre @ xs) i = rd xs (i - int (length pre))"
  by (auto simp: rd_def nth_append nat_diff_distrib)

lemma rd_append_less: "i < int (length pre) \<Longrightarrow> rd (pre @ xs) i = rd pre i"
  by (auto simp: rd_def nth_append)

lemma rd_Cons: "rd (x # xs) i = (if i = 0 then Some x else rd xs (i - 1))"
  by (auto simp: rd_def nth_Cons nat_diff_distrib split: nat.split)

lemma rd_Nil [simp]: "rd [] i = None"
  by (simp add: rd_def)

lemma wr_in [mem_simps]: "0 \<le> i \<Longrightarrow> i < int (length m) \<Longrightarrow> wr m i v = Some (m[nat i := v])"
  by (simp add: wr_def)

lemma wr_length: "wr m i v = Some m' \<Longrightarrow> length m' = length m"
  by (auto simp: wr_def split: if_splits)

lemma length_splice [simp]:
  "i + length xs \<le> length m \<Longrightarrow> length (splice m i xs) = length m"
  by (simp add: splice_def)

lemma nth_splice:
  assumes "i + length xs \<le> length m" and "k < length m"
  shows "splice m i xs ! k =
    (if k < i then m ! k else if k < i + length xs then xs ! (k - i) else m ! k)"
  using assms by (auto simp: splice_def nth_append min_def)

lemma splice_Nil [simp]: "splice m i [] = m"
  by (simp add: splice_def)

lemma splice_all [simp]: "length xs = length m \<Longrightarrow> splice m 0 xs = xs"
  by (simp add: splice_def)

lemma take_splice_inside [simp]:
  "i + length xs \<le> length m \<Longrightarrow> n \<le> i \<Longrightarrow> take n (splice m i xs) = take n m"
  by (simp add: splice_def min_def)

lemma take_drop_splice [simp]:
  "i + length xs \<le> length m \<Longrightarrow> take (length xs) (drop i (splice m i xs)) = xs"
  by (simp add: splice_def)

lemma wrs_in [mem_simps]:
  "0 \<le> i \<Longrightarrow> i + int (length xs) \<le> int (length m) \<Longrightarrow> wrs m i xs = Some (splice m (nat i) xs)"
  by (simp add: wrs_def)

lemma wrs_length: "wrs m i xs = Some m' \<Longrightarrow> length m' = length m"
  by (auto simp: wrs_def splice_def split: if_splits)

lemma rds_in [mem_simps]:
  "0 \<le> i \<Longrightarrow> 0 \<le> n \<Longrightarrow> i + n \<le> int (length m) \<Longrightarrow> rds m i n = Some (take (nat n) (drop (nat i) m))"
  by (simp add: rds_def)

lemma rds_SomeD:
  "rds m i n = Some xs \<Longrightarrow> 0 \<le> i \<and> 0 \<le> n \<and> i + n \<le> int (length m) \<and>
     xs = take (nat n) (drop (nat i) m) \<and> length xs = nat n"
  by (auto simp: rds_def split: if_splits)

lemma os_memcpy_in [mem_simps]:
  "0 \<le> i \<Longrightarrow> 0 \<le> j \<Longrightarrow> 0 \<le> n \<Longrightarrow> i + n \<le> int (length dst) \<Longrightarrow> j + n \<le> int (length src) \<Longrightarrow>
   os_memcpy dst i src j n = Some (splice dst (nat i) (take (nat n) (drop (nat j) src)))"
  by (simp add: os_memcpy_def rds_in wrs_in)

lemma os_memclear_in [mem_simps]:
  "0 \<le> i \<Longrightarrow> 0 \<le> n \<Longrightarrow> i + n \<le> int (length dst) \<Longrightarrow>
   os_memclear dst i n = Some (splice dst (nat i) (replicate (nat n) 0))"
  by (simp add: os_memclear_def wrs_in)

lemma os_memcpy_length: "os_memcpy dst i src j n = Some m' \<Longrightarrow> length m' = length dst"
  by (auto simp: os_memcpy_def bind_eq_Some_conv dest: wrs_length)

section \<open>Lemmas on options and words\<close>

lemma bind_SomeE:
  assumes "Option.bind x f = Some z"
  obtains y where "x = Some y" and "f y = Some z"
  using assms by (cases x) auto

lemma unat_of_nat_byte [simp]: "n < 256 \<Longrightarrow> unat (of_nat n :: byte) = n"
  by (simp add: unat_of_nat take_bit_eq_mod)

lemma unat_byte_less [simp]: "unat (b :: byte) < 256"
  using unsigned_less [of b, where ?'a = nat] by simp

section \<open>Invariants of step relations\<close>

text \<open>
  What the state machines of the program share: an invariant that holds at the start and that every step
  keeps holds in every state that can be reached.
\<close>

locale step_invariant =
  fixes starts :: "'s \<Rightarrow> bool" and steps :: "'s \<Rightarrow> 's \<Rightarrow> bool" and inv :: "'s \<Rightarrow> bool"
  assumes inv_start: "starts s \<Longrightarrow> inv s"
    and inv_step: "inv s \<Longrightarrow> steps s s' \<Longrightarrow> inv s'"
begin

lemma inv_from: "steps\<^sup>*\<^sup>* s s' \<Longrightarrow> inv s \<Longrightarrow> inv s'"
  by (induction rule: rtranclp_induct) (auto intro: inv_step)

lemma inv_reachable: "starts s \<Longrightarrow> steps\<^sup>*\<^sup>* s s' \<Longrightarrow> inv s'"
  using inv_from inv_start by blast

end

end
