(* ===== verification/Ioc_Compress.thy ===== *)
theory Ioc_Compress
  imports Ioc_Prelude
begin

text \<open>
  The run length compression of data frames, \<open>code/ioc_compress.c\<close>: the compressor
  \<open>ioc_compress\<close>, the decompressor \<open>ioc_uncompress\<close> with its delta mode, and the proofs
  that they are inverse, never write past the destination and always end.

  Pointers of the C code are offsets (\<open>nat\<close>) into the region they point to. The format is a
  sequence of pairs: a count byte, that many data bytes, a count byte, that many implicit zeros;
  \<open>decode\<close> is the reference meaning of such a sequence.
\<close>

section \<open>Frame flags used by the codec\<close>

definition IOC_DELTA_ENCODED :: byte where "IOC_DELTA_ENCODED = 1"
definition IOC_COMPRESESSED :: byte where "IOC_COMPRESESSED = 2"

lemmas codec_flag_defs = IOC_DELTA_ENCODED_def IOC_COMPRESESSED_def

section \<open>Compression\<close>

text \<open>
  The two inner loops of \<open>ioc_compress\<close>. Both test the byte under \<open>p\<close> before they compare
  \<open>count\<close> with \<open>max_count\<close>, as the C conditions do.
\<close>

function scan_data :: "byte list \<Rightarrow> nat \<Rightarrow> nat \<Rightarrow> nat \<Rightarrow> (nat \<times> nat) option" where
  "scan_data srcbuf p count max_count = do {
     a \<leftarrow> rd srcbuf (int p);
     nonzero \<leftarrow> (if a \<noteq> 0 then Some True
       else do { b \<leftarrow> rd srcbuf (int (if count < max_count - 1 then p + 1 else p)); Some (b \<noteq> 0) });
     if nonzero \<and> count < max_count then scan_data srcbuf (p + 1) (count + 1) max_count
     else Some (p, count) }"
  by pat_completeness auto
termination
  by (relation "measure (\<lambda>(srcbuf, p, count, max_count). max_count - count)") auto

function scan_zero :: "byte list \<Rightarrow> nat \<Rightarrow> nat \<Rightarrow> nat \<Rightarrow> (nat \<times> nat) option" where
  "scan_zero srcbuf p count max_count = do {
     a \<leftarrow> rd srcbuf (int p);
     if a = 0 \<and> count < max_count then scan_zero srcbuf (p + 1) (count + 1) max_count
     else Some (p, count) }"
  by pat_completeness auto
termination
  by (relation "measure (\<lambda>(srcbuf, p, count, max_count). max_count - count)") auto

declare scan_data.simps [simp del] scan_zero.simps [simp del]

lemma scan_data_Some:
  assumes "scan_data src p c mx = Some (p', c')" and "c \<le> mx"
  shows "c \<le> c' \<and> c' \<le> mx \<and> p' = p + (c' - c) \<and> (c' = c \<and> c < mx \<longrightarrow> rd src (int p) = Some 0)"
  using assms
proof (induction src p c mx rule: scan_data.induct)
  case (1 src p c mx)
  from "1.prems"(1) obtain a nz where a: "rd src (int p) = Some a"
    and nz: "(if a \<noteq> 0 then Some True
       else do { b \<leftarrow> rd src (int (if c < mx - 1 then p + 1 else p)); Some (b \<noteq> 0) }) = Some nz"
    and rest: "(if nz \<and> c < mx then scan_data src (p + 1) (c + 1) mx else Some (p, c)) = Some (p', c')"
    by (subst (asm) scan_data.simps) (auto elim!: bind_SomeE simp: bind_eq_Some_conv)
  show ?case
  proof (cases "nz \<and> c < mx")
    case True
    with rest have "scan_data src (p + 1) (c + 1) mx = Some (p', c')" by simp
    from "1.IH" [OF a nz True this] True show ?thesis by auto
  next
    case False
    with rest have "p' = p" "c' = c" by auto
    moreover have "c < mx \<longrightarrow> a = 0"
      using False nz by (cases "a = 0") auto
    ultimately show ?thesis using "1.prems"(2) a by auto
  qed
qed

lemma scan_data_total:
  assumes "p + (mx - c) < length src" and "c \<le> mx"
  shows "\<exists>r. scan_data src p c mx = Some r"
  using assms
proof (induction src p c mx rule: scan_data.induct)
  case (1 src p c mx)
  let ?k = "if c < mx - 1 then p + 1 else p"
  have k: "?k < length src" using "1.prems" by auto
  obtain nz where nz: "(if src ! p \<noteq> 0 then Some True
       else do { b \<leftarrow> rd src (int ?k); Some (b \<noteq> 0) }) = Some nz"
    using k by (cases "src ! p \<noteq> 0") (simp_all add: rd_def)
  have a: "rd src (int p) = Some (src ! p)"
    using "1.prems" by simp
  show ?case
  proof (cases "nz \<and> c < mx")
    case True
    then have "\<exists>r. scan_data src (p + 1) (c + 1) mx = Some r"
      using "1.prems" by (intro "1.IH" [OF a nz True]) auto
    then show ?thesis using a nz True by (subst scan_data.simps) auto
  next
    case False
    then show ?thesis using a nz by (subst scan_data.simps) auto
  qed
qed

lemma scan_zero_Some:
  assumes "scan_zero src p c mx = Some (p', c')" and "c \<le> mx"
  shows "c \<le> c' \<and> c' \<le> mx \<and> p' = p + (c' - c) \<and> p' < length src \<and>
    take (c' - c) (drop p src) = replicate (c' - c) 0 \<and>
    (c' = c \<and> c < mx \<longrightarrow> rd src (int p) \<noteq> Some 0)"
  using assms
proof (induction src p c mx rule: scan_zero.induct)
  case (1 src p c mx)
  from "1.prems"(1) obtain a where a: "rd src (int p) = Some a"
    and rest: "(if a = 0 \<and> c < mx then scan_zero src (p + 1) (c + 1) mx else Some (p, c)) = Some (p', c')"
    by (subst (asm) scan_zero.simps) (auto elim!: bind_SomeE)
  from rd_SomeD [OF a] have p: "p < length src" and av: "a = src ! p" by auto
  show ?case
  proof (cases "a = 0 \<and> c < mx")
    case True
    with rest have rec: "scan_zero src (p + 1) (c + 1) mx = Some (p', c')" by simp
    from "1.IH" [OF a True rec] True
    have ih: "c + 1 \<le> c'" "c' \<le> mx" "p' = p + 1 + (c' - (c + 1))" "p' < length src"
      "take (c' - (c + 1)) (drop (p + 1) src) = replicate (c' - (c + 1)) 0"
      by auto
    have "c' - c = Suc (c' - (c + 1))" using ih(1) by simp
    then have "take (c' - c) (drop p src) = replicate (c' - c) 0"
      using ih(5) True av p by (simp add: Cons_nth_drop_Suc [symmetric])
    then show ?thesis using ih by auto
  next
    case False
    with rest have "p' = p" "c' = c" by auto
    then show ?thesis using False "1.prems"(2) a p by auto
  qed
qed

lemma scan_zero_total:
  assumes "p + (mx - c) < length src" and "c \<le> mx"
  shows "\<exists>r. scan_zero src p c mx = Some r"
  using assms
proof (induction src p c mx rule: scan_zero.induct)
  case (1 src p c mx)
  then have a: "rd src (int p) = Some (src ! p)" by simp
  show ?case
  proof (cases "src ! p = 0 \<and> c < mx")
    case True
    then have "\<exists>r. scan_zero src (p + 1) (c + 1) mx = Some r"
      using "1.prems" by (intro "1.IH" [OF a True]) auto
    then show ?thesis using a True by (subst scan_zero.simps) auto
  next
    case False
    then show ?thesis using a by (subst scan_zero.simps) auto
  qed
qed

text \<open>
  The outer loop. \<open>out\<close> is what has been stored at \<open>dst_start\<close> so far, so \<open>dst\<close> is
  \<open>length out\<close> and \<open>dst_end\<close> is \<open>dst_sz\<close>. The result is the final \<open>p\<close> and \<open>out\<close>.
\<close>

function compress_loop :: "byte list \<Rightarrow> nat \<Rightarrow> nat \<Rightarrow> nat \<Rightarrow> byte list \<Rightarrow> (nat \<times> byte list) option" where
  "compress_loop srcbuf dst_sz p bytes out =
    (if bytes > 0 then do {
       (p1, count) \<leftarrow> scan_data srcbuf p 0 (min bytes 255);
       if length out + count \<ge> dst_sz then Some (p, out)
       else do {
         chunk \<leftarrow> rds srcbuf (int p) (int count);
         let out1 = out @ of_nat count # chunk;
         if bytes - count = 0 then Some (p1, out1)
         else do {
           (p2, count2) \<leftarrow> scan_zero srcbuf p1 0 (min (bytes - count) 255);
           if length out1 \<ge> dst_sz then Some (p1, out1)
           else compress_loop srcbuf dst_sz p2 (bytes - count - count2) (out1 @ [of_nat count2])
         }
       }
     }
     else Some (p, out))"
  by pat_completeness auto
termination
proof (relation "measure (\<lambda>(srcbuf, dst_sz, p, bytes, out). bytes)", goal_cases)
  case 1
  then show ?case by simp
next
  case (2 srcbuf dst_sz p bytes out x p1 count chunk out1 y p2 count2)
  then have d: "scan_data srcbuf p 0 (min bytes 255) = Some (p1, count)"
    and z: "scan_zero srcbuf p1 0 (min (bytes - count) 255) = Some (p2, count2)"
    and b: "0 < bytes" and nb: "bytes - count \<noteq> 0" by auto
  from scan_data_Some [OF d] b have "count = 0 \<longrightarrow> rd srcbuf (int p) = Some 0 \<and> p1 = p" by auto
  with scan_zero_Some [OF z] nb have "count = 0 \<longrightarrow> 0 < count2" by auto
  then have "bytes - count - count2 < bytes" using b by auto
  then show ?case by simp
qed

declare compress_loop.simps [simp del]

text \<open>
  \<open>ioc_compress\<close>. The result is the return value, the new \<open>*start_addr\<close> and the bytes that
  were stored from \<open>dst\<close> on (also when the return value is -1).
\<close>

definition ioc_compress :: "byte list \<Rightarrow> int \<Rightarrow> int \<Rightarrow> nat \<Rightarrow> (int \<times> int \<times> byte list) option" where
  "ioc_compress srcbuf start_addr end_addr dst_sz =
    (if end_addr - start_addr < 3 then Some (-1, start_addr, [])
     else if start_addr < 0 then None
     else do {
       (p, out) \<leftarrow> compress_loop srcbuf dst_sz (nat start_addr) (nat (end_addr - start_addr + 1)) [];
       let count = p - nat start_addr;
       let dst_count = length out;
       if dst_count < count then Some (int dst_count, int p, out)
       else Some (-1, start_addr, out)
     })"

section \<open>Uncompression\<close>

text \<open>The byte loops \<open>*(dst++) += *(src++)\<close> and \<open>*(dst++) = *(src++)\<close>.\<close>

fun copy_data :: "bool \<Rightarrow> byte list \<Rightarrow> nat \<Rightarrow> byte list \<Rightarrow> nat \<Rightarrow> nat \<Rightarrow> byte list option" where
  "copy_data delta src s dst d 0 = Some dst"
| "copy_data delta src s dst d (Suc n) = do {
     b \<leftarrow> rd src (int s);
     a \<leftarrow> rd dst (int d);
     dst' \<leftarrow> wr dst (int d) (if delta then a + b else b);
     copy_data delta src (s + 1) dst' (d + 1) n }"

text \<open>
  The decompression loop, with \<open>s\<close> and \<open>d\<close> the offsets of \<open>src\<close> and \<open>dst\<close>. The result
  is the final \<open>dst\<close> offset, or \<open>None\<close> inside for the \<open>return -1\<close>, and the destination.
\<close>

function uncompress_loop ::
  "bool \<Rightarrow> byte list \<Rightarrow> nat \<Rightarrow> nat \<Rightarrow> byte list \<Rightarrow> nat \<Rightarrow> nat \<Rightarrow> (nat option \<times> byte list) option" where
  "uncompress_loop delta src src_end s dst dst_end d =
    (if s < src_end \<and> d < dst_end then do {
       b \<leftarrow> rd src (int s);
       let n0 = unat b;
       if s + 1 + n0 > src_end then Some (None, dst)
       else do {
         let n = (if d + n0 > dst_end then dst_end - d else n0);
         dst1 \<leftarrow> copy_data delta src (s + 1) dst d n;
         if s + 1 + n \<ge> src_end \<or> d + n \<ge> dst_end then Some (Some (d + n), dst1)
         else do {
           z \<leftarrow> rd src (int (s + 1 + n));
           let m = (if d + n + unat z > dst_end then dst_end - (d + n) else unat z);
           dst2 \<leftarrow> (if delta then Some dst1 else os_memclear dst1 (int (d + n)) (int m));
           uncompress_loop delta src src_end (s + 1 + n + 1) dst2 dst_end (d + n + m)
         }
       }
     }
     else Some (Some d, dst))"
  by pat_completeness auto
termination
  by (relation "measure (\<lambda>(delta, src, src_end, s, dst, dst_end, d). src_end - s)") auto

declare uncompress_loop.simps [simp del]

text \<open>
  \<open>ioc_uncompress(src, src_bytes, dst, dst_sz, flags)\<close>, where \<open>dst\<close> points to offset
  \<open>d0\<close> of the region \<open>mem\<close>. The result is the return value and the region.
\<close>

definition ioc_uncompress ::
  "byte list \<Rightarrow> nat \<Rightarrow> byte list \<Rightarrow> nat \<Rightarrow> nat \<Rightarrow> byte \<Rightarrow> (int \<times> byte list) option" where
  "ioc_uncompress src src_bytes mem d0 dst_sz flags =
    (let delta = has_flag flags IOC_DELTA_ENCODED; dst_end = d0 + dst_sz
     in if \<not> has_flag flags IOC_COMPRESESSED then do {
          let n = (if d0 + src_bytes > dst_end then dst_end - d0 else src_bytes);
          mem' \<leftarrow> copy_data delta src 0 mem d0 n;
          Some (int n, mem') }
        else do {
          (r, mem') \<leftarrow> uncompress_loop delta src src_bytes 0 mem dst_end d0;
          Some ((case r of None \<Rightarrow> -1 | Some d \<Rightarrow> int (d - d0)), mem') })"

section \<open>Reference semantics\<close>

text \<open>What a compressed sequence stands for; \<open>None\<close> when a data run is cut short.\<close>

function decode :: "byte list \<Rightarrow> byte list option" where
  "decode [] = Some []"
| "decode (n # s) =
    (if length s < unat n then None
     else case drop (unat n) s of
       [] \<Rightarrow> Some (take (unat n) s)
     | z # s' \<Rightarrow> map_option (\<lambda>r. take (unat n) s @ replicate (unat z) 0 @ r) (decode s'))"
  by pat_completeness auto
termination
proof (relation "measure length", goal_cases)
  case 1
  then show ?case by simp
next
  case (2 n s z s')
  then have "length (drop (unat n) s) = Suc (length s')" by simp
  then show ?case by simp
qed

text \<open>The effect of storing \<open>xs\<close> at offset \<open>i\<close>, plainly or added to what is there.\<close>

definition overlay :: "bool \<Rightarrow> byte list \<Rightarrow> nat \<Rightarrow> byte list \<Rightarrow> byte list" where
  "overlay delta dst i xs = splice dst i (if delta then map2 (+) (drop i dst) xs else xs)"

text \<open>Part \<open>p .. q - 1\<close> of a region.\<close>

definition seg :: "'a list \<Rightarrow> nat \<Rightarrow> nat \<Rightarrow> 'a list" where
  "seg m p q = take (q - p) (drop p m)"

lemma seg_same [simp]: "seg m p p = []"
  by (simp add: seg_def)

lemma length_seg [simp]: "q \<le> length m \<Longrightarrow> length (seg m p q) = q - p"
  by (simp add: seg_def)

lemma seg_split: "p \<le> q \<Longrightarrow> q \<le> r \<Longrightarrow> seg m p r = seg m p q @ seg m q r"
proof -
  assume "p \<le> q" "q \<le> r"
  then have "take (r - p) (drop p m) = take ((q - p) + (r - q)) (drop p m)" by simp
  also have "\<dots> = take (q - p) (drop p m) @ take (r - q) (drop (q - p) (drop p m))"
    by (rule take_add)
  finally show ?thesis using \<open>p \<le> q\<close> by (simp add: seg_def)
qed

lemma nth_seg: "k < q - p \<Longrightarrow> q \<le> length m \<Longrightarrow> seg m p q ! k = m ! (p + k)"
  by (simp add: seg_def)

lemma length_overlay [simp]: "i + length xs \<le> length dst \<Longrightarrow> length (overlay delta dst i xs) = length dst"
  by (simp add: overlay_def)

lemma nth_overlay:
  assumes "i + length xs \<le> length dst" and "k < length dst"
  shows "overlay delta dst i xs ! k =
    (if i \<le> k \<and> k < i + length xs
     then (if delta then dst ! k + xs ! (k - i) else xs ! (k - i)) else dst ! k)"
  using assms by (auto simp: overlay_def nth_splice)

lemma overlay_append:
  assumes "i + length (xs @ ys) \<le> length dst"
  shows "overlay delta (overlay delta dst i xs) (i + length xs) ys = overlay delta dst i (xs @ ys)"
  using assms by (intro nth_equalityI) (auto simp: nth_overlay nth_append)

lemma overlay_Nil [simp]: "overlay delta dst i [] = dst"
  by (simp add: overlay_def)

lemma overlay_zeros_delta: "i + n \<le> length dst \<Longrightarrow> overlay True dst i (replicate n 0) = dst"
  by (intro nth_equalityI) (auto simp: nth_overlay)

lemma overlay_plain: "overlay False dst i xs = splice dst i xs"
  by (simp add: overlay_def)

lemma copy_data_eq:
  "s + n \<le> length src \<Longrightarrow> d + n \<le> length dst \<Longrightarrow>
   copy_data delta src s dst d n = Some (overlay delta dst d (seg src s (s + n)))"
proof (induction n arbitrary: s d dst)
  case 0
  then show ?case by simp
next
  case (Suc n)
  let ?dst' = "dst[d := (if delta then dst ! d + src ! s else src ! s)]"
  have "overlay delta ?dst' (d + 1) (seg src (s + 1) (s + 1 + n)) =
      overlay delta dst d (seg src s (s + Suc n))"
    using Suc.prems
    by (intro nth_equalityI) (auto simp: nth_overlay nth_seg nth_list_update Suc_diff_Suc)
  then show ?case
    using Suc.prems Suc.IH [of "s + 1" "d + 1" ?dst'] by (simp add: wr_in)
qed

section \<open>Correctness of the compressor\<close>

lemma compress_loop_Some:
  assumes "compress_loop src sz p bytes out = Some (p', out')"
  shows "\<exists>ext. out' = out @ ext \<and> p \<le> p' \<and> p' \<le> p + bytes \<and>
    decode ext = Some (seg src p p') \<and> (length out \<le> sz \<longrightarrow> length out' \<le> sz)"
  using assms
proof (induction src sz p bytes out rule: compress_loop.induct)
  case (1 src sz p bytes out)
  show ?case
  proof (cases "bytes > 0")
    case False
    with "1.prems" have "p' = p" "out' = out" by (simp_all add: compress_loop.simps [of src sz p bytes out])
    then show ?thesis by auto
  next
    case b: True
    with "1.prems" obtain p1 count where sd: "scan_data src p 0 (min bytes 255) = Some (p1, count)"
      by (subst (asm) compress_loop.simps) (auto elim!: bind_SomeE)
    from scan_data_Some [OF sd] b have p1: "p1 = p + count" and c: "count \<le> bytes" "count \<le> 255"
      by auto
    show ?thesis
    proof (cases "length out + count \<ge> sz")
      case True
      with "1.prems" b sd have "p' = p" "out' = out"
        by (simp_all add: compress_loop.simps [of src sz p bytes out])
      then show ?thesis by auto
    next
      case room: False
      with "1.prems" b sd obtain chunk where ch: "rds src (int p) (int count) = Some chunk"
        by (subst (asm) compress_loop.simps) (auto elim!: bind_SomeE)
      from rds_SomeD [OF ch] have chunk: "chunk = seg src p p1" "length chunk = count"
        by (auto simp: seg_def p1)
      define out1 where "out1 = out @ of_nat count # chunk"
      have len1: "length out1 \<le> sz" using room chunk(2) by (simp add: out1_def)
      have dec1: "decode (of_nat count # chunk) = Some (seg src p p1)"
        using c chunk by simp
      show ?thesis
      proof (cases "bytes - count = 0")
        case True
        with "1.prems" b sd room ch have "p' = p1" "out' = out1"
          by (simp_all add: compress_loop.simps [of src sz p bytes out] out1_def)
        then show ?thesis using dec1 len1 c by (auto simp: out1_def p1)
      next
        case more: False
        with "1.prems" b sd room ch obtain p2 count2
          where sz2: "scan_zero src p1 0 (min (bytes - count) 255) = Some (p2, count2)"
          by (subst (asm) compress_loop.simps) (auto elim!: bind_SomeE simp: Let_def)
        from scan_zero_Some [OF sz2]
        have p2: "p2 = p1 + count2" "count2 \<le> bytes - count" "count2 \<le> 255"
          and zs: "seg src p1 p2 = replicate count2 0" by (auto simp: seg_def)
        show ?thesis
        proof (cases "length out1 \<ge> sz")
          case True
          with "1.prems" b sd room ch more sz2 have "p' = p1" "out' = out1"
            by (simp_all add: compress_loop.simps [of src sz p bytes out] out1_def)
          then show ?thesis using dec1 len1 c by (auto simp: out1_def p1)
        next
          case False
          let ?out2 = "out1 @ [of_nat count2]"
          from "1.prems" b sd room ch more sz2 False
          have rec: "compress_loop src sz p2 (bytes - count - count2) ?out2 = Some (p', out')"
            by (simp add: compress_loop.simps [of src sz p bytes out] out1_def)
          from "1.IH" [OF b sd refl room ch out1_def more sz2 refl False rec]
          obtain ext where ext: "out' = ?out2 @ ext" "p2 \<le> p'" "p' \<le> p2 + (bytes - count - count2)"
            "decode ext = Some (seg src p2 p')" "length ?out2 \<le> sz \<longrightarrow> length out' \<le> sz"
            by auto
          have "decode (of_nat count # chunk @ of_nat count2 # ext) =
              Some (seg src p p1 @ seg src p1 p2 @ seg src p2 p')"
            using c chunk ext(4) p2(3) zs by simp
          also have "seg src p p1 @ seg src p1 p2 @ seg src p2 p' = seg src p p'"
            using seg_split [of p p1 p' src] seg_split [of p1 p2 p' src] p1 p2 ext(2) by simp
          finally show ?thesis using ext p1 p2 c False by (auto simp: out1_def)
        qed
      qed
    qed
  qed
qed

lemma compress_loop_total:
  assumes "p + bytes < length src"
  shows "\<exists>r. compress_loop src sz p bytes out = Some r"
  using assms
proof (induction src sz p bytes out rule: compress_loop.induct)
  case (1 src sz p bytes out)
  show ?case
  proof (cases "bytes > 0")
    case False
    then show ?thesis by (simp add: compress_loop.simps)
  next
    case b: True
    obtain p1 count where sd: "scan_data src p 0 (min bytes 255) = Some (p1, count)"
      using scan_data_total [of p "min bytes 255" 0 src] "1.prems" by fastforce
    from scan_data_Some [OF sd] b have p1: "p1 = p + count" and c: "count \<le> bytes" by auto
    then obtain chunk where ch: "rds src (int p) (int count) = Some chunk"
      using "1.prems" by (auto simp: rds_def)
    obtain p2 count2 where sz2: "scan_zero src p1 0 (min (bytes - count) 255) = Some (p2, count2)"
      using scan_zero_total [of p1 "min (bytes - count) 255" 0 src] "1.prems" p1 c by fastforce
    from scan_zero_Some [OF sz2] have p2: "p2 = p1 + count2" "count2 \<le> bytes - count" by auto
    have rec: "\<exists>r. compress_loop src sz p2 (bytes - count - count2)
        ((out @ of_nat count # chunk) @ [of_nat count2]) = Some r"
      if "\<not> sz \<le> length out + count" "bytes - count \<noteq> 0"
        "\<not> sz \<le> length (out @ of_nat count # chunk)"
      using "1.prems" p1 p2 c that by (intro "1.IH" [OF b sd refl _ ch refl _ sz2 refl]) auto
    show ?thesis
      using b sd ch sz2 rec by (subst compress_loop.simps) (auto simp: Let_def)
  qed
qed

section \<open>Correctness of the decompressor\<close>

lemma memclear_overlay:
  "d + m \<le> length dst \<Longrightarrow>
   os_memclear dst (int d) (int m) = Some (overlay False dst d (replicate m 0))"
  by (simp add: os_memclear_in overlay_plain)

lemma uncompress_loop_stop:
  "\<not> (s < src_end \<and> d < dst_end) \<Longrightarrow>
   uncompress_loop delta src src_end s dst dst_end d = Some (Some d, dst)"
  by (subst uncompress_loop.simps) (simp only: if_False)

lemma uncompress_loop_short:
  assumes "s < src_end" and "d < dst_end" and "rd src (int s) = Some b" and "s + 1 + unat b > src_end"
  shows "uncompress_loop delta src src_end s dst dst_end d = Some (None, dst)"
  using assms by (subst uncompress_loop.simps) (simp add: Let_def del: rd_int)

lemma uncompress_loop_last:
  assumes "s < src_end" and "d < dst_end" and "rd src (int s) = Some b" and "\<not> s + 1 + unat b > src_end"
    and n: "n = (if d + unat b > dst_end then dst_end - d else unat b)"
    and "copy_data delta src (s + 1) dst d n = Some dst1"
    and "s + 1 + n \<ge> src_end \<or> d + n \<ge> dst_end"
  shows "uncompress_loop delta src src_end s dst dst_end d = Some (Some (d + n), dst1)"
  using assms(1-4,6,7) unfolding n
  by (subst uncompress_loop.simps) (simp only: Let_def if_True simp_thms bind.bind_lunit if_False)

lemma uncompress_loop_step:
  assumes "s < src_end" and "d < dst_end" and "rd src (int s) = Some b" and "\<not> s + 1 + unat b > src_end"
    and n: "n = (if d + unat b > dst_end then dst_end - d else unat b)"
    and "copy_data delta src (s + 1) dst d n = Some dst1"
    and "\<not> (s + 1 + n \<ge> src_end \<or> d + n \<ge> dst_end)"
    and "rd src (int (s + 1 + n)) = Some z"
    and m: "m = (if d + n + unat z > dst_end then dst_end - (d + n) else unat z)"
    and "(if delta then Some dst1 else os_memclear dst1 (int (d + n)) (int m)) = Some dst2"
  shows "uncompress_loop delta src src_end s dst dst_end d =
    uncompress_loop delta src src_end (s + 1 + n + 1) dst2 dst_end (d + n + m)"
  using assms(1-4,6-8,10) unfolding n m
  by (subst uncompress_loop.simps) (simp only: Let_def if_True simp_thms bind.bind_lunit if_False)

lemma uncompress_loop_decode:
  assumes "decode (drop s src) = Some xs" and "d + length xs \<le> dst_end" and "dst_end \<le> length dst"
  shows "uncompress_loop delta src (length src) s dst dst_end d =
    Some (Some (d + length xs), overlay delta dst d xs)"
  using assms
proof (induction delta src "length src" s dst dst_end d arbitrary: xs rule: uncompress_loop.induct)
  case (1 delta src s dst dst_end d)
  show ?case
  proof (cases "s < length src \<and> d < dst_end")
    case False
    have "xs = []"
    proof (cases "s < length src")
      case True
      with False "1.prems"(2) have "length xs \<le> 0" by linarith
      then show ?thesis by simp
    qed (use "1.prems"(1) in simp)
    with False show ?thesis by (simp add: uncompress_loop_stop)
  next
    case True
    define n where "n = unat (src ! s)"
    have dr: "drop s src = src ! s # drop (s + 1) src"
      using True by (simp add: Cons_nth_drop_Suc)
    then have n: "s + 1 + n \<le> length src"
      using "1.prems"(1) True by (auto simp: n_def split: if_splits)
    have tk: "take n (drop (s + 1) src) = seg src (s + 1) (s + 1 + n)"
      by (simp add: seg_def)
    have lseg: "length (seg src (s + 1) (s + 1 + n)) = n" using n by simp
    have rds: "rd src (int s) = Some (src ! s)" using True by simp
    show ?thesis
    proof (cases "s + 1 + n < length src")
      case False
      then have "drop n (drop (s + 1) src) = []" using n by simp
      then have xs: "xs = seg src (s + 1) (s + 1 + n)"
        using "1.prems"(1) unfolding dr
        by (auto simp: n_def [symmetric] seg_def simp del: drop_drop split: if_splits)
      then have dn: "d + n \<le> dst_end" using "1.prems"(2) lseg by simp
      then have cp: "copy_data delta src (s + 1) dst d n = Some (overlay delta dst d xs)"
        using n "1.prems"(3) by (simp add: copy_data_eq xs)
      have "uncompress_loop delta src (length src) s dst dst_end d = Some (Some (d + n), overlay delta dst d xs)"
        using True n False dn by (intro uncompress_loop_last [OF _ _ rds _ _ cp]) (auto simp: n_def)
      then show ?thesis using lseg by (simp add: xs)
    next
      case more: True
      define z where "z = unat (src ! (s + 1 + n))"
      have dr2: "drop n (drop (s + 1) src) = src ! (s + 1 + n) # drop (s + 1 + n + 1) src"
        using more by (simp add: Cons_nth_drop_Suc add.commute)
      from "1.prems"(1) n obtain r where r: "decode (drop (s + 1 + n + 1) src) = Some r"
        and xs: "xs = seg src (s + 1) (s + 1 + n) @ replicate z 0 @ r"
        unfolding dr decode.simps n_def [symmetric] dr2 tk by (auto simp: z_def split: if_splits)
      let ?d1 = "overlay delta dst d (seg src (s + 1) (s + 1 + n))"
      let ?d2 = "overlay delta ?d1 (d + n) (replicate z 0)"
      have len: "d + n + z + length r \<le> dst_end" using "1.prems"(2) xs lseg by simp
      have c1: "copy_data delta src (s + 1) dst d n = Some ?d1"
        using n len "1.prems"(3) by (simp add: copy_data_eq)
      have ld1: "length ?d1 = length dst" using len lseg "1.prems"(3) by simp
      have c2: "(if delta then Some ?d1 else os_memclear ?d1 (int (d + n)) (int z)) = Some ?d2"
        using len ld1 "1.prems"(3) memclear_overlay [of "d + n" z ?d1]
          overlay_zeros_delta [of "d + n" z ?d1] by auto
      have total: "overlay delta ?d2 (d + n + z) r = overlay delta dst d xs"
        using len lseg "1.prems"(3)
          overlay_append [of d "seg src (s + 1) (s + 1 + n)" "replicate z 0" dst delta]
          overlay_append [of d "seg src (s + 1) (s + 1 + n) @ replicate z 0" r dst delta]
        by (simp add: xs add.assoc)
      have rz: "rd src (int (s + 1 + n)) = Some (src ! (s + 1 + n))" unfolding rd_int using more by simp
      show ?thesis
      proof (cases "d + n < dst_end")
        case False
        with len have "length r \<le> 0" "z = 0" by linarith+
        then have "r = []" "z = 0" by simp_all
        moreover have "uncompress_loop delta src (length src) s dst dst_end d = Some (Some (d + n), ?d1)"
          using True n False len by (intro uncompress_loop_last [OF _ _ rds _ _ c1]) (auto simp: n_def)
        ultimately show ?thesis using xs lseg by simp
      next
        case room: True
        have rec: "uncompress_loop delta src (length src) (s + 1 + n + 1) ?d2 dst_end (d + n + z) =
            Some (Some (d + n + z + length r), overlay delta ?d2 (d + n + z) r)"
          using len ld1 "1.prems"(3) True n more room
          by (intro "1.hyps" [OF True rds n_def _ _ c1 _ rz _ c2 r]) (auto simp: z_def)
        have "uncompress_loop delta src (length src) s dst dst_end d =
            uncompress_loop delta src (length src) (s + 1 + n + 1) ?d2 dst_end (d + n + z)"
          using True n more room len
          by (intro uncompress_loop_step [OF _ _ rds _ _ c1 _ rz _ c2]) (auto simp: n_def z_def)
        then show ?thesis using rec total xs lseg by simp
      qed
    qed
  qed
qed

text \<open>
  Whatever the source bytes are, decompression stays inside \<open>d .. dst_end - 1\<close>. This is the
  safety of the receiver against a corrupted or hostile frame.
\<close>

definition same_outside :: "nat \<Rightarrow> nat \<Rightarrow> 'a list \<Rightarrow> 'a list \<Rightarrow> bool" where
  "same_outside lo hi m m' \<longleftrightarrow> length m' = length m \<and>
     (\<forall>k < length m. k < lo \<or> hi \<le> k \<longrightarrow> m' ! k = m ! k)"

lemma same_outside_refl [simp]: "same_outside lo hi m m"
  by (simp add: same_outside_def)

lemma same_outside_trans:
  "same_outside lo hi m m' \<Longrightarrow> same_outside lo hi m' m'' \<Longrightarrow> same_outside lo hi m m''"
  by (auto simp: same_outside_def)

lemma same_outside_overlay:
  "i + length xs \<le> length m \<Longrightarrow> lo \<le> i \<Longrightarrow> i + length xs \<le> hi \<Longrightarrow>
   same_outside lo hi m (overlay delta m i xs)"
  by (auto simp: same_outside_def nth_overlay)

lemma uncompress_loop_safe:
  assumes "src_end \<le> length src" and "lo \<le> d" and "d \<le> dst_end" and "dst_end \<le> length dst"
  shows "\<exists>r dst'. uncompress_loop delta src src_end s dst dst_end d = Some (r, dst') \<and>
    same_outside lo dst_end dst dst' \<and> (\<forall>d'. r = Some d' \<longrightarrow> d \<le> d' \<and> d' \<le> dst_end)"
  using assms
proof (induction delta src src_end s dst dst_end d rule: uncompress_loop.induct)
  case (1 delta src src_end s dst dst_end d)
  show ?case
  proof (cases "s < src_end \<and> d < dst_end")
    case False
    then show ?thesis using "1.prems" by (simp add: uncompress_loop_stop)
  next
    case T: True
    define n0 where "n0 = unat (src ! s)"
    define n where "n = (if d + n0 > dst_end then dst_end - d else n0)"
    have rds: "rd src (int s) = Some (src ! s)" using T "1.prems" by simp
    show ?thesis
    proof (cases "s + 1 + n0 > src_end")
      case True
      then show ?thesis using uncompress_loop_short [OF _ _ rds] T by (simp add: n0_def [symmetric])
    next
      case fits: False
      let ?d1 = "overlay delta dst d (seg src (s + 1) (s + 1 + n))"
      have n: "s + 1 + n \<le> src_end" "d + n \<le> dst_end" "n \<le> n0"
        using T fits by (auto simp: n_def)
      have c1: "copy_data delta src (s + 1) dst d n = Some ?d1"
        using n "1.prems" by (simp add: copy_data_eq)
      have o1: "same_outside lo dst_end dst ?d1"
        using n "1.prems" by (intro same_outside_overlay) auto
      then have ld1: "length ?d1 = length dst" by (simp add: same_outside_def)
      show ?thesis
      proof (cases "s + 1 + n \<ge> src_end \<or> d + n \<ge> dst_end")
        case True
        then show ?thesis
          using uncompress_loop_last [OF _ _ rds _ n_def [unfolded n0_def] c1] T fits o1 n
          by (simp add: n0_def [symmetric])
      next
        case more: False
        define z where "z = src ! (s + 1 + n)"
        define m where "m = (if d + n + unat z > dst_end then dst_end - (d + n) else unat z)"
        let ?d2 = "if delta then ?d1 else overlay False ?d1 (d + n) (replicate m 0)"
        have m: "d + n + m \<le> dst_end" using more by (auto simp: m_def)
        have rz: "rd src (int (s + 1 + n)) = Some z"
          unfolding z_def rd_int using more "1.prems" by simp
        have c2: "(if delta then Some ?d1 else os_memclear ?d1 (int (d + n)) (int m)) = Some ?d2"
          using m ld1 "1.prems" memclear_overlay [of "d + n" m ?d1] by auto
        have o2: "same_outside lo dst_end dst ?d2"
          using o1 m ld1 "1.prems" n
          by (auto intro!: same_outside_trans [OF o1] same_outside_overlay)
        then have "length ?d2 = length dst" by (simp add: same_outside_def)
        with m "1.prems" obtain r dst' where rec:
          "uncompress_loop delta src src_end (s + 1 + n + 1) ?d2 dst_end (d + n + m) = Some (r, dst')"
          "same_outside lo dst_end ?d2 dst'" "\<forall>d'. r = Some d' \<longrightarrow> d + n + m \<le> d' \<and> d' \<le> dst_end"
          using "1.IH" [OF T rds n0_def fits n_def c1 more rz m_def c2] by fastforce
        have "uncompress_loop delta src src_end s dst dst_end d = Some (r, dst')"
          using uncompress_loop_step [OF _ _ rds _ n_def [unfolded n0_def] c1 more rz m_def c2]
            T fits rec(1)
          by (simp add: n0_def [symmetric])
        then show ?thesis using rec same_outside_trans [OF o2 rec(2)] by fastforce
      qed
    qed
  qed
qed

section \<open>Properties\<close>

lemma ioc_compress_Some:
  assumes "ioc_compress src a e sz = Some (r, a', out)"
  shows "length out \<le> sz \<and>
    (if 0 \<le> r then 0 \<le> a \<and> r = int (length out) \<and> a \<le> a' \<and> a' \<le> e + 1 \<and> r < a' - a \<and>
       decode out = Some (seg src (nat a) (nat a'))
     else r = -1 \<and> a' = a)"
proof (cases "e - a < 3")
  case True
  then show ?thesis using assms by (auto simp: ioc_compress_def)
next
  case False
  with assms have a0: "0 \<le> a" by (auto simp: ioc_compress_def split: if_splits)
  from False a0 assms obtain p where
    loop: "compress_loop src sz (nat a) (nat (e - a + 1)) [] = Some (p, out)"
    and res: "(if length out < p - nat a then Some (int (length out), int p, out)
       else Some (-1, a, out)) = Some (r, a', out)"
    by (auto simp: ioc_compress_def Let_def elim!: bind_SomeE split: if_splits)
  from compress_loop_Some [OF loop] False a0 res show ?thesis
    by (auto split: if_splits)
qed

lemma ioc_compress_total:
  assumes "0 \<le> a" and "e + 1 < int (length src)"
  shows "\<exists>x. ioc_compress src a e sz = Some x"
proof (cases "e - a < 3")
  case True
  then show ?thesis by (simp add: ioc_compress_def)
next
  case False
  with assms obtain p out where "compress_loop src sz (nat a) (nat (e - a + 1)) [] = Some (p, out)"
    using compress_loop_total [of "nat a" "nat (e - a + 1)" src sz "[]"] by fastforce
  with False assms show ?thesis by (auto simp: ioc_compress_def Let_def)
qed

lemma scan_data_inside: "scan_data src p c mx = Some (p', c') \<Longrightarrow> p' < length src"
proof (induction src p c mx rule: scan_data.induct)
  case (1 src p c mx)
  from "1.prems" obtain a nz where a: "rd src (int p) = Some a"
    and nz: "(if a \<noteq> 0 then Some True
       else do { b \<leftarrow> rd src (int (if c < mx - 1 then p + 1 else p)); Some (b \<noteq> 0) }) = Some nz"
    and rest: "(if nz \<and> c < mx then scan_data src (p + 1) (c + 1) mx else Some (p, c)) = Some (p', c')"
    by (subst (asm) scan_data.simps) (auto elim!: bind_SomeE simp: bind_eq_Some_conv)
  show ?case
    using "1.IH" [OF a nz] rest rd_SomeD [OF a] by (auto split: if_splits)
qed

text \<open>
  A region that ends with the last byte to compress is read past its end, whatever it holds, as
  soon as the destination has room for everything.
\<close>

lemma compress_loop_past_end:
  assumes "p + bytes = length src" and "0 < bytes" and "length out + 3 * bytes < sz"
  shows "compress_loop src sz p bytes out = None"
  using assms
proof (induction src sz p bytes out rule: compress_loop.induct)
  case (1 src sz p bytes out)
  show ?case
  proof (cases "scan_data src p 0 (min bytes 255)")
    case None
    then show ?thesis using "1.prems" by (simp add: compress_loop.simps)
  next
    case (Some r)
    obtain p1 count where r: "r = (p1, count)" by (cases r)
    note sd = Some [unfolded r]
    from scan_data_Some [OF sd] scan_data_inside [OF sd] "1.prems"
    have c: "p1 = p + count" "count < bytes" "count = 0 \<longrightarrow> rd src (int p) = Some 0" by auto
    obtain chunk where ch: "rds src (int p) (int count) = Some chunk" "length chunk = count"
      using c "1.prems" by (auto simp: rds_def)
    have rec: "compress_loop src sz p2 (bytes - count - count2)
        ((out @ of_nat count # chunk) @ [of_nat count2]) = None"
      if sz2: "scan_zero src p1 0 (min (bytes - count) 255) = Some (p2, count2)" for p2 count2
    proof -
      from scan_zero_Some [OF sz2] c "1.prems"
      have c2: "p2 = p1 + count2" "count2 < bytes - count" "0 < count + count2"
        by (cases "count = 0"; auto)+
      have room: "length ((out @ of_nat count # chunk) @ [of_nat count2]) + 3 * (bytes - count - count2) < sz"
        using c(2) c2(2,3) ch(2) "1.prems"(3)
        by (simp only: length_append length_Cons list.size)
      show ?thesis
        using c(1,2) c2(1,2) room "1.prems" ch(2)
        by (intro "1.IH" [OF _ sd refl _ ch(1) refl _ sz2 refl _ _ _ room]) simp_all
    qed
    show ?thesis
      using "1.prems" sd c ch rec
      by (subst compress_loop.simps)
        (cases "scan_zero src p1 0 (min (bytes - count) 255)"; auto simp: Let_def)
  qed
qed

text \<open>
  \<^bold>\<open>C10\<close>: decompression undoes compression. When \<open>ioc_compress\<close> compresses the bytes
  \<open>a .. a' - 1\<close> of its source (return value \<open>r \<ge> 0\<close>), then \<open>ioc_uncompress\<close> on the result
  stores exactly these bytes at its destination, or adds them to what is there in delta mode,
  and returns their number; the compressed form is shorter than the data and the compressor
  made progress.
\<close>

theorem compress_uncompress_roundtrip:
  assumes "ioc_compress src a e sz = Some (r, a', out)" and "0 \<le> r"
    and "has_flag flags IOC_COMPRESESSED"
    and "nat (a' - a) \<le> dst_sz" and "d0 + dst_sz \<le> length mem" and "e < int (length src)"
  shows "ioc_uncompress out (nat r) mem d0 dst_sz flags =
      Some (a' - a, overlay (has_flag flags IOC_DELTA_ENCODED) mem d0 (seg src (nat a) (nat a')))
    \<and> length out = nat r \<and> r < a' - a \<and> a' \<le> e + 1"
proof -
  let ?xs = "seg src (nat a) (nat a')"
  from ioc_compress_Some [OF assms(1)] assms(2) have
    c: "0 \<le> a" "r = int (length out)" "a \<le> a'" "a' \<le> e + 1" "r < a' - a" "decode out = Some ?xs"
    by auto
  have len: "length ?xs = nat (a' - a)" using c assms(6) by (simp add: nat_diff_distrib')
  have "uncompress_loop (has_flag flags IOC_DELTA_ENCODED) out (length out) 0 mem (d0 + dst_sz) d0 =
      Some (Some (d0 + length ?xs), overlay (has_flag flags IOC_DELTA_ENCODED) mem d0 ?xs)"
    using c(6) len assms(4,5) by (intro uncompress_loop_decode) auto
  then show ?thesis using assms(3) c len by (simp add: ioc_uncompress_def Let_def)
qed

theorem compress_uncompress_roundtrip_witness:
  "ioc_uncompress [1, 7, 4, 1, 9] 5 [1, 1, 1, 1, 1, 1] 0 6 2 =
     Some (6, overlay (has_flag 2 IOC_DELTA_ENCODED) [1, 1, 1, 1, 1, 1] 0 (seg [7, 0, 0, 0, 0, 9, 0] 0 6))"
proof -
  have "ioc_compress [7, 0, 0, 0, 0, 9, 0] 0 5 100 = Some (5, 6, [1, 7, 4, 1, 9])"
    by (simp add: ioc_compress_def compress_loop.simps scan_data.simps scan_zero.simps rd_def rds_def)
  from compress_uncompress_roundtrip [OF this, of 2 6 0 "[1, 1, 1, 1, 1, 1]"] show ?thesis
    by (simp add: has_flag_def codec_flag_defs)
qed

lemma uncompress_safe:
  assumes "d0 + dst_sz \<le> length mem"
  shows "\<exists>r mem'. ioc_uncompress src (length src) mem d0 dst_sz flags = Some (r, mem') \<and>
    same_outside d0 (d0 + dst_sz) mem mem' \<and> -1 \<le> r \<and> r \<le> int dst_sz"
proof (cases "has_flag flags IOC_COMPRESESSED")
  case True
  obtain r mem' where
    "uncompress_loop (has_flag flags IOC_DELTA_ENCODED) src (length src) 0 mem (d0 + dst_sz) d0 = Some (r, mem')"
    "same_outside d0 (d0 + dst_sz) mem mem'" "\<forall>d'. r = Some d' \<longrightarrow> d0 \<le> d' \<and> d' \<le> d0 + dst_sz"
    using uncompress_loop_safe [of "length src" src d0 d0 "d0 + dst_sz" mem] assms by fastforce
  then show ?thesis using True by (auto simp: ioc_uncompress_def Let_def split: option.split)
next
  case False
  then show ?thesis
    using assms by (auto simp: ioc_uncompress_def Let_def copy_data_eq intro!: same_outside_overlay)
qed

text \<open>
  \<^bold>\<open>C11\<close>: memory safety of the receiver's decompression. For arbitrary source bytes and flags,
  \<open>ioc_uncompress\<close> makes no access outside the source and the destination, changes only the
  \<open>dst_sz\<close> bytes it was given, and returns -1 or a number of bytes between 0 and \<open>dst_sz\<close>.
\<close>

theorem uncompress_memory_safe:
  assumes "d0 + dst_sz \<le> length mem"
  shows "\<exists>r mem'. ioc_uncompress src (length src) mem d0 dst_sz flags = Some (r, mem') \<and>
    same_outside d0 (d0 + dst_sz) mem mem' \<and> -1 \<le> r \<and> r \<le> int dst_sz"
  by (rule uncompress_safe [OF assms])

theorem uncompress_memory_safe_witness:
  "\<exists>r mem'. ioc_uncompress [200, 1] (length [200, 1 :: byte]) [5, 6, 7] 1 2 3 = Some (r, mem') \<and>
    same_outside 1 (1 + 2) [5, 6, 7] mem' \<and> -1 \<le> r \<and> r \<le> int 2"
  by (rule uncompress_memory_safe) simp

text \<open>
  \<^bold>\<open>C12\<close>: the compressor returns, and never stores more than \<open>dst_sz\<close> bytes, provided one
  byte past the data may be read.
\<close>

theorem compress_total_and_bounded:
  assumes "0 \<le> a" and "e + 1 < int (length src)"
  shows "\<exists>r a' out. ioc_compress src a e sz = Some (r, a', out) \<and> length out \<le> sz"
  using ioc_compress_total [OF assms, of sz] by (auto dest: ioc_compress_Some)

theorem compress_total_and_bounded_witness:
  "\<exists>r a' out. ioc_compress [1, 2, 3, 4, 5] 0 3 2 = Some (r, a', out) \<and> length out \<le> 2"
  by (rule compress_total_and_bounded) simp_all

text \<open>
  \<^bold>\<open>C13\<close>: the byte past the data is really read. On a region that ends with the last byte to
  compress, with room for the output, \<open>ioc_compress\<close> leaves the region whatever the data is.
\<close>

theorem compress_reads_past_end:
  assumes "4 \<le> length src - a" and "a \<le> length src" and "3 * (length src - a) < sz"
  shows "ioc_compress src (int a) (int (length src) - 1) sz = None"
proof -
  have "nat (int (length src) - 1 - int a + 1) = length src - a" using assms by simp
  with compress_loop_past_end [of a "length src - a" src "[]" sz] assms show ?thesis
    by (simp add: ioc_compress_def)
qed

theorem compress_reads_past_end_witness:
  "ioc_compress [1, 2, 3, 4] (int 0) (int (length [1, 2, 3, 4 :: byte]) - 1) 20 = None"
  by (rule compress_reads_past_end) simp_all

section \<open>The codec as an interface\<close>

text \<open>
  What a connection relies on: \<open>data\<close>, received with \<open>flags\<close>, unpacks to \<open>xs\<close> wherever there is
  room for it. A sender compresses and falls back to plain bytes when compression does not pay;
  the receiver is told by \<open>IOC_COMPRESESSED\<close> which of the two it gets.
\<close>

definition carries ::
  "(byte list \<Rightarrow> nat \<Rightarrow> byte list \<Rightarrow> nat \<Rightarrow> nat \<Rightarrow> byte \<Rightarrow> (int \<times> byte list) option) \<Rightarrow>
   byte \<Rightarrow> byte list \<Rightarrow> byte list \<Rightarrow> bool" where
  "carries uncompress flags data xs \<longleftrightarrow> (\<forall>mem d0 dst_sz. length xs \<le> dst_sz \<and> d0 + dst_sz \<le> length mem \<longrightarrow>
     uncompress data (length data) mem d0 dst_sz flags =
       Some (int (length xs), overlay (has_flag flags IOC_DELTA_ENCODED) mem d0 xs))"

locale data_codec =
  fixes compress :: "byte list \<Rightarrow> int \<Rightarrow> int \<Rightarrow> nat \<Rightarrow> (int \<times> int \<times> byte list) option"
    and uncompress :: "byte list \<Rightarrow> nat \<Rightarrow> byte list \<Rightarrow> nat \<Rightarrow> nat \<Rightarrow> byte \<Rightarrow> (int \<times> byte list) option"
  assumes compress_fits: "compress src a e sz = Some (r, a', out) \<Longrightarrow> length out \<le> sz"
    and compress_refused: "compress src a e sz = Some (r, a', out) \<Longrightarrow> r < 0 \<Longrightarrow> a' = a"
    and compress_size: "compress src a e sz = Some (r, a', out) \<Longrightarrow> 0 \<le> r \<Longrightarrow>
      r = int (length out) \<and> a < a' \<and> a' \<le> e + 1"
    and compress_carries: "compress src a e sz = Some (r, a', out) \<Longrightarrow> 0 \<le> r \<Longrightarrow> e < int (length src) \<Longrightarrow>
      has_flag flags IOC_COMPRESESSED \<Longrightarrow> carries uncompress flags out (seg src (nat a) (nat a'))"
    and plain_carries: "\<not> has_flag flags IOC_COMPRESESSED \<Longrightarrow> carries uncompress flags xs xs"
begin

lemma payload_transfer:
  assumes c: "compress src a e sz = Some (r, a', out)" and ae: "0 \<le> a" "a \<le> e" "e < int (length src)" and sz: "0 < sz"
    and a'': "a'' = (if r < 0 then a + min (e - a + 1) (int sz) else a')"
    and content: "content = (if r < 0 then seg src (nat a) (nat a'') else out)"
    and fl: "has_flag flags IOC_COMPRESESSED \<longleftrightarrow> 0 \<le> r"
  shows "carries uncompress flags content (seg src (nat a) (nat a''))" and "a < a''" and "a'' \<le> e + 1"
    and "length content \<le> sz"
proof -
  show 1: "a < a''" and 2: "a'' \<le> e + 1"
    using compress_size [OF c] ae sz a'' by (auto split: if_splits)
  show "carries uncompress flags content (seg src (nat a) (nat a''))"
    using compress_carries [OF c _ ae(3)] plain_carries fl a'' content by auto
  have "length (seg src (nat a) (nat a'')) \<le> sz" if "r < 0"
    using that a'' ae by (auto simp: seg_def min_def)
  then show "length content \<le> sz" using compress_fits [OF c] content by simp
qed

end

interpretation codec: data_codec ioc_compress ioc_uncompress
proof
  fix src a e sz r a' out
  assume c: "ioc_compress src a e sz = Some (r, a', out)"
  note facts = ioc_compress_Some [OF c]
  show "length out \<le> sz" using facts by simp
  show "r < 0 \<Longrightarrow> a' = a" using facts by simp
  show "0 \<le> r \<Longrightarrow> r = int (length out) \<and> a < a' \<and> a' \<le> e + 1" using facts by simp
  show "carries ioc_uncompress flags out (seg src (nat a) (nat a'))"
    if "0 \<le> r" "e < int (length src)" "has_flag flags IOC_COMPRESESSED" for flags
  proof -
    have "nat a' \<le> length src" "decode out = Some (seg src (nat a) (nat a'))" "a \<le> a'" "0 \<le> a"
      using facts that by auto
    then show ?thesis
      using that(3) uncompress_loop_decode [of 0 out "seg src (nat a) (nat a')"]
      by (auto simp: carries_def ioc_uncompress_def Let_def nat_diff_distrib)
  qed
next
  fix flags xs
  assume "\<not> has_flag flags IOC_COMPRESESSED"
  then show "carries ioc_uncompress flags xs xs"
    by (auto simp: carries_def ioc_uncompress_def Let_def copy_data_eq seg_def)
qed

end
