(* ===== verification/Ioc_Message.thy ===== *)
theory Ioc_Message
  imports Ioc_Compress
begin

text \<open>
  The field encodings of iocom messages: \<open>ioc_msg_set_uint\<close>, \<open>ioc_msg_set_ushort\<close> and
  \<open>ioc_msg_setstr\<close> of \<open>code/ioc_connection_send.c\<close> with their readers \<open>ioc_msg_get_uint\<close>,
  \<open>ioc_msg_get_ushort\<close> and \<open>ioc_msg_getstr\<close> of \<open>code/ioc_connection_receive.c\<close>.

  A writer is given the message position by reference and advances it: its model returns the
  bytes it stores there, and for \<open>ioc_msg_set_uint\<close> the bits it sets in \<open>*flags\<close> and
  \<open>*flags4\<close>. A reader takes the received bytes and the position and returns the value and
  the advanced position.
\<close>

section \<open>Writers\<close>

definition ioc_msg_setstr :: "byte list \<Rightarrow> byte list" where
  "ioc_msg_setstr str = of_nat (length str) # str"

definition ioc_msg_set_ushort :: "u16 \<Rightarrow> byte list \<times> bool" where
  "ioc_msg_set_ushort i =
    (if i < 256 then ([ucast i], False) else ([ucast i, ucast (drop_bit 8 i)], True))"

definition ioc_msg_set_uint :: "u32 \<Rightarrow> byte \<Rightarrow> byte \<Rightarrow> byte list \<times> byte \<times> byte" where
  "ioc_msg_set_uint i two_bytes_flag four_bytes_flag =
    (let b0 = ucast i; i1 = drop_bit 8 i
     in if i1 \<noteq> 0 then
          let b1 = ucast i1; i2 = drop_bit 8 i1
          in if i2 \<noteq> 0 then
               let b2 = ucast i2; i3 = drop_bit 8 i2
               in ([b0, b1, b2, ucast i3], 0, four_bytes_flag)
             else ([b0, b1], two_bytes_flag, 0)
        else ([b0], 0, 0))"

section \<open>Readers\<close>

definition ioc_msg_getstr :: "byte list \<Rightarrow> nat \<Rightarrow> nat \<Rightarrow> (osalStatus \<times> byte list \<times> nat) option" where
  "ioc_msg_getstr msg str_sz p = do {
     b \<leftarrow> rd msg (int p);
     let len = unat b;
     if len \<ge> str_sz then Some (OSAL_STATUS_FAILED, [], p + 1)
     else do {
       str \<leftarrow> rds msg (int (p + 1)) (int len);
       Some (OSAL_SUCCESS, str, p + 1 + len)
     } }"

definition ioc_msg_get_ushort :: "byte list \<Rightarrow> nat \<Rightarrow> bool \<Rightarrow> (u16 \<times> nat) option" where
  "ioc_msg_get_ushort msg p two_bytes = do {
     b0 \<leftarrow> rd msg (int p);
     if two_bytes then do {
       b1 \<leftarrow> rd msg (int (p + 1));
       Some (ucast b0 OR push_bit 8 (ucast b1), p + 2)
     } else Some (ucast b0, p + 1) }"

definition ioc_msg_get_uint :: "byte list \<Rightarrow> nat \<Rightarrow> bool \<Rightarrow> bool \<Rightarrow> (u32 \<times> nat) option" where
  "ioc_msg_get_uint msg p two_bytes four_bytes = do {
     b0 \<leftarrow> rd msg (int p);
     if two_bytes \<or> four_bytes then do {
       b1 \<leftarrow> rd msg (int (p + 1));
       if four_bytes then do {
         b2 \<leftarrow> rd msg (int (p + 2));
         b3 \<leftarrow> rd msg (int (p + 3));
         Some (ucast b0 OR push_bit 8 (ucast b1) OR push_bit 16 (ucast b2) OR push_bit 24 (ucast b3), p + 4)
       } else Some (ucast b0 OR push_bit 8 (ucast b1), p + 2)
     } else Some (ucast b0, p + 1) }"

section \<open>Bytes of a word\<close>

lemma u32_bytes4:
  "ucast (ucast (i :: u32) :: byte) OR push_bit 8 (ucast (ucast (drop_bit 8 i) :: byte)) OR
   push_bit 16 (ucast (ucast (drop_bit 8 (drop_bit 8 i)) :: byte)) OR
   push_bit 24 (ucast (ucast (drop_bit 8 (drop_bit 8 (drop_bit 8 i))) :: byte)) = i"
proof (rule bit_word_eqI)
  fix n :: nat
  assume "n < LENGTH(32)"
  then show "bit ((ucast (ucast i :: byte) :: u32) OR push_bit 8 (ucast (ucast (drop_bit 8 i) :: byte)) OR
     push_bit 16 (ucast (ucast (drop_bit 8 (drop_bit 8 i)) :: byte)) OR
     push_bit 24 (ucast (ucast (drop_bit 8 (drop_bit 8 (drop_bit 8 i))) :: byte))) n = bit i n"
    by (cases "n < 8"; cases "n < 16"; cases "n < 24") (auto simp: bit_simps)
qed

lemma u32_bytes2:
  assumes "drop_bit 8 (drop_bit 8 i) = 0"
  shows "ucast (ucast (i :: u32) :: byte) OR push_bit 8 (ucast (ucast (drop_bit 8 i) :: byte)) = i"
proof -
  have "drop_bit 24 i = drop_bit 8 (drop_bit 8 (drop_bit 8 i))" by simp
  also have "\<dots> = 0" using assms by (simp only: drop_bit_of_0)
  finally show ?thesis using u32_bytes4 [of i] assms by simp
qed

lemma u32_bytes1:
  assumes "drop_bit 8 i = 0"
  shows "ucast (ucast (i :: u32) :: byte) = i"
  using u32_bytes4 [of i] assms by simp

lemma drop_bit_u32_16: "drop_bit 8 (drop_bit 8 (i :: u32)) = drop_bit 16 i"
  by (simp add: drop_bit_drop_bit)

lemma u16_bytes2:
  "ucast (ucast (i :: u16) :: byte) OR push_bit 8 (ucast (ucast (drop_bit 8 i) :: byte)) = i"
  by (rule bit_word_eqI) (auto simp: bit_simps)

lemma u16_bytes1:
  assumes "i < 256" shows "ucast (ucast (i :: u16) :: byte) = i"
proof -
  have "drop_bit 8 i = 0" using assms by (simp add: drop_bit_eq_div word_less_nat_alt unat_eq_0 word_arith_nat_div)
  then show ?thesis using u16_bytes2 [of i] by simp
qed

section \<open>Properties\<close>

text \<open>Reading starts anywhere in a message: \<open>pre\<close> stands for what precedes the field.\<close>

lemma get_uint_set_uint:
  assumes "ioc_msg_set_uint i two four = (bs, f, f4)" and "two \<noteq> 0" and "four \<noteq> 0"
  shows "ioc_msg_get_uint (pre @ bs @ rest) (length pre) (f \<noteq> 0) (f4 \<noteq> 0) =
    Some (i, length pre + length bs)"
proof -
  consider (one) "drop_bit 8 i = 0" | (two) "drop_bit 8 i \<noteq> 0" "drop_bit 16 i = 0"
    | (four) "drop_bit 8 i \<noteq> 0" "drop_bit 16 i \<noteq> 0" by blast
  then show ?thesis
  proof cases
    case one
    with assms(1) have "bs = [ucast i]" "f = 0" "f4 = 0"
      by (simp_all add: ioc_msg_set_uint_def)
    with one show ?thesis by (simp add: ioc_msg_get_uint_def rd_append_ge rd_Cons u32_bytes1)
  next
    case two
    with assms(1) have "bs = [ucast i, ucast (drop_bit 8 i)]" "f = two" "f4 = 0"
      by (simp_all add: ioc_msg_set_uint_def Let_def)
    with two assms(2) show ?thesis
      by (simp add: ioc_msg_get_uint_def rd_append_ge rd_Cons u32_bytes2)
  next
    case four
    with assms(1) have "bs = [ucast i, ucast (drop_bit 8 i), ucast (drop_bit 8 (drop_bit 8 i)),
        ucast (drop_bit 8 (drop_bit 8 (drop_bit 8 i)))]" "f = 0" "f4 = four"
      by (simp_all add: ioc_msg_set_uint_def Let_def)
    with assms(3) show ?thesis
      using u32_bytes4 [of i]
      by (simp add: ioc_msg_get_uint_def rd_append_ge rd_Cons or.assoc)
  qed
qed

text \<open>
  An integer field survives encoding. Whatever 32 bit value is written by
  \<open>ioc_msg_set_uint\<close>, \<open>ioc_msg_get_uint\<close> reads it back at that position, steered by the flag
  bits that the writer set, and advances over exactly the written bytes; the field takes one,
  two or four bytes.
\<close>

theorem msg_uint_roundtrip:
  assumes "ioc_msg_set_uint i two four = (bs, f, f4)" and "two \<noteq> 0" and "four \<noteq> 0"
  shows "ioc_msg_get_uint (pre @ bs @ rest) (length pre) (f \<noteq> 0) (f4 \<noteq> 0) =
      Some (i, length pre + length bs) \<and> length bs \<in> {1, 2, 4}"
proof -
  have "length bs \<in> {1, 2, 4}"
    using assms(1) by (auto simp: ioc_msg_set_uint_def Let_def split: if_splits)
  with get_uint_set_uint [OF assms] show ?thesis by blast
qed

theorem msg_uint_roundtrip_witness:
  "ioc_msg_get_uint ([9] @ [0x70, 0x11, 1, 0] @ [5]) (length [9 :: byte]) ((0 :: byte) \<noteq> 0) ((1 :: byte) \<noteq> 0) =
     Some (70000, length [9 :: byte] + length [0x70, 0x11, 1, 0 :: byte]) \<and>
   length [0x70, 0x11, 1, 0 :: byte] \<in> {1, 2, 4}"
proof -
  have "ioc_msg_set_uint 70000 4 1 = ([0x70, 0x11, 1, 0], 0, 1)"
    by (simp add: ioc_msg_set_uint_def Let_def)
  then show ?thesis by (rule msg_uint_roundtrip) simp_all
qed

lemma get_ushort_set_ushort:
  assumes "ioc_msg_set_ushort i = (bs, two)"
  shows "ioc_msg_get_ushort (pre @ bs @ rest) (length pre) two = Some (i, length pre + length bs)"
proof (cases "i < 256")
  case True
  with assms show ?thesis
    by (auto simp: ioc_msg_set_ushort_def ioc_msg_get_ushort_def rd_append_ge rd_Cons u16_bytes1)
next
  case False
  with assms show ?thesis
    by (auto simp: ioc_msg_set_ushort_def ioc_msg_get_ushort_def rd_append_ge rd_Cons u16_bytes2)
qed

lemma getstr_setstr:
  assumes "length str < str_sz" and "length str < 256"
  shows "ioc_msg_getstr (pre @ ioc_msg_setstr str @ rest) str_sz (length pre) =
    Some (OSAL_SUCCESS, str, length pre + length (ioc_msg_setstr str))"
  using assms
  by (simp add: ioc_msg_getstr_def ioc_msg_setstr_def rd_append_ge rd_Cons rds_def Let_def
      nat_add_distrib)

text \<open>
  A string field survives encoding when it fits the reader's buffer, and is refused,
  with nothing copied, when it does not.
\<close>

theorem msg_str_roundtrip:
  assumes "length str < 256"
  shows "ioc_msg_getstr (pre @ ioc_msg_setstr str @ rest) str_sz (length pre) =
    (if length str < str_sz
     then Some (OSAL_SUCCESS, str, length pre + length (ioc_msg_setstr str))
     else Some (OSAL_STATUS_FAILED, [], length pre + 1))"
proof (cases "length str < str_sz")
  case True
  with assms show ?thesis by (simp add: getstr_setstr)
next
  case False
  with assms show ?thesis
    by (simp add: ioc_msg_getstr_def ioc_msg_setstr_def rd_append_ge rd_Cons)
qed

theorem msg_str_roundtrip_witness:
  "ioc_msg_getstr ([1] @ ioc_msg_setstr [104, 105] @ []) 16 (length [1 :: byte]) =
    (if length [104, 105 :: byte] < 16
     then Some (OSAL_SUCCESS, [104, 105], length [1 :: byte] + length (ioc_msg_setstr [104, 105]))
     else Some (OSAL_STATUS_FAILED, [], length [1 :: byte] + 1))"
  by (rule msg_str_roundtrip) simp

end
