(* ===== verification/Ioc_Frame.thy ===== *)
theory Ioc_Frame
  imports Ioc_Message
begin

text \<open>
  The frame format shared by the two ends of a connection. The sender's side is
  \<open>ioc_generate_header\<close> of \<open>code/ioc_connection_send.c\<close>; the receiver's side is the size
  decision inside the loop of \<open>ioc_read_frame\<close> and the field parsing of
  \<open>ioc_connection_receive\<close> in \<open>code/ioc_connection_receive.c\<close>. The constants are those of
  \<open>code/ioc_connection.h\<close>.

  The pointers of \<open>iocSendHeaderPtrs\<close> are offsets into the frame buffer, \<open>None\<close> for
  \<open>OS_NULL\<close>. \<open>frame_image\<close> is the reference layout of a complete frame: the sender is shown
  to produce it and the receiver to read it back.
\<close>

section \<open>Constants\<close>

definition IOC_ADDR_HAS_TWO_BYTES :: byte where "IOC_ADDR_HAS_TWO_BYTES = 4"
definition IOC_MBLK_HAS_TWO_BYTES :: byte where "IOC_MBLK_HAS_TWO_BYTES = 8"
definition IOC_SYNC_COMPLETE :: byte where "IOC_SYNC_COMPLETE = 16"
definition IOC_SYSTEM_FRAME :: byte where "IOC_SYSTEM_FRAME = 32"
definition IOC_EXTRA_FLAGS :: byte where "IOC_EXTRA_FLAGS = 128"
definition IOC_EXTRA_ADDR_HAS_FOUR_BYTES :: byte where "IOC_EXTRA_ADDR_HAS_FOUR_BYTES = 1"
definition IOC_EXTRA_MBLK_HAS_FOUR_BYTES :: byte where "IOC_EXTRA_MBLK_HAS_FOUR_BYTES = 2"
definition IOC_EXTRA_NO_ZERO :: byte where "IOC_EXTRA_NO_ZERO = 128"
definition IOC_ACKNOWLEDGE :: byte where "IOC_ACKNOWLEDGE = 255"
definition IOC_SERIAL_ACK_SIZE :: nat where "IOC_SERIAL_ACK_SIZE = 3"
definition IOC_SOCKET_ACK_SIZE :: nat where "IOC_SOCKET_ACK_SIZE = 4"
definition IOC_MAX_FRAME_NR :: byte where "IOC_MAX_FRAME_NR = 200"

lemmas frame_flag_defs = codec_flag_defs IOC_ADDR_HAS_TWO_BYTES_def IOC_MBLK_HAS_TWO_BYTES_def
  IOC_SYNC_COMPLETE_def IOC_SYSTEM_FRAME_def IOC_EXTRA_FLAGS_def IOC_EXTRA_ADDR_HAS_FOUR_BYTES_def
  IOC_EXTRA_MBLK_HAS_FOUR_BYTES_def IOC_EXTRA_NO_ZERO_def IOC_ACKNOWLEDGE_def
lemmas ack_size_defs = IOC_SERIAL_ACK_SIZE_def IOC_SOCKET_ACK_SIZE_def

section \<open>Header generation\<close>

record iocSendHeaderPtrs =
  shp_checksum_low :: "nat option"
  shp_checksum_high :: "nat option"
  shp_flags :: nat
  shp_extra_flags :: "nat option"
  shp_data_sz_low :: nat
  shp_data_sz_high :: "nat option"
  shp_header_sz :: nat

text \<open>
  \<open>ioc_generate_header\<close>: the bytes stored at \<open>hdr\<close> and the pointers. \<open>remote_mblk_id\<close> and
  \<open>addr\<close> are \<open>os_int\<close> in the sources, passed on as \<open>os_uint\<close>; an arithmetic shift by 16 is
  nonzero exactly when the upper half of the word is. \<open>None\<close> would be a write through the
  null pointer \<open>extra_flags\<close>.
\<close>

definition ioc_generate_header ::
  "bool \<Rightarrow> byte \<Rightarrow> u32 \<Rightarrow> u32 \<Rightarrow> (byte list \<times> iocSendHeaderPtrs) option" where
  "ioc_generate_header is_serial frame_nr remote_mblk_id addr =
    (let p0 = [frame_nr];
         p1 = (if is_serial then p0 @ [0, 0] else p0);
         p2 = p1 @ [0];
         p3 = p2 @ [0];
         p4 = (if is_serial then p3 else p3 @ [0]);
         extra = (drop_bit 16 remote_mblk_id \<noteq> 0 \<or> drop_bit 16 addr \<noteq> 0);
         p5 = (if extra then p4 @ [IOC_EXTRA_NO_ZERO] else p4);
         flags = (if extra then IOC_EXTRA_FLAGS else 0);
         (mb, f1, e1) = ioc_msg_set_uint remote_mblk_id IOC_MBLK_HAS_TWO_BYTES IOC_EXTRA_MBLK_HAS_FOUR_BYTES;
         (ab, f2, e2) = ioc_msg_set_uint addr IOC_ADDR_HAS_TWO_BYTES IOC_EXTRA_ADDR_HAS_FOUR_BYTES;
         p6 = p5 @ mb @ ab;
         p7 = (if extra then p6[length p4 := IOC_EXTRA_NO_ZERO OR e1 OR e2] else p6);
         p8 = p7[length p1 := flags OR f1 OR f2]
     in if \<not> extra \<and> (e1 \<noteq> 0 \<or> e2 \<noteq> 0) then None
        else Some (p8,
          \<lparr>shp_checksum_low = (if is_serial then Some 1 else None),
           shp_checksum_high = (if is_serial then Some 2 else None),
           shp_flags = length p1,
           shp_extra_flags = (if extra then Some (length p4) else None),
           shp_data_sz_low = length p2,
           shp_data_sz_high = (if is_serial then None else Some (length p3)),
           shp_header_sz = length p8\<rparr>))"

section \<open>Receiver: size of the frame and its header fields\<close>

record iocReadFrameState =
  rfs_n :: nat
  rfs_needed :: nat
  rfs_frame_sz :: nat
  rfs_bytes_received :: u32
  rfs_data_sz :: u16
  rfs_frame_nr :: byte
  rfs_is_serial :: bool
  rfs_flags :: byte
  rfs_extra_flags :: byte
  rfs_buf :: "byte list"

text \<open>
  The part of the loop body of \<open>ioc_read_frame\<close> that decides how many bytes the frame needs.
  \<open>OSAL_STATUS_FAILED\<close> is the early return for a frame larger than the buffer.
\<close>

definition frame_needed :: "nat \<Rightarrow> u16 \<Rightarrow> byte \<Rightarrow> byte \<Rightarrow> nat" where
  "frame_needed base data_sz flags extra_flags =
     unat data_sz + base + (if has_flag flags IOC_EXTRA_FLAGS then 1 else 0) +
     (if has_flag extra_flags IOC_EXTRA_MBLK_HAS_FOUR_BYTES then 3
      else if has_flag flags IOC_MBLK_HAS_TWO_BYTES then 1 else 0) +
     (if has_flag extra_flags IOC_EXTRA_ADDR_HAS_FOUR_BYTES then 3
      else if has_flag flags IOC_ADDR_HAS_TWO_BYTES then 1 else 0)"

definition read_frame_size :: "iocReadFrameState \<Rightarrow> (osalStatus \<times> iocReadFrameState) option" where
  "read_frame_size rfs = do {
     b0 \<leftarrow> rd (rfs_buf rfs) 0;
     let ack_size = (if rfs_is_serial rfs then IOC_SERIAL_ACK_SIZE else IOC_SOCKET_ACK_SIZE);
     let head = (if rfs_is_serial rfs then 6 else 5);
     if b0 = IOC_ACKNOWLEDGE \<and> rfs_n rfs \<ge> 1 then
       Some (OSAL_SUCCESS, rfs\<lparr>rfs_data_sz := 0, rfs_needed := ack_size, rfs_flags := 0\<rparr>)
     else if rfs_n rfs \<ge> head then do {
       data_sz \<leftarrow> (if rfs_is_serial rfs
          then do { b4 \<leftarrow> rd (rfs_buf rfs) 4; Some (ucast b4) }
          else do { b2 \<leftarrow> rd (rfs_buf rfs) 2; b3 \<leftarrow> rd (rfs_buf rfs) 3;
                    Some (ucast b2 OR push_bit 8 (ucast b3)) });
       flags \<leftarrow> rd (rfs_buf rfs) (if rfs_is_serial rfs then 3 else 1);
       extra_flags \<leftarrow> (if has_flag flags IOC_EXTRA_FLAGS
          then rd (rfs_buf rfs) (if rfs_is_serial rfs then 5 else 4)
          else Some (rfs_extra_flags rfs));
       let needed = frame_needed (if rfs_is_serial rfs then 7 else 6) data_sz flags extra_flags;
       Some (if needed > rfs_frame_sz rfs then OSAL_STATUS_FAILED else OSAL_SUCCESS,
         rfs\<lparr>rfs_data_sz := data_sz, rfs_needed := needed, rfs_flags := flags,
             rfs_extra_flags := extra_flags\<rparr>)
     }
     else if rfs_n rfs \<ge> 1 then
       Some (OSAL_SUCCESS, rfs\<lparr>rfs_data_sz := 0xFFFF, rfs_needed := (if rfs_is_serial rfs then 7 else 6),
         rfs_flags := 0\<rparr>)
     else
       Some (OSAL_SUCCESS, rfs\<lparr>rfs_data_sz := 0xFFFF, rfs_needed := ack_size, rfs_flags := 0\<rparr>) }"

text \<open>
  Memory block identifier and address of a complete frame, and the position of its data, as
  \<open>ioc_connection_receive\<close> reads them.
\<close>

definition parse_frame_header :: "bool \<Rightarrow> byte \<Rightarrow> byte \<Rightarrow> byte list \<Rightarrow> (u32 \<times> u32 \<times> nat) option" where
  "parse_frame_header is_serial flags extra_flags buf = do {
     let p = (if is_serial then 5 else 4) + (if extra_flags \<noteq> 0 then 1 else 0);
     (mblk_id, p1) \<leftarrow> ioc_msg_get_uint buf p (has_flag flags IOC_MBLK_HAS_TWO_BYTES)
        (has_flag extra_flags IOC_EXTRA_MBLK_HAS_FOUR_BYTES);
     (addr, p2) \<leftarrow> ioc_msg_get_uint buf p1 (has_flag flags IOC_ADDR_HAS_TWO_BYTES)
        (has_flag extra_flags IOC_EXTRA_ADDR_HAS_FOUR_BYTES);
     Some (mblk_id, addr, p2) }"

section \<open>Frame numbers\<close>

text \<open>
  \<open>if (con->frame_out.frame_nr++ >= IOC_MAX_FRAME_NR) con->frame_out.frame_nr = 1\<close> of the
  sender, and the receiver's number to expect after a frame.
\<close>

definition next_frame_out_nr :: "byte \<Rightarrow> byte" where
  "next_frame_out_nr nr = (if nr \<ge> IOC_MAX_FRAME_NR then 1 else nr + 1)"

definition next_frame_in_nr :: "byte \<Rightarrow> byte" where
  "next_frame_in_nr b0 = (let nr = b0 + 1 in if nr > IOC_MAX_FRAME_NR then 1 else nr)"

section \<open>Reference layout\<close>

text \<open>Fields of a header for a memory block and an address: flag bits, extra flags byte, identifiers.\<close>

definition header_flags :: "u32 \<Rightarrow> u32 \<Rightarrow> byte" where
  "header_flags mblk_id addr =
    (if drop_bit 16 mblk_id \<noteq> 0 \<or> drop_bit 16 addr \<noteq> 0 then IOC_EXTRA_FLAGS else 0) OR
    fst (snd (ioc_msg_set_uint mblk_id IOC_MBLK_HAS_TWO_BYTES IOC_EXTRA_MBLK_HAS_FOUR_BYTES)) OR
    fst (snd (ioc_msg_set_uint addr IOC_ADDR_HAS_TWO_BYTES IOC_EXTRA_ADDR_HAS_FOUR_BYTES))"

definition header_extra :: "u32 \<Rightarrow> u32 \<Rightarrow> byte list" where
  "header_extra mblk_id addr =
    (if drop_bit 16 mblk_id \<noteq> 0 \<or> drop_bit 16 addr \<noteq> 0
     then [IOC_EXTRA_NO_ZERO OR
        snd (snd (ioc_msg_set_uint mblk_id IOC_MBLK_HAS_TWO_BYTES IOC_EXTRA_MBLK_HAS_FOUR_BYTES)) OR
        snd (snd (ioc_msg_set_uint addr IOC_ADDR_HAS_TWO_BYTES IOC_EXTRA_ADDR_HAS_FOUR_BYTES))]
     else [])"

definition header_ids :: "u32 \<Rightarrow> u32 \<Rightarrow> byte list" where
  "header_ids mblk_id addr =
    fst (ioc_msg_set_uint mblk_id IOC_MBLK_HAS_TWO_BYTES IOC_EXTRA_MBLK_HAS_FOUR_BYTES) @
    fst (ioc_msg_set_uint addr IOC_ADDR_HAS_TWO_BYTES IOC_EXTRA_ADDR_HAS_FOUR_BYTES)"

definition frame_image ::
  "bool \<Rightarrow> byte \<Rightarrow> u16 \<Rightarrow> byte \<Rightarrow> u16 \<Rightarrow> u32 \<Rightarrow> u32 \<Rightarrow> byte list \<Rightarrow> byte list" where
  "frame_image is_serial frame_nr crc flags data_sz mblk_id addr content =
    frame_nr # (if is_serial then [ucast crc, ucast (drop_bit 8 crc)] else []) @
    [flags OR header_flags mblk_id addr, ucast data_sz] @
    (if is_serial then [] else [ucast (drop_bit 8 data_sz)]) @
    header_extra mblk_id addr @ header_ids mblk_id addr @ content"

section \<open>Flag bits\<close>

lemma has_flag_OR: "has_flag (a OR b) m \<longleftrightarrow> has_flag a m \<or> has_flag b (m :: 'a::len word)"
  unfolding has_flag_def by (simp add: bit.conj_disj_distrib2 or_eq_0_iff)

lemma has_flag_0 [simp]: "\<not> has_flag 0 m"
  by (simp add: has_flag_def)

lemma has_flag_self [simp]: "has_flag m m \<longleftrightarrow> m \<noteq> 0"
  by (simp add: has_flag_def)

lemma has_flag_if: "has_flag (if c then a else b) m \<longleftrightarrow> (if c then has_flag a m else has_flag b m)"
  by simp

text \<open>The flags a header has, by the size of the identifier and the address.\<close>

lemma set_uint_parts:
  "ioc_msg_set_uint i two four =
    (if drop_bit 16 i \<noteq> 0 then ([ucast i, ucast (drop_bit 8 i), ucast (drop_bit 16 i), ucast (drop_bit 24 i)], 0, four)
     else if drop_bit 8 i \<noteq> 0 then ([ucast i, ucast (drop_bit 8 i)], two, 0) else ([ucast i], 0, 0))"
proof -
  have "drop_bit 8 i = 0 \<Longrightarrow> drop_bit 16 i = 0"
    using drop_bit_u32_16 [of i] by (metis drop_bit_of_0)
  then show ?thesis by (auto simp: ioc_msg_set_uint_def Let_def drop_bit_drop_bit)
qed

definition ids_sz :: "u32 \<Rightarrow> nat" where
  "ids_sz i = (if drop_bit 16 i \<noteq> 0 then 4 else if drop_bit 8 i \<noteq> 0 then 2 else 1)"

lemma header_flag_bits:
  "has_flag (header_flags mb ad) IOC_EXTRA_FLAGS \<longleftrightarrow> drop_bit 16 mb \<noteq> 0 \<or> drop_bit 16 ad \<noteq> 0"
  "has_flag (header_flags mb ad) IOC_MBLK_HAS_TWO_BYTES \<longleftrightarrow> drop_bit 16 mb = 0 \<and> drop_bit 8 mb \<noteq> 0"
  "has_flag (header_flags mb ad) IOC_ADDR_HAS_TWO_BYTES \<longleftrightarrow> drop_bit 16 ad = 0 \<and> drop_bit 8 ad \<noteq> 0"
  "\<not> has_flag (header_flags mb ad) IOC_DELTA_ENCODED"
  "\<not> has_flag (header_flags mb ad) IOC_COMPRESESSED"
  "\<not> has_flag (header_flags mb ad) IOC_SYNC_COMPLETE"
  "\<not> has_flag (header_flags mb ad) IOC_SYSTEM_FRAME"
  by (auto simp: header_flags_def set_uint_parts has_flag_OR frame_flag_defs has_flag_def)

lemma header_extra_bits:
  "drop_bit 16 mb \<noteq> 0 \<or> drop_bit 16 ad \<noteq> 0 \<Longrightarrow> \<exists>e. header_extra mb ad = [e] \<and> e \<noteq> 0 \<and>
     (has_flag e IOC_EXTRA_MBLK_HAS_FOUR_BYTES \<longleftrightarrow> drop_bit 16 mb \<noteq> 0) \<and>
     (has_flag e IOC_EXTRA_ADDR_HAS_FOUR_BYTES \<longleftrightarrow> drop_bit 16 ad \<noteq> 0)"
  "drop_bit 16 mb = 0 \<Longrightarrow> drop_bit 16 ad = 0 \<Longrightarrow> header_extra mb ad = []"
  by (auto simp: header_extra_def set_uint_parts has_flag_OR frame_flag_defs has_flag_def)

lemma length_header_ids [simp]: "length (header_ids mb ad) = ids_sz mb + ids_sz ad"
  by (simp add: header_ids_def set_uint_parts ids_sz_def)

definition header_length :: "bool \<Rightarrow> u32 \<Rightarrow> u32 \<Rightarrow> nat" where
  "header_length is_serial mb ad = (if is_serial then 5 else 4) +
     (if drop_bit 16 mb \<noteq> 0 \<or> drop_bit 16 ad \<noteq> 0 then 1 else 0) + ids_sz mb + ids_sz ad"

lemma length_frame_image [simp]:
  "length (frame_image ser nr crc fl ds mb ad content) = header_length ser mb ad + length content"
  by (simp add: frame_image_def header_length_def header_extra_def)

lemma frame_image_append:
  "frame_image ser nr crc fl ds mb ad content @ ys = frame_image ser nr crc fl ds mb ad (content @ ys)"
  by (simp add: frame_image_def)

section \<open>Header generation produces the layout\<close>

definition header_ptrs :: "bool \<Rightarrow> u32 \<Rightarrow> u32 \<Rightarrow> iocSendHeaderPtrs" where
  "header_ptrs ser mb ad = \<lparr>shp_checksum_low = (if ser then Some 1 else None),
     shp_checksum_high = (if ser then Some 2 else None),
     shp_flags = (if ser then 3 else 1),
     shp_extra_flags = (if drop_bit 16 mb \<noteq> 0 \<or> drop_bit 16 ad \<noteq> 0 then Some (if ser then 5 else 4) else None),
     shp_data_sz_low = (if ser then 4 else 2),
     shp_data_sz_high = (if ser then None else Some 3),
     shp_header_sz = header_length ser mb ad\<rparr>"

lemma header_ptrs_simps [simp]:
  "shp_checksum_low (header_ptrs ser mb ad) = (if ser then Some 1 else None)"
  "shp_checksum_high (header_ptrs ser mb ad) = (if ser then Some 2 else None)"
  "shp_flags (header_ptrs ser mb ad) = (if ser then 3 else 1)"
  "shp_data_sz_low (header_ptrs ser mb ad) = (if ser then 4 else 2)"
  "shp_data_sz_high (header_ptrs ser mb ad) = (if ser then None else Some 3)"
  "shp_header_sz (header_ptrs ser mb ad) = header_length ser mb ad"
  by (simp_all add: header_ptrs_def)

lemma ioc_generate_header_eq:
  "ioc_generate_header ser nr mb ad = Some (frame_image ser nr 0 0 0 mb ad [], header_ptrs ser mb ad)"
  unfolding ioc_generate_header_def frame_image_def set_uint_parts header_flags_def header_extra_def
    header_ids_def header_length_def header_ptrs_def ids_sz_def Let_def
  by (cases ser; cases "drop_bit 16 mb = 0"; cases "drop_bit 16 ad = 0"; cases "drop_bit 8 mb = 0";
      cases "drop_bit 8 ad = 0") (simp_all add: or.assoc)

text \<open>Filling in the fields that a sender leaves open at first.\<close>

lemma image_set_flags:
  "(frame_image ser nr crc fl ds mb ad c @ rest)[if ser then 3 else 1 := v OR header_flags mb ad] =
    frame_image ser nr crc v ds mb ad c @ rest"
  by (simp add: frame_image_def)

lemma image_set_size:
  "(frame_image True nr crc fl ds mb ad c @ rest)[4 := ucast ds'] = frame_image True nr crc fl ds' mb ad c @ rest"
  "(frame_image False nr crc fl ds mb ad c @ rest)[2 := ucast ds', 3 := ucast (drop_bit 8 ds')] =
    frame_image False nr crc fl ds' mb ad c @ rest"
  by (simp_all add: frame_image_def)

lemma image_set_checksum:
  "(frame_image True nr crc fl ds mb ad c @ rest)[1 := ucast crc', 2 := ucast (drop_bit 8 crc')] =
    frame_image True nr crc' fl ds mb ad c @ rest"
  by (simp add: frame_image_def)

lemma image_flags_at:
  "(frame_image ser nr crc fl ds mb ad c @ rest) ! (if ser then 3 else 1) = fl OR header_flags mb ad"
  by (simp add: frame_image_def)

section \<open>The receiver reads the layout back\<close>

text \<open>Flag bits a sender may add to a header: they do not touch the size bits of the header.\<close>

definition content_flags :: "byte \<Rightarrow> bool" where
  "content_flags fl \<longleftrightarrow> \<not> has_flag fl IOC_EXTRA_FLAGS \<and> \<not> has_flag fl IOC_MBLK_HAS_TWO_BYTES \<and>
     \<not> has_flag fl IOC_ADDR_HAS_TWO_BYTES"

text \<open>The extra flags byte as the receiver keeps it: zero when the frame has none.\<close>

definition extra_byte :: "u32 \<Rightarrow> u32 \<Rightarrow> byte" where
  "extra_byte mb ad = (case header_extra mb ad of [] \<Rightarrow> 0 | e # _ \<Rightarrow> e)"

lemma extra_byte_bits:
  "extra_byte mb ad \<noteq> 0 \<longleftrightarrow> drop_bit 16 mb \<noteq> 0 \<or> drop_bit 16 ad \<noteq> 0"
  "has_flag (extra_byte mb ad) IOC_EXTRA_MBLK_HAS_FOUR_BYTES \<longleftrightarrow> drop_bit 16 mb \<noteq> 0"
  "has_flag (extra_byte mb ad) IOC_EXTRA_ADDR_HAS_FOUR_BYTES \<longleftrightarrow> drop_bit 16 ad \<noteq> 0"
  using header_extra_bits [of mb ad]
  by (cases "drop_bit 16 mb = 0 \<and> drop_bit 16 ad = 0"; auto simp: extra_byte_def)+

lemma header_extra_eq:
  "header_extra mb ad = (if drop_bit 16 mb \<noteq> 0 \<or> drop_bit 16 ad \<noteq> 0 then [extra_byte mb ad] else [])"
  using header_extra_bits [of mb ad] by (auto simp: extra_byte_def)

lemma frame_needed_image:
  assumes "content_flags fl"
  shows "frame_needed (if ser then 7 else 6) ds (fl OR header_flags mb ad) (extra_byte mb ad) =
    header_length ser mb ad + unat ds"
  using assms by (auto simp: frame_needed_def content_flags_def has_flag_OR header_flag_bits extra_byte_bits
      header_length_def ids_sz_def)

lemma frame_image_head:
  "rd (frame_image ser nr crc fl ds mb ad content) 0 = Some nr"
  "rd (frame_image ser nr crc fl ds mb ad content) (if ser then 3 else 1) = Some (fl OR header_flags mb ad)"
  "rd (frame_image ser nr crc fl ds mb ad content) (if ser then 4 else 2) = Some (ucast ds)"
  "\<not> ser \<Longrightarrow> rd (frame_image ser nr crc fl ds mb ad content) 3 = Some (ucast (drop_bit 8 ds))"
  "drop_bit 16 mb \<noteq> 0 \<or> drop_bit 16 ad \<noteq> 0 \<Longrightarrow>
   rd (frame_image ser nr crc fl ds mb ad content) (if ser then 5 else 4) = Some (extra_byte mb ad)"
  by (auto simp: frame_image_def rd_Cons header_extra_eq)

text \<open>A buffer that holds the first bytes of an image, and maybe what an earlier frame left behind them.\<close>

lemma header_length_gt: "(if ser then 6 else 5) < header_length ser mb ad"
  by (simp add: header_length_def ids_sz_def)

lemma rd_take_cong: "take h m = take h m' \<Longrightarrow> h \<le> length m' \<Longrightarrow> i < int h \<Longrightarrow> rd m i = rd m' i"
  by (metis (no_types) append_take_drop_id length_take min_absorb2 rd_append_less)

lemma read_frame_size_image:
  assumes nr: "nr \<noteq> IOC_ACKNOWLEDGE" and fl: "content_flags fl" and ser: "ser \<longrightarrow> ds < 256"
    and n: "(if ser then 6 else 5) \<le> rfs_n rfs" and x: "rfs_extra_flags rfs = 0 \<or> rfs_extra_flags rfs = extra_byte mb ad"
    and s: "rfs_is_serial rfs = ser"
    and buf: "take (if ser then 6 else 5) (rfs_buf rfs) = take (if ser then 6 else 5) (frame_image ser nr crc fl ds mb ad content)"
  shows "read_frame_size rfs = Some
    (if header_length ser mb ad + unat ds > rfs_frame_sz rfs then OSAL_STATUS_FAILED else OSAL_SUCCESS,
     rfs\<lparr>rfs_data_sz := ds, rfs_needed := header_length ser mb ad + unat ds,
         rfs_flags := fl OR header_flags mb ad, rfs_extra_flags := extra_byte mb ad\<rparr>)"
proof -
  let ?im = "frame_image ser nr crc fl ds mb ad content" and ?b = "rfs_buf rfs"
  have at: "rd ?b i = rd ?im i" if "i < (if ser then 6 else 5)" for i
    by (rule rd_take_cong [OF buf]) (use that header_length_gt [of ser mb ad] in \<open>auto split: if_splits\<close>)
  have ds: "(if ser then do { b4 \<leftarrow> rd ?b 4; Some (ucast b4) }
          else do { b2 \<leftarrow> rd ?b 2; b3 \<leftarrow> rd ?b 3;
                    Some (ucast b2 OR push_bit 8 (ucast b3)) }) = Some ds"
    using frame_image_head(3,4) [of ser nr crc fl ds mb ad content] ser
    by (cases ser) (simp_all add: at u16_bytes1 u16_bytes2)
  have ef: "(if has_flag (fl OR header_flags mb ad) IOC_EXTRA_FLAGS
          then rd ?b (if ser then 5 else 4) else Some (rfs_extra_flags rfs)) = Some (extra_byte mb ad)"
    using frame_image_head(5) [of mb ad ser nr crc fl ds content] fl x extra_byte_bits(1) [of mb ad]
    by (auto simp: at has_flag_OR header_flag_bits content_flags_def split: if_splits)
  have b0: "rd ?b 0 = Some nr" and fl': "rd ?b (if ser then 3 else 1) = Some (fl OR header_flags mb ad)"
    using frame_image_head(1,2) [of ser nr crc fl ds mb ad content] by (auto simp: at split: if_splits)
  show ?thesis
    unfolding read_frame_size_def s Let_def b0
    using nr n by (simp only: bind.bind_lunit ds fl' ef frame_needed_image [OF fl] if_False simp_thms if_True)
qed

lemma get_uint_ids:
  assumes "p = length pre"
  shows "ioc_msg_get_uint (pre @ fst (ioc_msg_set_uint i two four) @ rest) p
      (drop_bit 16 i = 0 \<and> drop_bit 8 i \<noteq> 0) (drop_bit 16 i \<noteq> 0) = Some (i, p + ids_sz i)"
  using get_uint_set_uint [of i 1 1 _ _ _ pre rest] assms
  by (auto simp: set_uint_parts ids_sz_def split: if_splits)

lemma parse_frame_image:
  assumes fl: "content_flags fl"
  shows "parse_frame_header ser (fl OR header_flags mb ad) (extra_byte mb ad)
      (frame_image ser nr crc fl0 ds mb ad content) = Some (mb, ad, header_length ser mb ad)"
proof -
  let ?pre = "nr # (if ser then [ucast crc, ucast (drop_bit 8 crc)] else []) @
    [fl0 OR header_flags mb ad, ucast ds] @ (if ser then [] else [ucast (drop_bit 8 ds)]) @ header_extra mb ad"
  let ?m = "fst (ioc_msg_set_uint mb IOC_MBLK_HAS_TWO_BYTES IOC_EXTRA_MBLK_HAS_FOUR_BYTES)"
  let ?a = "fst (ioc_msg_set_uint ad IOC_ADDR_HAS_TWO_BYTES IOC_EXTRA_ADDR_HAS_FOUR_BYTES)"
  let ?p = "(if ser then 5 else 4) + (if extra_byte mb ad \<noteq> 0 then 1 else 0 :: nat)"
  have im: "frame_image ser nr crc fl0 ds mb ad content = ?pre @ ?m @ ?a @ content"
    by (simp add: frame_image_def header_ids_def)
  have p: "?p = length ?pre" by (auto simp: header_extra_eq extra_byte_bits)
  have lm: "length ?m = ids_sz mb" by (simp add: set_uint_parts ids_sz_def)
  have m: "ioc_msg_get_uint (?pre @ ?m @ ?a @ content) ?p
      (drop_bit 16 mb = 0 \<and> drop_bit 8 mb \<noteq> 0) (drop_bit 16 mb \<noteq> 0) = Some (mb, ?p + ids_sz mb)"
    by (rule get_uint_ids [OF p])
  have a: "ioc_msg_get_uint ((?pre @ ?m) @ ?a @ content) (?p + ids_sz mb)
      (drop_bit 16 ad = 0 \<and> drop_bit 8 ad \<noteq> 0) (drop_bit 16 ad \<noteq> 0) = Some (ad, ?p + ids_sz mb + ids_sz ad)"
    by (rule get_uint_ids) (simp only: length_append lm p)
  have fs: "has_flag (fl OR header_flags mb ad) IOC_MBLK_HAS_TWO_BYTES \<longleftrightarrow> drop_bit 16 mb = 0 \<and> drop_bit 8 mb \<noteq> 0"
    "has_flag (fl OR header_flags mb ad) IOC_ADDR_HAS_TWO_BYTES \<longleftrightarrow> drop_bit 16 ad = 0 \<and> drop_bit 8 ad \<noteq> 0"
    using fl by (simp_all add: content_flags_def has_flag_OR header_flag_bits)
  have hl: "?p + ids_sz mb + ids_sz ad = header_length ser mb ad"
    by (simp add: header_length_def extra_byte_bits)
  show ?thesis
    unfolding parse_frame_header_def Let_def im fs extra_byte_bits(2,3) m
    using a hl by (simp del: append_assoc add: append_assoc [symmetric])
qed

lemma next_frame_nr_step:
  assumes "nr \<le> IOC_MAX_FRAME_NR"
  shows "next_frame_in_nr nr = next_frame_out_nr nr \<and> next_frame_out_nr nr \<le> IOC_MAX_FRAME_NR \<and>
    next_frame_out_nr nr \<noteq> 0 \<and> next_frame_out_nr nr \<noteq> IOC_ACKNOWLEDGE"
proof -
  have "unat nr \<le> 200" using assms by (simp add: IOC_MAX_FRAME_NR_def word_le_nat_alt)
  moreover then have "unat (nr + 1) = unat nr + 1" by (simp add: unat_word_ariths)
  ultimately show ?thesis
    by (auto simp: next_frame_in_nr_def next_frame_out_nr_def IOC_MAX_FRAME_NR_def IOC_ACKNOWLEDGE_def
        word_le_nat_alt word_less_nat_alt word_unat_eq_iff)
qed

section \<open>Properties\<close>

text \<open>
  \<^bold>\<open>C14\<close>: \<open>ioc_generate_header\<close> never writes through its null \<open>extra_flags\<close> pointer, and whatever
  content follows the header it makes, the receiver's parsing with the flag bytes of that header
  yields the memory block identifier and the address the sender gave, and the position where the
  content starts, over sockets and serial lines and for identifiers of every size.
\<close>

theorem frame_header_roundtrip:
  "\<exists>h ptrs. ioc_generate_header is_serial frame_nr remote_mblk_id addr = Some (h, ptrs) \<and>
     length h = shp_header_sz ptrs \<and>
     parse_frame_header is_serial (h ! shp_flags ptrs)
       (case shp_extra_flags ptrs of None \<Rightarrow> 0 | Some i \<Rightarrow> h ! i) (h @ content) =
     Some (remote_mblk_id, addr, shp_header_sz ptrs)"
proof -
  let ?h = "frame_image is_serial frame_nr 0 0 0 remote_mblk_id addr []"
  have f: "?h ! (if is_serial then 3 else 1) = header_flags remote_mblk_id addr"
    using frame_image_head(2) [of is_serial frame_nr 0 0 0 remote_mblk_id addr "[]"]
    by (auto dest!: rd_SomeD split: if_splits)
  have e: "(case shp_extra_flags (header_ptrs is_serial remote_mblk_id addr) of None \<Rightarrow> 0 | Some i \<Rightarrow> ?h ! i) =
      extra_byte remote_mblk_id addr"
    using frame_image_head(5) [of remote_mblk_id addr is_serial frame_nr 0 0 0 "[]"]
      extra_byte_bits(1) [of remote_mblk_id addr]
    by (auto simp: header_ptrs_def dest!: rd_SomeD split: if_splits)
  show ?thesis
    using parse_frame_image [of 0 is_serial remote_mblk_id addr frame_nr 0 0 0 content] f e
    by (simp add: ioc_generate_header_eq frame_image_append content_flags_def)
qed

text \<open>
  The frame counters of the two ends stay in step. Both start from zero; after any number of
  frames the receiver expects the very number the sender puts in the next frame, the number never
  reaches the acknowledge mark and it is zero only for the first frame.
\<close>

theorem frame_numbers_in_step:
  "(next_frame_out_nr ^^ k) 0 = (next_frame_in_nr ^^ k) 0 \<and>
   (next_frame_out_nr ^^ k) 0 \<noteq> IOC_ACKNOWLEDGE \<and>
   (next_frame_out_nr ^^ k) 0 \<le> IOC_MAX_FRAME_NR \<and>
   ((next_frame_out_nr ^^ k) 0 = 0 \<longleftrightarrow> k = 0)"
proof (induction k)
  case 0
  then show ?case by (simp add: IOC_ACKNOWLEDGE_def IOC_MAX_FRAME_NR_def)
next
  case (Suc k)
  then show ?case using next_frame_nr_step [of "(next_frame_out_nr ^^ k) 0"] by auto
qed

end
