(* ===== verification/Ioc_Source_Buffer.thy ===== *)
theory Ioc_Source_Buffer
  imports Ioc_Frame
begin

text \<open>
  Source buffers, \<open>code/ioc_source_buffer.c\<close> and \<open>.h\<close>: a source buffer links a memory block to a
  connection that sends its changes. It keeps the values last captured for sending
  (\<open>syncbuf.buf\<close>), the difference being sent (\<open>syncbuf.delta\<close>), the range written since
  (\<open>changed\<close>) and, for bidirectional transfers, one change bit per byte behind the captured values.

  The structure is flattened into one record: \<open>changed.start_addr\<close> is \<open>sb_changed_start\<close>,
  \<open>syncbuf.start_addr\<close> is \<open>sb_start_addr\<close> and so on. \<open>sb_buf\<close> and \<open>sb_delta\<close> are \<open>None\<close>
  for \<open>OS_NULL\<close> (a static memory block). The content and the size of the memory block that
  \<open>mlink.mblk\<close> points to are arguments of the operations; \<open>has_trig\<close> tells whether the connection
  has a worker thread to wake. Every call runs under \<open>ioc_lock\<close>, so an operation is atomic.
\<close>

section \<open>State\<close>

definition IOC_BIDIRECTIONAL :: u16 where "IOC_BIDIRECTIONAL = 8"

record iocSourceBuffer =
  sb_remote_mblk_id :: u16
  sb_immediate_sync_needed :: bool
  sb_changed_range_set :: bool
  sb_changed_start :: int
  sb_changed_end :: int
  sb_buf :: "byte list option"
  sb_delta :: "byte list option"
  sb_nbytes :: int
  sb_used :: bool
  sb_make_keyframe :: bool
  sb_is_keyframe :: bool
  sb_start_addr :: int
  sb_end_addr :: int
  sb_bidir_start :: int
  sb_bidir_end :: int
  sb_bidir_range_set :: bool
  sb_flags :: u16
  sb_ndata :: int
  sb_mblk :: nat
  sb_con :: nat

section \<open>Marking changes\<close>

text \<open>\<open>*p |= m\<close> and the loop \<open>while (count--) *(p++) |= 0xFF\<close>.\<close>

definition or_at :: "byte list \<Rightarrow> int \<Rightarrow> byte \<Rightarrow> byte list option" where
  "or_at m p v = do { b \<leftarrow> rd m p; wr m p (b OR v) }"

primrec or_fill :: "byte list \<Rightarrow> int \<Rightarrow> nat \<Rightarrow> byte list option" where
  "or_fill m p 0 = Some m"
| "or_fill m p (Suc count) = do { m' \<leftarrow> or_at m p 0xFF; or_fill m' (p + 1) count }"

definition ioc_sbuf_invalidate_bytes :: "iocSourceBuffer \<Rightarrow> int \<Rightarrow> int \<Rightarrow> iocSourceBuffer option" where
  "ioc_sbuf_invalidate_bytes sbuf start_addr end_addr =
    (case sb_buf sbuf of
       None \<Rightarrow> Some sbuf
     | Some buf \<Rightarrow>
       if end_addr < start_addr then Some sbuf
       else
         let start_mask = push_bit (nat (start_addr mod 8)) 0xFF;
             end_mask = drop_bit (nat (7 - end_addr mod 8)) 0xFF;
             s = start_addr div 8;
             e = end_addr div 8;
             p = sb_ndata sbuf + s
         in if s = e then do {
              buf' \<leftarrow> or_at buf p (start_mask AND end_mask);
              Some (sbuf\<lparr>sb_buf := Some buf'\<rparr>)
            } else do {
              buf1 \<leftarrow> or_at buf p start_mask;
              let count = nat (e - s - 1);
              buf2 \<leftarrow> or_fill buf1 (p + 1) count;
              buf3 \<leftarrow> or_at buf2 (p + 1 + int count) end_mask;
              Some (sbuf\<lparr>sb_buf := Some buf3\<rparr>)
            })"

text \<open>
  The two loops of \<open>ioc_sbuf_invalidate\<close> that narrow a written range to bytes which differ from the
  values captured last. The inner result of the first is \<open>None\<close> when it returns from the function.
\<close>

function filter_start :: "byte list \<Rightarrow> byte list \<Rightarrow> int \<Rightarrow> int \<Rightarrow> int option option" where
  "filter_start buf syncbuf start_addr end_addr =
    (if start_addr \<le> end_addr then do {
       a \<leftarrow> rd buf start_addr;
       b \<leftarrow> rd syncbuf start_addr;
       if a \<noteq> b then Some (Some start_addr)
       else if start_addr = end_addr then Some None
       else filter_start buf syncbuf (start_addr + 1) end_addr }
     else Some (Some start_addr))"
  by pat_completeness auto
termination
  by (relation "measure (\<lambda>(buf, syncbuf, s, e). nat (e + 1 - s))") auto

function filter_end :: "byte list \<Rightarrow> byte list \<Rightarrow> int \<Rightarrow> int \<Rightarrow> int option" where
  "filter_end buf syncbuf start_addr end_addr =
    (if end_addr > start_addr then do {
       a \<leftarrow> rd buf end_addr;
       b \<leftarrow> rd syncbuf end_addr;
       if a \<noteq> b then Some end_addr
       else filter_end buf syncbuf start_addr (end_addr - 1) }
     else Some end_addr)"
  by pat_completeness auto
termination
  by (relation "measure (\<lambda>(buf, syncbuf, s, e). nat (e - s))") auto

definition merge_changed :: "iocSourceBuffer \<Rightarrow> int \<Rightarrow> int \<Rightarrow> iocSourceBuffer" where
  "merge_changed sbuf start_addr end_addr =
    (if \<not> sb_changed_range_set sbuf
     then sbuf\<lparr>sb_changed_start := start_addr, sb_changed_end := end_addr, sb_changed_range_set := True\<rparr>
     else sbuf\<lparr>sb_changed_start := (if start_addr < sb_changed_start sbuf then start_addr else sb_changed_start sbuf),
               sb_changed_end := (if end_addr > sb_changed_end sbuf then end_addr else sb_changed_end sbuf)\<rparr>)"

definition ioc_sbuf_invalidate :: "byte list \<Rightarrow> iocSourceBuffer \<Rightarrow> int \<Rightarrow> int \<Rightarrow> iocSourceBuffer option" where
  "ioc_sbuf_invalidate buf sbuf start_addr end_addr = do {
     range \<leftarrow> (case sb_buf sbuf of
         Some syncbuf \<Rightarrow>
           if \<not> has_flag (sb_flags sbuf) IOC_BIDIRECTIONAL \<and> end_addr - start_addr < 256 then do {
             r \<leftarrow> filter_start buf syncbuf start_addr end_addr;
             (case r of
                None \<Rightarrow> Some None
              | Some s \<Rightarrow> do { e \<leftarrow> filter_end buf syncbuf s end_addr; Some (Some (s, e)) })
           } else Some (Some (start_addr, end_addr))
       | None \<Rightarrow> Some (Some (start_addr, end_addr)));
     (case range of
        None \<Rightarrow> Some sbuf
      | Some (s, e) \<Rightarrow>
        let sbuf' = merge_changed sbuf s e
        in if has_flag (sb_flags sbuf) IOC_BIDIRECTIONAL then ioc_sbuf_invalidate_bytes sbuf' s e
           else Some sbuf') }"

section \<open>Capturing changes for sending\<close>

text \<open>Loops that shrink a range from its ends while the two buffers agree there.\<close>

function shrink_start :: "byte list \<Rightarrow> byte list \<Rightarrow> int \<Rightarrow> int \<Rightarrow> int option" where
  "shrink_start syncbuf buf start_addr limit =
    (if start_addr \<le> limit then do {
       a \<leftarrow> rd syncbuf start_addr;
       b \<leftarrow> rd buf start_addr;
       if a \<noteq> b then Some start_addr else shrink_start syncbuf buf (start_addr + 1) limit }
     else Some start_addr)"
  by pat_completeness auto
termination
  by (relation "measure (\<lambda>(syncbuf, buf, s, e). nat (e + 1 - s))") auto

function shrink_end :: "byte list \<Rightarrow> byte list \<Rightarrow> int \<Rightarrow> int \<Rightarrow> int option" where
  "shrink_end syncbuf buf start_addr end_addr =
    (if end_addr \<ge> start_addr then do {
       a \<leftarrow> rd syncbuf end_addr;
       b \<leftarrow> rd buf end_addr;
       if a \<noteq> b then Some end_addr else shrink_end syncbuf buf start_addr (end_addr - 1) }
     else Some end_addr)"
  by pat_completeness auto
termination
  by (relation "measure (\<lambda>(syncbuf, buf, s, e). nat (e + 1 - s))") auto

text \<open>\<open>for (i = start_addr; i <= end_addr; i++) delta[i] = buf[i] - syncbuf[i]\<close>, by the number of rounds.\<close>

primrec delta_encode :: "byte list \<Rightarrow> byte list \<Rightarrow> byte list \<Rightarrow> int \<Rightarrow> nat \<Rightarrow> byte list option" where
  "delta_encode buf syncbuf delta i 0 = Some delta"
| "delta_encode buf syncbuf delta i (Suc n) = do {
     a \<leftarrow> rd buf i;
     b \<leftarrow> rd syncbuf i;
     delta' \<leftarrow> wr delta i (a - b);
     delta_encode buf syncbuf delta' (i + 1) n }"

text \<open>
  The choice of what to send: the range, the key frame flags and the delta buffer after the first
  half of \<open>ioc_sbuf_synchronize\<close>; the inner \<open>None\<close> is the return when nothing differs.
\<close>

definition sync_select ::
  "byte list \<Rightarrow> int \<Rightarrow> iocSourceBuffer \<Rightarrow> (int \<times> int \<times> iocSourceBuffer) option option" where
  "sync_select buf mblk_nbytes sbuf =
    (if sb_make_keyframe sbuf then do {
       delta' \<leftarrow> (case sb_delta sbuf of
          None \<Rightarrow> Some None
        | Some delta \<Rightarrow> do { d \<leftarrow> os_memcpy delta 0 buf 0 mblk_nbytes; Some (Some d) });
       Some (Some (0, mblk_nbytes - 1,
         sbuf\<lparr>sb_delta := delta', sb_make_keyframe := False, sb_is_keyframe := True\<rparr>))
     }
     else case sb_buf sbuf of
       None \<Rightarrow> Some (Some (sb_changed_start sbuf, sb_changed_end sbuf, sbuf\<lparr>sb_is_keyframe := False\<rparr>))
     | Some syncbuf \<Rightarrow> do {
         (s, e) \<leftarrow> (if \<not> has_flag (sb_flags sbuf) IOC_BIDIRECTIONAL then do {
             s \<leftarrow> shrink_start syncbuf buf (sb_changed_start sbuf) (sb_changed_end sbuf);
             e \<leftarrow> shrink_end syncbuf buf s (sb_changed_end sbuf);
             Some (s, e)
           } else Some (sb_changed_start sbuf, sb_changed_end sbuf));
         if e < s then Some None
         else do {
           delta \<leftarrow> sb_delta sbuf;
           delta' \<leftarrow> delta_encode buf syncbuf delta s (nat (e - s + 1));
           Some (Some (s, e, sbuf\<lparr>sb_delta := Some delta', sb_is_keyframe := False\<rparr>))
         } })"

definition sync_bidir_bits :: "iocSourceBuffer \<Rightarrow> int \<Rightarrow> int \<Rightarrow> iocSourceBuffer option" where
  "sync_bidir_bits sbuf start_addr end_addr =
    (let s = start_addr div 8; e = end_addr div 8; pos = sb_ndata sbuf + s; count = e - s + 1
     in do {
       syncbuf \<leftarrow> sb_buf sbuf;
       delta \<leftarrow> sb_delta sbuf;
       delta' \<leftarrow> os_memcpy delta pos syncbuf pos count;
       syncbuf' \<leftarrow> os_memclear syncbuf pos count;
       Some (sbuf\<lparr>sb_delta := Some delta', sb_buf := Some syncbuf', sb_bidir_start := pos,
         sb_bidir_end := pos + count - 1, sb_bidir_range_set := True\<rparr>) })"

text \<open>The second half: the values to be sent become the captured values.\<close>

definition sync_capture :: "byte list \<Rightarrow> int \<Rightarrow> int \<Rightarrow> iocSourceBuffer \<Rightarrow> iocSourceBuffer option" where
  "sync_capture buf start_addr end_addr sbuf =
    (let sbuf1 = sbuf\<lparr>sb_start_addr := start_addr, sb_end_addr := end_addr, sb_used := True, sb_bidir_range_set := False\<rparr>
     in case sb_buf sbuf of
          None \<Rightarrow> Some sbuf1
        | Some syncbuf \<Rightarrow> do {
            syncbuf' \<leftarrow> os_memcpy syncbuf start_addr buf start_addr (end_addr - start_addr + 1);
            let sbuf2 = sbuf1\<lparr>sb_buf := Some syncbuf'\<rparr>;
            if has_flag (sb_flags sbuf) IOC_BIDIRECTIONAL then sync_bidir_bits sbuf2 start_addr end_addr
            else Some sbuf2 })"

definition ioc_sbuf_synchronize ::
  "bool \<Rightarrow> byte list \<Rightarrow> int \<Rightarrow> iocSourceBuffer \<Rightarrow> (osalStatus \<times> iocSourceBuffer \<times> ioc_event list) option" where
  "ioc_sbuf_synchronize has_trig buf mblk_nbytes sbuf =
    (if \<not> sb_changed_range_set sbuf \<and> \<not> sb_make_keyframe sbuf \<or> sb_used sbuf
     then Some (if sb_changed_range_set sbuf then OSAL_PENDING else OSAL_SUCCESS, sbuf, [])
     else do {
       sel \<leftarrow> sync_select buf mblk_nbytes (sbuf\<lparr>sb_changed_range_set := False\<rparr>);
       (case sel of
          None \<Rightarrow> Some (OSAL_SUCCESS, sbuf\<lparr>sb_changed_range_set := False\<rparr>, [])
        | Some (s, e, sbuf1) \<Rightarrow> do {
            sbuf2 \<leftarrow> sync_capture buf s e sbuf1;
            Some (OSAL_SUCCESS, sbuf2, if has_trig then [WorkerTrig] else [])
          }) })"

section \<open>The loops\<close>

declare filter_start.simps [simp del] filter_end.simps [simp del] shrink_start.simps [simp del]
  shrink_end.simps [simp del]

text \<open>Two regions agree on the addresses from \<open>s\<close> up to and not including \<open>e\<close>.\<close>

definition agree :: "byte list \<Rightarrow> byte list \<Rightarrow> int \<Rightarrow> int \<Rightarrow> bool" where
  "agree m1 m2 s e \<longleftrightarrow> (\<forall>i. s \<le> int i \<and> int i < e \<longrightarrow> m1 ! i = m2 ! i)"

lemma agree_empty [simp]: "e \<le> s \<Longrightarrow> agree m1 m2 s e"
  by (auto simp: agree_def)

lemma agree_step_low: "0 \<le> s \<Longrightarrow> m1 ! nat s = m2 ! nat s \<Longrightarrow> agree m1 m2 (s + 1) e \<Longrightarrow> agree m1 m2 s e"
  unfolding agree_def by (metis add1_zle_eq nat_int order_less_le)

lemma agree_step_high: "0 \<le> e \<Longrightarrow> m1 ! nat e = m2 ! nat e \<Longrightarrow> agree m1 m2 s e \<Longrightarrow> agree m1 m2 s (e + 1)"
  unfolding agree_def by (metis nat_int order_less_le zless_add1_eq)

lemma shrink_start_spec:
  assumes "0 \<le> s" and "s \<le> e + 1" and "e < int (length m1)" and "e < int (length m2)"
  shows "\<exists>s'. shrink_start m1 m2 s e = Some s' \<and> s \<le> s' \<and> s' \<le> e + 1 \<and> agree m1 m2 s s'"
  using assms
proof (induction m1 m2 s e rule: shrink_start.induct)
  case (1 m1 m2 s e)
  show ?case
  proof (cases "s \<le> e \<and> m1 ! nat s = m2 ! nat s")
    case True
    then obtain s' where "shrink_start m1 m2 (s + 1) e = Some s'" "s + 1 \<le> s'" "s' \<le> e + 1"
      "agree m1 m2 (s + 1) s'"
      using "1.IH" [of "m1 ! nat s" "m2 ! nat s"] "1.prems" by (auto simp: rd_in)
    with True "1.prems" show ?thesis
      by (subst shrink_start.simps) (auto simp: rd_in intro: agree_step_low)
  next
    case False
    with "1.prems" show ?thesis by (subst shrink_start.simps) (auto simp: rd_in)
  qed
qed

lemma shrink_end_spec:
  assumes "0 \<le> s" and "s \<le> e + 1" and "e < int (length m1)" and "e < int (length m2)"
  shows "\<exists>e'. shrink_end m1 m2 s e = Some e' \<and> s \<le> e' + 1 \<and> e' \<le> e \<and> agree m1 m2 (e' + 1) (e + 1)"
  using assms
proof (induction m1 m2 s e rule: shrink_end.induct)
  case (1 m1 m2 s e)
  show ?case
  proof (cases "s \<le> e \<and> m1 ! nat e = m2 ! nat e")
    case True
    then obtain e' where "shrink_end m1 m2 s (e - 1) = Some e'" "s \<le> e' + 1" "e' \<le> e - 1"
      "agree m1 m2 (e' + 1) e"
      using "1.IH" [of "m1 ! nat e" "m2 ! nat e"] "1.prems" by (auto simp: rd_in)
    with True "1.prems" show ?thesis
      by (subst shrink_end.simps) (auto simp: rd_in intro: agree_step_high)
  next
    case False
    with "1.prems" show ?thesis by (subst shrink_end.simps) (auto simp: rd_in)
  qed
qed

lemma filter_start_spec:
  assumes "0 \<le> s" and "s \<le> e" and "e < int (length m1)" and "e < int (length m2)"
  shows "\<exists>r. filter_start m1 m2 s e = Some r \<and>
    (case r of None \<Rightarrow> agree m1 m2 s (e + 1) | Some s' \<Rightarrow> s \<le> s' \<and> s' \<le> e \<and> agree m1 m2 s s')"
  using assms
proof (induction m1 m2 s e rule: filter_start.induct)
  case (1 m1 m2 s e)
  show ?case
  proof (cases "s < e \<and> m1 ! nat s = m2 ! nat s")
    case True
    then obtain r where "filter_start m1 m2 (s + 1) e = Some r"
      "case r of None \<Rightarrow> agree m1 m2 (s + 1) (e + 1) | Some s' \<Rightarrow> s + 1 \<le> s' \<and> s' \<le> e \<and> agree m1 m2 (s + 1) s'"
      using "1.IH" [of "m1 ! nat s" "m2 ! nat s"] "1.prems" by (auto simp: rd_in)
    with True "1.prems" show ?thesis
      by (subst filter_start.simps) (auto simp: rd_in split: option.splits intro: agree_step_low)
  next
    case False
    with "1.prems" show ?thesis
      by (subst filter_start.simps) (auto simp: rd_in intro: agree_step_low split: option.splits)
  qed
qed

lemma filter_end_spec:
  assumes "0 \<le> s" and "s \<le> e" and "e < int (length m1)" and "e < int (length m2)"
  shows "\<exists>e'. filter_end m1 m2 s e = Some e' \<and> s \<le> e' \<and> e' \<le> e \<and> agree m1 m2 (e' + 1) (e + 1)"
  using assms
proof (induction m1 m2 s e rule: filter_end.induct)
  case (1 m1 m2 s e)
  show ?case
  proof (cases "s < e \<and> m1 ! nat e = m2 ! nat e")
    case True
    then obtain e' where "filter_end m1 m2 s (e - 1) = Some e'" "s \<le> e'" "e' \<le> e - 1"
      "agree m1 m2 (e' + 1) e"
      using "1.IH" [of "m1 ! nat e" "m2 ! nat e"] "1.prems" by (auto simp: rd_in)
    with True "1.prems" show ?thesis
      by (subst filter_end.simps) (auto simp: rd_in intro: agree_step_high)
  next
    case False
    with "1.prems" show ?thesis by (subst filter_end.simps) (auto simp: rd_in)
  qed
qed

lemma delta_encode_spec:
  assumes "0 \<le> i" and "i + int n \<le> int (length buf)" and "i + int n \<le> int (length syncbuf)"
    and "i + int n \<le> int (length delta)"
  shows "\<exists>d. delta_encode buf syncbuf delta i n = Some d \<and> length d = length delta \<and>
    (\<forall>k < length delta. d ! k = (if i \<le> int k \<and> int k < i + int n then buf ! k - syncbuf ! k else delta ! k))"
  using assms
proof (induction n arbitrary: i delta)
  case 0
  then show ?case by auto
next
  case (Suc n)
  let ?d = "delta[nat i := buf ! nat i - syncbuf ! nat i]"
  obtain d where "delta_encode buf syncbuf ?d (i + 1) n = Some d" "length d = length delta"
    "\<forall>k < length delta. d ! k = (if i + 1 \<le> int k \<and> int k < i + 1 + int n then buf ! k - syncbuf ! k else ?d ! k)"
    using Suc.IH [of "i + 1" ?d] Suc.prems by auto
  with Suc.prems show ?case by (auto simp: rd_in wr_in nth_list_update)
qed

section \<open>Change bits\<close>

text \<open>Change bit of data byte \<open>i\<close> in a buffer that has \<open>ndata\<close> data bytes before its bits.\<close>

definition marked :: "byte list \<Rightarrow> int \<Rightarrow> int \<Rightarrow> bool" where
  "marked buf ndata i = bit (buf ! nat (ndata + i div 8)) (nat (i mod 8))"

lemma bit_ff: "bit (0xFF :: byte) j \<longleftrightarrow> j < 8"
proof -
  have "(0xFF :: byte) = - 1" by simp
  then show ?thesis by (simp only: bit_minus_1_iff possible_bit_word) simp
qed

lemma ff_or [simp]: "b OR 0xFF = (0xFF :: byte)"
proof -
  have "(0xFF :: byte) = - 1" by simp
  then show ?thesis by (simp only: bit.disj_one_right)
qed

lemma bit_start_mask: "bit (push_bit k 0xFF :: byte) j \<longleftrightarrow> k \<le> j \<and> j < 8"
  unfolding bit_push_bit_iff bit_ff by auto

lemma bit_end_mask: "bit (drop_bit k 0xFF :: byte) j \<longleftrightarrow> k + j < 8"
  unfolding bit_drop_bit_eq o_def bit_ff ..

lemma or_at_in: "0 \<le> p \<Longrightarrow> p < int (length m) \<Longrightarrow> or_at m p v = Some (m[nat p := m ! nat p OR v])"
  by (simp add: or_at_def rd_in wr_in)

lemma or_fill_spec:
  "0 \<le> p \<Longrightarrow> p + int n \<le> int (length m) \<Longrightarrow> \<exists>m'. or_fill m p n = Some m' \<and> length m' = length m \<and>
    (\<forall>k < length m. m' ! k = (if p \<le> int k \<and> int k < p + int n then 0xFF else m ! k))"
proof (induction n arbitrary: m p)
  case 0
  then show ?case by auto
next
  case (Suc n)
  let ?m = "m[nat p := 0xFF]"
  obtain m' where "or_fill ?m (p + 1) n = Some m'" "length m' = length m"
    "\<forall>k < length m. m' ! k = (if p + 1 \<le> int k \<and> int k < p + 1 + int n then 0xFF else ?m ! k)"
    using Suc.IH [of "p + 1" ?m] Suc.prems by auto
  with Suc.prems show ?case by (auto simp: or_at_in nth_list_update)
qed

lemma group_le: "a div 8 = b div 8 \<Longrightarrow> a \<le> b \<longleftrightarrow> a mod 8 \<le> b mod (8 :: int)"
  using div_mult_mod_eq [of a 8] div_mult_mod_eq [of b 8] by linarith

lemma group_less: "a div 8 < b div 8 \<Longrightarrow> a < (b :: int)"
  using zdiv_mono1 [of b a 8] by linarith

text \<open>What \<open>ioc_sbuf_invalidate_bytes\<close> promises of the buffer it leaves.\<close>

definition marks_range :: "int \<Rightarrow> int \<Rightarrow> int \<Rightarrow> byte list \<Rightarrow> byte list \<Rightarrow> bool" where
  "marks_range n s e buf buf' \<longleftrightarrow> length buf' = length buf \<and> (\<forall>k. int k < n \<longrightarrow> buf' ! k = buf ! k) \<and>
    (\<forall>i. 0 \<le> i \<and> i < n \<longrightarrow> marked buf' n i = (marked buf n i \<or> s \<le> i \<and> i \<le> e))"

lemma mask_bits:
  "bit (push_bit (nat (s mod 8)) 0xFF :: byte) (nat (i mod 8)) \<longleftrightarrow> s mod 8 \<le> i mod (8 :: int)"
  "bit (drop_bit (nat (7 - e mod 8)) 0xFF :: byte) (nat (i mod 8)) \<longleftrightarrow> i mod 8 \<le> e mod (8 :: int)"
  using pos_mod_bound [of 8 i] pos_mod_bound [of 8 e] pos_mod_bound [of 8 s]
  by (auto simp: bit_start_mask bit_end_mask nat_le_iff)

lemma group_bounds:
  "0 \<le> s \<Longrightarrow> s \<le> e \<Longrightarrow> e < n \<Longrightarrow> 0 \<le> s div 8 \<and> s div 8 \<le> e div 8 \<and> e div 8 < (n + 7) div (8 :: int)"
  by (auto intro: zdiv_mono1)

lemma invalidate_bytes_one:
  assumes b: "sb_buf sbuf = Some buf" and r: "0 \<le> s" "s \<le> e" "e < sb_ndata sbuf"
    and sz: "sb_ndata sbuf + (sb_ndata sbuf + 7) div 8 \<le> int (length buf)"
    and same: "s div 8 = e div 8"
  shows "\<exists>buf'. ioc_sbuf_invalidate_bytes sbuf s e = Some (sbuf\<lparr>sb_buf := Some buf'\<rparr>) \<and>
    marks_range (sb_ndata sbuf) s e buf buf'"
proof -
  let ?n = "sb_ndata sbuf" and ?s = "s div 8" and ?e = "e div 8"
  let ?sm = "push_bit (nat (s mod 8)) 0xFF :: byte" and ?em = "drop_bit (nat (7 - e mod 8)) 0xFF :: byte"
  note se = group_bounds [OF r, THEN conjunct1] group_bounds [OF r, THEN conjunct2, THEN conjunct1]
    group_bounds [OF r, THEN conjunct2, THEN conjunct2]
  let ?b = "buf[nat (?n + ?s) := buf ! nat (?n + ?s) OR (?sm AND ?em)]"
  have "ioc_sbuf_invalidate_bytes sbuf s e = Some (sbuf\<lparr>sb_buf := Some ?b\<rparr>)"
    using b r se sz same by (simp add: ioc_sbuf_invalidate_bytes_def Let_def or_at_in)
  moreover have "marked ?b ?n i = (marked buf ?n i \<or> s \<le> i \<and> i \<le> e)" if "0 \<le> i" "i < ?n" for i
  proof (cases "i div 8 = ?s")
    case True
    have k: "nat (?n + ?s) < length buf" using se sz r by simp
    have "s \<le> i \<longleftrightarrow> s mod 8 \<le> i mod 8" by (rule group_le) (rule True [symmetric])
    moreover have "i \<le> e \<longleftrightarrow> i mod 8 \<le> e mod 8" by (rule group_le) (rule trans [OF True same])
    ultimately have "s \<le> i \<and> i \<le> e \<longleftrightarrow> s mod 8 \<le> i mod 8 \<and> i mod 8 \<le> e mod 8" by (simp only:)
    with True k show ?thesis by (simp add: marked_def bit_or_iff bit_and_iff mask_bits)
  next
    case False
    then have "\<not> (s \<le> i \<and> i \<le> e)" using same group_less [of i s] group_less [of e i] by linarith
    moreover have "0 \<le> i div 8" using that by simp
    then have "nat (?n + i div 8) \<noteq> nat (?n + ?s)" using False se(1) r by (simp add: nat_eq_iff)
    ultimately show ?thesis by (auto simp: marked_def)
  qed
  moreover have "?b ! j = buf ! j" if "int j < ?n" for j
  proof -
    have "nat (?n + ?s) \<noteq> j" using that se(1) by linarith
    then show ?thesis by (rule nth_list_update_neq)
  qed
  moreover have "length ?b = length buf" by (rule length_list_update)
  ultimately show ?thesis unfolding marks_range_def by blast
qed

text \<open>The bytes between the first and the last group are filled.\<close>

lemma marked_filled:
  assumes r: "0 \<le> s" "s \<le> e" "e < n" and sz: "n + (n + 7) div 8 \<le> int (length buf)" and lt: "s div 8 < e div 8"
    and len: "length b2 = length buf"
    and b2: "\<forall>k < length buf. b2 ! k = (if n + s div 8 + 1 \<le> int k \<and> int k < n + e div 8 then 0xFF
      else buf[nat (n + s div 8) := buf ! nat (n + s div 8) OR push_bit (nat (s mod 8)) 0xFF] ! k)"
    and i: "0 \<le> i" "i < n"
  shows "marked (b2[nat (n + e div 8) := b2 ! nat (n + e div 8) OR drop_bit (nat (7 - e mod 8)) 0xFF]) n i =
    (marked buf n i \<or> s \<le> i \<and> i \<le> e)"
proof -
  let ?n = n and ?s = "s div 8" and ?e = "e div 8"
  let ?sm = "push_bit (nat (s mod 8)) 0xFF :: byte" and ?em = "drop_bit (nat (7 - e mod 8)) 0xFF :: byte"
  let ?b3 = "b2[nat (?n + ?e) := b2 ! nat (?n + ?e) OR ?em]"
  note se = group_bounds [OF r, THEN conjunct1] group_bounds [OF r, THEN conjunct2, THEN conjunct1]
    group_bounds [OF r, THEN conjunct2, THEN conjunct2]
  have nb: "0 \<le> ?n" using r by simp
  let ?g = "i div 8"
  have g: "0 \<le> ?g" "?g < (?n + 7) div 8" using i by auto
  have k: "nat (?n + ?g) < length buf" using g sz r by simp
  have k': "nat (?n + ?s) < length buf" using se sz r by simp
  have ki: "int (nat (?n + ?g)) = ?n + ?g" using g r by simp
  have "0 \<le> ?n + ?g" "0 \<le> ?n + ?e" "0 \<le> ?n + ?s" using g se nb by linarith+
  then have ke: "nat (?n + ?e) = nat (?n + ?g) \<longleftrightarrow> ?e = ?g" "nat (?n + ?s) = nat (?n + ?g) \<longleftrightarrow> ?s = ?g"
    by (simp_all only: eq_nat_nat_iff add_left_cancel)
  have b3: "?b3 ! nat (?n + ?g) = (if ?g = ?e then b2 ! nat (?n + ?e) OR ?em else b2 ! nat (?n + ?g))"
    using k len ke(1) by (auto simp: nth_list_update)
  have c: "?n + ?s + 1 \<le> ?n + ?g \<longleftrightarrow> ?s < ?g" "?n + ?g < ?n + ?e \<longleftrightarrow> ?g < ?e" by linarith+
  have b2': "b2 ! nat (?n + ?g) = (if ?s < ?g \<and> ?g < ?e then 0xFF
      else if ?s = ?g then buf ! nat (?n + ?s) OR ?sm else buf ! nat (?n + ?g))"
    using b2 [rule_format, OF k] by (simp only: ki c nth_list_update [OF k'] ke)
  consider "?g < ?s \<or> ?e < ?g" | "?g = ?s" | "?g = ?e" | "?s < ?g" "?g < ?e" by linarith
  then show ?thesis
  proof cases
    case 1
    then have "\<not> (s \<le> i \<and> i \<le> e)" using group_less [of i s] group_less [of e i] by linarith
    moreover have "?g \<noteq> ?e" "?s \<noteq> ?g" "\<not> (?s < ?g \<and> ?g < ?e)" using 1 lt by linarith+
    ultimately show ?thesis using b3 b2' by (simp only: marked_def if_False simp_thms)
  next
    case 2
    have "s \<le> i \<longleftrightarrow> s mod 8 \<le> i mod 8" by (rule group_le) (rule 2 [symmetric])
    moreover have "i \<le> e" using group_less [of i e] lt 2 by linarith
    moreover have "?g \<noteq> ?e" "?s = ?g" "\<not> (?s < ?g \<and> ?g < ?e)" using 2 lt by linarith+
    then have "?b3 ! nat (?n + ?g) = buf ! nat (?n + ?g) OR ?sm"
      using b3 b2' by (simp only: if_False if_True simp_thms)
    ultimately show ?thesis unfolding marked_def by (simp only: bit_or_iff mask_bits simp_thms)
  next
    case 3
    have "i \<le> e \<longleftrightarrow> i mod 8 \<le> e mod 8" by (rule group_le) (rule 3)
    moreover have "s \<le> i" using group_less [of s i] lt 3 by linarith
    moreover have "?g = ?e" "?s \<noteq> ?g" "\<not> (?s < ?g \<and> ?g < ?e)" using 3 lt by linarith+
    then have "?b3 ! nat (?n + ?g) = buf ! nat (?n + ?g) OR ?em"
      using b3 b2' by (simp only: if_False if_True simp_thms)
    ultimately show ?thesis unfolding marked_def by (simp only: bit_or_iff mask_bits simp_thms)
  next
    case 4
    then have "s \<le> i" "i \<le> e" using group_less [of s i] group_less [of i e] by linarith+
    moreover have "bit (0xFF :: byte) (nat (i mod 8))" unfolding bit_ff using pos_mod_bound [of 8 i] by simp
    moreover have "?g \<noteq> ?e" using 4 by linarith
    then have "?b3 ! nat (?n + ?g) = 0xFF" using 4 b3 b2' by (simp only: if_False if_True simp_thms)
    ultimately show ?thesis unfolding marked_def by (simp only: simp_thms)
  qed
qed

lemma invalidate_bytes_many:
  assumes b: "sb_buf sbuf = Some buf" and r: "0 \<le> s" "s \<le> e" "e < sb_ndata sbuf"
    and sz: "sb_ndata sbuf + (sb_ndata sbuf + 7) div 8 \<le> int (length buf)"
    and lt: "s div 8 < e div 8"
  shows "\<exists>buf'. ioc_sbuf_invalidate_bytes sbuf s e = Some (sbuf\<lparr>sb_buf := Some buf'\<rparr>) \<and>
    marks_range (sb_ndata sbuf) s e buf buf'"
proof -
  let ?n = "sb_ndata sbuf" and ?s = "s div 8" and ?e = "e div 8"
  let ?sm = "push_bit (nat (s mod 8)) 0xFF :: byte" and ?em = "drop_bit (nat (7 - e mod 8)) 0xFF :: byte"
  note se = group_bounds [OF r, THEN conjunct1] group_bounds [OF r, THEN conjunct2, THEN conjunct1]
    group_bounds [OF r, THEN conjunct2, THEN conjunct2]
  let ?c = "nat (?e - ?s - 1)"
  let ?b1 = "buf[nat (?n + ?s) := buf ! nat (?n + ?s) OR ?sm]"
  obtain b2 where b2: "or_fill ?b1 (?n + ?s + 1) ?c = Some b2" "length b2 = length buf"
    "\<forall>k < length buf. b2 ! k = (if ?n + ?s + 1 \<le> int k \<and> int k < ?n + ?s + 1 + int ?c then 0xFF else ?b1 ! k)"
    using or_fill_spec [of "?n + ?s + 1" ?c ?b1] se sz lt r by auto
  have ec: "?n + ?s + 1 + int ?c = ?n + ?e" using lt by simp
  let ?b3 = "b2[nat (?n + ?e) := b2 ! nat (?n + ?e) OR ?em]"
  have nb: "?n + (?n + 7) div 8 \<le> int (length buf)" "0 \<le> ?n" using sz r by simp_all
  have o1: "or_at buf (?n + ?s) ?sm = Some ?b1" by (rule or_at_in) (use se nb in linarith)+
  have o3: "or_at b2 (?n + ?e) ?em = Some ?b3" by (rule or_at_in) (use se nb b2(2) in linarith)+
  have "ioc_sbuf_invalidate_bytes sbuf s e = Some (sbuf\<lparr>sb_buf := Some ?b3\<rparr>)"
    unfolding ioc_sbuf_invalidate_bytes_def Let_def b
    using lt [THEN less_imp_neq] r(2) b2(1) o1 o3 ec by (simp only: option.case if_False bind.bind_lunit linorder_not_less [symmetric])
  moreover have "marked ?b3 ?n i = (marked buf ?n i \<or> s \<le> i \<and> i \<le> e)" if i: "0 \<le> i" "i < ?n" for i
    by (rule marked_filled [OF r sz lt b2(2) _ i]) (use b2(3) in \<open>simp only: ec\<close>)
  moreover have "?b3 ! k = buf ! k" if k: "int k < ?n" for k
  proof -
    have "nat (?n + ?e) \<noteq> k" "nat (?n + ?s) \<noteq> k" "\<not> ?n + ?s + 1 \<le> int k" "k < length buf"
      using k se nb by linarith+
    then show ?thesis using b2(3) by (simp only: nth_list_update_neq if_False simp_thms)
  qed
  moreover have "length ?b3 = length buf" using b2(2) by simp
  ultimately show ?thesis unfolding marks_range_def by blast
qed

lemma invalidate_bytes_spec:
  assumes b: "sb_buf sbuf = Some buf" and r: "0 \<le> s" "s \<le> e" "e < sb_ndata sbuf"
    and sz: "sb_ndata sbuf + (sb_ndata sbuf + 7) div 8 \<le> int (length buf)"
  shows "\<exists>buf'. ioc_sbuf_invalidate_bytes sbuf s e = Some (sbuf\<lparr>sb_buf := Some buf'\<rparr>) \<and>
    marks_range (sb_ndata sbuf) s e buf buf'"
proof (cases "s div 8 = e div 8")
  case True
  with assms show ?thesis by (rule invalidate_bytes_one)
next
  case False
  with r zdiv_mono1 [of s e 8] have "s div 8 < e div 8" by simp
  with assms show ?thesis by (rule invalidate_bytes_many)
qed

section \<open>Invariant\<close>

text \<open>
  A source buffer of a non static memory block of \<open>n\<close> bytes is well formed when its two buffers
  have the size recorded and every range it holds lies within the data or the change bits. It
  \<^emph>\<open>covers\<close> the content of the memory block when every byte that differs from the captured
  values lies in the range marked changed (unless everything is going to be sent anyway).
\<close>

definition is_bidir :: "iocSourceBuffer \<Rightarrow> bool" where
  "is_bidir sbuf = has_flag (sb_flags sbuf) IOC_BIDIRECTIONAL"

definition total_sz :: "bool \<Rightarrow> nat \<Rightarrow> nat" where
  "total_sz bidir n = (if bidir then n + (n + 7) div 8 else n)"

definition sbuf_wf :: "nat \<Rightarrow> iocSourceBuffer \<Rightarrow> bool" where
  "sbuf_wf n sbuf \<longleftrightarrow> 0 < n \<and> sb_ndata sbuf = int n \<and> sb_nbytes sbuf = int (total_sz (is_bidir sbuf) n) \<and>
    (\<exists>b d. sb_buf sbuf = Some b \<and> sb_delta sbuf = Some d \<and>
       length b = total_sz (is_bidir sbuf) n \<and> length d = total_sz (is_bidir sbuf) n) \<and>
    (sb_changed_range_set sbuf \<longrightarrow>
       0 \<le> sb_changed_start sbuf \<and> sb_changed_start sbuf \<le> sb_changed_end sbuf \<and> sb_changed_end sbuf < int n) \<and>
    (sb_used sbuf \<longrightarrow> 0 \<le> sb_start_addr sbuf \<and> sb_start_addr sbuf \<le> sb_end_addr sbuf \<and>
       (sb_end_addr sbuf < int n \<or>
        is_bidir sbuf \<and> int n \<le> sb_start_addr sbuf \<and> sb_end_addr sbuf < sb_nbytes sbuf \<and> \<not> sb_bidir_range_set sbuf)) \<and>
    (sb_bidir_range_set sbuf \<longrightarrow> is_bidir sbuf \<and> int n \<le> sb_bidir_start sbuf \<and>
       sb_bidir_start sbuf \<le> sb_bidir_end sbuf \<and> sb_bidir_end sbuf < sb_nbytes sbuf)"

definition sb_values :: "iocSourceBuffer \<Rightarrow> byte list" where
  "sb_values sbuf = (case sb_buf sbuf of None \<Rightarrow> [] | Some b \<Rightarrow> b)"

definition sb_deltas :: "iocSourceBuffer \<Rightarrow> byte list" where
  "sb_deltas sbuf = (case sb_delta sbuf of None \<Rightarrow> [] | Some d \<Rightarrow> d)"

definition covers :: "byte list \<Rightarrow> iocSourceBuffer \<Rightarrow> bool" where
  "covers m sbuf \<longleftrightarrow> sb_make_keyframe sbuf \<or> (\<forall>i < length m. m ! i \<noteq> sb_values sbuf ! i \<longrightarrow>
     sb_changed_range_set sbuf \<and> sb_changed_start sbuf \<le> int i \<and> int i \<le> sb_changed_end sbuf)"

lemma sbuf_wf_buffers:
  assumes "sbuf_wf n sbuf"
  shows "sb_buf sbuf = Some (sb_values sbuf)" "sb_delta sbuf = Some (sb_deltas sbuf)"
    "length (sb_values sbuf) = total_sz (is_bidir sbuf) n" "length (sb_deltas sbuf) = total_sz (is_bidir sbuf) n"
  using assms by (auto simp: sbuf_wf_def sb_values_def sb_deltas_def)

lemma total_sz_ge [simp]: "n \<le> total_sz b n"
  by (simp add: total_sz_def)

section \<open>Writes and marking\<close>

text \<open>The range \<open>ioc_sbuf_invalidate\<close> marks for a write to \<open>s\<close> to \<open>e\<close>: \<open>None\<close> if nothing differs.\<close>

lemma merge_changed_covers:
  assumes "sbuf_wf n sbuf" and "covers m sbuf" and "length m = n" and "length m' = n"
    and "\<forall>i < n. int i < s \<or> e < int i \<longrightarrow> m' ! i = m ! i \<or> m' ! i = sb_values sbuf ! i"
  shows "covers m' (merge_changed sbuf s e)"
proof -
  have "sb_changed_range_set (merge_changed sbuf s e) \<and> sb_changed_start (merge_changed sbuf s e) \<le> int i \<and>
      int i \<le> sb_changed_end (merge_changed sbuf s e)"
    if i: "i < n" "m' ! i \<noteq> sb_values sbuf ! i" and k: "\<not> sb_make_keyframe sbuf" for i
  proof (cases "s \<le> int i \<and> int i \<le> e")
    case True
    then show ?thesis by (auto simp: merge_changed_def)
  next
    case False
    with assms i have "m ! i \<noteq> sb_values sbuf ! i" by force
    with assms(2,3) i k show ?thesis by (force simp: covers_def merge_changed_def)
  qed
  then show ?thesis using assms(4) by (auto simp: covers_def merge_changed_def sb_values_def)
qed

lemma merge_changed_wf:
  assumes "sbuf_wf n sbuf" and "0 \<le> s" and "s \<le> e" and "e < int n"
  shows "sbuf_wf n (merge_changed sbuf s e)"
  using assms by (auto simp: sbuf_wf_def merge_changed_def is_bidir_def)

lemma merge_changed_same:
  "sb_buf (merge_changed sbuf s e) = sb_buf sbuf" "sb_ndata (merge_changed sbuf s e) = sb_ndata sbuf"
  "sb_flags (merge_changed sbuf s e) = sb_flags sbuf" "sb_make_keyframe (merge_changed sbuf s e) = sb_make_keyframe sbuf"
  "sb_values (merge_changed sbuf s e) = sb_values sbuf"
  by (simp_all add: merge_changed_def sb_values_def)

lemma covers_buf_cong:
  assumes "covers m sbuf" and "length m = n" and "\<forall>k. k < n \<longrightarrow> b ! k = sb_values sbuf ! k"
  shows "covers m (sbuf\<lparr>sb_buf := Some b\<rparr>)"
  using assms by (auto simp: covers_def sb_values_def)

lemma invalidate_plain:
  assumes wf: "sbuf_wf n sbuf" and cov: "covers m sbuf" and len: "length m = n" "length m' = n"
    and r: "0 \<le> s" "s \<le> e" "e < int n" and nb: "\<not> is_bidir sbuf"
    and out: "\<forall>i < n. int i < s \<or> e < int i \<longrightarrow> m' ! i = m ! i"
  shows "\<exists>sbuf'. ioc_sbuf_invalidate m' sbuf s e = Some sbuf' \<and> sbuf_wf n sbuf' \<and> covers m' sbuf'"
proof (cases "e - s < 256")
  case True
  note b = sbuf_wf_buffers [OF wf]
  have eb: "e < int (length (sb_values sbuf))" and em: "e < int (length m')"
    using b(3) r len by (simp_all add: total_sz_def)
  obtain x where x: "filter_start m' (sb_values sbuf) s e = Some x"
    "case x of None \<Rightarrow> agree m' (sb_values sbuf) s (e + 1) | Some s' \<Rightarrow> s \<le> s' \<and> s' \<le> e \<and> agree m' (sb_values sbuf) s s'"
    using filter_start_spec [OF r(1,2) em eb] by blast
  show ?thesis
  proof (cases x)
    case None
    with x True nb b(1) have "ioc_sbuf_invalidate m' sbuf s e = Some sbuf"
      by (simp add: ioc_sbuf_invalidate_def is_bidir_def)
    moreover have "covers m' sbuf"
      using cov len out x None by (force simp: covers_def agree_def)
    ultimately show ?thesis using wf by blast
  next
    case (Some s')
    with x have s': "s \<le> s'" "s' \<le> e" "agree m' (sb_values sbuf) s s'" by simp_all
    with r have "0 \<le> s'" by simp
    then obtain e' where e': "filter_end m' (sb_values sbuf) s' e = Some e'" "s' \<le> e'" "e' \<le> e"
      "agree m' (sb_values sbuf) (e' + 1) (e + 1)"
      using filter_end_spec [OF _ s'(2) em eb] by blast
    from x Some True nb b(1) e'(1) have "ioc_sbuf_invalidate m' sbuf s e = Some (merge_changed sbuf s' e')"
      by (simp add: ioc_sbuf_invalidate_def is_bidir_def Let_def)
    moreover have "covers m' (merge_changed sbuf s' e')"
      using out s'(3) e'(4) by (intro merge_changed_covers [OF wf cov len]) (force simp: agree_def)
    moreover have "sbuf_wf n (merge_changed sbuf s' e')"
      using r s' e' by (intro merge_changed_wf [OF wf]) auto
    ultimately show ?thesis by blast
  qed
next
  case False
  with nb sbuf_wf_buffers(1) [OF wf] have "ioc_sbuf_invalidate m' sbuf s e = Some (merge_changed sbuf s e)"
    by (simp add: ioc_sbuf_invalidate_def is_bidir_def)
  moreover have "covers m' (merge_changed sbuf s e)"
    using out by (intro merge_changed_covers [OF wf cov len]) auto
  ultimately show ?thesis using merge_changed_wf [OF wf r] by blast
qed

lemma invalidate_bidir:
  assumes wf: "sbuf_wf n sbuf" and cov: "covers m sbuf" and len: "length m = n" "length m' = n"
    and r: "0 \<le> s" "s \<le> e" "e < int n" and bi: "is_bidir sbuf"
    and out: "\<forall>i < n. int i < s \<or> e < int i \<longrightarrow> m' ! i = m ! i"
  shows "\<exists>sbuf'. ioc_sbuf_invalidate m' sbuf s e = Some sbuf' \<and> sbuf_wf n sbuf' \<and> covers m' sbuf' \<and>
    marks_range (int n) s e (sb_values sbuf) (sb_values sbuf')"
proof -
  note b = sbuf_wf_buffers [OF wf]
  let ?sb = "merge_changed sbuf s e"
  have nd: "sb_ndata sbuf = int n" using wf by (simp add: sbuf_wf_def)
  obtain b' where b': "ioc_sbuf_invalidate_bytes ?sb s e = Some (?sb\<lparr>sb_buf := Some b'\<rparr>)"
    "marks_range (int n) s e (sb_values sbuf) b'"
    using invalidate_bytes_spec [of ?sb "sb_values sbuf" s e] b r bi nd
    by (auto simp: merge_changed_same total_sz_def zdiv_int)
  have "ioc_sbuf_invalidate m' sbuf s e = Some (?sb\<lparr>sb_buf := Some b'\<rparr>)"
    using bi b(1) b'(1) by (simp add: ioc_sbuf_invalidate_def is_bidir_def Let_def)
  moreover have "covers m' (?sb\<lparr>sb_buf := Some b'\<rparr>)"
    using out b'(2) by (intro covers_buf_cong [OF merge_changed_covers [OF wf cov len] len(2)])
      (auto simp: marks_range_def merge_changed_same)
  moreover have "sbuf_wf n (?sb\<lparr>sb_buf := Some b'\<rparr>)"
    using merge_changed_wf [OF wf r] b'(2) b by (auto simp: sbuf_wf_def is_bidir_def marks_range_def merge_changed_same)
  ultimately show ?thesis using b'(2) by (auto simp: sb_values_def)
qed

section \<open>Capturing\<close>

text \<open>
  What a synchronization that is not blocked leaves: \<open>m\<close> is the content of the memory block,
  \<open>old\<close> the buffer before, \<open>new\<close> the buffer after. The captured values equal the memory block,
  nothing is marked changed, and the range and the deltas describe exactly how to get from the old
  values to the new ones.
\<close>

definition captured :: "byte list \<Rightarrow> iocSourceBuffer \<Rightarrow> iocSourceBuffer \<Rightarrow> bool" where
  "captured m old new \<longleftrightarrow>
    \<not> sb_changed_range_set new \<and> \<not> sb_make_keyframe new \<and> sb_flags new = sb_flags old \<and>
    sb_remote_mblk_id new = sb_remote_mblk_id old \<and>
    (\<forall>i < length m. sb_values new ! i = m ! i) \<and>
    (if sb_used new then sb_end_addr new < int (length m) \<and> sb_is_keyframe new = sb_make_keyframe old \<and>
       (\<forall>i < length m.
          if sb_start_addr new \<le> int i \<and> int i \<le> sb_end_addr new
          then sb_deltas new ! i = (if sb_make_keyframe old then m ! i else m ! i - sb_values old ! i)
          else \<not> sb_make_keyframe old \<and> m ! i = sb_values old ! i)
     else \<not> sb_make_keyframe old \<and> (\<forall>i < length m. m ! i = sb_values old ! i))"

lemma sync_select_keyframe:
  assumes wf: "sbuf_wf n sbuf" and len: "length m = n" and k: "sb_make_keyframe sbuf"
  shows "sync_select m (int n) sbuf = Some (Some (0, int n - 1, sbuf\<lparr>sb_delta := Some (splice (sb_deltas sbuf) 0 m),
    sb_make_keyframe := False, sb_is_keyframe := True\<rparr>))"
  using sbuf_wf_buffers [OF wf] len k
  by (simp add: sync_select_def os_memcpy_in total_sz_def)

lemma sync_select_delta:
  assumes wf: "sbuf_wf n sbuf" and cov: "covers m sbuf" and len: "length m = n"
    and k: "\<not> sb_make_keyframe sbuf" and ch: "sb_changed_range_set sbuf"
  shows "\<exists>r. sync_select m (int n) (sbuf\<lparr>sb_changed_range_set := False\<rparr>) = Some r \<and>
    (case r of None \<Rightarrow> \<forall>i < n. m ! i = sb_values sbuf ! i
     | Some (s, e, sbuf') \<Rightarrow> 0 \<le> s \<and> s \<le> e \<and> e < int n \<and>
        (\<forall>i < n. int i < s \<or> e < int i \<longrightarrow> m ! i = sb_values sbuf ! i) \<and>
        (\<exists>d. sbuf' = sbuf\<lparr>sb_changed_range_set := False, sb_delta := Some d, sb_is_keyframe := False\<rparr> \<and>
           length d = length (sb_deltas sbuf) \<and>
           (\<forall>i < n. s \<le> int i \<and> int i \<le> e \<longrightarrow> d ! i = m ! i - sb_values sbuf ! i)))"
proof -
  let ?v = "sb_values sbuf" and ?cs = "sb_changed_start sbuf" and ?ce = "sb_changed_end sbuf"
  note b = sbuf_wf_buffers [OF wf]
  have c: "0 \<le> ?cs" "?cs \<le> ?ce" "?ce < int n" using wf ch by (simp_all add: sbuf_wf_def)
  have lv: "?ce < int (length ?v)" "?ce < int (length m)" using c b len by (simp_all add: total_sz_def)
  obtain s e where se: "(if \<not> is_bidir sbuf then do {
             s \<leftarrow> shrink_start ?v m ?cs ?ce; e \<leftarrow> shrink_end ?v m s ?ce; Some (s, e)
           } else Some (?cs, ?ce)) = Some (s, e)" "?cs \<le> s" "e \<le> ?ce" "agree ?v m ?cs s" "agree ?v m (e + 1) (?ce + 1)"
  proof (cases "is_bidir sbuf")
    case True
    then show ?thesis using that by simp
  next
    case False
    obtain s where s: "shrink_start ?v m ?cs ?ce = Some s" "?cs \<le> s" "s \<le> ?ce + 1" "agree ?v m ?cs s"
      using shrink_start_spec [of ?cs ?ce ?v m] c lv by auto
    obtain e where "shrink_end ?v m s ?ce = Some e" "e \<le> ?ce" "agree ?v m (e + 1) (?ce + 1)"
      using shrink_end_spec [of s ?ce ?v m] s c lv by auto
    with s False show ?thesis using that by simp
  qed
  have out: "m ! i = ?v ! i" if i: "i < n" "int i < s \<or> e < int i" for i
  proof (cases "?cs \<le> int i \<and> int i \<le> ?ce")
    case True
    with i se(4,5) show ?thesis by (auto simp: agree_def)
  next
    case False
    with cov k i len show ?thesis by (auto simp: covers_def)
  qed
  show ?thesis
  proof (cases "e < s")
    case True
    then have "\<forall>i < n. m ! i = ?v ! i" using out by force
    moreover have "sync_select m (int n) (sbuf\<lparr>sb_changed_range_set := False\<rparr>) = Some None"
      using True k b(1) se(1) by (cases "is_bidir sbuf") (auto simp: sync_select_def is_bidir_def bind_eq_Some_conv)
    ultimately show ?thesis by simp
  next
    case False
    obtain d where d: "delta_encode m ?v (sb_deltas sbuf) s (nat (e - s + 1)) = Some d" "length d = length (sb_deltas sbuf)"
      "\<forall>k < length (sb_deltas sbuf). d ! k = (if s \<le> int k \<and> int k < s + int (nat (e - s + 1)) then m ! k - ?v ! k else sb_deltas sbuf ! k)"
      using delta_encode_spec [of s "nat (e - s + 1)" m ?v "sb_deltas sbuf"] False c se(2,3) lv b by auto
    have "sync_select m (int n) (sbuf\<lparr>sb_changed_range_set := False\<rparr>) =
        Some (Some (s, e, sbuf\<lparr>sb_changed_range_set := False, sb_delta := Some d, sb_is_keyframe := False\<rparr>))"
      using False k b(1,2) se(1) d(1) by (cases "is_bidir sbuf") (auto simp: sync_select_def is_bidir_def bind_eq_Some_conv)
    moreover have "\<forall>i < n. s \<le> int i \<and> int i \<le> e \<longrightarrow> d ! i = m ! i - ?v ! i"
      using d(3) b(4) False by (auto simp: total_sz_def)
    ultimately show ?thesis using False c se(2,3) out d(2) by auto
  qed
qed

lemma sync_bidir_bits_spec:
  assumes v: "sb_buf sb = Some v" and d: "sb_delta sb = Some d" and nd: "sb_ndata sb = int n"
    and ld: "int (length d) = int n + (int n + 7) div 8" and lv: "length v = length d"
    and r: "0 \<le> s" "s \<le> e" "e < int n"
  shows "\<exists>v' d' p q. sync_bidir_bits sb s e = Some (sb\<lparr>sb_delta := Some d', sb_buf := Some v',
      sb_bidir_start := p, sb_bidir_end := q, sb_bidir_range_set := True\<rparr>) \<and>
    int n \<le> p \<and> p \<le> q \<and> q < int n + (int n + 7) div 8 \<and> length v' = length v \<and> length d' = length d \<and>
    (\<forall>i < n. v' ! i = v ! i \<and> d' ! i = d ! i)"
proof -
  define p k where "p = int n + s div 8" and "k = e div 8 - s div 8 + 1"
  have pk: "int n \<le> p" "1 \<le> k" "p + k \<le> int (length d)" "p + k - 1 < int n + (int n + 7) div 8"
    using group_bounds [OF r] ld unfolding p_def k_def by linarith+
  let ?xs = "take (nat k) (drop (nat p) v)" and ?ys = "replicate (nat k) (0 :: byte)"
  have li: "nat p + length ?xs \<le> length d" "nat p + length ?ys \<le> length v" using pk lv by auto
  have "os_memcpy d p v p k = Some (splice d (nat p) ?xs)" by (rule os_memcpy_in) (use pk lv in auto)
  moreover have "os_memclear v p k = Some (splice v (nat p) ?ys)" by (rule os_memclear_in) (use pk lv in auto)
  ultimately have "sync_bidir_bits sb s e = Some (sb\<lparr>sb_delta := Some (splice d (nat p) ?xs), sb_buf := Some (splice v (nat p) ?ys),
      sb_bidir_start := p, sb_bidir_end := p + k - 1, sb_bidir_range_set := True\<rparr>)"
    unfolding sync_bidir_bits_def Let_def nd v d p_def [symmetric] k_def [symmetric] by simp
  moreover have "splice v (nat p) ?ys ! i = v ! i \<and> splice d (nat p) ?xs ! i = d ! i" if "i < n" for i
    using that pk lv li by (auto simp: nth_splice)
  moreover have "p \<le> p + k - 1" using pk by simp
  ultimately show ?thesis using pk length_splice [OF li(1)] length_splice [OF li(2)] by blast
qed

lemma sync_capture_spec:
  assumes wf: "sbuf_wf n sbuf" and len: "length m = n" and r: "0 \<le> s" "s \<le> e" "e < int n"
  shows "\<exists>sbuf'. sync_capture m s e sbuf = Some sbuf' \<and> sbuf_wf n sbuf' \<and> sb_used sbuf' \<and>
    sb_start_addr sbuf' = s \<and> sb_end_addr sbuf' = e \<and> sb_flags sbuf' = sb_flags sbuf \<and>
    sb_remote_mblk_id sbuf' = sb_remote_mblk_id sbuf \<and>
    sb_changed_range_set sbuf' = sb_changed_range_set sbuf \<and> sb_make_keyframe sbuf' = sb_make_keyframe sbuf \<and>
    sb_is_keyframe sbuf' = sb_is_keyframe sbuf \<and>
    (\<forall>i < n. sb_values sbuf' ! i = (if s \<le> int i \<and> int i \<le> e then m ! i else sb_values sbuf ! i) \<and>
       sb_deltas sbuf' ! i = sb_deltas sbuf ! i)"
proof -
  let ?v = "sb_values sbuf" and ?c = "nat (e - s + 1)"
  let ?v' = "splice ?v (nat s) (take ?c (drop (nat s) m))"
  let ?sb = "sbuf\<lparr>sb_start_addr := s, sb_end_addr := e, sb_used := True, sb_bidir_range_set := False, sb_buf := Some ?v'\<rparr>"
  note b = sbuf_wf_buffers [OF wf]
  have nv: "n \<le> length ?v" using b(3) by simp
  have cp: "os_memcpy ?v s m s (e - s + 1) = Some ?v'" by (rule os_memcpy_in) (use r nv len in auto)
  have lv: "length ?v' = length ?v" using r nv len by (intro length_splice) auto
  have v': "?v' ! i = (if s \<le> int i \<and> int i \<le> e then m ! i else ?v ! i)" if "i < n" for i
    using that r nv len by (subst nth_splice) (auto simp: nat_le_iff)
  show ?thesis
  proof (cases "is_bidir sbuf")
    case False
    then have "sync_capture m s e sbuf = Some ?sb"
      using b(1) cp by (simp add: sync_capture_def is_bidir_def)
    moreover have "sbuf_wf n ?sb" using wf r False lv b by (auto simp: sbuf_wf_def is_bidir_def)
    ultimately show ?thesis using v' by (auto simp: sb_values_def sb_deltas_def)
  next
    case True
    have nd: "sb_ndata ?sb = int n" "sb_nbytes sbuf = int n + (int n + 7) div 8"
      using wf True by (simp_all add: sbuf_wf_def total_sz_def zdiv_int)
    have ll: "int (length (sb_deltas sbuf)) = int n + (int n + 7) div 8" "length ?v' = length (sb_deltas sbuf)"
      using lv b True by (simp_all add: total_sz_def zdiv_int)
    obtain v2 d2 p q where sb2: "sync_bidir_bits ?sb s e = Some (?sb\<lparr>sb_delta := Some d2, sb_buf := Some v2,
        sb_bidir_start := p, sb_bidir_end := q, sb_bidir_range_set := True\<rparr>)"
      and pq: "int n \<le> p" "p \<le> q" "q < sb_nbytes sbuf" and l2: "length v2 = length ?v'" "length d2 = length (sb_deltas sbuf)"
      and same: "\<forall>i < n. v2 ! i = ?v' ! i \<and> d2 ! i = sb_deltas sbuf ! i"
      using sync_bidir_bits_spec [of ?sb ?v' "sb_deltas sbuf" n s e] nd ll r b(2) by auto
    let ?sb2 = "?sb\<lparr>sb_delta := Some d2, sb_buf := Some v2, sb_bidir_start := p, sb_bidir_end := q, sb_bidir_range_set := True\<rparr>"
    have "sync_capture m s e sbuf = Some ?sb2"
      using b(1) cp True sb2 by (simp add: sync_capture_def is_bidir_def)
    moreover have "sbuf_wf n ?sb2" using wf r True lv b pq l2 by (simp add: sbuf_wf_def is_bidir_def)
    ultimately show ?thesis using v' same by (auto simp: sb_values_def sb_deltas_def)
  qed
qed

lemma sbuf_wf_update:
  assumes "sbuf_wf n sbuf" and "length d = length (sb_deltas sbuf)"
  shows "sbuf_wf n (sbuf\<lparr>sb_changed_range_set := False, sb_delta := Some d, sb_make_keyframe := k, sb_is_keyframe := k'\<rparr>)"
    and "sbuf_wf n (sbuf\<lparr>sb_changed_range_set := False, sb_delta := Some d, sb_is_keyframe := k'\<rparr>)"
  using assms sbuf_wf_buffers [OF assms(1)] by (auto simp: sbuf_wf_def is_bidir_def)

lemma sbuf_wf_clear: "sbuf_wf n sbuf \<Longrightarrow> sbuf_wf n (sbuf\<lparr>sb_changed_range_set := False\<rparr>)"
  by (auto simp: sbuf_wf_def is_bidir_def)

lemma synchronize_spec:
  assumes wf: "sbuf_wf n sbuf" and cov: "covers m sbuf" and len: "length m = n"
    and nu: "\<not> sb_used sbuf" and ch: "sb_changed_range_set sbuf \<or> sb_make_keyframe sbuf"
  shows "\<exists>sbuf' ev. ioc_sbuf_synchronize ht m (int n) sbuf = Some (OSAL_SUCCESS, sbuf', ev) \<and>
    sbuf_wf n sbuf' \<and> captured m sbuf sbuf'"
proof (cases "sb_make_keyframe sbuf")
  case True
  note b = sbuf_wf_buffers [OF wf]
  let ?d = "splice (sb_deltas sbuf) 0 m"
  let ?sb = "sbuf\<lparr>sb_changed_range_set := False, sb_delta := Some ?d, sb_make_keyframe := False, sb_is_keyframe := True\<rparr>"
  have ld: "length ?d = length (sb_deltas sbuf)" "length m \<le> length (sb_deltas sbuf)"
    using b(4) len by (simp_all add: total_sz_def)
  have "sbuf_wf n ?sb" by (rule sbuf_wf_update(1) [OF wf ld(1)])
  moreover have "sync_select m (int n) (sbuf\<lparr>sb_changed_range_set := False\<rparr>) = Some (Some (0, int n - 1, ?sb))"
    using sync_select_keyframe [of n "sbuf\<lparr>sb_changed_range_set := False\<rparr>" m] sbuf_wf_clear [OF wf] len True
    by (simp add: sb_deltas_def)
  moreover have "0 < n" using wf by (simp add: sbuf_wf_def)
  moreover have "\<forall>i < n. ?d ! i = m ! i" using ld len by (auto simp: nth_splice)
  ultimately show ?thesis
    using sync_capture_spec [of n ?sb m 0 "int n - 1"] len nu True
    by (auto simp: ioc_sbuf_synchronize_def captured_def sb_deltas_def)
next
  case False
  with ch have c: "sb_changed_range_set sbuf" by simp
  obtain r where r: "sync_select m (int n) (sbuf\<lparr>sb_changed_range_set := False\<rparr>) = Some r"
    "case r of None \<Rightarrow> \<forall>i < n. m ! i = sb_values sbuf ! i
     | Some (s, e, sbuf') \<Rightarrow> 0 \<le> s \<and> s \<le> e \<and> e < int n \<and>
        (\<forall>i < n. int i < s \<or> e < int i \<longrightarrow> m ! i = sb_values sbuf ! i) \<and>
        (\<exists>d. sbuf' = sbuf\<lparr>sb_changed_range_set := False, sb_delta := Some d, sb_is_keyframe := False\<rparr> \<and>
           length d = length (sb_deltas sbuf) \<and>
           (\<forall>i < n. s \<le> int i \<and> int i \<le> e \<longrightarrow> d ! i = m ! i - sb_values sbuf ! i))"
    using sync_select_delta [OF wf cov len False c] by blast
  show ?thesis
  proof (cases r)
    case None
    with r have eq: "\<forall>i < n. m ! i = sb_values sbuf ! i" by simp
    have "ioc_sbuf_synchronize ht m (int n) sbuf = Some (OSAL_SUCCESS, sbuf\<lparr>sb_changed_range_set := False\<rparr>, [])"
      using None r(1) nu c by (simp add: ioc_sbuf_synchronize_def)
    then show ?thesis using wf eq len nu False by (auto simp: captured_def sbuf_wf_def is_bidir_def sb_values_def)
  next
    case (Some x)
    obtain s e sbuf1 where x: "x = (s, e, sbuf1)" by (cases x)
    with Some r obtain d where se: "0 \<le> s" "s \<le> e" "e < int n"
      and out: "\<forall>i < n. int i < s \<or> e < int i \<longrightarrow> m ! i = sb_values sbuf ! i"
      and sb1: "sbuf1 = sbuf\<lparr>sb_changed_range_set := False, sb_delta := Some d, sb_is_keyframe := False\<rparr>"
      and d: "length d = length (sb_deltas sbuf)" "\<forall>i < n. s \<le> int i \<and> int i \<le> e \<longrightarrow> d ! i = m ! i - sb_values sbuf ! i"
      by auto
    have "sbuf_wf n sbuf1" unfolding sb1 by (rule sbuf_wf_update(2) [OF wf d(1)])
    from sync_capture_spec [OF this len se] obtain sbuf' where sc: "sync_capture m s e sbuf1 = Some sbuf'"
      and post: "sbuf_wf n sbuf'" "sb_used sbuf'" "sb_start_addr sbuf' = s" "sb_end_addr sbuf' = e"
        "sb_flags sbuf' = sb_flags sbuf1" "sb_remote_mblk_id sbuf' = sb_remote_mblk_id sbuf1"
        "sb_changed_range_set sbuf' = sb_changed_range_set sbuf1" "sb_make_keyframe sbuf' = sb_make_keyframe sbuf1"
        "sb_is_keyframe sbuf' = sb_is_keyframe sbuf1"
      and vals: "\<forall>i < n. sb_values sbuf' ! i = (if s \<le> int i \<and> int i \<le> e then m ! i else sb_values sbuf1 ! i) \<and>
        sb_deltas sbuf' ! i = sb_deltas sbuf1 ! i" by blast
    have "sb_values sbuf1 = sb_values sbuf" "sb_deltas sbuf1 = d" by (simp_all add: sb1 sb_values_def sb_deltas_def)
    with vals out d(2) have "\<forall>i < n. sb_values sbuf' ! i = m ! i"
      "\<forall>i < n. s \<le> int i \<and> int i \<le> e \<longrightarrow> sb_deltas sbuf' ! i = m ! i - sb_values sbuf ! i" by auto
    with post out len se False have "captured m sbuf sbuf'" by (auto simp: captured_def sb1)
    moreover have "\<exists>ev. ioc_sbuf_synchronize ht m (int n) sbuf = Some (OSAL_SUCCESS, sbuf', ev)"
      using Some x r(1) nu c sc by (simp add: ioc_sbuf_synchronize_def)
    ultimately show ?thesis using post(1) by blast
  qed
qed

section \<open>Properties\<close>

text \<open>A small buffer for the concrete instances below.\<close>

definition sbuf_sample :: "u16 \<Rightarrow> byte list \<Rightarrow> byte list \<Rightarrow> iocSourceBuffer" where
  "sbuf_sample flags b d = \<lparr>sb_remote_mblk_id = 10, sb_immediate_sync_needed = False, sb_changed_range_set = False,
    sb_changed_start = 0, sb_changed_end = 0, sb_buf = Some b, sb_delta = Some d, sb_nbytes = int (length b),
    sb_used = False, sb_make_keyframe = False, sb_is_keyframe = False, sb_start_addr = 0, sb_end_addr = 0,
    sb_bidir_start = 0, sb_bidir_end = 0, sb_bidir_range_set = False, sb_flags = flags, sb_ndata = 3,
    sb_mblk = 0, sb_con = 0\<rparr>"

lemmas sample_simps = sbuf_sample_def sbuf_wf_def covers_def sb_values_def is_bidir_def total_sz_def
  has_flag_def IOC_BIDIRECTIONAL_def less_Suc_eq numeral_2_eq_2 numeral_3_eq_3

text \<open>
  \<^bold>\<open>C15\<close>: marking a write never loses a change. If the content of the memory block changes at most
  between \<open>s\<close> and \<open>e\<close> and \<open>ioc_sbuf_invalidate\<close> is called for that range, the call returns,
  keeps the source buffer well formed, and afterwards every byte that differs from the values
  captured last lies in the marked range, also when the call narrowed the range or returned early
  because nothing seemed to differ.
\<close>

theorem invalidate_keeps_coverage:
  assumes "sbuf_wf n sbuf" and "covers m sbuf" and "length m = n" and "length m' = n"
    and "0 \<le> s" and "s \<le> e" and "e < int n" and "\<forall>i < n. int i < s \<or> e < int i \<longrightarrow> m' ! i = m ! i"
  shows "\<exists>sbuf'. ioc_sbuf_invalidate m' sbuf s e = Some sbuf' \<and> sbuf_wf n sbuf' \<and> covers m' sbuf'"
  using invalidate_plain [OF assms(1-7) _ assms(8)] invalidate_bidir [OF assms(1-7) _ assms(8)] by blast

theorem invalidate_keeps_coverage_witness:
  "\<exists>sbuf'. ioc_sbuf_invalidate [1, 9, 3] (sbuf_sample 0 [1, 2, 3] [0, 0, 0]) 0 1 = Some sbuf' \<and>
     sbuf_wf 3 sbuf' \<and> covers [1, 9, 3] sbuf'"
  by (rule invalidate_keeps_coverage [where m = "[1, 2, 3]"]) (auto simp: sample_simps)

text \<open>
  Bidirectional transfers mark changes at byte precision. After
  \<open>ioc_sbuf_invalidate_bytes\<close> the change bit of a byte is set exactly if it was set before or
  the byte lies in the range, for ranges within one byte of bits and across many, and no data
  byte is touched.
\<close>

theorem invalidate_bytes_marks_exactly:
  assumes "sb_buf sbuf = Some buf" and "0 \<le> s" and "s \<le> e" and "e < sb_ndata sbuf"
    and "sb_ndata sbuf + (sb_ndata sbuf + 7) div 8 \<le> int (length buf)"
  shows "\<exists>buf'. ioc_sbuf_invalidate_bytes sbuf s e = Some (sbuf\<lparr>sb_buf := Some buf'\<rparr>) \<and>
    length buf' = length buf \<and> (\<forall>k. int k < sb_ndata sbuf \<longrightarrow> buf' ! k = buf ! k) \<and>
    (\<forall>i. 0 \<le> i \<and> i < sb_ndata sbuf \<longrightarrow>
       marked buf' (sb_ndata sbuf) i = (marked buf (sb_ndata sbuf) i \<or> s \<le> i \<and> i \<le> e))"
  using invalidate_bytes_spec [OF assms] by (auto simp: marks_range_def)

theorem invalidate_bytes_marks_exactly_witness:
  "\<exists>buf'. ioc_sbuf_invalidate_bytes (sbuf_sample 8 [1, 2, 3, 0] [0, 0, 0, 0]) 1 2 =
       Some (sbuf_sample 8 [1, 2, 3, 0] [0, 0, 0, 0]\<lparr>sb_buf := Some buf'\<rparr>) \<and>
    length buf' = length [1, 2, 3, 0 :: byte] \<and>
    (\<forall>k. int k < sb_ndata (sbuf_sample 8 [1, 2, 3, 0] [0, 0, 0, 0]) \<longrightarrow> buf' ! k = [1, 2, 3, 0] ! k) \<and>
    (\<forall>i. 0 \<le> i \<and> i < sb_ndata (sbuf_sample 8 [1, 2, 3, 0] [0, 0, 0, 0]) \<longrightarrow>
       marked buf' (sb_ndata (sbuf_sample 8 [1, 2, 3, 0] [0, 0, 0, 0])) i =
       (marked [1, 2, 3, 0] (sb_ndata (sbuf_sample 8 [1, 2, 3, 0] [0, 0, 0, 0])) i \<or> 1 \<le> i \<and> i \<le> 2))"
  by (rule invalidate_bytes_marks_exactly) (simp_all add: sbuf_sample_def)

text \<open>
  \<^bold>\<open>C16\<close>: a synchronization captures the memory block. Called while the buffer is free and
  something is marked, \<open>ioc_sbuf_synchronize\<close> succeeds without leaving its buffers; afterwards
  the captured values equal the memory block, nothing is marked changed, and the deltas over the
  range to send turn exactly the previously captured values into the new ones (for a key frame the
  range is the whole block and the values themselves are sent).
\<close>

theorem synchronize_captures:
  assumes "sbuf_wf n sbuf" and "covers m sbuf" and "length m = n"
    and "\<not> sb_used sbuf" and "sb_changed_range_set sbuf \<or> sb_make_keyframe sbuf"
  shows "\<exists>sbuf' ev. ioc_sbuf_synchronize has_trig m (int n) sbuf = Some (OSAL_SUCCESS, sbuf', ev) \<and>
    sbuf_wf n sbuf' \<and> captured m sbuf sbuf'"
  by (rule synchronize_spec [OF assms])

theorem synchronize_captures_witness:
  "\<exists>sbuf' ev. ioc_sbuf_synchronize True [1, 9, 3] (int 3) (sbuf_sample 0 [1, 2, 3] [0, 0, 0]\<lparr>sb_make_keyframe := True\<rparr>) =
      Some (OSAL_SUCCESS, sbuf', ev) \<and> sbuf_wf 3 sbuf' \<and>
    captured [1, 9, 3] (sbuf_sample 0 [1, 2, 3] [0, 0, 0]\<lparr>sb_make_keyframe := True\<rparr>) sbuf'"
  by (rule synchronize_captures) (auto simp: sample_simps)

end
