(* ===== verification/Ioc_Callback.thy ===== *)
theory Ioc_Callback
  imports Ioc_Frame
begin

text \<open>
  The callback table of a memory block: \<open>ioc_do_callback\<close>, \<open>ioc_add_callback\<close> and
  \<open>ioc_remove_callback\<close> of \<open>code/ioc_memory_block.c\<close>. The arrays \<open>func\<close> and \<open>context\<close> are
  kept as one list of \<open>IOC_MBLK_MAX_CALLBACK_FUNCS\<close> slots, \<open>None\<close> for a null function pointer
  (whose context is null as well, which \<open>ioc_add_callback\<close> and \<open>ioc_remove_callback\<close> keep).
  Functions and contexts are identified by numbers; calling one is an event.
\<close>

type_synonym callback_table = "(nat \<times> nat) option list"

definition IOC_MBLK_MAX_CALLBACK_FUNCS :: nat where "IOC_MBLK_MAX_CALLBACK_FUNCS = 2"

definition IOC_MBLK_CALLBACK_RECEIVE :: u16 where "IOC_MBLK_CALLBACK_RECEIVE = 2"
definition IOC_MBLK_CALLBACK_WRITE_TRIGGER :: u16 where "IOC_MBLK_CALLBACK_WRITE_TRIGGER = 4"
definition IOC_MBLK_CALLBACK_RECEIVE_TRIGGER :: u16 where "IOC_MBLK_CALLBACK_RECEIVE_TRIGGER = 8"

fun ioc_do_callback :: "callback_table \<Rightarrow> u16 \<Rightarrow> int \<Rightarrow> int \<Rightarrow> ioc_event list" where
  "ioc_do_callback [] flags s e = []"
| "ioc_do_callback (None # t) flags s e = ioc_do_callback t flags s e"
| "ioc_do_callback (Some (f, c) # t) flags s e = MblkCallback f c flags s e # ioc_do_callback t flags s e"

text \<open>Add to the first free position; \<open>False\<close> is the error \<open>Too many callback functions\<close>.\<close>

fun add_to_free :: "nat \<times> nat \<Rightarrow> callback_table \<Rightarrow> callback_table \<times> bool" where
  "add_to_free fc [] = ([], False)"
| "add_to_free fc (None # t) = (Some fc # t, True)"
| "add_to_free fc (Some x # t) = (let (t', ok) = add_to_free fc t in (Some x # t', ok))"

definition ioc_add_callback :: "nat \<times> nat \<Rightarrow> callback_table \<Rightarrow> callback_table \<times> bool" where
  "ioc_add_callback fc t = (if Some fc \<in> set t then (t, True) else add_to_free fc t)"

fun ioc_remove_callback :: "nat \<times> nat \<Rightarrow> callback_table \<Rightarrow> callback_table \<times> bool" where
  "ioc_remove_callback fc [] = ([], False)"
| "ioc_remove_callback fc (x # t) =
    (if x = Some fc then (None # t, True)
     else let (t', ok) = ioc_remove_callback fc t in (x # t', ok))"

section \<open>Lemmas\<close>

text \<open>The registered functions, in the order in which they are called.\<close>

fun registered :: "callback_table \<Rightarrow> (nat \<times> nat) list" where
  "registered [] = []"
| "registered (None # t) = registered t"
| "registered (Some fc # t) = fc # registered t"

lemma set_do_callback:
  "set (ioc_do_callback t flags s e) = {MblkCallback f c flags s e |f c. Some (f, c) \<in> set t}"
  by (induction t flags s e rule: ioc_do_callback.induct) auto

lemma registered_iff [simp]: "fc \<in> set (registered t) \<longleftrightarrow> Some fc \<in> set t"
  by (induction t rule: registered.induct) auto

lemma add_to_free_set: "add_to_free fc t = (t', True) \<Longrightarrow> insert (Some fc) (set t - {None}) \<subseteq> set t'"
  by (induction fc t arbitrary: t' rule: add_to_free.induct) (auto split: prod.splits)

lemma add_to_free_full: "add_to_free fc t = (t', False) \<Longrightarrow> None \<notin> set t \<and> t' = t"
  by (induction fc t arbitrary: t' rule: add_to_free.induct) (auto split: prod.splits)

lemma add_to_free_subset: "set (fst (add_to_free fc t)) \<subseteq> insert (Some fc) (set t)"
  by (induction fc t rule: add_to_free.induct) (auto split: prod.splits)

lemma length_add_to_free: "length (fst (add_to_free fc t)) = length t"
  by (induction fc t rule: add_to_free.induct) (auto split: prod.splits)

lemma distinct_add_to_free:
  "Some fc \<notin> set t \<Longrightarrow> distinct (registered t) \<Longrightarrow> distinct (registered (fst (add_to_free fc t)))"
proof (induction fc t rule: add_to_free.induct)
  case (3 fc x t)
  then show ?case using add_to_free_subset [of fc t] by (auto split: prod.splits)
qed auto

lemma count_registered:
  "distinct (registered t) \<Longrightarrow> Some (f, c) \<in> set t \<Longrightarrow>
   count_list (ioc_do_callback t flags s e) (MblkCallback f c flags s e) = 1"
  by (induction t flags s e rule: ioc_do_callback.induct) (auto simp: count_list_0_iff set_do_callback)

section \<open>Properties\<close>

text \<open>
  Registering a callback function. Starting from a table without duplicates,
  \<open>ioc_add_callback\<close> keeps the size and the absence of duplicates; when it succeeds, the next
  event calls the new function exactly once and still calls every function registered before;
  it fails only when the table is full, and then changes nothing.
\<close>

theorem add_callback_registers:
  assumes "distinct (registered t)" and "ioc_add_callback (f, c) t = (t', ok)"
  shows "length t' = length t \<and> distinct (registered t') \<and>
    (if ok then count_list (ioc_do_callback t' flags s e) (MblkCallback f c flags s e) = 1 \<and>
       set (ioc_do_callback t flags s e) \<subseteq> set (ioc_do_callback t' flags s e)
     else t' = t \<and> None \<notin> set t)"
proof (cases "Some (f, c) \<in> set t")
  case True
  with assms show ?thesis by (auto simp: ioc_add_callback_def count_registered)
next
  case False
  with assms have a: "add_to_free (f, c) t = (t', ok)" by (simp add: ioc_add_callback_def)
  have "length t' = length t" "distinct (registered t')"
    using length_add_to_free [of "(f, c)" t] distinct_add_to_free [OF False assms(1)] a by simp_all
  then show ?thesis
    using a add_to_free_set [of "(f, c)" t t'] add_to_free_full [of "(f, c)" t t']
    by (cases ok) (auto simp: count_registered set_do_callback)
qed

theorem add_callback_registers_witness:
  "length [Some (7, 1), Some (8, 2) :: (nat \<times> nat) option] = length [Some (7, 1), None :: (nat \<times> nat) option] \<and>
   distinct (registered [Some (7, 1), Some (8, 2)]) \<and>
   (if True then count_list (ioc_do_callback [Some (7, 1), Some (8, 2)] 2 0 5) (MblkCallback 8 2 2 0 5) = 1 \<and>
      set (ioc_do_callback [Some (7, 1), None] 2 0 5) \<subseteq> set (ioc_do_callback [Some (7, 1), Some (8, 2)] 2 0 5)
    else [Some (7, 1), Some (8, 2)] = [Some (7, 1), None :: (nat \<times> nat) option] \<and>
      None \<notin> set [Some (7, 1), None :: (nat \<times> nat) option])"
  by (rule add_callback_registers) (simp_all add: ioc_add_callback_def)

end
