(* ===== verification/Ioc_Target_Buffer.thy ===== *)
theory Ioc_Target_Buffer
  imports Ioc_Source_Buffer Ioc_Callback
begin

text \<open>
  Target buffers, \<open>code/ioc_target_buffer.c\<close> and \<open>.h\<close>: a target buffer links a memory block to the
  connection its data arrives from. Received frames are unpacked into \<open>syncbuf.newdata\<close>; when the
  sender marks a transfer complete, the new data is moved to \<open>syncbuf.buf\<close> as a snapshot, from
  which \<open>ioc_receive\<close> copies it into the memory block. \<open>ioc_store_data_frame\<close> of
  \<open>code/ioc_connection_receive.c\<close>, which drives both, is modelled here as well.

  As for source buffers, the structure is flattened; \<open>tb_buf\<close> and \<open>tb_newdata\<close> are the two halves
  of one allocation. The callback table of the memory block is an argument.
\<close>

section \<open>State\<close>

record iocTargetBuffer =
  tb_remote_mblk_id :: u16
  tb_buf :: "byte list option"
  tb_newdata :: "byte list"
  tb_nbytes :: int
  tb_buf_start :: int
  tb_buf_end :: int
  tb_buf_used :: bool
  tb_has_new_data :: bool
  tb_newdata_start :: int
  tb_newdata_end :: int
  tb_flags :: u16
  tb_ndata :: int
  tb_mblk :: nat
  tb_con :: nat

section \<open>Operations\<close>

definition ioc_tbuf_invalidate ::
  "callback_table \<Rightarrow> iocTargetBuffer \<Rightarrow> int \<Rightarrow> int \<Rightarrow> iocTargetBuffer \<times> ioc_event list" where
  "ioc_tbuf_invalidate cbs tbuf start_addr end_addr =
    (if start_addr \<ge> tb_ndata tbuf then (tbuf, [])
     else
       (if \<not> tb_has_new_data tbuf
        then tbuf\<lparr>tb_newdata_start := start_addr, tb_newdata_end := end_addr, tb_has_new_data := True\<rparr>
        else tbuf\<lparr>tb_newdata_start := (if start_addr < tb_newdata_start tbuf then start_addr else tb_newdata_start tbuf),
                  tb_newdata_end := (if end_addr > tb_newdata_end tbuf then end_addr else tb_newdata_end tbuf)\<rparr>,
        ioc_do_callback cbs IOC_MBLK_CALLBACK_RECEIVE_TRIGGER 0 0))"

text \<open>\<open>while (count--) *(dst++) |= *(src++)\<close> from position \<open>pos\<close> of both buffers.\<close>

primrec or_copy :: "byte list \<Rightarrow> byte list \<Rightarrow> int \<Rightarrow> nat \<Rightarrow> byte list option" where
  "or_copy dst src pos 0 = Some dst"
| "or_copy dst src pos (Suc count) = do {
     b \<leftarrow> rd src pos;
     dst' \<leftarrow> or_at dst pos b;
     or_copy dst' src (pos + 1) count }"

definition ioc_tbuf_synchronize :: "iocTargetBuffer \<Rightarrow> iocTargetBuffer option" where
  "ioc_tbuf_synchronize tbuf =
    (case tb_buf tbuf of
       None \<Rightarrow> Some tbuf
     | Some syncbuf \<Rightarrow>
       if \<not> tb_has_new_data tbuf then Some tbuf
       else do {
         let newdata = tb_newdata tbuf;
         (s, e) \<leftarrow> (if \<not> has_flag (tb_flags tbuf) IOC_BIDIRECTIONAL then do {
             s \<leftarrow> shrink_start syncbuf newdata (tb_newdata_start tbuf) (tb_newdata_end tbuf);
             e \<leftarrow> shrink_end syncbuf newdata s (tb_newdata_end tbuf);
             Some (s, e)
           } else Some (tb_newdata_start tbuf, tb_newdata_end tbuf));
         let tbuf1 = tbuf\<lparr>tb_has_new_data := False\<rparr>;
         if e < s then Some tbuf1
         else do {
           syncbuf1 \<leftarrow> os_memcpy syncbuf s newdata s (e - s + 1);
           syncbuf2 \<leftarrow> (if has_flag (tb_flags tbuf) IOC_BIDIRECTIONAL
              then or_copy syncbuf1 newdata (tb_ndata tbuf + s div 8) (nat (e div 8 - s div 8 + 1))
              else Some syncbuf1);
           Some (if tb_buf_used tbuf
             then tbuf1\<lparr>tb_buf := Some syncbuf2,
                    tb_buf_start := (if s < tb_buf_start tbuf then s else tb_buf_start tbuf),
                    tb_buf_end := (if e > tb_buf_end tbuf then e else tb_buf_end tbuf)\<rparr>
             else tbuf1\<lparr>tb_buf := Some syncbuf2, tb_buf_start := s, tb_buf_end := e, tb_buf_used := True\<rparr>)
         } })"

text \<open>
  \<open>ioc_store_data_frame\<close>. \<open>addr\<close> comes from the frame as \<open>os_uint\<close> and is an \<open>os_int\<close> here; the
  only check is that \<open>max_newdata\<close> is not negative. \<open>newdata\<close> is the second half of the allocation
  that starts with \<open>buf\<close>, so a negative address leads into \<open>buf\<close>, or before the allocation,
  which is \<open>None\<close>.
\<close>

definition uncompress_at ::
  "byte list \<Rightarrow> nat \<Rightarrow> iocTargetBuffer \<Rightarrow> int \<Rightarrow> int \<Rightarrow> byte \<Rightarrow> (int \<times> iocTargetBuffer) option" where
  "uncompress_at data data_sz tbuf addr max_newdata flags = do {
     buf \<leftarrow> tb_buf tbuf;
     let pos = int (length buf) + addr;
     if pos < 0 then None
     else do {
       (dst_bytes, mem) \<leftarrow> ioc_uncompress data data_sz (buf @ tb_newdata tbuf) (nat pos) (nat max_newdata) flags;
       Some (dst_bytes, tbuf\<lparr>tb_buf := Some (take (length buf) mem), tb_newdata := drop (length buf) mem\<rparr>)
     } }"

definition ioc_store_data_frame ::
  "callback_table \<Rightarrow> iocTargetBuffer \<Rightarrow> int \<Rightarrow> byte list \<Rightarrow> nat \<Rightarrow> byte \<Rightarrow>
   (osalStatus \<times> iocTargetBuffer \<times> ioc_event list) option" where
  "ioc_store_data_frame cbs tbuf addr data data_sz flags =
    (let max_newdata = tb_nbytes tbuf - addr
     in if max_newdata < 0 then Some (OSAL_STATUS_FAILED, tbuf, [])
        else do {
          (dst_bytes, tbuf1) \<leftarrow> uncompress_at data data_sz tbuf addr max_newdata flags;
          if dst_bytes = 0 then Some (OSAL_SUCCESS, tbuf1, [])
          else if dst_bytes < 0 then Some (OSAL_STATUS_FAILED, tbuf1, [])
          else do {
            let (tbuf2, ev) = ioc_tbuf_invalidate cbs tbuf1 addr (addr + dst_bytes - 1);
            tbuf3 \<leftarrow> (if has_flag flags IOC_SYNC_COMPLETE then ioc_tbuf_synchronize tbuf2 else Some tbuf2);
            Some (OSAL_SUCCESS, tbuf3, ev)
          } })"

section \<open>Invariant\<close>

text \<open>
  A target buffer of \<open>n\<close> data bytes is well formed when its buffers have the recorded size and its
  ranges lie within the data. It \<^emph>\<open>tracks\<close> new data when every byte where new data differs from
  the snapshot lies in the range marked as new.
\<close>

definition tb_snapshot :: "iocTargetBuffer \<Rightarrow> byte list" where
  "tb_snapshot t = (case tb_buf t of None \<Rightarrow> [] | Some b \<Rightarrow> b)"

definition tb_bidir :: "iocTargetBuffer \<Rightarrow> bool" where
  "tb_bidir t = has_flag (tb_flags t) IOC_BIDIRECTIONAL"

definition tbuf_wf :: "nat \<Rightarrow> iocTargetBuffer \<Rightarrow> bool" where
  "tbuf_wf n t \<longleftrightarrow> 0 < n \<and> tb_ndata t = int n \<and> tb_nbytes t = int (total_sz (tb_bidir t) n) \<and>
    (\<exists>b. tb_buf t = Some b \<and> length b = total_sz (tb_bidir t) n) \<and> length (tb_newdata t) = total_sz (tb_bidir t) n \<and>
    (tb_has_new_data t \<longrightarrow> 0 \<le> tb_newdata_start t \<and> tb_newdata_start t \<le> tb_newdata_end t \<and> tb_newdata_end t < int n) \<and>
    (tb_buf_used t \<longrightarrow> 0 \<le> tb_buf_start t \<and> tb_buf_start t \<le> tb_buf_end t \<and> tb_buf_end t < int n)"

definition tracks :: "nat \<Rightarrow> iocTargetBuffer \<Rightarrow> bool" where
  "tracks n t \<longleftrightarrow> (\<forall>i < n. tb_newdata t ! i \<noteq> tb_snapshot t ! i \<longrightarrow>
     tb_has_new_data t \<and> tb_newdata_start t \<le> int i \<and> int i \<le> tb_newdata_end t)"

lemma tbuf_wf_buffers:
  assumes "tbuf_wf n t"
  shows "tb_buf t = Some (tb_snapshot t)" "length (tb_snapshot t) = total_sz (tb_bidir t) n"
    "length (tb_newdata t) = total_sz (tb_bidir t) n"
  using assms by (auto simp: tbuf_wf_def tb_snapshot_def)

lemma or_copy_spec:
  "0 \<le> p \<Longrightarrow> p + int n \<le> int (length dst) \<Longrightarrow> p + int n \<le> int (length src) \<Longrightarrow>
   \<exists>d. or_copy dst src p n = Some d \<and> length d = length dst \<and>
    (\<forall>k < length dst. d ! k = (if p \<le> int k \<and> int k < p + int n then dst ! k OR src ! k else dst ! k))"
proof (induction n arbitrary: dst p)
  case 0
  then show ?case by auto
next
  case (Suc n)
  let ?d = "dst[nat p := dst ! nat p OR src ! nat p]"
  obtain d where "or_copy ?d src (p + 1) n = Some d" "length d = length dst"
    "\<forall>k < length dst. d ! k = (if p + 1 \<le> int k \<and> int k < p + 1 + int n then ?d ! k OR src ! k else ?d ! k)"
    using Suc.IH [of "p + 1" ?d] Suc.prems by auto
  with Suc.prems show ?case by (auto simp: or_at_in rd_in nth_list_update)
qed

text \<open>The range that \<open>ioc_tbuf_synchronize\<close> moves.\<close>

lemma tbuf_sync_range:
  assumes wf: "tbuf_wf n t" and h: "tb_has_new_data t"
  obtains s e where
    "(if \<not> has_flag (tb_flags t) IOC_BIDIRECTIONAL then do {
         s \<leftarrow> shrink_start (tb_snapshot t) (tb_newdata t) (tb_newdata_start t) (tb_newdata_end t);
         e \<leftarrow> shrink_end (tb_snapshot t) (tb_newdata t) s (tb_newdata_end t);
         Some (s, e)
       } else Some (tb_newdata_start t, tb_newdata_end t)) = Some (s, e)"
    "tb_newdata_start t \<le> s" "e \<le> tb_newdata_end t"
    "\<forall>i. tb_newdata_start t \<le> int i \<and> int i \<le> tb_newdata_end t \<and> (int i < s \<or> e < int i) \<longrightarrow>
       tb_newdata t ! i = tb_snapshot t ! i"
proof (cases "tb_bidir t")
  case True
  then show ?thesis by (intro that [of "tb_newdata_start t" "tb_newdata_end t"]) (auto simp: tb_bidir_def)
next
  case False
  let ?s = "tb_newdata_start t" and ?e = "tb_newdata_end t"
  note b = tbuf_wf_buffers [OF wf]
  have c: "0 \<le> ?s" "?s \<le> ?e" "?e < int n" using wf h by (simp_all add: tbuf_wf_def)
  have lv: "?e < int (length (tb_snapshot t))" "?e < int (length (tb_newdata t))" using b c by (simp_all add: total_sz_def)
  obtain s where s: "shrink_start (tb_snapshot t) (tb_newdata t) ?s ?e = Some s" "?s \<le> s" "s \<le> ?e + 1"
    "agree (tb_snapshot t) (tb_newdata t) ?s s"
    using shrink_start_spec [of ?s ?e "tb_snapshot t" "tb_newdata t"] c lv by auto
  obtain e where e: "shrink_end (tb_snapshot t) (tb_newdata t) s ?e = Some e" "e \<le> ?e"
    "agree (tb_snapshot t) (tb_newdata t) (e + 1) (?e + 1)"
    using shrink_end_spec [of s ?e "tb_snapshot t" "tb_newdata t"] s c lv by auto
  with s False show ?thesis by (intro that [of s e]) (auto simp: tb_bidir_def agree_def)
qed

lemma tbuf_copy_spec:
  assumes wf: "tbuf_wf n t" and r: "0 \<le> s" "s \<le> e" "e < int n"
  shows "\<exists>b1 b2. os_memcpy (tb_snapshot t) s (tb_newdata t) s (e - s + 1) = Some b1 \<and>
    (if has_flag (tb_flags t) IOC_BIDIRECTIONAL
     then or_copy b1 (tb_newdata t) (tb_ndata t + s div 8) (nat (e div 8 - s div 8 + 1)) else Some b1) = Some b2 \<and>
    length b2 = length (tb_snapshot t) \<and>
    (\<forall>i < n. b2 ! i = (if s \<le> int i \<and> int i \<le> e then tb_newdata t ! i else tb_snapshot t ! i))"
proof -
  note b = tbuf_wf_buffers [OF wf]
  let ?xs = "take (nat (e - s + 1)) (drop (nat s) (tb_newdata t))"
  let ?b1 = "splice (tb_snapshot t) (nat s) ?xs"
  have le: "e < int (length (tb_snapshot t))" "e < int (length (tb_newdata t))" using r b by (simp_all add: total_sz_def)
  have cp: "os_memcpy (tb_snapshot t) s (tb_newdata t) s (e - s + 1) = Some ?b1"
    by (rule os_memcpy_in) (use r le in auto)
  have li: "nat s + length ?xs \<le> length (tb_snapshot t)" using r le by auto
  have l1: "length ?b1 = length (tb_snapshot t)" by (rule length_splice [OF li])
  have v1: "?b1 ! i = (if s \<le> int i \<and> int i \<le> e then tb_newdata t ! i else tb_snapshot t ! i)" if "i < n" for i
  proof -
    have "i < length (tb_snapshot t)" using that b by (simp add: total_sz_def)
    then show ?thesis using nth_splice [OF li, of i] r le by auto
  qed
  show ?thesis
  proof (cases "tb_bidir t")
    case False
    then show ?thesis using cp l1 v1 by (auto simp: tb_bidir_def)
  next
    case True
    define p k where "p = int n + s div 8" and "k = nat (e div 8 - s div 8 + 1)"
    have nd: "tb_ndata t = int n" using wf by (simp add: tbuf_wf_def)
    have ll: "int (length ?b1) = int n + (int n + 7) div 8" "int (length (tb_newdata t)) = int n + (int n + 7) div 8"
      using l1 b True by (simp_all add: total_sz_def zdiv_int)
    have pk: "int n \<le> p" "0 \<le> p" "p + int k \<le> int (length ?b1)" "p + int k \<le> int (length (tb_newdata t))"
      using group_bounds [OF r] ll unfolding p_def k_def by linarith+
    obtain d where d: "or_copy ?b1 (tb_newdata t) p k = Some d" "length d = length ?b1"
      "\<forall>j < length ?b1. d ! j = (if p \<le> int j \<and> int j < p + int k then ?b1 ! j OR tb_newdata t ! j else ?b1 ! j)"
      using or_copy_spec [OF pk(2-4)] by blast
    have "d ! i = ?b1 ! i" if "i < n" for i
    proof -
      have "i < length ?b1" "\<not> p \<le> int i" using that pk(1) l1 b by (simp_all add: total_sz_def)
      then show ?thesis using d(3) by simp
    qed
    then show ?thesis using cp d(1,2) l1 v1 True
      unfolding nd p_def [symmetric] k_def [symmetric] by (auto simp: tb_bidir_def)
  qed
qed

text \<open>What a synchronization leaves: the bytes marked as new are moved to the snapshot.\<close>

definition is_new :: "iocTargetBuffer \<Rightarrow> nat \<Rightarrow> bool" where
  "is_new t i \<longleftrightarrow> tb_has_new_data t \<and> tb_newdata_start t \<le> int i \<and> int i \<le> tb_newdata_end t"

definition is_unread :: "iocTargetBuffer \<Rightarrow> nat \<Rightarrow> bool" where
  "is_unread t i \<longleftrightarrow> tb_buf_used t \<and> tb_buf_start t \<le> int i \<and> int i \<le> tb_buf_end t"

definition snapshot_taken :: "nat \<Rightarrow> iocTargetBuffer \<Rightarrow> iocTargetBuffer \<Rightarrow> bool" where
  "snapshot_taken n t t' \<longleftrightarrow> \<not> tb_has_new_data t' \<and> tb_newdata t' = tb_newdata t \<and> tb_flags t' = tb_flags t \<and>
    tb_remote_mblk_id t' = tb_remote_mblk_id t \<and> tb_mblk t' = tb_mblk t \<and> tb_con t' = tb_con t \<and>
    (\<forall>i < n. tb_snapshot t' ! i = (if is_new t i then tb_newdata t ! i else tb_snapshot t ! i)) \<and>
    (\<forall>i < n. tb_snapshot t' ! i \<noteq> tb_snapshot t ! i \<or> is_unread t i \<longrightarrow> is_unread t' i)"

lemma tbuf_synchronize_spec:
  assumes wf: "tbuf_wf n t"
  shows "\<exists>t'. ioc_tbuf_synchronize t = Some t' \<and> tbuf_wf n t' \<and> snapshot_taken n t t'"
proof (cases "tb_has_new_data t")
  case False
  with wf show ?thesis
    by (auto simp: ioc_tbuf_synchronize_def tbuf_wf_def snapshot_taken_def is_new_def tb_snapshot_def)
next
  case True
  note b = tbuf_wf_buffers [OF wf]
  obtain s e where r: "(if \<not> has_flag (tb_flags t) IOC_BIDIRECTIONAL then do {
         s \<leftarrow> shrink_start (tb_snapshot t) (tb_newdata t) (tb_newdata_start t) (tb_newdata_end t);
         e \<leftarrow> shrink_end (tb_snapshot t) (tb_newdata t) s (tb_newdata_end t);
         Some (s, e)
       } else Some (tb_newdata_start t, tb_newdata_end t)) = Some (s, e)"
    and sn: "tb_newdata_start t \<le> s" "e \<le> tb_newdata_end t"
    and out: "\<forall>i. tb_newdata_start t \<le> int i \<and> int i \<le> tb_newdata_end t \<and> (int i < s \<or> e < int i) \<longrightarrow>
       tb_newdata t ! i = tb_snapshot t ! i"
    by (rule tbuf_sync_range [OF wf True])
  have se: "0 \<le> s" "e < int n" using sn wf True by (auto simp: tbuf_wf_def)
  show ?thesis
  proof (cases "e < s")
    case True
    have "ioc_tbuf_synchronize t = Some (t\<lparr>tb_has_new_data := False\<rparr>)"
      unfolding ioc_tbuf_synchronize_def b(1) using \<open>tb_has_new_data t\<close> True by (simp add: r Let_def del: bind_assoc)
    moreover have "\<forall>i. is_new t i \<longrightarrow> tb_newdata t ! i = tb_snapshot t ! i" using out True by (force simp: is_new_def)
    ultimately show ?thesis using wf
      by (auto simp: tbuf_wf_def snapshot_taken_def tb_snapshot_def tb_bidir_def is_unread_def)
  next
    case False
    then have "s \<le> e" by simp
    then obtain b1 b2 where c: "os_memcpy (tb_snapshot t) s (tb_newdata t) s (e - s + 1) = Some b1"
        "(if has_flag (tb_flags t) IOC_BIDIRECTIONAL
          then or_copy b1 (tb_newdata t) (tb_ndata t + s div 8) (nat (e div 8 - s div 8 + 1)) else Some b1) = Some b2"
      and l2: "length b2 = length (tb_snapshot t)"
      and v2: "\<forall>i < n. b2 ! i = (if s \<le> int i \<and> int i \<le> e then tb_newdata t ! i else tb_snapshot t ! i)"
      using tbuf_copy_spec [OF wf se(1) _ se(2)] by blast
    let ?t = "if tb_buf_used t
       then t\<lparr>tb_has_new_data := False, tb_buf := Some b2,
              tb_buf_start := (if s < tb_buf_start t then s else tb_buf_start t),
              tb_buf_end := (if e > tb_buf_end t then e else tb_buf_end t)\<rparr>
       else t\<lparr>tb_has_new_data := False, tb_buf := Some b2, tb_buf_start := s, tb_buf_end := e, tb_buf_used := True\<rparr>"
    have sync: "ioc_tbuf_synchronize t = Some ?t"
      unfolding ioc_tbuf_synchronize_def b(1) using \<open>tb_has_new_data t\<close> False
      by (simp add: r c Let_def del: bind_assoc)
    have wf': "tbuf_wf n ?t" using wf se \<open>s \<le> e\<close> l2 b by (auto simp: tbuf_wf_def tb_bidir_def)
    have "\<forall>i < n. b2 ! i = (if is_new t i then tb_newdata t ! i else tb_snapshot t ! i)"
      using v2 out True sn by (auto simp: is_new_def)
    moreover have "\<forall>i < n. b2 ! i \<noteq> tb_snapshot t ! i \<or> is_unread t i \<longrightarrow> s \<le> int i \<and> int i \<le> e \<or> is_unread t i"
      using v2 by auto
    moreover have "s \<le> int i \<and> int i \<le> e \<or> is_unread t i \<Longrightarrow> is_unread ?t i" for i by (auto simp: is_unread_def)
    moreover have "tb_snapshot ?t = b2" by (simp add: tb_snapshot_def)
    ultimately have "snapshot_taken n t ?t" by (simp add: snapshot_taken_def)
    then show ?thesis using sync wf' by blast
  qed
qed

section \<open>Storing a frame\<close>

lemma overlay_right:
  "overlay delta (b @ m) (length b + i) xs = b @ overlay delta m i xs"
  by (simp add: overlay_def splice_def)

lemma tbuf_invalidate_spec:
  assumes wf: "tbuf_wf n t" and r: "0 \<le> s" "s \<le> e" "e < int n" and t': "ioc_tbuf_invalidate cbs t s e = (t', ev)"
  shows "tbuf_wf n t'" and "tb_has_new_data t'" and "tb_newdata t' = tb_newdata t" and "tb_snapshot t' = tb_snapshot t"
    and "tb_flags t' = tb_flags t" and "tb_mblk t' = tb_mblk t" and "tb_con t' = tb_con t"
    and "tb_remote_mblk_id t' = tb_remote_mblk_id t"
    and "tb_buf_used t' = tb_buf_used t" and "tb_buf_start t' = tb_buf_start t" and "tb_buf_end t' = tb_buf_end t"
    and "s \<le> int i \<and> int i \<le> e \<or> tb_has_new_data t \<and> tb_newdata_start t \<le> int i \<and> int i \<le> tb_newdata_end t \<Longrightarrow>
       tb_newdata_start t' \<le> int i \<and> int i \<le> tb_newdata_end t'"
  using assms by (auto simp: ioc_tbuf_invalidate_def tbuf_wf_def tb_bidir_def tb_snapshot_def split: if_splits)

text \<open>
  Effect of a data frame that carries \<open>xs\<close> for address \<open>a\<close>: the new data is overlaid; a frame that
  completes a transfer turns the new data into the snapshot, any other frame leaves the snapshot alone.
\<close>

definition frame_stored :: "nat \<Rightarrow> nat \<Rightarrow> byte \<Rightarrow> byte list \<Rightarrow> iocTargetBuffer \<Rightarrow> iocTargetBuffer \<Rightarrow> bool" where
  "frame_stored n a flags xs t t' \<longleftrightarrow> tbuf_wf n t' \<and> tracks n t' \<and> tb_flags t' = tb_flags t \<and>
    tb_remote_mblk_id t' = tb_remote_mblk_id t \<and> tb_mblk t' = tb_mblk t \<and> tb_con t' = tb_con t \<and>
    tb_newdata t' = overlay (has_flag flags IOC_DELTA_ENCODED) (tb_newdata t) a xs \<and>
    tb_has_new_data t' = (\<not> has_flag flags IOC_SYNC_COMPLETE) \<and>
    (\<forall>i < n. tb_snapshot t' ! i \<noteq> tb_snapshot t ! i \<or> is_unread t i \<longrightarrow> is_unread t' i) \<and>
    (if has_flag flags IOC_SYNC_COMPLETE then \<forall>i < n. tb_snapshot t' ! i = tb_newdata t' ! i
     else tb_snapshot t' = tb_snapshot t)"

lemma uncompress_at_carried:
  assumes wf: "tbuf_wf n t" and c: "carries ioc_uncompress flags data xs" and fit: "a + length xs \<le> n"
  shows "uncompress_at data (length data) t (int a) (tb_nbytes t - int a) flags =
    Some (int (length xs), t\<lparr>tb_newdata := overlay (has_flag flags IOC_DELTA_ENCODED) (tb_newdata t) a xs\<rparr>)"
proof -
  note b = tbuf_wf_buffers [OF wf]
  let ?N = "total_sz (tb_bidir t) n"
  have nb: "tb_nbytes t = int ?N" "n \<le> ?N" using wf by (simp_all add: tbuf_wf_def)
  have fN: "a + length xs \<le> ?N" by (rule le_trans [OF fit nb(2)])
  have "ioc_uncompress data (length data) (tb_snapshot t @ tb_newdata t) (length (tb_snapshot t) + a) (?N - a) flags =
    Some (int (length xs), overlay (has_flag flags IOC_DELTA_ENCODED) (tb_snapshot t @ tb_newdata t) (length (tb_snapshot t) + a) xs)"
    by (rule c [unfolded carries_def, rule_format]) (use fN b(2,3) in simp)
  moreover have "nat (int (length (tb_snapshot t)) + int a) = length (tb_snapshot t) + a" "nat (int ?N - int a) = ?N - a"
    using fN by simp_all
  moreover have "t\<lparr>tb_buf := Some (tb_snapshot t)\<rparr> = t" using b(1) by simp
  ultimately show ?thesis using b(1) nb(1)
    by (simp add: uncompress_at_def overlay_right Let_def)
qed

lemma store_data_frame_spec:
  assumes wf: "tbuf_wf n t" and tr: "tracks n t" and c: "carries ioc_uncompress flags data xs"
    and xs: "xs \<noteq> []" and fit: "a + length xs \<le> n"
  shows "\<exists>t' ev. ioc_store_data_frame cbs t (int a) data (length data) flags = Some (OSAL_SUCCESS, t', ev) \<and>
    frame_stored n a flags xs t t'"
proof -
  let ?o = "overlay (has_flag flags IOC_DELTA_ENCODED) (tb_newdata t) a xs"
  let ?t1 = "t\<lparr>tb_newdata := ?o\<rparr>"
  note b = tbuf_wf_buffers [OF wf]
  have fl: "a + length xs \<le> length (tb_newdata t)" using fit b by (simp add: total_sz_def)
  have wf1: "tbuf_wf n ?t1" using wf fl by (auto simp: tbuf_wf_def tb_bidir_def)
  have max: "0 \<le> tb_nbytes t - int a" using wf fit by (simp add: tbuf_wf_def total_sz_def)
  obtain t2 ev where t2: "ioc_tbuf_invalidate cbs ?t1 (int a) (int a + int (length xs) - 1) = (t2, ev)"
    by fastforce
  have r: "0 \<le> int a" "int a \<le> int a + int (length xs) - 1" "int a + int (length xs) - 1 < int n" using xs fit by (cases xs; simp)+
  note inv = tbuf_invalidate_spec [OF wf1 r t2]
  have sn: "tb_snapshot ?t1 = tb_snapshot t" by (simp add: tb_snapshot_def)
  have tr2: "tracks n t2"
    unfolding tracks_def
  proof (intro allI impI)
    fix i
    assume i: "i < n" "tb_newdata t2 ! i \<noteq> tb_snapshot t2 ! i"
    show "tb_has_new_data t2 \<and> tb_newdata_start t2 \<le> int i \<and> int i \<le> tb_newdata_end t2"
    proof (cases "a \<le> i \<and> i < a + length xs")
      case True
      then show ?thesis using inv(2) inv(12) [of i] by simp
    next
      case False
      have "i < length (tb_newdata t)" using i(1) b(3) by (simp add: total_sz_def)
      with False i have "tb_newdata t ! i \<noteq> tb_snapshot t ! i"
        using inv(3,4) nth_overlay [OF fl, of i "has_flag flags IOC_DELTA_ENCODED"] sn by auto
      with tr i show ?thesis using inv(2) inv(12) [of i] by (simp add: tracks_def)
    qed
  qed
  have st: "ioc_store_data_frame cbs t (int a) data (length data) flags = do {
      t3 \<leftarrow> (if has_flag flags IOC_SYNC_COMPLETE then ioc_tbuf_synchronize t2 else Some t2);
      Some (OSAL_SUCCESS, t3, ev) }"
    using max xs uncompress_at_carried [OF wf c fit] t2 by (simp add: ioc_store_data_frame_def Let_def)
  show ?thesis
  proof (cases "has_flag flags IOC_SYNC_COMPLETE")
    case True
    obtain t3 where "ioc_tbuf_synchronize t2 = Some t3" "tbuf_wf n t3" "snapshot_taken n t2 t3"
      using tbuf_synchronize_spec [OF inv(1)] by blast
    moreover have "\<forall>i < n. \<not> is_new t2 i \<longrightarrow> tb_snapshot t2 ! i = tb_newdata t2 ! i"
      using tr2 by (auto simp: tracks_def is_new_def)
    ultimately show ?thesis using True st inv sn
      by (auto simp: frame_stored_def snapshot_taken_def tracks_def is_unread_def)
  next
    case False
    then show ?thesis using st inv tr2 sn by (auto simp: frame_stored_def is_unread_def)
  qed
qed

section \<open>Arbitrary frames\<close>

lemma uncompress_at_safe:
  assumes wf: "tbuf_wf n t" and a: "0 \<le> addr" "addr \<le> tb_nbytes t"
  shows "\<exists>r m. uncompress_at data (length data) t addr (tb_nbytes t - addr) flags =
      Some (r, t\<lparr>tb_newdata := m\<rparr>) \<and> length m = length (tb_newdata t) \<and> r \<le> tb_nbytes t - addr"
proof -
  note b = tbuf_wf_buffers [OF wf]
  let ?s = "tb_snapshot t" and ?d = "tb_newdata t" and ?k = "nat (tb_nbytes t - addr)"
  let ?p = "nat (int (length ?s) + addr)"
  have nb: "tb_nbytes t = int (length ?d)" using wf b by (simp add: tbuf_wf_def)
  have fit: "?p + ?k \<le> length (?s @ ?d)" using a nb by simp
  obtain r mem where u: "ioc_uncompress data (length data) (?s @ ?d) ?p ?k flags = Some (r, mem)"
    and out: "same_outside ?p (?p + ?k) (?s @ ?d) mem" and r: "r \<le> int ?k"
    using uncompress_safe [OF fit, of data flags] by blast
  have lm: "length mem = length ?s + length ?d" using out by (simp add: same_outside_def)
  have "take (length ?s) mem = ?s"
  proof (rule nth_equalityI)
    show "length (take (length ?s) mem) = length ?s" using lm by simp
    fix i
    assume "i < length (take (length ?s) mem)"
    then have "i < length ?s" "i < ?p" using a by auto
    then show "take (length ?s) mem ! i = ?s ! i" using out by (auto simp: same_outside_def nth_append)
  qed
  then have "uncompress_at data (length data) t addr (tb_nbytes t - addr) flags =
      Some (r, t\<lparr>tb_newdata := drop (length ?s) mem\<rparr>)"
    using b(1) u a by (simp add: uncompress_at_def Let_def)
  then show ?thesis using lm r a nb by auto
qed

text \<open>
  The number of bytes a frame unpacks to, and a frame for a bidirectional buffer whose content starts
  in the data bytes and runs on into the change bits behind them.
\<close>

definition unpacked_count :: "iocTargetBuffer \<Rightarrow> int \<Rightarrow> byte list \<Rightarrow> byte \<Rightarrow> int" where
  "unpacked_count t addr data flags =
    (case uncompress_at data (length data) t addr (tb_nbytes t - addr) flags of None \<Rightarrow> 0 | Some (r, _) \<Rightarrow> r)"

definition runs_into_bits :: "iocTargetBuffer \<Rightarrow> int \<Rightarrow> byte list \<Rightarrow> byte \<Rightarrow> bool" where
  "runs_into_bits t addr data flags \<longleftrightarrow>
    tb_bidir t \<and> addr < tb_ndata t \<and> tb_ndata t < addr + unpacked_count t addr data flags"

lemma or_copy_outside:
  "0 \<le> p \<Longrightarrow> 0 < n \<Longrightarrow> length dst = length src \<Longrightarrow> int (length src) < p + int n \<Longrightarrow> or_copy dst src p n = None"
proof (induction n arbitrary: dst p)
  case (Suc n)
  show ?case
  proof (cases "p < int (length src)")
    case True
    with Suc.prems Suc.IH [of "p + 1" "dst[nat p := dst ! nat p OR src ! nat p]"]
    show ?thesis by (simp add: rd_in or_at_in)
  next
    case False
    then show ?thesis by (simp add: rd_def)
  qed
qed simp

text \<open>
  A synchronization of a bidirectional buffer whose range of new data ends in the change bits: the OR
  loop runs past both buffers when the last byte's group has no byte of change bits.
\<close>

lemma tbuf_synchronize_past_data:
  assumes wf: "tbuf_wf n t" and bi: "tb_bidir t" and l: "0 \<le> s" "s < int n" "int n \<le> e" "e < tb_nbytes t"
    and h: "tb_has_new_data t" "tb_newdata_start t = s"
  shows "ioc_tbuf_synchronize (t\<lparr>tb_newdata_end := e\<rparr>) = None \<longleftrightarrow> int ((n + 7) div 8) \<le> e div 8"
proof -
  note b = tbuf_wf_buffers [OF wf]
  have nd: "tb_ndata t = int n" "tb_nbytes t = int (length (tb_snapshot t))" "length (tb_newdata t) = length (tb_snapshot t)"
    using wf b by (simp_all add: tbuf_wf_def)
  have len: "int (length (tb_snapshot t)) = int n + int ((n + 7) div 8)" using b bi by (simp add: total_sz_def)
  define b1 where "b1 = splice (tb_snapshot t) (nat s) (take (nat (e - s + 1)) (drop (nat s) (tb_newdata t)))"
  define k where "k = nat (e div 8 - s div 8 + 1)"
  have cp: "os_memcpy (tb_snapshot t) s (tb_newdata t) s (e - s + 1) = Some b1"
    unfolding b1_def by (rule os_memcpy_in) (use l nd in auto)
  have l1: "length b1 = length (tb_newdata t)" unfolding b1_def using l nd by (subst length_splice) auto
  have d: "s div 8 \<le> e div 8" "0 \<le> s div 8" using l by (auto intro: zdiv_mono1)
  then have k: "0 < k" "int k = e div 8 - s div 8 + 1" by (simp_all add: k_def)
  have or: "or_copy b1 (tb_newdata t) (int n + s div 8) k = None \<longleftrightarrow> int ((n + 7) div 8) \<le> e div 8"
  proof (cases "int ((n + 7) div 8) \<le> e div 8")
    case True
    then show ?thesis using or_copy_outside [of "int n + s div 8" k b1 "tb_newdata t"] d k l1 nd(3) len by simp
  next
    case False
    then show ?thesis using or_copy_spec [of "int n + s div 8" k b1 "tb_newdata t"] d k l1 nd(3) len by force
  qed
  have "has_flag (tb_flags t) IOC_BIDIRECTIONAL" using bi by (simp add: tb_bidir_def)
  moreover have "\<not> e < s" using l by simp
  ultimately have "ioc_tbuf_synchronize (t\<lparr>tb_newdata_end := e\<rparr>) = None \<longleftrightarrow> or_copy b1 (tb_newdata t) (int n + s div 8) k = None"
    using h b(1) cp by (auto simp: ioc_tbuf_synchronize_def Let_def nd k_def [symmetric] split: bind_splits)
  then show ?thesis by (simp add: or)
qed

section \<open>Properties\<close>

definition tbuf_sample :: "u16 \<Rightarrow> byte list \<Rightarrow> byte list \<Rightarrow> iocTargetBuffer" where
  "tbuf_sample flags b d = \<lparr>tb_remote_mblk_id = 10, tb_buf = Some b, tb_newdata = d, tb_nbytes = int (length b),
    tb_buf_start = 0, tb_buf_end = 0, tb_buf_used = False, tb_has_new_data = False, tb_newdata_start = 0,
    tb_newdata_end = 0, tb_flags = flags, tb_ndata = (if flags = 0 then int (length b) else 8), tb_mblk = 0, tb_con = 0\<rparr>"

text \<open>
  \<^bold>\<open>C17\<close>: storing a data frame. A frame whose content carries the bytes \<open>xs\<close> for an address
  within the block is accepted; exactly those bytes are overlaid (added when delta encoded, replaced
  otherwise) on the new data; a frame flagged \<open>IOC_SYNC_COMPLETE\<close> makes the snapshot equal to the
  new data and marks every changed byte as unread, any other frame leaves the snapshot untouched.
\<close>

theorem store_data_frame_effect:
  assumes "tbuf_wf n t" and "tracks n t" and "carries ioc_uncompress flags data xs"
    and "xs \<noteq> []" and "a + length xs \<le> n"
  shows "\<exists>t' ev. ioc_store_data_frame cbs t (int a) data (length data) flags = Some (OSAL_SUCCESS, t', ev) \<and>
    frame_stored n a flags xs t t'"
  by (rule store_data_frame_spec [OF assms])

theorem store_data_frame_effect_witness:
  "\<exists>t' ev. ioc_store_data_frame [] (tbuf_sample 0 [1, 2, 3] [1, 2, 3]) (int 1) [5] (length [5 :: byte]) 17 =
      Some (OSAL_SUCCESS, t', ev) \<and> frame_stored 3 1 17 [5] (tbuf_sample 0 [1, 2, 3] [1, 2, 3]) t'"
proof (rule store_data_frame_effect)
  show "carries ioc_uncompress 17 [5] [5]"
    by (rule codec.plain_carries) (simp add: has_flag_def IOC_COMPRESESSED_def)
qed (auto simp: tbuf_sample_def tbuf_wf_def tracks_def tb_snapshot_def total_sz_def tb_bidir_def)

text \<open>
  \<^bold>\<open>C18\<close>: frames with arbitrary content, for every kind of block. Whatever bytes, flags and non
  negative address a frame has, \<open>ioc_store_data_frame\<close> touches no memory outside the buffers and
  keeps the target buffer well formed, accepting or rejecting the frame, with one exception: a frame
  for a bidirectional block whose content starts in the data bytes and runs on into the change bits.
  Such a frame is accepted, and when it completes the transfer and its last byte lies in a group of
  eight that has no byte of change bits, the loop that merges the change bits leaves the buffers;
  there is no check against it. The property says exactly which frames do.
\<close>

theorem store_data_frame_safe:
  assumes wf: "tbuf_wf n t" and a: "0 \<le> addr"
  shows "if runs_into_bits t addr data flags
    then (ioc_store_data_frame cbs t addr data (length data) flags = None \<longleftrightarrow>
      has_flag flags IOC_SYNC_COMPLETE \<and> int ((n + 7) div 8) \<le> (addr + unpacked_count t addr data flags - 1) div 8)
    else \<exists>st t' ev. ioc_store_data_frame cbs t addr data (length data) flags = Some (st, t', ev) \<and> tbuf_wf n t'"
proof (cases "addr \<le> tb_nbytes t")
  case False
  then show ?thesis using wf by (auto simp: ioc_store_data_frame_def runs_into_bits_def tbuf_wf_def total_sz_def)
next
  case True
  obtain r m where u: "uncompress_at data (length data) t addr (tb_nbytes t - addr) flags = Some (r, t\<lparr>tb_newdata := m\<rparr>)"
    and m: "length m = length (tb_newdata t)" and r: "r \<le> tb_nbytes t - addr"
    using uncompress_at_safe [OF wf a True] by blast
  have c: "unpacked_count t addr data flags = r" using u by (simp add: unpacked_count_def)
  have nd: "tb_ndata t = int n" using wf by (simp add: tbuf_wf_def)
  have wf1: "tbuf_wf n (t\<lparr>tb_newdata := m\<rparr>)" using wf m by (auto simp: tbuf_wf_def tb_bidir_def)
  show ?thesis
  proof (cases "0 < r")
    case False
    with u wf1 True show ?thesis by (auto simp: ioc_store_data_frame_def Let_def runs_into_bits_def c)
  next
    case pos: True
    obtain t2 ev where t2: "ioc_tbuf_invalidate cbs (t\<lparr>tb_newdata := m\<rparr>) addr (addr + r - 1) = (t2, ev)" by fastforce
    have st: "ioc_store_data_frame cbs t addr data (length data) flags = do {
        t3 \<leftarrow> (if has_flag flags IOC_SYNC_COMPLETE then ioc_tbuf_synchronize t2 else Some t2);
        Some (OSAL_SUCCESS, t3, ev) }"
      using u True pos t2 by (simp add: ioc_store_data_frame_def Let_def)
    show ?thesis
    proof (cases "runs_into_bits t addr data flags")
      case False
      have "tbuf_wf n t2"
      proof (cases "addr < int n")
        case True
        then have "addr + r - 1 < int n" using False r wf
          by (auto simp: runs_into_bits_def c nd tbuf_wf_def total_sz_def)
        then show ?thesis using tbuf_invalidate_spec(1) [OF wf1 a _ _ t2] pos by simp
      next
        case False
        then show ?thesis using t2 wf1 nd by (simp add: ioc_tbuf_invalidate_def)
      qed
      then show ?thesis using st False tbuf_synchronize_spec [of n t2] by auto
    next
      case bits: True
      define t0 where "t0 = t\<lparr>tb_newdata := m, tb_has_new_data := True,
        tb_newdata_start := (if tb_has_new_data t \<and> tb_newdata_start t < addr then tb_newdata_start t else addr),
        tb_newdata_end := (if tb_has_new_data t \<and> tb_newdata_start t < addr then tb_newdata_start t else addr)\<rparr>"
      have b: "tb_bidir t" "addr < int n" "int n \<le> addr + r - 1" using bits by (auto simp: runs_into_bits_def c nd)
      have wf0: "tbuf_wf n t0" using wf1 a b unfolding t0_def by (auto simp: tbuf_wf_def tb_bidir_def)
      have "t2 = t0\<lparr>tb_newdata_end := addr + r - 1\<rparr>"
        using t2 b nd wf unfolding t0_def by (auto simp: ioc_tbuf_invalidate_def tbuf_wf_def split: if_splits)
      moreover have "ioc_tbuf_synchronize (t0\<lparr>tb_newdata_end := addr + r - 1\<rparr>) = None \<longleftrightarrow>
          int ((n + 7) div 8) \<le> (addr + r - 1) div 8"
        by (rule tbuf_synchronize_past_data [OF wf0, where s = "tb_newdata_start t0"])
          (use b r a wf in \<open>auto simp: t0_def tb_bidir_def tbuf_wf_def\<close>)
      ultimately show ?thesis using st bits c by (auto split: bind_splits)
    qed
  qed
qed

text \<open>
  Concretely: nine bytes at address 0 that complete a transfer, for a bidirectional block of eight.
\<close>

theorem store_data_frame_safe_witness:
  "ioc_store_data_frame [] (tbuf_sample 8 (replicate 9 0) (replicate 9 0)) 0 (replicate 9 1) 9 16 = None"
proof -
  let ?t = "tbuf_sample 8 (replicate 9 0) (replicate 9 0)"
  have wf: "tbuf_wf 8 ?t"
    by (simp add: tbuf_sample_def tbuf_wf_def total_sz_def tb_bidir_def has_flag_def IOC_BIDIRECTIONAL_def)
  have "runs_into_bits ?t 0 (replicate 9 1) 16" "has_flag 16 IOC_SYNC_COMPLETE"
    "int ((8 + 7) div 8) \<le> (0 + unpacked_count ?t 0 (replicate 9 1) 16 - 1) div 8" by code_simp+
  then show ?thesis using store_data_frame_safe [OF wf order_refl, of "replicate 9 1" 16 "[]"] by simp
qed

text \<open>
  \<^bold>\<open>C19\<close>: the address check misses negative addresses. \<open>ioc_store_data_frame\<close> accepts a one byte
  frame for the address \<open>- k\<close> (an \<open>os_uint\<close> above \<open>0x7FFFFFFF\<close> in the frame) and overwrites the
  byte \<open>k\<close> before \<open>newdata\<close>, a byte of the snapshot, although no transfer was completed; for an
  address before the allocation the pointer leaves it.
\<close>

theorem store_negative_address:
  assumes wf: "tbuf_wf n t" and k: "0 < k"
  shows "if k \<le> length (tb_snapshot t)
    then \<exists>t' ev. ioc_store_data_frame cbs t (- int k) [x] 1 0 = Some (OSAL_SUCCESS, t', ev) \<and>
      tb_snapshot t' = (tb_snapshot t)[length (tb_snapshot t) - k := x]
    else ioc_store_data_frame cbs t (- int k) [x] 1 0 = None"
proof (cases "k \<le> length (tb_snapshot t)")
  case True
  note b = tbuf_wf_buffers [OF wf]
  let ?s = "tb_snapshot t" and ?d = "tb_newdata t" and ?p = "length (tb_snapshot t) - k"
  have nb: "tb_nbytes t = int (length ?s)" using wf b by (simp add: tbuf_wf_def)
  have p: "nat (int (length ?s) - int k) = ?p" "?p < length ?s" using True k by auto
  have "carries ioc_uncompress 0 [x] [x]" by (rule codec.plain_carries) simp
  then have "ioc_uncompress [x] (length [x]) (?s @ ?d) ?p (length ?s + k) 0 =
      Some (int (length [x]), overlay (has_flag 0 IOC_DELTA_ENCODED) (?s @ ?d) ?p [x])"
    unfolding carries_def using True k b(2,3) by (elim allE impE) auto
  moreover have "overlay False (?s @ ?d) ?p [x] = ?s[?p := x] @ ?d"
    using p(2) by (simp add: overlay_def splice_def upd_conv_take_nth_drop)
  moreover have "nat (int (length ?s) + int k) = length ?s + k" by simp
  ultimately have u: "uncompress_at [x] 1 t (- int k) (tb_nbytes t + int k) 0 = Some (1, t\<lparr>tb_buf := Some (?s[?p := x])\<rparr>)"
    using b(1) nb p True by (simp add: uncompress_at_def Let_def)
  then show ?thesis using True nb
    by (auto simp: ioc_store_data_frame_def Let_def ioc_tbuf_invalidate_def tb_snapshot_def)
next
  case False
  then show ?thesis using tbuf_wf_buffers [OF wf] wf
    by (simp add: ioc_store_data_frame_def uncompress_at_def tbuf_wf_def Let_def)
qed

theorem store_negative_address_witness:
  "if 1 \<le> length (tb_snapshot (tbuf_sample 0 [1, 2, 3] [1, 2, 3]))
    then \<exists>t' ev. ioc_store_data_frame [] (tbuf_sample 0 [1, 2, 3] [1, 2, 3]) (- int 1) [77] 1 0 = Some (OSAL_SUCCESS, t', ev) \<and>
      tb_snapshot t' = (tb_snapshot (tbuf_sample 0 [1, 2, 3] [1, 2, 3]))[length (tb_snapshot (tbuf_sample 0 [1, 2, 3] [1, 2, 3])) - 1 := 77]
    else ioc_store_data_frame [] (tbuf_sample 0 [1, 2, 3] [1, 2, 3]) (- int 1) [77] 1 0 = None"
  by (rule store_negative_address [where n = 3]) (auto simp: tbuf_sample_def tbuf_wf_def total_sz_def tb_bidir_def)

end
