(* ===== verification/Ioc_Memory_Block.thy ===== *)
theory Ioc_Memory_Block
  imports Ioc_Target_Buffer
begin

text \<open>
  Memory blocks, \<open>code/ioc_memory_block.c\<close> and \<open>.h\<close>: the bytes an application reads and writes,
  linked to any number of source buffers (connections the block is sent to) and target buffers
  (connections it is received from).

  \<open>mb_sbufs\<close> and \<open>mb_tbufs\<close> are the references of the source and target buffers in the order of the
  lists \<open>mblk->sbuf\<close> and \<open>mblk->tbuf\<close>; the operations take the buffers themselves, in that order, as
  an argument and return them updated. Every operation starts by turning the handle into a memory
  block pointer under \<open>ioc_lock\<close>; the models take the memory block, for a terminated handle the
  sources return at once (\<open>ioc_read\<close> clears the caller's buffer first). Names are byte lists
  without the terminating zero. \<open>small_endian\<close> is the build's \<open>OSAL_SMALL_ENDIAN\<close>.
\<close>

section \<open>State\<close>

record iocMemoryBlock =
  mb_flags :: u16
  mb_local_flags :: byte
  mb_buf :: "byte list option"
  mb_nbytes :: int
  mb_network_name :: "byte list"
  mb_device_name :: "byte list"
  mb_device_nr :: u32
  mb_mblk_id :: u32
  mb_mblk_name :: "byte list"
  mb_cbs :: callback_table
  mb_sbufs :: "nat list"
  mb_tbufs :: "nat list"
  mb_allocated :: bool
  mb_buf_allocated :: bool
  mb_to_be_deleted :: bool

definition IOC_MBLK_DOWN :: u16 where "IOC_MBLK_DOWN = 1"
definition IOC_MBLK_UP :: u16 where "IOC_MBLK_UP = 2"
definition IOC_DYNAMIC :: u16 where "IOC_DYNAMIC = 16"
definition IOC_ALLOW_RESIZE :: u16 where "IOC_ALLOW_RESIZE = 32"
definition IOC_STATIC :: u16 where "IOC_STATIC = 64"
definition IOC_CLOUD_ONLY :: u16 where "IOC_CLOUD_ONLY = 128"
definition IOC_NO_CLOUD :: u16 where "IOC_NO_CLOUD = 256"
definition IOC_FLOOR :: u16 where "IOC_FLOOR = 512"

definition IOC_SWAP_16 :: u16 where "IOC_SWAP_16 = 2"
definition IOC_SWAP_32 :: u16 where "IOC_SWAP_32 = 4"
definition IOC_SWAP_64 :: u16 where "IOC_SWAP_64 = 8"
definition IOC_SWAP_MASK :: u16 where "IOC_SWAP_MASK = 15"
definition IOC_MBLK_STRING :: u16 where "IOC_MBLK_STRING = 16"
definition IOC_CLEAR_MBLK_RANGE :: u16 where "IOC_CLEAR_MBLK_RANGE = 32"
definition IOC_MIN_MBLK_SZ :: int where "IOC_MIN_MBLK_SZ = 24"
definition IOC_MIN_UNIQUE_ID :: u32 where "IOC_MIN_UNIQUE_ID = 8"
definition IOC_DISCONNECT_MBLK_ON_RESIZE :: u16 where "IOC_DISCONNECT_MBLK_ON_RESIZE = 1"

lemmas mblk_flag_defs = IOC_MBLK_DOWN_def IOC_MBLK_UP_def IOC_BIDIRECTIONAL_def IOC_DYNAMIC_def
  IOC_ALLOW_RESIZE_def IOC_STATIC_def IOC_CLOUD_ONLY_def IOC_NO_CLOUD_def IOC_FLOOR_def
lemmas access_flag_defs = IOC_SWAP_16_def IOC_SWAP_32_def IOC_SWAP_64_def IOC_SWAP_MASK_def
  IOC_MBLK_STRING_def IOC_CLEAR_MBLK_RANGE_def

section \<open>Byte order\<close>

text \<open>
  The loops of \<open>ioc_byte_ordered_copy\<close> for groups of \<open>type_sz\<close> bytes on a big endian processor:
  each group is stored in reverse order. A rest shorter than a group is not copied.
\<close>

function swap_copy :: "byte list \<Rightarrow> int \<Rightarrow> byte list \<Rightarrow> int \<Rightarrow> int \<Rightarrow> int \<Rightarrow> byte list option" where
  "swap_copy buf d p s count type_sz =
    (if 0 < type_sz \<and> type_sz \<le> count then do {
       xs \<leftarrow> rds p s type_sz;
       buf' \<leftarrow> wrs buf d (rev xs);
       swap_copy buf' (d + type_sz) p (s + type_sz) (count - type_sz) type_sz }
     else Some buf)"
  by pat_completeness auto
termination
  by (relation "measure (\<lambda>(buf, d, p, s, count, type_sz). nat count)") auto

declare swap_copy.simps [simp del]

definition ioc_byte_ordered_copy ::
  "bool \<Rightarrow> byte list \<Rightarrow> int \<Rightarrow> byte list \<Rightarrow> int \<Rightarrow> int \<Rightarrow> u16 \<Rightarrow> byte list option" where
  "ioc_byte_ordered_copy small_endian buf d p s nbytes type_sz =
    (if nbytes \<le> 0 then Some buf
     else if \<not> small_endian \<and> type_sz \<in> {2, 4, 8}
     then swap_copy buf d p s nbytes (uint type_sz)
     else os_memcpy buf d p s nbytes)"

section \<open>Marking and sending\<close>

text \<open>\<open>ioc_mblk_invalidate\<close>: every source buffer of the block marks the range.\<close>

primrec ioc_mblk_invalidate ::
  "byte list \<Rightarrow> int \<Rightarrow> int \<Rightarrow> iocSourceBuffer list \<Rightarrow> iocSourceBuffer list option" where
  "ioc_mblk_invalidate buf start_addr end_addr [] = Some []"
| "ioc_mblk_invalidate buf start_addr end_addr (sbuf # rest) = do {
     sbuf' \<leftarrow> ioc_sbuf_invalidate buf sbuf start_addr end_addr;
     rest' \<leftarrow> ioc_mblk_invalidate buf start_addr end_addr rest;
     Some (sbuf' # rest') }"

text \<open>
  \<open>ioc_send\<close>: every source buffer of the block is synchronized. \<open>has_trig\<close> tells which connections
  have a worker thread to wake.
\<close>

primrec send_sbufs ::
  "(nat \<Rightarrow> bool) \<Rightarrow> byte list \<Rightarrow> int \<Rightarrow> iocSourceBuffer list \<Rightarrow> (iocSourceBuffer list \<times> ioc_event list) option" where
  "send_sbufs has_trig buf nbytes [] = Some ([], [])"
| "send_sbufs has_trig buf nbytes (sbuf # rest) = do {
     (status, sbuf', ev) \<leftarrow> ioc_sbuf_synchronize (has_trig (sb_con sbuf)) buf nbytes sbuf;
     (rest', ev') \<leftarrow> send_sbufs has_trig buf nbytes rest;
     Some (sbuf' # rest', ev @ ev') }"

definition ioc_send ::
  "(nat \<Rightarrow> bool) \<Rightarrow> iocMemoryBlock \<Rightarrow> iocSourceBuffer list \<Rightarrow> (iocSourceBuffer list \<times> ioc_event list) option" where
  "ioc_send has_trig mblk sbufs = do { buf \<leftarrow> mb_buf mblk; send_sbufs has_trig buf (mb_nbytes mblk) sbufs }"

text \<open>\<open>ioc_mblk_auto_sync\<close>: when a transfer is under way, the next synchronization is left to the sender.\<close>

definition ioc_mblk_auto_sync ::
  "bool \<Rightarrow> iocMemoryBlock \<Rightarrow> iocSourceBuffer \<Rightarrow> (iocSourceBuffer \<times> ioc_event list) option" where
  "ioc_mblk_auto_sync has_trig mblk sbuf = do {
     buf \<leftarrow> mb_buf mblk;
     (status, sbuf', ev) \<leftarrow> ioc_sbuf_synchronize has_trig buf (mb_nbytes mblk) sbuf;
     Some (if status \<noteq> OSAL_SUCCESS
       then (sbuf'\<lparr>sb_immediate_sync_needed := True\<rparr>, ev @ (if has_trig then [WorkerTrig] else []))
       else (sbuf', ev)) }"

section \<open>Reading and writing\<close>

text \<open>
  Length of the zero terminated string in a region, \<open>os_strlen(buf) - 1\<close> of the sources (\<open>os_strlen\<close>
  counts the terminator); \<open>None\<close> when the region has no terminator.
\<close>

fun c_strlen :: "byte list \<Rightarrow> nat option" where
  "c_strlen [] = None"
| "c_strlen (b # bs) = (if b = 0 then Some 0 else map_option Suc (c_strlen bs))"

definition write_bytes ::
  "bool \<Rightarrow> byte list \<Rightarrow> int \<Rightarrow> byte list \<Rightarrow> int \<Rightarrow> u16 \<Rightarrow> byte list option" where
  "write_bytes small_endian mbuf addr buf n flags =
    (if has_flag flags IOC_MBLK_STRING then do {
       len \<leftarrow> c_strlen buf;
       let count = min (int len) n;
       mbuf1 \<leftarrow> (if count > 0 then os_memcpy mbuf addr buf 0 count else Some mbuf);
       (if n > count then os_memclear mbuf1 (addr + count) (n - count) else Some mbuf1)
     }
     else if has_flag flags IOC_CLEAR_MBLK_RANGE then os_memclear mbuf addr n
     else ioc_byte_ordered_copy small_endian mbuf addr buf 0 n (flags AND IOC_SWAP_MASK))"

definition ioc_write ::
  "bool \<Rightarrow> iocMemoryBlock \<Rightarrow> iocSourceBuffer list \<Rightarrow> int \<Rightarrow> byte list \<Rightarrow> int \<Rightarrow> u16 \<Rightarrow>
   (iocMemoryBlock \<times> iocSourceBuffer list) option" where
  "ioc_write small_endian mblk sbufs addr buf n flags =
    (let max_n = mb_nbytes mblk - addr
     in if max_n \<le> 0 then Some (mblk, sbufs)
        else do {
          let n' = (if n > max_n then max_n else n);
          mbuf \<leftarrow> mb_buf mblk;
          mbuf' \<leftarrow> write_bytes small_endian mbuf addr buf n' flags;
          sbufs' \<leftarrow> ioc_mblk_invalidate mbuf' addr (addr + n' - 1) sbufs;
          Some (mblk\<lparr>mb_buf := Some mbuf'\<rparr>, sbufs')
        })"

definition ioc_clear ::
  "iocMemoryBlock \<Rightarrow> iocSourceBuffer list \<Rightarrow> int \<Rightarrow> int \<Rightarrow> (iocMemoryBlock \<times> iocSourceBuffer list) option" where
  "ioc_clear mblk sbufs addr n = ioc_write True mblk sbufs addr [] n IOC_CLEAR_MBLK_RANGE"

text \<open>
  The string loop of \<open>ioc_read\<close>: at most \<open>count\<close> characters from \<open>p\<close> of the memory block to \<open>d\<close>
  of the caller's buffer, then a terminator.
\<close>

primrec read_string :: "byte list \<Rightarrow> int \<Rightarrow> byte list \<Rightarrow> int \<Rightarrow> nat \<Rightarrow> byte list option" where
  "read_string mbuf p buf d 0 = wr buf d 0"
| "read_string mbuf p buf d (Suc count) = do {
     c \<leftarrow> rd mbuf p;
     if c = 0 then wr buf d 0
     else do { buf' \<leftarrow> wr buf d c; read_string mbuf (p + 1) buf' (d + 1) count } }"

definition ioc_read ::
  "bool \<Rightarrow> iocMemoryBlock option \<Rightarrow> int \<Rightarrow> byte list \<Rightarrow> int \<Rightarrow> u16 \<Rightarrow> byte list option" where
  "ioc_read small_endian handle addr buf n flags =
    (case handle of
       None \<Rightarrow> os_memclear buf 0 n
     | Some mblk \<Rightarrow>
       let max_n = mb_nbytes mblk - addr
       in if max_n \<le> 0 then Some buf
          else do {
            buf1 \<leftarrow> (if n > max_n then os_memclear buf max_n (n - max_n) else Some buf);
            let n' = (if n > max_n then max_n else n);
            mbuf \<leftarrow> mb_buf mblk;
            if has_flag flags IOC_MBLK_STRING then
              if n' \<noteq> 0 then read_string mbuf addr buf1 0 (nat (n' - 1)) else Some buf1
            else ioc_byte_ordered_copy small_endian buf1 0 mbuf addr n' (flags AND IOC_SWAP_MASK)
          })"

section \<open>Receiving\<close>

text \<open>\<open>(bits[i >> 3] >> (i & 7)) & 1\<close>, where \<open>bits\<close> starts at \<open>ndata\<close> of the buffer.\<close>

definition change_bit :: "byte list \<Rightarrow> int \<Rightarrow> int \<Rightarrow> bool option" where
  "change_bit buf ndata i = do { b \<leftarrow> rd buf (ndata + i div 8); Some (bit b (nat (i mod 8))) }"

text \<open>The loop that copies the marked bytes \<open>i\<close>, \<open>i + 1\<close>, \dots of a bidirectional snapshot.\<close>

primrec copy_marked :: "byte list \<Rightarrow> int \<Rightarrow> byte list \<Rightarrow> int \<Rightarrow> nat \<Rightarrow> byte list option" where
  "copy_marked spos ndata dpos i 0 = Some dpos"
| "copy_marked spos ndata dpos i (Suc count) = do {
     c \<leftarrow> change_bit spos ndata i;
     dpos' \<leftarrow> (if c then do { v \<leftarrow> rd spos i; wr dpos i v } else Some dpos);
     copy_marked spos ndata dpos' (i + 1) count }"

text \<open>The loop that marks those bytes in a bidirectional source buffer.\<close>

primrec invalidate_marked ::
  "byte list \<Rightarrow> int \<Rightarrow> byte list \<Rightarrow> iocSourceBuffer \<Rightarrow> int \<Rightarrow> nat \<Rightarrow> iocSourceBuffer option" where
  "invalidate_marked spos ndata buf sbuf i 0 = Some sbuf"
| "invalidate_marked spos ndata buf sbuf i (Suc count) = do {
     c \<leftarrow> change_bit spos ndata i;
     sbuf' \<leftarrow> (if c then ioc_sbuf_invalidate buf sbuf i i else Some sbuf);
     invalidate_marked spos ndata buf sbuf' (i + 1) count }"

text \<open>
  Echo of received bidirectional data to the source buffers of the block, except to the connection
  the data came from when that connection is downwards. \<open>con_fl\<close> gives the flags of a connection.
\<close>

definition IOC_CONNECT_UP :: u16 where "IOC_CONNECT_UP = 128"

primrec echo_marked ::
  "(nat \<Rightarrow> u16) \<Rightarrow> iocTargetBuffer \<Rightarrow> byte list \<Rightarrow> byte list \<Rightarrow> iocSourceBuffer list \<Rightarrow> iocSourceBuffer list option" where
  "echo_marked con_fl tbuf spos buf [] = Some []"
| "echo_marked con_fl tbuf spos buf (sbuf # rest) = do {
     sbuf' \<leftarrow>
       (if sb_con sbuf = tb_con tbuf \<and> sb_remote_mblk_id sbuf = tb_remote_mblk_id tbuf \<and>
           \<not> has_flag (con_fl (sb_con sbuf)) IOC_CONNECT_UP then Some sbuf
        else if has_flag (sb_flags sbuf) IOC_BIDIRECTIONAL then
          invalidate_marked spos (tb_ndata tbuf) buf sbuf (tb_buf_start tbuf)
            (nat (tb_buf_end tbuf - tb_buf_start tbuf + 1))
        else ioc_sbuf_invalidate buf sbuf (tb_buf_start tbuf) (tb_buf_end tbuf));
     rest' \<leftarrow> echo_marked con_fl tbuf spos buf rest;
     Some (sbuf' # rest') }"

definition clear_change_bits :: "iocTargetBuffer \<Rightarrow> byte list \<Rightarrow> byte list option" where
  "clear_change_bits tbuf spos =
     os_memclear spos (tb_ndata tbuf + tb_buf_start tbuf div 8)
       (tb_buf_end tbuf div 8 - tb_buf_start tbuf div 8 + 1)"

text \<open>One round of the loop of \<open>ioc_receive_nolock\<close>, for a target buffer with unread data.\<close>

definition receive_tbuf ::
  "(nat \<Rightarrow> u16) \<Rightarrow> iocMemoryBlock \<Rightarrow> iocSourceBuffer list \<Rightarrow> iocTargetBuffer \<Rightarrow>
   (iocMemoryBlock \<times> iocSourceBuffer list \<times> iocTargetBuffer \<times> ioc_event list) option" where
  "receive_tbuf con_fl mblk sbufs tbuf =
    (if \<not> tb_buf_used tbuf then Some (mblk, sbufs, tbuf, [])
     else do {
       let s = tb_buf_start tbuf;
       let e = tb_buf_end tbuf;
       spos \<leftarrow> tb_buf tbuf;
       mbuf \<leftarrow> mb_buf mblk;
       let bidir = has_flag (tb_flags tbuf) IOC_BIDIRECTIONAL;
       mbuf1 \<leftarrow> (if bidir then copy_marked spos (tb_ndata tbuf) mbuf s (nat (e - s + 1))
                  else os_memcpy mbuf s spos s (e - s + 1));
       sbufs1 \<leftarrow> (if sbufs = [] then Some []
                   else if bidir then echo_marked con_fl tbuf spos mbuf1 sbufs
                   else ioc_mblk_invalidate mbuf1 s e sbufs);
       spos1 \<leftarrow> (if bidir then clear_change_bits tbuf spos else Some spos);
       Some (mblk\<lparr>mb_buf := Some mbuf1\<rparr>, sbufs1, tbuf\<lparr>tb_buf := Some spos1, tb_buf_used := False\<rparr>,
         ioc_do_callback (mb_cbs mblk) IOC_MBLK_CALLBACK_RECEIVE s e)
     })"

primrec receive_tbufs ::
  "(nat \<Rightarrow> u16) \<Rightarrow> iocMemoryBlock \<Rightarrow> iocSourceBuffer list \<Rightarrow> iocTargetBuffer list \<Rightarrow>
   (iocMemoryBlock \<times> iocSourceBuffer list \<times> iocTargetBuffer list \<times> ioc_event list) option" where
  "receive_tbufs con_fl mblk sbufs [] = Some (mblk, sbufs, [], [])"
| "receive_tbufs con_fl mblk sbufs (tbuf # rest) = do {
     (mblk1, sbufs1, tbuf1, ev1) \<leftarrow> receive_tbuf con_fl mblk sbufs tbuf;
     (mblk2, sbufs2, rest2, ev2) \<leftarrow> receive_tbufs con_fl mblk1 sbufs1 rest;
     Some (mblk2, sbufs2, tbuf1 # rest2, ev1 @ ev2) }"

definition ioc_receive_nolock ::
  "(nat \<Rightarrow> u16) \<Rightarrow> iocMemoryBlock \<Rightarrow> iocSourceBuffer list \<Rightarrow> iocTargetBuffer list \<Rightarrow>
   (iocMemoryBlock \<times> iocSourceBuffer list \<times> iocTargetBuffer list \<times> ioc_event list) option" where
  "ioc_receive_nolock con_fl mblk sbufs tbufs =
    (if has_flag (mb_flags mblk) IOC_STATIC then Some (mblk, sbufs, tbufs, [])
     else receive_tbufs con_fl mblk sbufs tbufs)"

section \<open>Size\<close>

text \<open>
  \<open>ioc_resize_mblk\<close>. \<open>newbuf\<close> is what \<open>ioc_malloc\<close> returned, a region with arbitrary content. With
  \<open>IOC_DISCONNECT_MBLK_ON_RESIZE\<close> all source and target buffers of the block are released.
\<close>

definition ioc_resize_mblk ::
  "byte list option \<Rightarrow> iocMemoryBlock \<Rightarrow> int \<Rightarrow> u16 \<Rightarrow> (osalStatus \<times> iocMemoryBlock) option" where
  "ioc_resize_mblk newbuf mblk nbytes flags =
    (if nbytes \<le> mb_nbytes mblk then Some (OSAL_SUCCESS, mblk)
     else if \<not> has_flag (mb_flags mblk) IOC_ALLOW_RESIZE then Some (OSAL_STATUS_NOT_SUPPORTED, mblk)
     else if \<not> mb_buf_allocated mblk \<and> mb_buf mblk \<noteq> None then Some (OSAL_STATUS_FAILED, mblk)
     else
       let mblk1 = (if has_flag flags IOC_DISCONNECT_MBLK_ON_RESIZE
             then mblk\<lparr>mb_sbufs := [], mb_tbufs := []\<rparr> else mblk)
       in case newbuf of
            None \<Rightarrow> Some (OSAL_STATUS_MEMORY_ALLOCATION_FAILED, mblk1)
          | Some nb \<Rightarrow> do {
              nb1 \<leftarrow> os_memclear nb (mb_nbytes mblk) (nbytes - mb_nbytes mblk);
              nb2 \<leftarrow> (case mb_buf mblk of None \<Rightarrow> Some nb1 | Some old \<Rightarrow> os_memcpy nb1 0 old 0 (mb_nbytes mblk));
              Some (OSAL_COMPLETED, mblk1\<lparr>mb_buf := Some nb2, mb_nbytes := nbytes, mb_buf_allocated := True\<rparr>)
            })"

section \<open>Identifiers\<close>

text \<open>
  \<open>ioc_get_unique_mblk_id\<close>. \<open>next\<close> is \<open>root->next_unique_mblk_id\<close>, \<open>used\<close> the identifiers of the
  memory blocks of the root, \<open>rand k\<close> the number drawn by the call of \<open>osal_rand\<close> when \<open>k\<close> rounds
  are left. The result is the identifier and the next number.
\<close>

primrec draw_unique_id :: "(nat \<Rightarrow> u32) \<Rightarrow> u32 list \<Rightarrow> nat \<Rightarrow> u32" where
  "draw_unique_id rand used 0 = 1"
| "draw_unique_id rand used (Suc count) =
    (if rand count \<in> set used then draw_unique_id rand used count else rand count)"

definition ioc_get_unique_mblk_id :: "(nat \<Rightarrow> u32) \<Rightarrow> u32 list \<Rightarrow> u32 \<Rightarrow> u32 \<times> u32" where
  "ioc_get_unique_mblk_id rand used next_id =
    (if next_id \<noteq> 0 then (next_id, next_id + 1) else (draw_unique_id rand used 100000, next_id))"

section \<open>Byte order lemmas\<close>

text \<open>Reference for the swapping copy: the groups of \<open>k\<close> bytes, each reversed.\<close>

function swap_groups :: "nat \<Rightarrow> 'a list \<Rightarrow> 'a list" where
  "swap_groups k xs = (if 0 < k \<and> k \<le> length xs then rev (take k xs) @ swap_groups k (drop k xs) else [])"
  by pat_completeness auto
termination
  by (relation "measure (\<lambda>(k, xs). length xs)") auto

declare swap_groups.simps [simp del]

lemma length_swap_groups: "length (swap_groups k xs) = length xs div k * k"
proof (induction k xs rule: swap_groups.induct)
  case (1 k xs)
  show ?case
  proof (cases "0 < k \<and> k \<le> length xs")
    case True
    then have "length xs div k = Suc ((length xs - k) div k)" by (simp add: le_div_geq)
    with True 1 show ?thesis by (subst swap_groups.simps) simp
  next
    case False
    then show ?thesis by (subst swap_groups.simps) auto
  qed
qed

lemma swap_groups_invol: "k dvd length xs \<Longrightarrow> 0 < k \<Longrightarrow> swap_groups k (swap_groups k xs) = xs"
proof (induction k xs rule: swap_groups.induct)
  case (1 k xs)
  show ?case
  proof (cases "k \<le> length xs")
    case True
    let ?r = "swap_groups k (drop k xs)"
    have "swap_groups k xs = rev (take k xs) @ ?r" using 1 True by (subst swap_groups.simps) simp
    moreover have "swap_groups k (rev (take k xs) @ ?r) = take k xs @ swap_groups k ?r"
      using 1 True by (subst swap_groups.simps) simp
    moreover have "swap_groups k ?r = drop k xs" using 1 True by (simp add: dvd_diff_nat)
    ultimately show ?thesis by simp
  next
    case False
    with 1 have "xs = []" by (cases xs) (auto dest: dvd_imp_le)
    then show ?thesis by (simp add: swap_groups.simps)
  qed
qed

lemma splice_splice_adjacent:
  "i + length xs + length ys \<le> length m \<Longrightarrow> splice (splice m i xs) (i + length xs) ys = splice m i (xs @ ys)"
  by (simp add: splice_def add.assoc add.commute add.left_commute)

lemma swap_copy_spec:
  assumes "k dvd c" and "0 < k" and "d + c \<le> length buf" and "s + c \<le> length p"
  shows "swap_copy buf (int d) p (int s) (int c) (int k) = Some (splice buf d (swap_groups k (take c (drop s p))))"
  using assms
proof (induction c arbitrary: buf d s rule: less_induct)
  case (less c)
  show ?case
  proof (cases "k \<le> c")
    case True
    let ?g = "take k (drop s p)" and ?r = "swap_groups k (take (c - k) (drop (s + k) p))"
    have "length (take (c - k) (drop (s + k) p)) = c - k" using True less.prems by simp
    then have lr: "length ?r = c - k" using less.prems by (simp only: length_swap_groups) (simp add: dvd_diff_nat)
    have dr: "drop k (take c (drop s p)) = take (c - k) (drop (s + k) p)" by (simp add: drop_take add.commute)
    have lc: "length (take c (drop s p)) = c" using less.prems by simp
    have "swap_groups k (take c (drop s p)) = rev ?g @ ?r"
      using True less.prems(2) by (subst swap_groups.simps, subst lc) (simp add: dr min_def)
    moreover have "swap_copy (splice buf d (rev ?g)) (int (d + k)) p (int (s + k)) (int (c - k)) (int k) =
        Some (splice (splice buf d (rev ?g)) (d + k) ?r)"
      using True less.prems by (intro less.IH) (auto simp: dvd_diff_nat)
    moreover have "splice (splice buf d (rev ?g)) (d + k) ?r = splice buf d (rev ?g @ ?r)"
      using splice_splice_adjacent [of d "rev ?g" ?r buf] True less.prems lr by simp
    ultimately show ?thesis
      using True less.prems by (subst swap_copy.simps) (simp add: rds_in wrs_in of_nat_diff)
  next
    case False
    with less.prems have "c = 0" by (auto dest: dvd_imp_le)
    with less.prems(2) show ?thesis by (auto simp: swap_copy.simps swap_groups.simps)
  qed
qed

text \<open>Size of the groups that are swapped; 1 for a plain copy.\<close>

definition swap_sz :: "bool \<Rightarrow> u16 \<Rightarrow> nat" where
  "swap_sz small_endian type_sz = (if \<not> small_endian \<and> type_sz \<in> {2, 4, 8} then unat type_sz else 1)"

lemma swap_groups_1 [simp]: "swap_groups (Suc 0) xs = xs"
  by (induction xs) (subst swap_groups.simps, simp)+

lemma swap_sz_pos [simp]: "0 < swap_sz se t"
  by (auto simp: swap_sz_def)

lemma byte_ordered_copy_spec:
  assumes "swap_sz se t dvd c" and "d + c \<le> length buf" and "s + c \<le> length p"
  shows "ioc_byte_ordered_copy se buf (int d) p (int s) (int c) t =
    Some (splice buf d (swap_groups (swap_sz se t) (take c (drop s p))))"
proof (cases "\<not> se \<and> t \<in> {2, 4, 8}")
  case True
  then have "uint t = int (swap_sz se t)" by (simp add: swap_sz_def)
  with True assms swap_copy_spec [OF assms(1) _ assms(2,3)] show ?thesis
    by (cases "c = 0") (auto simp: ioc_byte_ordered_copy_def swap_groups.simps)
next
  case False
  then have "swap_sz se t = 1" by (auto simp: swap_sz_def)
  with False assms show ?thesis by (auto simp: ioc_byte_ordered_copy_def os_memcpy_in)
qed

section \<open>Invariant\<close>

text \<open>
  A memory block of \<open>n\<close> bytes with its source buffers: the content has the recorded size and every
  source buffer is well formed and knows of every byte that it has not captured.
\<close>

definition mblk_wf :: "nat \<Rightarrow> iocMemoryBlock \<Rightarrow> iocSourceBuffer list \<Rightarrow> bool" where
  "mblk_wf n mblk sbufs \<longleftrightarrow> 0 < n \<and> mb_nbytes mblk = int n \<and>
    (\<exists>b. mb_buf mblk = Some b \<and> length b = n \<and> (\<forall>sbuf \<in> set sbufs. sbuf_wf n sbuf \<and> covers b sbuf))"

definition mb_content :: "iocMemoryBlock \<Rightarrow> byte list" where
  "mb_content mblk = (case mb_buf mblk of None \<Rightarrow> [] | Some b \<Rightarrow> b)"

lemma mblk_wf_content:
  assumes "mblk_wf n mblk sbufs"
  shows "mb_buf mblk = Some (mb_content mblk)" "length (mb_content mblk) = n" "mb_nbytes mblk = int n"
    "\<forall>sbuf \<in> set sbufs. sbuf_wf n sbuf \<and> covers (mb_content mblk) sbuf"
  using assms by (auto simp: mblk_wf_def mb_content_def)

text \<open>Fields of a source buffer that marking changes does not touch.\<close>

lemma invalidate_sbuf:
  assumes "sbuf_wf n sbuf" and "covers m sbuf" and "length m = n" "length m' = n"
    and "0 \<le> s" "s \<le> e" "e < int n" and "\<forall>i < n. int i < s \<or> e < int i \<longrightarrow> m' ! i = m ! i"
  shows "\<exists>sbuf'. ioc_sbuf_invalidate m' sbuf s e = Some sbuf' \<and> sbuf_wf n sbuf' \<and> covers m' sbuf'"
  using assms invalidate_plain [of n sbuf m m' s e] invalidate_bidir [of n sbuf m m' s e]
  by (cases "is_bidir sbuf") blast+

lemma mblk_invalidate_spec:
  assumes "\<forall>sbuf \<in> set sbufs. sbuf_wf n sbuf \<and> covers m sbuf" and "length m = n" "length m' = n"
    and "0 \<le> s" "s \<le> e" "e < int n" and "\<forall>i < n. int i < s \<or> e < int i \<longrightarrow> m' ! i = m ! i"
  shows "\<exists>sbufs'. ioc_mblk_invalidate m' s e sbufs = Some sbufs' \<and> length sbufs' = length sbufs \<and>
    (\<forall>sbuf \<in> set sbufs'. sbuf_wf n sbuf \<and> covers m' sbuf)"
  using assms(1)
proof (induction sbufs)
  case Nil
  then show ?case by simp
next
  case (Cons sbuf sbufs)
  then obtain rest where "ioc_mblk_invalidate m' s e sbufs = Some rest" "length rest = length sbufs"
    "\<forall>sbuf \<in> set rest. sbuf_wf n sbuf \<and> covers m' sbuf" by auto
  moreover obtain sbuf' where "ioc_sbuf_invalidate m' sbuf s e = Some sbuf'" "sbuf_wf n sbuf'" "covers m' sbuf'"
    using invalidate_sbuf [of n sbuf m m' s e] Cons.prems assms by auto
  ultimately show ?case by simp
qed

section \<open>Writes\<close>

text \<open>
  The bytes a write of at most \<open>n\<close> bytes stores: the string cut to \<open>n\<close> and filled with zeros,
  zeros, or the source bytes in the byte order of the memory block.
\<close>

definition written :: "bool \<Rightarrow> u16 \<Rightarrow> byte list \<Rightarrow> nat \<Rightarrow> byte list" where
  "written se flags buf n =
    (if has_flag flags IOC_MBLK_STRING
     then let str = take n (takeWhile (\<lambda>b. b \<noteq> 0) buf) in str @ replicate (n - length str) 0
     else if has_flag flags IOC_CLEAR_MBLK_RANGE then replicate n 0
     else swap_groups (swap_sz se (flags AND IOC_SWAP_MASK)) (take n buf))"

text \<open>Arguments that \<open>ioc_write\<close> and \<open>ioc_read\<close> accept for \<open>n\<close> bytes.\<close>

definition write_args :: "bool \<Rightarrow> u16 \<Rightarrow> byte list \<Rightarrow> nat \<Rightarrow> bool" where
  "write_args se flags buf n \<longleftrightarrow>
    (if has_flag flags IOC_MBLK_STRING then 0 \<in> set buf
     else if has_flag flags IOC_CLEAR_MBLK_RANGE then True
     else n \<le> length buf \<and> swap_sz se (flags AND IOC_SWAP_MASK) dvd n)"

lemma c_strlen_takeWhile: "0 \<in> set buf \<Longrightarrow> c_strlen buf = Some (length (takeWhile (\<lambda>b. b \<noteq> 0) buf))"
  by (induction buf) auto

lemma length_takeWhile_terminated: "0 \<in> set buf \<Longrightarrow> length (takeWhile (\<lambda>b. b \<noteq> 0) buf) < length (buf :: byte list)"
  by (induction buf) auto

lemma length_written: "write_args se flags buf n \<Longrightarrow> length (written se flags buf n) = n"
  by (auto simp: write_args_def written_def Let_def length_swap_groups min_def split: if_splits)

lemma write_string_spec:
  assumes t: "0 \<in> set buf" and fit: "a + n \<le> length mbuf" and f: "has_flag flags IOC_MBLK_STRING"
  shows "write_bytes se mbuf (int a) buf (int n) flags = Some (splice mbuf a (written se flags buf n))"
proof -
  let ?w = "takeWhile (\<lambda>b. b \<noteq> 0) buf" and ?c = "min (length (takeWhile (\<lambda>b. b \<noteq> 0) buf)) n"
  have c: "c_strlen buf = Some (length ?w)" by (rule c_strlen_takeWhile [OF t])
  have lb: "length ?w < length buf" by (rule length_takeWhile_terminated [OF t])
  have "take (length ?w) buf = ?w" by (rule takeWhile_eq_take [symmetric])
  then have tk: "take ?c buf = take n ?w" using take_take [of n "length ?w" buf] by (simp add: min.commute)
  have cp: "(if int ?c > 0 then os_memcpy mbuf (int a) buf 0 (int ?c) else Some mbuf) = Some (splice mbuf a (take n ?w))"
  proof (cases "?c = 0")
    case True
    then have "take n ?w = []" by (simp add: min_def split: if_splits)
    with True show ?thesis by auto
  next
    case False
    then show ?thesis using lb fit tk by (simp add: os_memcpy_in)
  qed
  have ln: "length (take n ?w) = ?c" by simp
  have cl: "os_memclear (splice mbuf a (take n ?w)) (int a + int ?c) (int n - int ?c) =
      Some (splice (splice mbuf a (take n ?w)) (a + ?c) (replicate (n - ?c) 0))"
    using fit ln by (subst os_memclear_in) (auto simp: nat_diff_distrib nat_add_distrib of_nat_diff)
  have sp: "splice (splice mbuf a (take n ?w)) (a + ?c) (replicate (n - ?c) 0) = splice mbuf a (take n ?w @ replicate (n - ?c) 0)"
    using splice_splice_adjacent [of a "take n ?w" "replicate (n - ?c) 0" mbuf] fit ln by simp
  have im: "min (int (length ?w)) (int n) = int ?c" by simp
  have wr: "written se flags buf n = take n ?w @ replicate (n - ?c) 0"
    using f ln by (simp add: written_def Let_def)
  have "write_bytes se mbuf (int a) buf (int n) flags =
      (if int n > int ?c then Some (splice mbuf a (written se flags buf n)) else Some (splice mbuf a (take n ?w)))"
    unfolding write_bytes_def using f by (simp only: c bind.bind_lunit Let_def if_True im cp cl sp wr)
  then show ?thesis by (auto simp: wr)
qed

lemma write_bytes_spec:
  assumes "write_args se flags buf n" and "a + n \<le> length mbuf"
  shows "write_bytes se mbuf (int a) buf (int n) flags = Some (splice mbuf a (written se flags buf n))"
proof (cases "has_flag flags IOC_MBLK_STRING")
  case True
  then show ?thesis using assms write_string_spec by (simp add: write_args_def)
next
  case False
  then show ?thesis
    using assms byte_ordered_copy_spec [of se "flags AND IOC_SWAP_MASK" n a mbuf 0 buf]
    by (auto simp: write_bytes_def written_def write_args_def os_memclear_in split: if_splits)
qed

text \<open>The number of bytes that remain of \<open>n\<close> at address \<open>a\<close> of a block of \<open>m\<close> bytes.\<close>

lemma write_spec:
  assumes wf: "mblk_wf m mblk sbufs" and a: "a < m" and n: "0 < n"
    and args: "write_args se flags buf (min n (m - a))"
  shows "\<exists>sbufs'. ioc_write se mblk sbufs (int a) buf (int n) flags =
      Some (mblk\<lparr>mb_buf := Some (splice (mb_content mblk) a (written se flags buf (min n (m - a))))\<rparr>, sbufs') \<and>
    length sbufs' = length sbufs \<and>
    mblk_wf m (mblk\<lparr>mb_buf := Some (splice (mb_content mblk) a (written se flags buf (min n (m - a))))\<rparr>) sbufs'"
proof -
  let ?k = "min n (m - a)" and ?b = "mb_content mblk"
  let ?w = "written se flags buf ?k"
  let ?b' = "splice ?b a ?w"
  note c = mblk_wf_content [OF wf]
  have fit: "a + ?k \<le> length ?b" using a c(2) by simp
  have lw: "length ?w = ?k" by (rule length_written [OF args])
  have l': "length ?b' = m" using fit lw c(2) by simp
  have out: "\<forall>i < m. int i < int a \<or> int a + int ?k - 1 < int i \<longrightarrow> ?b' ! i = ?b ! i"
    using fit lw c(2) by (auto simp: nth_splice)
  have r: "0 \<le> int a" "int a \<le> int a + int ?k - 1" "int a + int ?k - 1 < int m" using a n by auto
  obtain sbufs' where s': "ioc_mblk_invalidate ?b' (int a) (int a + int ?k - 1) sbufs = Some sbufs'"
    "length sbufs' = length sbufs" "\<forall>sbuf \<in> set sbufs'. sbuf_wf m sbuf \<and> covers ?b' sbuf"
    using mblk_invalidate_spec [OF c(4,2) l' r out] by blast
  have nn: "(if int n > int m - int a then int m - int a else int n) = int ?k" using a by auto
  have "ioc_write se mblk sbufs (int a) buf (int n) flags = Some (mblk\<lparr>mb_buf := Some ?b'\<rparr>, sbufs')"
    unfolding ioc_write_def Let_def c(1,3) nn using a s'(1) write_bytes_spec [OF args fit] by simp
  moreover have "mblk_wf m (mblk\<lparr>mb_buf := Some ?b'\<rparr>) sbufs'"
    using wf s'(3) l' by (auto simp: mblk_wf_def)
  ultimately show ?thesis using s'(2) by blast
qed

section \<open>Reads\<close>

lemma read_spec:
  assumes wf: "mblk_wf m mblk sbufs" and a: "a < m" and n: "0 < n" "n \<le> length buf"
    and ns: "\<not> has_flag flags IOC_MBLK_STRING"
    and k: "swap_sz se (flags AND IOC_SWAP_MASK) dvd min n (m - a)"
  shows "ioc_read se (Some mblk) (int a) buf (int n) flags =
    Some (swap_groups (swap_sz se (flags AND IOC_SWAP_MASK)) (take (min n (m - a)) (drop a (mb_content mblk))) @
      replicate (n - (m - a)) 0 @ drop n buf)"
proof -
  let ?k = "min n (m - a)" and ?b = "mb_content mblk" and ?t = "flags AND IOC_SWAP_MASK"
  let ?x = "swap_groups (swap_sz se ?t) (take ?k (drop a ?b))"
  note c = mblk_wf_content [OF wf]
  have lx: "length ?x = ?k" using k a c(2) by (simp add: length_swap_groups min_def split: if_splits)
  have nn: "(if int n > int m - int a then int m - int a else int n) = int ?k" using a by auto
  define buf1 where "buf1 = splice buf ?k (replicate (n - ?k) 0)"
  have b1: "(if int n > int m - int a then os_memclear buf (int m - int a) (int n - (int m - int a)) else Some buf) = Some buf1"
  proof (cases "int n > int m - int a")
    case True
    then have "os_memclear buf (int m - int a) (int n - (int m - int a)) =
        Some (splice buf (nat (int m - int a)) (replicate (nat (int n - (int m - int a))) 0))"
      using n a by (intro os_memclear_in) auto
    moreover have "nat (int m - int a) = ?k" "nat (int n - (int m - int a)) = n - ?k" using True a by auto
    ultimately show ?thesis using True by (simp add: buf1_def)
  next
    case False
    then show ?thesis using a by (simp add: buf1_def min_def nat_le_iff le_diff_conv2)
  qed
  have l1: "length buf1 = length buf" using n by (simp add: buf1_def)
  have "ioc_byte_ordered_copy se buf1 (int 0) ?b (int a) (int ?k) ?t = Some (splice buf1 0 ?x)"
    using k a n c(2) l1 by (intro byte_ordered_copy_spec) auto
  moreover have "splice buf1 0 ?x = ?x @ replicate (n - (m - a)) 0 @ drop n buf"
    using lx n by (simp add: buf1_def splice_def min_def)
  ultimately show ?thesis
    unfolding ioc_read_def Let_def option.case c(3) nn b1 using a ns c(1) by simp
qed

section \<open>Receives\<close>

text \<open>A target buffer of a plain (not bidirectional) block hands its unread bytes to the memory block.\<close>

lemma receive_tbuf_plain:
  assumes wf: "mblk_wf n mblk sbufs" and t: "tbuf_wf n tbuf" and nb: "\<not> tb_bidir tbuf"
  shows "\<exists>mblk' sbufs' ev. receive_tbuf con_fl mblk sbufs tbuf = Some (mblk', sbufs', tbuf\<lparr>tb_buf_used := False\<rparr>, ev) \<and>
    mblk_wf n mblk' sbufs' \<and> length sbufs' = length sbufs \<and> (\<exists>b. mblk' = mblk\<lparr>mb_buf := Some b\<rparr>) \<and>
    (\<forall>i < n. mb_content mblk' ! i = (if is_unread tbuf i then tb_snapshot tbuf ! i else mb_content mblk ! i)) \<and>
    ev = (if tb_buf_used tbuf then ioc_do_callback (mb_cbs mblk) IOC_MBLK_CALLBACK_RECEIVE (tb_buf_start tbuf) (tb_buf_end tbuf) else [])"
proof (cases "tb_buf_used tbuf")
  case False
  moreover have "mblk\<lparr>mb_buf := Some (mb_content mblk)\<rparr> = mblk" using mblk_wf_content(1) [OF wf] by simp
  ultimately show ?thesis using wf by (auto simp: receive_tbuf_def is_unread_def intro: exI [of _ "mb_content mblk"])
next
  case True
  note c = mblk_wf_content [OF wf] and b = tbuf_wf_buffers [OF t]
  let ?s = "tb_buf_start tbuf" and ?e = "tb_buf_end tbuf"
  let ?x = "take (nat (?e - ?s + 1)) (drop (nat ?s) (tb_snapshot tbuf))"
  let ?b' = "splice (mb_content mblk) (nat ?s) ?x"
  have r: "0 \<le> ?s" "?s \<le> ?e" "?e < int n" using t True by (auto simp: tbuf_wf_def)
  have ls: "length (tb_snapshot tbuf) = n" using b(2) nb by (simp add: total_sz_def)
  have cp: "os_memcpy (mb_content mblk) ?s (tb_snapshot tbuf) ?s (?e - ?s + 1) = Some ?b'"
    using r c(2) ls by (intro os_memcpy_in) auto
  have lx: "nat ?s + length ?x \<le> length (mb_content mblk)" using r c(2) ls by auto
  have v: "?b' ! i = (if is_unread tbuf i then tb_snapshot tbuf ! i else mb_content mblk ! i)" if "i < n" for i
    using nth_splice [OF lx, of i] that r c(2) ls True by (auto simp: is_unread_def)
  have l': "length ?b' = n" using lx c(2) by simp
  obtain sbufs' where s': "ioc_mblk_invalidate ?b' ?s ?e sbufs = Some sbufs'"
    "length sbufs' = length sbufs" "\<forall>sbuf \<in> set sbufs'. sbuf_wf n sbuf \<and> covers ?b' sbuf"
    using mblk_invalidate_spec [OF c(4,2) l' r] v by (auto simp: is_unread_def)
  have ss: "(if sbufs = [] then Some [] else ioc_mblk_invalidate ?b' ?s ?e sbufs) = Some sbufs'"
    using s'(1) by auto
  have t': "tbuf\<lparr>tb_buf := Some (tb_snapshot tbuf), tb_buf_used := False\<rparr> = tbuf\<lparr>tb_buf_used := False\<rparr>"
    using b(1) by simp
  have nb': "\<not> has_flag (tb_flags tbuf) IOC_BIDIRECTIONAL" using nb by (simp add: tb_bidir_def)
  have "receive_tbuf con_fl mblk sbufs tbuf = Some (mblk\<lparr>mb_buf := Some ?b'\<rparr>, sbufs', tbuf\<lparr>tb_buf_used := False\<rparr>,
      ioc_do_callback (mb_cbs mblk) IOC_MBLK_CALLBACK_RECEIVE ?s ?e)"
    unfolding receive_tbuf_def Let_def c(1) b(1)
    using True nb' by (simp only: bind.bind_lunit if_False if_True not_True_eq_False cp ss t')
  moreover have "mblk_wf n (mblk\<lparr>mb_buf := Some ?b'\<rparr>) sbufs'" using wf s'(3) l' by (auto simp: mblk_wf_def)
  ultimately show ?thesis using v s'(2) True by (auto simp: mb_content_def)
qed

text \<open>A target buffer of a bidirectional block hands over those unread bytes that are marked as changed.\<close>

definition taken :: "iocTargetBuffer \<Rightarrow> nat \<Rightarrow> bool" where
  "taken t i \<longleftrightarrow> is_unread t i \<and> (tb_bidir t \<longrightarrow> marked (tb_snapshot t) (tb_ndata t) (int i))"

text \<open>Source buffers that bidirectional data is not echoed to: it came from there.\<close>

definition echo_source :: "(nat \<Rightarrow> u16) \<Rightarrow> iocTargetBuffer \<Rightarrow> iocSourceBuffer \<Rightarrow> bool" where
  "echo_source con_fl t sbuf \<longleftrightarrow> tb_bidir t \<and> sb_con sbuf = tb_con t \<and> sb_remote_mblk_id sbuf = tb_remote_mblk_id t \<and>
     \<not> has_flag (con_fl (sb_con sbuf)) IOC_CONNECT_UP"

lemma change_bit_in:
  assumes "length b = n + (n + 7) div 8" and "0 \<le> i" "i < int n"
  shows "change_bit b (int n) i = Some (marked b (int n) i)"
proof -
  have "0 \<le> i div 8" "i div 8 < (int n + 7) div 8" using group_bounds [of i i "int n"] assms by simp_all
  then have "0 \<le> int n + i div 8" "int n + i div 8 < int (length b)" using assms(1) by (simp_all add: zdiv_int)
  then show ?thesis by (simp add: change_bit_def rd_in marked_def)
qed

lemma copy_marked_spec:
  assumes b: "length b = n + (n + 7) div 8"
  shows "0 \<le> s \<Longrightarrow> s + int k \<le> int n \<Longrightarrow> length d = n \<Longrightarrow> \<exists>d'. copy_marked b (int n) d s k = Some d' \<and> length d' = n \<and>
    (\<forall>i < n. d' ! i = (if s \<le> int i \<and> int i < s + int k \<and> marked b (int n) (int i) then b ! i else d ! i))"
proof (induction k arbitrary: s d)
  case 0
  then show ?case by auto
next
  case (Suc k)
  have c: "change_bit b (int n) s = Some (marked b (int n) s)" by (rule change_bit_in [OF b]) (use Suc.prems in simp_all)
  define d1 where "d1 = (if marked b (int n) s then d[nat s := b ! nat s] else d)"
  have st: "(if marked b (int n) s then do { v \<leftarrow> rd b s; wr d s v } else Some d) = Some d1"
    using Suc.prems b by (simp add: d1_def rd_in wr_in)
  have l1: "length d1 = n" using Suc.prems by (simp add: d1_def)
  obtain d' where d': "copy_marked b (int n) d1 (s + 1) k = Some d'" "length d' = n"
    "\<forall>i < n. d' ! i = (if s + 1 \<le> int i \<and> int i < s + 1 + int k \<and> marked b (int n) (int i) then b ! i else d1 ! i)"
    using Suc.IH [of "s + 1" d1] Suc.prems l1 by auto
  have "d' ! i = (if s \<le> int i \<and> int i < s + int (Suc k) \<and> marked b (int n) (int i) then b ! i else d ! i)" if "i < n" for i
  proof (cases "int i = s")
    case True
    then have "nat s = i" by simp
    then show ?thesis using d'(3) that True Suc.prems by (simp add: d1_def)
  next
    case False
    then have "d1 ! i = d ! i" using Suc.prems by (auto simp: d1_def nth_list_update)
    then show ?thesis using d'(3) that False by auto
  qed
  then show ?case using c st d'(1,2) by simp
qed

lemma invalidate_bidir_any:
  "is_bidir sbuf \<Longrightarrow> ioc_sbuf_invalidate m sbuf s e = ioc_sbuf_invalidate m' sbuf s e"
  by (auto simp: ioc_sbuf_invalidate_def is_bidir_def split: option.splits)

lemma invalidate_marked_spec:
  assumes b: "length b = n + (n + 7) div 8" and len: "length m = n" "length m' = n"
  shows "0 \<le> s \<Longrightarrow> s + int k \<le> int n \<Longrightarrow> sbuf_wf n sbuf \<Longrightarrow> is_bidir sbuf \<Longrightarrow> covers m sbuf \<Longrightarrow>
    (\<forall>i < n. m' ! i \<noteq> m ! i \<longrightarrow> s \<le> int i \<and> int i < s + int k \<and> marked b (int n) (int i)) \<Longrightarrow> length m = n \<Longrightarrow>
    \<exists>sbuf'. invalidate_marked b (int n) m' sbuf s k = Some sbuf' \<and> sbuf_wf n sbuf' \<and> covers m' sbuf'"
proof (induction k arbitrary: s sbuf m)
  case 0
  then have "m' = m" using len(2) by (intro nth_equalityI) auto
  with 0 show ?case by simp
next
  case (Suc k)
  have c: "change_bit b (int n) s = Some (marked b (int n) s)" by (rule change_bit_in [OF b]) (use Suc.prems in simp_all)
  let ?m = "m[nat s := m' ! nat s]"
  have ch: "\<forall>i < n. m' ! i \<noteq> ?m ! i \<longrightarrow> s + 1 \<le> int i \<and> int i < s + 1 + int k \<and> marked b (int n) (int i)"
  proof (intro allI impI)
    fix i assume i: "i < n" "m' ! i \<noteq> ?m ! i"
    then have "i \<noteq> nat s" using Suc.prems(7) by auto
    then show "s + 1 \<le> int i \<and> int i < s + 1 + int k \<and> marked b (int n) (int i)" using i Suc.prems(1,6) by auto
  qed
  have lm: "length ?m = n" using Suc.prems(7) by simp
  show ?case
  proof (cases "marked b (int n) s")
    case True
    have "i \<noteq> nat s" if "int i < s \<or> s < int i" for i using that Suc.prems(1) by linarith
    then have "\<forall>i < n. int i < s \<or> s < int i \<longrightarrow> ?m ! i = m ! i" by (metis nth_list_update_neq)
    then obtain sb1 where sb1: "ioc_sbuf_invalidate ?m sbuf s s = Some sb1" "sbuf_wf n sb1" "covers ?m sb1"
      "marks_range (int n) s s (sb_values sbuf) (sb_values sb1)"
      using invalidate_bidir [OF Suc.prems(3,5,7) lm, of s s] Suc.prems by auto
    have "length (sb_values sb1) = total_sz True n" using sb1(4) sbuf_wf_buffers(3) [OF Suc.prems(3)] Suc.prems(4) by (simp add: marks_range_def)
    moreover have "0 < (n + 7) div 8" using sb1(2) by (simp add: sbuf_wf_def div_greater_zero_iff)
    ultimately have bi: "is_bidir sb1" using sbuf_wf_buffers(3) [OF sb1(2)] by (cases "is_bidir sb1") (simp_all add: total_sz_def)
    have "ioc_sbuf_invalidate m' sbuf s s = Some sb1" using sb1(1) invalidate_bidir_any [OF Suc.prems(4)] by metis
    then show ?thesis using Suc.IH [OF _ _ sb1(2) bi sb1(3) ch lm] Suc.prems c True by simp
  next
    case False
    moreover have "nat s < n" "int (nat s) = s" using Suc.prems(1,2) by auto
    ultimately have "m' ! nat s = m ! nat s" using Suc.prems(6) by metis
    then have "?m = m" by simp
    then show ?thesis using Suc.IH [of "s + 1" sbuf m] ch Suc.prems c False by simp
  qed
qed

lemma echo_marked_spec:
  assumes t: "tbuf_wf n t" and bi: "tb_bidir t" and u: "tb_buf_used t" and len: "length m = n" "length m' = n"
    and d: "\<forall>i < n. m' ! i \<noteq> m ! i \<longrightarrow> taken t i"
  shows "\<forall>sbuf \<in> set sbufs. sbuf_wf n sbuf \<and> covers m sbuf \<Longrightarrow>
    \<exists>sbufs'. echo_marked con_fl t (tb_snapshot t) m' sbufs = Some sbufs' \<and>
      list_all2 (\<lambda>sbuf sbuf'. if echo_source con_fl t sbuf then sbuf' = sbuf else sbuf_wf n sbuf' \<and> covers m' sbuf') sbufs sbufs'"
proof (induction sbufs)
  case (Cons sbuf sbufs)
  let ?s = "tb_buf_start t" and ?e = "tb_buf_end t"
  have r: "0 \<le> ?s" "?s \<le> ?e" "?e < int n" and nd: "tb_ndata t = int n" using t u by (auto simp: tbuf_wf_def)
  have lb: "length (tb_snapshot t) = n + (n + 7) div 8" using tbuf_wf_buffers(2) [OF t] bi by (simp add: total_sz_def)
  have dd: "\<forall>i < n. m' ! i \<noteq> m ! i \<longrightarrow> ?s \<le> int i \<and> int i \<le> ?e \<and> marked (tb_snapshot t) (int n) (int i)"
    using d bi nd by (auto simp: taken_def is_unread_def)
  obtain rest where rest: "echo_marked con_fl t (tb_snapshot t) m' sbufs = Some rest"
    "list_all2 (\<lambda>sbuf sbuf'. if echo_source con_fl t sbuf then sbuf' = sbuf else sbuf_wf n sbuf' \<and> covers m' sbuf') sbufs rest"
    using Cons by auto
  have sb: "sbuf_wf n sbuf" "covers m sbuf" using Cons.prems by simp_all
  show ?case
  proof (cases "echo_source con_fl t sbuf")
    case True
    then have e: "sb_con sbuf = tb_con t \<and> sb_remote_mblk_id sbuf = tb_remote_mblk_id t \<and> \<not> has_flag (con_fl (sb_con sbuf)) IOC_CONNECT_UP"
      by (auto simp: echo_source_def)
    have "echo_marked con_fl t (tb_snapshot t) m' (sbuf # sbufs) = Some (sbuf # rest)"
      unfolding echo_marked.simps if_P [OF e] rest(1) by simp
    then show ?thesis using rest(2) True by simp
  next
    case False
    then have ne: "\<not> (sb_con sbuf = tb_con t \<and> sb_remote_mblk_id sbuf = tb_remote_mblk_id t \<and> \<not> has_flag (con_fl (sb_con sbuf)) IOC_CONNECT_UP)"
      using bi by (simp add: echo_source_def)
    obtain sbuf' where s': "(if has_flag (sb_flags sbuf) IOC_BIDIRECTIONAL then
          invalidate_marked (tb_snapshot t) (int n) m' sbuf ?s (nat (?e - ?s + 1)) else ioc_sbuf_invalidate m' sbuf ?s ?e) = Some sbuf'"
      "sbuf_wf n sbuf'" "covers m' sbuf'"
    proof (cases "is_bidir sbuf")
      case True
      have "\<exists>sbuf'. invalidate_marked (tb_snapshot t) (int n) m' sbuf ?s (nat (?e - ?s + 1)) = Some sbuf' \<and> sbuf_wf n sbuf' \<and> covers m' sbuf'"
        by (rule invalidate_marked_spec [OF lb len r(1) _ sb(1) True sb(2) _ len(1)]) (use r dd in auto)
      then show thesis using that True by (auto simp: is_bidir_def)
    next
      case False
      have "\<exists>sbuf'. ioc_sbuf_invalidate m' sbuf ?s ?e = Some sbuf' \<and> sbuf_wf n sbuf' \<and> covers m' sbuf'"
        by (rule invalidate_sbuf [OF sb len r]) (use dd in force)
      then show thesis using that False by (auto simp: is_bidir_def)
    qed
    have "echo_marked con_fl t (tb_snapshot t) m' (sbuf # sbufs) = Some (sbuf' # rest)"
      unfolding echo_marked.simps if_not_P [OF ne] nd s'(1) rest(1) by simp
    then show ?thesis using rest(2) s'(2,3) False by simp
  qed
qed simp

text \<open>Clearing the change bits of the groups that were received, nothing else.\<close>

lemma clear_change_bits_spec:
  assumes t: "tbuf_wf n t" and bi: "tb_bidir t" and u: "tb_buf_used t"
  shows "\<exists>b. clear_change_bits t (tb_snapshot t) = Some b \<and> length b = length (tb_snapshot t) \<and>
    (\<forall>i < n. b ! i = tb_snapshot t ! i) \<and> (\<forall>i. is_unread t i \<longrightarrow> \<not> marked b (int n) (int i))"
proof -
  let ?s = "tb_buf_start t" and ?e = "tb_buf_end t" and ?b = "tb_snapshot t"
  have r: "0 \<le> ?s" "?s \<le> ?e" "?e < int n" and nd: "tb_ndata t = int n" using t u by (auto simp: tbuf_wf_def)
  have lb: "length ?b = n + (n + 7) div 8" using tbuf_wf_buffers(2) [OF t] bi by (simp add: total_sz_def)
  note g = group_bounds [OF r]
  define p k where "p = nat (int n + ?s div 8)" and "k = nat (?e div 8 - ?s div 8 + 1)"
  have lbi: "int (length ?b) = int n + (int n + 7) div 8" using lb by (simp add: zdiv_int)
  have pi: "int p = int n + ?s div 8" "int k = ?e div 8 - ?s div 8 + 1" using g unfolding p_def k_def by simp_all
  then have "int n \<le> int p" "int p + int k \<le> int (length ?b)" using g lbi by linarith+
  then have pk: "n \<le> p" "p + k \<le> length ?b" "int p = int n + ?s div 8" "int k = ?e div 8 - ?s div 8 + 1"
    using pi by simp_all
  have c: "clear_change_bits t ?b = Some (splice ?b p (replicate k 0))"
    unfolding clear_change_bits_def nd p_def k_def by (rule os_memclear_in) (use pk g in simp_all)
  have li: "p + length (replicate k (0 :: byte)) \<le> length ?b" using pk by simp
  have "\<not> marked (splice ?b p (replicate k 0)) (int n) (int i)" if "is_unread t i" for i
  proof -
    have i: "?s \<le> int i" "int i \<le> ?e" using that by (simp_all add: is_unread_def)
    then have "?s div 8 \<le> int i div 8" "int i div 8 \<le> ?e div 8" by (simp_all add: zdiv_mono1)
    then have q: "p \<le> nat (int n + int i div 8)" "nat (int n + int i div 8) < p + k" using pk by linarith+
    then have "splice ?b p (replicate k 0) ! nat (int n + int i div 8) = 0"
      using nth_splice [OF li, of "nat (int n + int i div 8)"] pk(2) by simp
    then show ?thesis by (simp add: marked_def)
  qed
  moreover have "splice ?b p (replicate k 0) ! i = ?b ! i" if "i < n" for i
    using nth_splice [OF li, of i] pk(1) lb that by simp
  ultimately show ?thesis using c length_splice [OF li] by blast
qed

text \<open>One round of the loop over the target buffers, for any kind of block.\<close>

definition tbuf_received ::
  "(nat \<Rightarrow> u16) \<Rightarrow> nat \<Rightarrow> iocMemoryBlock \<Rightarrow> iocSourceBuffer list \<Rightarrow> iocTargetBuffer \<Rightarrow> byte list \<Rightarrow> iocSourceBuffer list \<Rightarrow>
   iocTargetBuffer \<Rightarrow> ioc_event list \<Rightarrow> bool" where
  "tbuf_received con_fl n mblk sbufs t b sbufs' t' ev \<longleftrightarrow> length b = n \<and>
     (\<forall>i < n. b ! i = (if taken t i then tb_snapshot t ! i else mb_content mblk ! i)) \<and>
     tbuf_wf n t' \<and> \<not> tb_buf_used t' \<and> tb_newdata t' = tb_newdata t \<and> (\<forall>i < n. tb_snapshot t' ! i = tb_snapshot t ! i) \<and>
     (\<forall>i. tb_bidir t \<and> is_unread t i \<longrightarrow> \<not> marked (tb_snapshot t') (int n) (int i)) \<and>
     ev = (if tb_buf_used t then ioc_do_callback (mb_cbs mblk) IOC_MBLK_CALLBACK_RECEIVE (tb_buf_start t) (tb_buf_end t) else []) \<and>
     list_all2 (\<lambda>sbuf sbuf'. if echo_source con_fl t sbuf then sbuf' = sbuf else sbuf_wf n sbuf' \<and> covers b sbuf') sbufs sbufs'"

lemma receive_tbuf_plain_received:
  assumes wf: "mblk_wf n mblk sbufs" and t: "tbuf_wf n t" and nb: "\<not> tb_bidir t"
  shows "\<exists>b sbufs' t' ev. receive_tbuf con_fl mblk sbufs t = Some (mblk\<lparr>mb_buf := Some b\<rparr>, sbufs', t', ev) \<and>
    tbuf_received con_fl n mblk sbufs t b sbufs' t' ev"
proof -
  obtain sbufs' ev b where r: "receive_tbuf con_fl mblk sbufs t = Some (mblk\<lparr>mb_buf := Some b\<rparr>, sbufs', t\<lparr>tb_buf_used := False\<rparr>, ev)"
    "mblk_wf n (mblk\<lparr>mb_buf := Some b\<rparr>) sbufs'" "length sbufs' = length sbufs"
    "\<forall>i < n. mb_content (mblk\<lparr>mb_buf := Some b\<rparr>) ! i = (if is_unread t i then tb_snapshot t ! i else mb_content mblk ! i)"
    "ev = (if tb_buf_used t then ioc_do_callback (mb_cbs mblk) IOC_MBLK_CALLBACK_RECEIVE (tb_buf_start t) (tb_buf_end t) else [])"
    using receive_tbuf_plain [OF wf t nb, of con_fl] by blast
  have "list_all2 (\<lambda>sbuf sbuf'. if echo_source con_fl t sbuf then sbuf' = sbuf else sbuf_wf n sbuf' \<and> covers b sbuf') sbufs sbufs'"
    using r(2,3) nb by (auto simp: list_all2_conv_all_nth echo_source_def mblk_wf_def)
  then have "tbuf_received con_fl n mblk sbufs t b sbufs' (t\<lparr>tb_buf_used := False\<rparr>) ev"
    using r(2,4,5) t nb unfolding tbuf_received_def by (auto simp: mblk_wf_def mb_content_def taken_def tbuf_wf_def tb_bidir_def tb_snapshot_def)
  then show ?thesis using r(1) by blast
qed

lemma receive_tbuf_bidir_received:
  assumes wf: "mblk_wf n mblk sbufs" and t: "tbuf_wf n t" and bi: "tb_bidir t" and u: "tb_buf_used t"
  shows "\<exists>b sbufs' t' ev. receive_tbuf con_fl mblk sbufs t = Some (mblk\<lparr>mb_buf := Some b\<rparr>, sbufs', t', ev) \<and>
    tbuf_received con_fl n mblk sbufs t b sbufs' t' ev"
proof -
  let ?s = "tb_buf_start t" and ?e = "tb_buf_end t"
  note c = mblk_wf_content [OF wf] and tb = tbuf_wf_buffers [OF t]
  have r: "0 \<le> ?s" "?s \<le> ?e" "?e < int n" and nd: "tb_ndata t = int n" using t u by (auto simp: tbuf_wf_def)
  have lb: "length (tb_snapshot t) = n + (n + 7) div 8" using tb(2) bi by (simp add: total_sz_def)
  obtain b where b: "copy_marked (tb_snapshot t) (int n) (mb_content mblk) ?s (nat (?e - ?s + 1)) = Some b" "length b = n"
    "\<forall>i < n. b ! i = (if ?s \<le> int i \<and> int i < ?s + int (nat (?e - ?s + 1)) \<and> marked (tb_snapshot t) (int n) (int i)
       then tb_snapshot t ! i else mb_content mblk ! i)"
    using copy_marked_spec [OF lb r(1) _ c(2), of "nat (?e - ?s + 1)"] r by auto
  have v: "\<forall>i < n. b ! i = (if taken t i then tb_snapshot t ! i else mb_content mblk ! i)"
    using b(3) r u bi nd by (auto simp: taken_def is_unread_def)
  have "\<exists>sbufs'. echo_marked con_fl t (tb_snapshot t) b sbufs = Some sbufs' \<and>
      list_all2 (\<lambda>sbuf sbuf'. if echo_source con_fl t sbuf then sbuf' = sbuf else sbuf_wf n sbuf' \<and> covers b sbuf') sbufs sbufs'"
    by (rule echo_marked_spec [OF t bi u c(2) b(2)]) (use v c(4) in auto)
  then obtain sbufs' where e: "echo_marked con_fl t (tb_snapshot t) b sbufs = Some sbufs'"
    "list_all2 (\<lambda>sbuf sbuf'. if echo_source con_fl t sbuf then sbuf' = sbuf else sbuf_wf n sbuf' \<and> covers b sbuf') sbufs sbufs'" by blast
  obtain b' where b': "clear_change_bits t (tb_snapshot t) = Some b'" "length b' = length (tb_snapshot t)"
    "\<forall>i < n. b' ! i = tb_snapshot t ! i" "\<forall>i. is_unread t i \<longrightarrow> \<not> marked b' (int n) (int i)"
    using clear_change_bits_spec [OF t bi u] by blast
  let ?t' = "t\<lparr>tb_buf := Some b', tb_buf_used := False\<rparr>"
  have ee: "(if sbufs = [] then Some [] else echo_marked con_fl t (tb_snapshot t) b sbufs) = Some sbufs'" using e(1) by auto
  have fl: "has_flag (tb_flags t) IOC_BIDIRECTIONAL" using bi by (simp add: tb_bidir_def)
  have rt: "receive_tbuf con_fl mblk sbufs t = Some (mblk\<lparr>mb_buf := Some b\<rparr>, sbufs', ?t', ioc_do_callback (mb_cbs mblk) IOC_MBLK_CALLBACK_RECEIVE ?s ?e)"
    unfolding receive_tbuf_def Let_def c(1) tb(1) nd
    using u fl by (simp only: bind.bind_lunit if_True if_False not_True_eq_False b(1) ee b'(1))
  have "tbuf_wf n ?t'" using t b'(2) tb by (auto simp: tbuf_wf_def tb_bidir_def)
  moreover have "tb_snapshot ?t' = b'" "\<not> tb_buf_used ?t'" "tb_newdata ?t' = tb_newdata t" by (simp_all add: tb_snapshot_def)
  ultimately have "tbuf_received con_fl n mblk sbufs t b sbufs' ?t' (ioc_do_callback (mb_cbs mblk) IOC_MBLK_CALLBACK_RECEIVE ?s ?e)"
    unfolding tbuf_received_def using b(2) v e(2) b'(3,4) u by (intro conjI) (assumption | simp)+
  then show ?thesis using rt by blast
qed

lemma receive_tbuf_received:
  assumes wf: "mblk_wf n mblk sbufs" and t: "tbuf_wf n t"
  shows "\<exists>b sbufs' t' ev. receive_tbuf con_fl mblk sbufs t = Some (mblk\<lparr>mb_buf := Some b\<rparr>, sbufs', t', ev) \<and>
    tbuf_received con_fl n mblk sbufs t b sbufs' t' ev"
proof (cases "tb_bidir t")
  case False
  then show ?thesis by (rule receive_tbuf_plain_received [OF wf t])
next
  case bi: True
  show ?thesis
  proof (cases "tb_buf_used t")
    case True
    then show ?thesis by (rule receive_tbuf_bidir_received [OF wf t bi])
  next
    case False
    note c = mblk_wf_content [OF wf]
    have "receive_tbuf con_fl mblk sbufs t = Some (mblk\<lparr>mb_buf := Some (mb_content mblk)\<rparr>, sbufs, t, [])"
      using False c(1) by (simp add: receive_tbuf_def)
    moreover have "tbuf_received con_fl n mblk sbufs t (mb_content mblk) sbufs t []"
      using False c(2,4) t by (auto simp: tbuf_received_def taken_def is_unread_def list_all2_conv_all_nth)
    ultimately show ?thesis by blast
  qed
qed

section \<open>Strings\<close>

lemma read_string_spec:
  assumes "\<forall>i < length str. rd mbuf (p + int i) = Some (str ! i) \<and> str ! i \<noteq> 0" and "rd mbuf (p + int (length str)) = Some 0"
    and "length str \<le> count" and "d + length str < length buf"
  shows "read_string mbuf p buf (int d) count = Some (splice buf d (str @ [0]))"
  using assms
proof (induction str arbitrary: p buf d count)
  case Nil
  then show ?case
    by (cases count) (auto simp: wr_in splice_def upd_conv_take_nth_drop)
next
  case (Cons x str)
  then obtain c where c: "count = Suc c" by (cases count) auto
  have x: "rd mbuf p = Some x" "x \<noteq> 0" using Cons.prems(1) by auto
  have "read_string mbuf (p + 1) (buf[d := x]) (int (Suc d)) c = Some (splice (buf[d := x]) (Suc d) (str @ [0]))"
  proof (rule Cons.IH)
    show "\<forall>i < length str. rd mbuf (p + 1 + int i) = Some (str ! i) \<and> str ! i \<noteq> 0"
    proof (intro allI impI)
      fix i
      assume "i < length str"
      then have "rd mbuf (p + int (Suc i)) = Some ((x # str) ! Suc i) \<and> (x # str) ! Suc i \<noteq> 0"
        using Cons.prems(1) by (metis Suc_less_eq length_Cons)
      then show "rd mbuf (p + 1 + int i) = Some (str ! i) \<and> str ! i \<noteq> 0" by (simp add: algebra_simps)
    qed
    show "rd mbuf (p + 1 + int (length str)) = Some 0" using Cons.prems(2) by (simp add: algebra_simps)
  qed (use Cons.prems c in auto)
  moreover have "splice (buf[d := x]) (Suc d) (str @ [0]) = splice buf d ((x # str) @ [0])"
    using Cons.prems(4) by (simp add: splice_def upd_conv_take_nth_drop take_Suc_conv_app_nth add.commute)
  ultimately show ?case using x c Cons.prems(4) by (simp add: wr_in add.commute)
qed

section \<open>Properties\<close>

definition mblk_sample :: "byte list \<Rightarrow> iocMemoryBlock" where
  "mblk_sample b = \<lparr>mb_flags = 3, mb_local_flags = 0, mb_buf = Some b, mb_nbytes = int (length b), mb_network_name = [],
    mb_device_name = [], mb_device_nr = 1, mb_mblk_id = 8, mb_mblk_name = [], mb_cbs = [None, None], mb_sbufs = [], mb_tbufs = [],
    mb_allocated = True, mb_buf_allocated = True, mb_to_be_deleted = False\<rparr>"

text \<open>
  \<^bold>\<open>C22\<close>: what is written is read back. Writing \<open>n\<close> bytes of numeric data within a memory block, on a
  processor of either byte order and with any swap size that divides \<open>n\<close>, stores them so that
  \<open>ioc_read\<close> with the same flags returns exactly these bytes; no other byte of the block changes and
  every source buffer linked to the block knows of every byte it still has to send.
\<close>

theorem write_read_roundtrip:
  assumes wf: "mblk_wf m mblk sbufs" and n: "0 < n" "a + n \<le> m" "length data = n"
    and f: "\<not> has_flag flags IOC_MBLK_STRING" "\<not> has_flag flags IOC_CLEAR_MBLK_RANGE"
    and k: "swap_sz small_endian (flags AND IOC_SWAP_MASK) dvd n" and buf: "n \<le> length buf"
  shows "\<exists>mblk' sbufs'. ioc_write small_endian mblk sbufs (int a) data (int n) flags = Some (mblk', sbufs') \<and>
    mblk_wf m mblk' sbufs' \<and>
    ioc_read small_endian (Some mblk') (int a) buf (int n) flags = Some (data @ drop n buf) \<and>
    (\<forall>i < m. i < a \<or> a + n \<le> i \<longrightarrow> mb_content mblk' ! i = mb_content mblk ! i)"
proof -
  let ?z = "swap_sz small_endian (flags AND IOC_SWAP_MASK)"
  let ?w = "swap_groups ?z data"
  let ?m = "mblk\<lparr>mb_buf := Some (splice (mb_content mblk) a ?w)\<rparr>"
  have mn: "min n (m - a) = n" "n - (m - a) = 0" "a < m" using n by auto
  have w: "written small_endian flags data n = ?w" using f n(3) by (simp add: written_def)
  have "write_args small_endian flags data (min n (m - a))" using f n(3) k mn by (simp add: write_args_def)
  from write_spec [OF wf mn(3) n(1) this] obtain sbufs' where
    1: "ioc_write small_endian mblk sbufs (int a) data (int n) flags = Some (?m, sbufs')" "mblk_wf m ?m sbufs'"
    unfolding mn(1) w by blast
  have lw: "length ?w = n" using k n(3) by (simp add: length_swap_groups)
  have lc: "a + length ?w \<le> length (mb_content mblk)" using lw n mblk_wf_content(2) [OF wf] by simp
  have "take n (drop a (mb_content ?m)) = ?w" using take_drop_splice [OF lc] lw by (simp add: mb_content_def)
  then have "ioc_read small_endian (Some ?m) (int a) buf (int n) flags = Some (swap_groups ?z ?w @ drop n buf)"
    using read_spec [OF 1(2) mn(3) n(1) buf f(1)] k mn by simp
  moreover have "swap_groups ?z ?w = data" using k n(3) by (intro swap_groups_invol) simp_all
  moreover have "\<forall>i < m. i < a \<or> a + n \<le> i \<longrightarrow> mb_content ?m ! i = mb_content mblk ! i"
    using lc lw mblk_wf_content(2) [OF wf] by (auto simp: mb_content_def nth_splice)
  ultimately show ?thesis using 1 by auto
qed

theorem write_read_roundtrip_witness:
  "\<exists>mblk' sbufs'. ioc_write False (mblk_sample [1, 2, 3, 4, 5, 6]) [] (int 1) [7, 8, 9, 10] (int 4) IOC_SWAP_32 = Some (mblk', sbufs') \<and>
    mblk_wf 6 mblk' sbufs' \<and>
    ioc_read False (Some mblk') (int 1) [0, 0, 0, 0] (int 4) IOC_SWAP_32 = Some ([7, 8, 9, 10] @ drop 4 [0, 0, 0, 0]) \<and>
    (\<forall>i < 6. i < 1 \<or> 1 + 4 \<le> i \<longrightarrow> mb_content mblk' ! i = mb_content (mblk_sample [1, 2, 3, 4, 5, 6]) ! i)"
  by (rule write_read_roundtrip)
    (simp_all add: mblk_wf_def mblk_sample_def has_flag_def access_flag_defs swap_sz_def)

text \<open>
  Strings: a terminated string that is shorter than the space given to \<open>ioc_write\<close> is stored
  with its terminator, the rest of the space is cleared, and \<open>ioc_read\<close> returns the string with a
  terminator.
\<close>

theorem write_read_string:
  assumes wf: "mblk_wf m mblk sbufs" and n: "length str < n" "a + n \<le> m" and str: "0 \<notin> set str"
    and f: "has_flag flags IOC_MBLK_STRING" and buf: "n \<le> length buf"
  shows "\<exists>mblk' sbufs'. ioc_write small_endian mblk sbufs (int a) (str @ [0]) (int n) flags = Some (mblk', sbufs') \<and>
    mblk_wf m mblk' sbufs' \<and> take n (drop a (mb_content mblk')) = str @ replicate (n - length str) 0 \<and>
    ioc_read small_endian (Some mblk') (int a) buf (int n) flags = Some (splice buf 0 (str @ [0]))"
proof -
  let ?w = "str @ replicate (n - length str) 0"
  let ?b = "splice (mb_content mblk) a ?w"
  let ?m = "mblk\<lparr>mb_buf := Some ?b\<rparr>"
  have mn: "min n (m - a) = n" "a < m" "0 < n" using n by auto
  have tw: "takeWhile (\<lambda>b. b \<noteq> 0) (str @ [0]) = str"
    using str by (subst takeWhile_append2) auto
  have w: "written small_endian flags (str @ [0]) n = ?w" using f n(1) tw by (simp add: written_def Let_def)
  have "write_args small_endian flags (str @ [0]) (min n (m - a))" using f by (simp add: write_args_def)
  from write_spec [OF wf mn(2,3) this] obtain sbufs' where
    1: "ioc_write small_endian mblk sbufs (int a) (str @ [0]) (int n) flags = Some (?m, sbufs')" "mblk_wf m ?m sbufs'"
    unfolding mn(1) w by blast
  have lc: "a + length ?w \<le> length (mb_content mblk)" using n mblk_wf_content(2) [OF wf] by simp
  have at: "rd ?b (int a + int i) = Some (?w ! i)" if "i < n" for i
    using lc that n by (simp add: rd_in nth_splice nat_add_distrib)
  have td: "take n (drop a ?b) = ?w" using take_drop_splice [OF lc] n by simp
  have "read_string ?b (int a) buf (int 0) (n - 1) = Some (splice buf 0 (str @ [0]))"
  proof (rule read_string_spec)
    show "\<forall>i < length str. rd ?b (int a + int i) = Some (str ! i) \<and> str ! i \<noteq> 0"
      using at n(1) str by (auto simp: nth_append in_set_conv_nth)
    show "rd ?b (int a + int (length str)) = Some 0" using at n(1) by (simp add: nth_append)
  qed (use n buf in auto)
  then have "ioc_read small_endian (Some ?m) (int a) buf (int n) flags = Some (splice buf 0 (str @ [0]))"
    unfolding ioc_read_def Let_def option.case using mblk_wf_content(3) [OF wf] n f mn(3) by (simp add: nat_diff_distrib)
  with 1 td show ?thesis by (auto simp: mb_content_def)
qed

theorem write_read_string_witness:
  "\<exists>mblk' sbufs'. ioc_write True (mblk_sample [1, 2, 3, 4, 5, 6]) [] (int 1) ([65, 66] @ [0]) (int 4) IOC_MBLK_STRING = Some (mblk', sbufs') \<and>
    mblk_wf 6 mblk' sbufs' \<and> take 4 (drop 1 (mb_content mblk')) = [65, 66] @ replicate (4 - length [65, 66 :: byte]) 0 \<and>
    ioc_read True (Some mblk') (int 1) [9, 9, 9, 9] (int 4) IOC_MBLK_STRING = Some (splice [9, 9, 9, 9] 0 ([65, 66] @ [0]))"
  by (rule write_read_string) (simp_all add: mblk_wf_def mblk_sample_def has_flag_def access_flag_defs)

text \<open>
  A string that does not fit is stored without a terminator. When the string has at least as
  many characters as the space given to \<open>ioc_write\<close>, the whole space is filled with characters and
  no zero byte is written, although the comment of \<open>ioc_write\<close> promises a terminated string.
\<close>

theorem write_long_string_unterminated:
  assumes wf: "mblk_wf m mblk sbufs" and n: "0 < n" "n \<le> length str" "a + n \<le> m" and str: "0 \<notin> set str"
    and f: "has_flag flags IOC_MBLK_STRING"
  shows "\<exists>mblk' sbufs'. ioc_write small_endian mblk sbufs (int a) (str @ [0]) (int n) flags = Some (mblk', sbufs') \<and>
    take n (drop a (mb_content mblk')) = take n str \<and> 0 \<notin> set (take n (drop a (mb_content mblk')))"
proof -
  let ?m = "mblk\<lparr>mb_buf := Some (splice (mb_content mblk) a (take n str))\<rparr>"
  have mn: "min n (m - a) = n" "a < m" using n by auto
  have "takeWhile (\<lambda>b. b \<noteq> 0) (str @ [0]) = str" using str by (subst takeWhile_append2) auto
  then have w: "written small_endian flags (str @ [0]) n = take n str" using f n(2) by (simp add: written_def Let_def)
  have "write_args small_endian flags (str @ [0]) (min n (m - a))" using f by (simp add: write_args_def)
  from write_spec [OF wf mn(2) n(1) this] obtain sbufs' where
    1: "ioc_write small_endian mblk sbufs (int a) (str @ [0]) (int n) flags = Some (?m, sbufs')"
    unfolding mn(1) w by blast
  have lc: "a + length (take n str) \<le> length (mb_content mblk)" using n mblk_wf_content(2) [OF wf] by simp
  have "take n (drop a (mb_content ?m)) = take n str" using take_drop_splice [OF lc] n by (simp add: mb_content_def min_absorb2)
  moreover have "0 \<notin> set (take n str)" using str by (meson in_set_takeD)
  ultimately show ?thesis using 1 by auto
qed

theorem write_long_string_unterminated_witness:
  "\<exists>mblk' sbufs'. ioc_write True (mblk_sample [1, 2, 3, 4, 5, 6]) [] (int 1) ([65, 66, 67] @ [0]) (int 2) IOC_MBLK_STRING = Some (mblk', sbufs') \<and>
    take 2 (drop 1 (mb_content mblk')) = take 2 [65, 66, 67] \<and> 0 \<notin> set (take 2 (drop 1 (mb_content mblk')))"
  by (rule write_long_string_unterminated [where m = 6])
    (simp_all add: mblk_wf_def mblk_sample_def has_flag_def access_flag_defs)

text \<open>
  \<^bold>\<open>C23\<close>: \<open>ioc_receive\<close> makes a received snapshot available to the application. It ignores a static
  block. For any other block with one target buffer, the usual number, exactly these bytes of the snapshot are
  copied to the block: all unread ones, or, when the buffer is bidirectional, the unread ones that are
  marked as changed. Then nothing is left unread and the marks of the range are cleared, the receive
  callback has reported the range, and every source buffer that the block is forwarded through knows of
  every byte it has to send on; only the buffer of the connection that bidirectional data came from, if it
  leads downwards, is left as it was.
\<close>

theorem receive_copies_snapshot:
  assumes wf: "mblk_wf n mblk sbufs" and t: "tbuf_wf n tbuf"
  shows "if has_flag (mb_flags mblk) IOC_STATIC then ioc_receive_nolock con_fl mblk sbufs [tbuf] = Some (mblk, sbufs, [tbuf], [])
    else \<exists>b sbufs' tbuf' ev. ioc_receive_nolock con_fl mblk sbufs [tbuf] = Some (mblk\<lparr>mb_buf := Some b\<rparr>, sbufs', [tbuf'], ev) \<and>
      tbuf_received con_fl n mblk sbufs tbuf b sbufs' tbuf' ev"
  using receive_tbuf_received [OF wf t, of con_fl] by (auto simp: ioc_receive_nolock_def)

text \<open>A bidirectional buffer of three bytes, all unread, of which the second is marked.\<close>

definition tbuf_marked :: iocTargetBuffer where
  "tbuf_marked = (tbuf_sample 8 [4, 5, 6, 2] [4, 5, 6, 2])\<lparr>tb_ndata := 3, tb_buf_used := True, tb_buf_start := 0, tb_buf_end := 2\<rparr>"

theorem receive_copies_snapshot_witness:
  "\<exists>sbufs' tbuf' ev. ioc_receive_nolock (\<lambda>_. 0) (mblk_sample [1, 2, 3]) [] [tbuf_marked] =
      Some ((mblk_sample [1, 2, 3])\<lparr>mb_buf := Some [1, 5, 3]\<rparr>, sbufs', [tbuf'], ev) \<and> \<not> tb_buf_used tbuf'"
proof -
  have wf: "mblk_wf 3 (mblk_sample [1, 2, 3]) []" by (simp add: mblk_wf_def mblk_sample_def)
  have t: "tbuf_wf 3 tbuf_marked"
    by (simp add: tbuf_marked_def tbuf_wf_def tbuf_sample_def tb_bidir_def total_sz_def has_flag_def IOC_BIDIRECTIONAL_def)
  have ns: "\<not> has_flag (mb_flags (mblk_sample [1, 2, 3])) IOC_STATIC" by (simp add: mblk_sample_def has_flag_def mblk_flag_defs)
  obtain b sbufs' tbuf' ev where r: "ioc_receive_nolock (\<lambda>_. 0) (mblk_sample [1, 2, 3]) [] [tbuf_marked] =
      Some ((mblk_sample [1, 2, 3])\<lparr>mb_buf := Some b\<rparr>, sbufs', [tbuf'], ev)"
    and q: "tbuf_received (\<lambda>_. 0) 3 (mblk_sample [1, 2, 3]) [] tbuf_marked b sbufs' tbuf' ev"
    using receive_copies_snapshot [OF wf t, of "\<lambda>_. 0"] ns by auto
  have k: "\<not> taken tbuf_marked 0" "taken tbuf_marked 1" "\<not> taken tbuf_marked 2" by code_simp+
  have m: "mb_content (mblk_sample [1, 2, 3]) = [1, 2, 3]" "tb_snapshot tbuf_marked = [4, 5, 6, 2]"
    by (simp_all add: mb_content_def mblk_sample_def tbuf_marked_def tbuf_sample_def tb_snapshot_def)
  have "length b = 3" "\<forall>i < 3. b ! i = [1, 5, 3] ! i"
    using q k m by (simp_all add: tbuf_received_def less_Suc_eq numeral_3_eq_3) (auto simp: numeral_2_eq_2)
  then have "b = [1, 5, 3]" by (intro nth_equalityI) auto
  then show ?thesis using r q by (auto simp: tbuf_received_def)
qed



text \<open>
  \<^bold>\<open>C25\<close>: memory block identifiers are unique. As long as numbers are left, or one of the random draws
  after the counter has wrapped around hits a free number, \<open>ioc_get_unique_mblk_id\<close> returns an
  identifier no memory block has, and the state it leaves guarantees the same for the next call.
\<close>

definition ids_below :: "u32 list \<Rightarrow> u32 \<Rightarrow> bool" where
  "ids_below used next_id \<longleftrightarrow> next_id = 0 \<or> (\<forall>u \<in> set used. u < next_id)"

theorem unique_mblk_id:
  assumes inv: "ids_below used next_id" and free: "next_id \<noteq> 0 \<or> (\<exists>k < 100000. rand k \<notin> set used)"
    and r: "ioc_get_unique_mblk_id rand used next_id = (new_id, next_id')"
  shows "new_id \<notin> set used \<and> ids_below (new_id # used) next_id'"
proof (cases "next_id = 0")
  case True
  have "draw_unique_id rand used c \<notin> set used" if "\<exists>k < c. rand k \<notin> set used" for c
    using that by (induction c) (auto simp: less_Suc_eq)
  with True free r show ?thesis by (auto simp: ioc_get_unique_mblk_id_def ids_below_def)
next
  case False
  have "next_id < next_id + 1" if "next_id + 1 \<noteq> 0"
    using unatSuc [of next_id] that by (simp add: word_less_nat_alt add.commute)
  then show ?thesis using False inv r
    by (auto simp: ioc_get_unique_mblk_id_def ids_below_def intro: less_trans)
qed

theorem unique_mblk_id_witness:
  "9 \<notin> set [8 :: u32] \<and> ids_below (9 # [8]) 10"
  by (rule unique_mblk_id [of "[8]" 9 "\<lambda>_. 0"]) (simp_all add: ids_below_def ioc_get_unique_mblk_id_def)

end
