(* ===== verification/Ioc_Connection.thy ===== *)
theory Ioc_Connection
  imports Ioc_Memory_Block
begin

text \<open>
  The state of a connection (\<open>iocConnection\<close> of \<open>code/ioc_connection.h\<close>), the set up of its frame
  sizes and flow control limits by \<open>ioc_connect\<close>, and \<open>ioc_reset_connection_state\<close> of
  \<open>code/ioc_connection.c\<close>.

  \<open>frame_out\<close> and \<open>frame_in\<close> are flattened (\<open>fo_\<close> and \<open>fi_\<close>). The source and target buffers of
  the connection are kept in list order with the reference the pointers stand for. The flow control
  counters are 32 bit words and wrap around. Timers are readings of \<open>os_get_timer\<close>, a parameter.
\<close>

section \<open>Constants\<close>

definition IOC_SOCKET :: u16 where "IOC_SOCKET = 1"
definition IOC_CREATE_THREAD :: u16 where "IOC_CREATE_THREAD = 2"
definition IOC_CLOSE_CONNECTION_ON_ERROR :: u16 where "IOC_CLOSE_CONNECTION_ON_ERROR = 4"
definition IOC_BIDIRECTIONAL_MBLKS :: u16 where "IOC_BIDIRECTIONAL_MBLKS = 8"
definition IOC_DYNAMIC_MBLKS :: u16 where "IOC_DYNAMIC_MBLKS = 16"
definition IOC_LISTENER :: u16 where "IOC_LISTENER = 32"
definition IOC_SECURE_CONNECTION :: u16 where "IOC_SECURE_CONNECTION = 256"
definition IOC_CLOUD_CONNECTION :: u16 where "IOC_CLOUD_CONNECTION = 512"

definition IOC_SOCKET_FRAME_SZ :: int where "IOC_SOCKET_FRAME_SZ = 1392"
definition IOC_SERIAL_FRAME_SZ :: int where "IOC_SERIAL_FRAME_SZ = 96"
definition IOC_SERIAL_UNACKNOGLEDGED_LIMIT :: int where "IOC_SERIAL_UNACKNOGLEDGED_LIMIT = 40"
definition IOC_SERIAL_NRO_ACKS_TO_RESEVE :: int where "IOC_SERIAL_NRO_ACKS_TO_RESEVE = 5"
definition IOC_SERIAL_RX_BUF_MIN_SZ :: int where "IOC_SERIAL_RX_BUF_MIN_SZ = 256"
definition IOC_SOCKET_UNACKNOGLEDGED_LIMIT :: int where "IOC_SOCKET_UNACKNOGLEDGED_LIMIT = 500"
definition IOC_SOCKET_NRO_ACKS_TO_RESEVE :: int where "IOC_SOCKET_NRO_ACKS_TO_RESEVE = 5"

definition IOC_SERIAL_MAX_IN_AIR :: int where
  "IOC_SERIAL_MAX_IN_AIR = IOC_SERIAL_RX_BUF_MIN_SZ - 1 - IOC_SERIAL_UNACKNOGLEDGED_LIMIT -
     IOC_SERIAL_NRO_ACKS_TO_RESEVE * int IOC_SERIAL_ACK_SIZE"

definition IOC_SERIAL_MAX_ACK_IN_AIR :: int where
  "IOC_SERIAL_MAX_ACK_IN_AIR = IOC_SERIAL_RX_BUF_MIN_SZ - 1"

definition IOC_SOCKET_MAX_IN_AIR :: "int \<Rightarrow> int" where
  "IOC_SOCKET_MAX_IN_AIR frame_sz = 44 * frame_sz"

definition IOC_SOCKET_MAX_ACK_IN_AIR :: "int \<Rightarrow> int" where
  "IOC_SOCKET_MAX_ACK_IN_AIR frame_sz = IOC_SOCKET_MAX_IN_AIR frame_sz + IOC_SOCKET_UNACKNOGLEDGED_LIMIT +
     IOC_SOCKET_NRO_ACKS_TO_RESEVE * int IOC_SOCKET_ACK_SIZE"

lemmas con_flag_defs = IOC_SOCKET_def IOC_CREATE_THREAD_def IOC_CLOSE_CONNECTION_ON_ERROR_def
  IOC_BIDIRECTIONAL_MBLKS_def IOC_DYNAMIC_MBLKS_def IOC_LISTENER_def IOC_CONNECT_UP_def
  IOC_SECURE_CONNECTION_def IOC_CLOUD_CONNECTION_def
lemmas flow_limit_defs = IOC_SOCKET_FRAME_SZ_def IOC_SERIAL_FRAME_SZ_def IOC_SERIAL_UNACKNOGLEDGED_LIMIT_def
  IOC_SERIAL_NRO_ACKS_TO_RESEVE_def IOC_SERIAL_RX_BUF_MIN_SZ_def IOC_SOCKET_UNACKNOGLEDGED_LIMIT_def
  IOC_SOCKET_NRO_ACKS_TO_RESEVE_def IOC_SERIAL_MAX_IN_AIR_def IOC_SERIAL_MAX_ACK_IN_AIR_def
  IOC_SOCKET_MAX_IN_AIR_def IOC_SOCKET_MAX_ACK_IN_AIR_def

section \<open>State\<close>

datatype iocSerialConnectionState =
    OSAL_SERCON_STATE_INIT_1 | OSAL_SERCON_STATE_INIT_2 | OSAL_SERCON_STATE_INIT_3
  | OSAL_SERCON_STATE_INIT_4 | OSAL_SERCON_STATE_CONNECTED_5

record iocConnection =
  con_flags :: u16
  con_frame_sz :: int
  con_dst_frame_sz :: int
  con_max_in_air :: int
  con_max_ack_in_air :: int
  con_unacknogledged_limit :: int
  con_stream_open :: bool
  con_open_fail_timer :: nat
  con_open_try_timer :: nat
  con_open_fail_timer_set :: bool
  con_last_receive :: nat
  con_last_send :: nat
  fo_buf :: "byte list"
  fo_used :: int
  fo_pos :: int
  fo_frame_nr :: byte
  fi_buf :: "byte list"
  fi_pos :: nat
  fi_frame_nr :: byte
  con_sercon_state :: iocSerialConnectionState
  con_sercon_timer :: nat
  con_bytes_received :: u32
  con_bytes_acknowledged :: u32
  con_bytes_sent :: u32
  con_processed_bytes :: u32
  con_has_trig :: bool
  con_sbufs :: "(nat \<times> iocSourceBuffer) list"
  con_current :: "nat option"
  con_tbufs :: "(nat \<times> iocTargetBuffer) list"
  con_auto_device_nr :: u32
  con_authentication_sent :: bool
  con_authentication_received :: bool
  con_handshake_ready :: bool
  con_connected :: bool
  con_remove_mblk_req :: "u32 list list"
  con_has_callback :: bool
  con_current_mblk :: "nat option"
  con_current_cloud_mblk :: "nat option"
  con_sbuf_mbinfo_down :: "nat option"
  con_tbuf_mbinfo_down :: "nat option"
  con_allowed_networks :: "(byte list \<times> u16) list"
  con_user_override :: "byte list"
  con_password_override :: "byte list"
  con_unique_id_bin :: "byte list"

text \<open>\<open>(con->flags & (IOC_SOCKET|IOC_SERIAL)) == IOC_SERIAL\<close>, where \<open>IOC_SERIAL\<close> is zero.\<close>

definition con_is_serial :: "iocConnection \<Rightarrow> bool" where
  "con_is_serial con \<longleftrightarrow> \<not> has_flag (con_flags con) IOC_SOCKET"

section \<open>Set up\<close>

text \<open>
  The sizes and limits that \<open>ioc_connect\<close> chooses. \<open>no_select\<close> is the build's
  \<open>OSAL_SOCKET_SELECT_SUPPORT == 0\<close> or \<open>OSAL_SERIAL_SELECT_SUPPORT == 0\<close> bit.
\<close>

definition IOC_DISABLE_SELECT :: u16 where "IOC_DISABLE_SELECT = 64"

definition connect_limits :: "bool \<Rightarrow> u16 \<Rightarrow> iocConnection \<Rightarrow> iocConnection" where
  "connect_limits no_select flags con =
    (let flags' = (if no_select then flags OR IOC_DISABLE_SELECT else flags);
         con1 = (if has_flag flags IOC_SOCKET
           then con\<lparr>con_frame_sz := IOC_SOCKET_FRAME_SZ, con_max_in_air := IOC_SOCKET_MAX_IN_AIR IOC_SOCKET_FRAME_SZ,
                 con_unacknogledged_limit := IOC_SOCKET_UNACKNOGLEDGED_LIMIT,
                 con_max_ack_in_air := IOC_SOCKET_MAX_ACK_IN_AIR IOC_SOCKET_FRAME_SZ\<rparr>
           else con\<lparr>con_frame_sz := IOC_SERIAL_FRAME_SZ, con_max_in_air := IOC_SERIAL_MAX_IN_AIR,
                 con_unacknogledged_limit := IOC_SERIAL_UNACKNOGLEDGED_LIMIT,
                 con_max_ack_in_air := IOC_SERIAL_MAX_ACK_IN_AIR\<rparr>)
     in con1\<lparr>con_flags := flags', con_dst_frame_sz := con_frame_sz con1,
          con_sercon_state := OSAL_SERCON_STATE_INIT_1\<rparr>)"

section \<open>Reset\<close>

definition reset_sbuf :: "iocSourceBuffer \<Rightarrow> iocSourceBuffer" where
  "reset_sbuf sbuf = sbuf\<lparr>sb_used := False, sb_start_addr := 0, sb_end_addr := 0, sb_make_keyframe := True,
     sb_is_keyframe := True\<rparr>"

definition reset_tbuf :: "iocTargetBuffer \<Rightarrow> iocTargetBuffer" where
  "reset_tbuf tbuf = tbuf\<lparr>tb_buf_start := 0, tb_buf_end := 0, tb_buf_used := False, tb_has_new_data := False,
     tb_newdata_start := 0, tb_newdata_end := 0\<rparr>"

definition ioc_reset_connection_state :: "nat \<Rightarrow> iocConnection \<Rightarrow> iocConnection" where
  "ioc_reset_connection_state tnow con = con\<lparr>
     fi_frame_nr := 0, fi_pos := 0, fo_frame_nr := 0, fo_pos := 0, fo_used := 0,
     con_authentication_sent := False, con_authentication_received := False, con_handshake_ready := False,
     con_bytes_received := 0, con_bytes_acknowledged := 0xA0A000, con_bytes_sent := 0, con_processed_bytes := 0,
     con_last_receive := tnow, con_last_send := tnow,
     con_sbufs := map (map_prod id reset_sbuf) (con_sbufs con),
     con_tbufs := map (map_prod id reset_tbuf) (con_tbufs con),
     con_remove_mblk_req := []\<rparr>"

definition ioc_close_stream :: "iocConnection \<Rightarrow> iocConnection" where
  "ioc_close_stream con = (if con_stream_open con
     then con\<lparr>con_stream_open := False, con_sercon_state := OSAL_SERCON_STATE_INIT_1\<rparr> else con)"

section \<open>Flow control\<close>

text \<open>
  Bytes the other end has not acknowledged, as every sender computes it: the difference of the two
  counters, cut to the 24 or 16 bits that acknowledge messages transfer.
\<close>

definition ack_mask :: "iocConnection \<Rightarrow> u32" where
  "ack_mask con = (if has_flag (con_flags con) IOC_SOCKET then 0xFFFFFF else 0xFFFF)"

definition bytes_in_air :: "iocConnection \<Rightarrow> int" where
  "bytes_in_air con = uint ((con_bytes_sent con - con_processed_bytes con) AND ack_mask con)"

end
