(* ===== verification/Ioc_Buffers.thy ===== *)
theory Ioc_Buffers
  imports Ioc_Connection
begin

text \<open>
  Binding memory blocks to connections: \<open>ioc_initialize_source_buffer\<close> and
  \<open>ioc_release_source_buffer\<close> of \<open>code/ioc_source_buffer.c\<close>, \<open>ioc_initialize_target_buffer\<close> and
  \<open>ioc_release_target_buffer\<close> of \<open>code/ioc_target_buffer.c\<close>.

  A connection and a memory block each keep a doubly linked list of their buffers; a new buffer is
  appended to both and a released one is unlinked from both. Here the lists hold references, the
  buffers themselves are kept with the connection, and the reference of a new buffer is an argument
  (the address \<open>ioc_malloc\<close> returned), as is whether each of the two allocations succeeded.
\<close>

section \<open>Operations\<close>

definition ioc_initialize_source_buffer ::
  "bool \<Rightarrow> bool \<Rightarrow> nat \<Rightarrow> nat \<times> iocConnection \<Rightarrow> nat \<times> iocMemoryBlock \<Rightarrow> u16 \<Rightarrow> u16 \<Rightarrow>
   (iocConnection \<times> iocMemoryBlock) option" where
  "ioc_initialize_source_buffer got_obj got_buf r cm bm remote_mblk_id flags =
    (let (c, con) = cm; (b, mblk) = bm;
         static = has_flag (mb_flags mblk) IOC_STATIC;
         nbytes = (if \<not> static \<and> has_flag flags IOC_BIDIRECTIONAL
                   then mb_nbytes mblk + (mb_nbytes mblk + 7) div 8 else mb_nbytes mblk);
         zeros = (if static then None else Some (replicate (nat nbytes) 0));
         sbuf = \<lparr>sb_remote_mblk_id = remote_mblk_id, sb_immediate_sync_needed = False,
           sb_changed_range_set = False, sb_changed_start = 0, sb_changed_end = 0,
           sb_buf = zeros, sb_delta = zeros, sb_nbytes = nbytes, sb_used = False,
           sb_make_keyframe = True, sb_is_keyframe = False, sb_start_addr = 0, sb_end_addr = 0,
           sb_bidir_start = 0, sb_bidir_end = 0, sb_bidir_range_set = False,
           sb_flags = (if static then 0 else flags), sb_ndata = (if static then 0 else mb_nbytes mblk),
           sb_mblk = b, sb_con = c\<rparr>
     in if \<not> got_obj then None
        else if \<not> static \<and> \<not> got_buf then None
        else Some (con\<lparr>con_sbufs := con_sbufs con @ [(r, sbuf)]\<rparr>, mblk\<lparr>mb_sbufs := mb_sbufs mblk @ [r]\<rparr>))"

definition ioc_initialize_target_buffer ::
  "bool \<Rightarrow> bool \<Rightarrow> nat \<Rightarrow> nat \<times> iocConnection \<Rightarrow> nat \<times> iocMemoryBlock \<Rightarrow> u16 \<Rightarrow> u16 \<Rightarrow>
   (iocConnection \<times> iocMemoryBlock) option" where
  "ioc_initialize_target_buffer got_obj got_buf r cm bm remote_mblk_id flags =
    (let (c, con) = cm; (b, mblk) = bm;
         bidir = has_flag flags IOC_BIDIRECTIONAL;
         nbytes = (if bidir then mb_nbytes mblk + (mb_nbytes mblk + 7) div 8 else mb_nbytes mblk);
         count = nat (nbytes - mb_nbytes mblk);
         content = take (nat (mb_nbytes mblk)) (case mb_buf mblk of None \<Rightarrow> [] | Some m \<Rightarrow> m);
         mark = (if has_flag (mb_flags mblk) IOC_MBLK_DOWN \<and> \<not> has_flag (con_flags con) IOC_CONNECT_UP then 0xFF else 0);
         tbuf = \<lparr>tb_remote_mblk_id = remote_mblk_id,
           tb_buf = Some (content @ replicate count 0), tb_newdata = content @ replicate count mark,
           tb_nbytes = nbytes, tb_buf_start = 0, tb_buf_end = 0, tb_buf_used = False,
           tb_has_new_data = False, tb_newdata_start = 0, tb_newdata_end = 0,
           tb_flags = flags, tb_ndata = mb_nbytes mblk, tb_mblk = b, tb_con = c\<rparr>
     in if \<not> got_obj \<or> \<not> got_buf then None
        else Some (con\<lparr>con_tbufs := con_tbufs con @ [(r, tbuf)]\<rparr>, mblk\<lparr>mb_tbufs := mb_tbufs mblk @ [r]\<rparr>))"

text \<open>The reference that follows \<open>r\<close> in a linked list (\<open>clink.next\<close>).\<close>

fun next_ref :: "nat \<Rightarrow> nat list \<Rightarrow> nat option" where
  "next_ref r [] = None"
| "next_ref r (x # xs) = (if x = r then (case xs of [] \<Rightarrow> None | y # ys \<Rightarrow> Some y) else next_ref r xs)"

definition ioc_release_source_buffer ::
  "nat \<Rightarrow> iocConnection \<Rightarrow> iocMemoryBlock \<Rightarrow> iocConnection \<times> iocMemoryBlock" where
  "ioc_release_source_buffer r con mblk =
    (let con1 = (if con_current con = Some r then con\<lparr>con_current := None\<rparr> else con);
         con2 = (if con_sbuf_mbinfo_down con1 = Some r
                 then con1\<lparr>con_sbuf_mbinfo_down := next_ref r (map fst (con_sbufs con1))\<rparr> else con1)
     in (con2\<lparr>con_sbufs := filter (\<lambda>x. fst x \<noteq> r) (con_sbufs con2)\<rparr>,
         mblk\<lparr>mb_sbufs := filter (\<lambda>x. x \<noteq> r) (mb_sbufs mblk)\<rparr>))"

definition ioc_release_target_buffer ::
  "nat \<Rightarrow> iocConnection \<Rightarrow> iocMemoryBlock \<Rightarrow> iocConnection \<times> iocMemoryBlock" where
  "ioc_release_target_buffer r con mblk =
    (let con1 = (if con_tbuf_mbinfo_down con = Some r
                 then con\<lparr>con_tbuf_mbinfo_down := next_ref r (map fst (con_tbufs con))\<rparr> else con)
     in (con1\<lparr>con_tbufs := filter (\<lambda>x. fst x \<noteq> r) (con_tbufs con1)\<rparr>,
         mblk\<lparr>mb_tbufs := filter (\<lambda>x. x \<noteq> r) (mb_tbufs mblk)\<rparr>))"

section \<open>New buffers are well formed\<close>

text \<open>\<open>sb\<close> is as \<open>ioc_initialize_source_buffer\<close> leaves it: nothing to send yet but a key frame is due.\<close>

definition fresh_sbuf :: "u16 \<Rightarrow> iocSourceBuffer \<Rightarrow> bool" where
  "fresh_sbuf remote_id sb \<longleftrightarrow> sb_make_keyframe sb \<and> \<not> sb_used sb \<and> \<not> sb_changed_range_set sb \<and> sb_remote_mblk_id sb = remote_id"

lemma nbytes_total:
  "0 < n \<Longrightarrow> (if b then int n + (int n + 7) div 8 else int n) = int (total_sz b n)"
  by (simp add: total_sz_def zdiv_int)

lemma initialize_source_spec:
  assumes wf: "mblk_wf n mblk sbufs" and st: "\<not> has_flag (mb_flags mblk) IOC_STATIC"
  shows "\<exists>sb. ioc_initialize_source_buffer True True r (c, con) (b, mblk) remote_id flags =
      Some (con\<lparr>con_sbufs := con_sbufs con @ [(r, sb)]\<rparr>, mblk\<lparr>mb_sbufs := mb_sbufs mblk @ [r]\<rparr>) \<and>
    sbuf_wf n sb \<and> covers (mb_content mblk) sb \<and> fresh_sbuf remote_id sb \<and> sb_flags sb = flags \<and> sb_mblk sb = b \<and> sb_con sb = c"
proof -
  have n: "0 < n" "mb_nbytes mblk = int n" using wf by (auto simp: mblk_wf_def)
  have t: "(if has_flag flags IOC_BIDIRECTIONAL then int n + (int n + 7) div 8 else int n) = int (total_sz (has_flag flags IOC_BIDIRECTIONAL) n)"
    by (rule nbytes_total [OF n(1)])
  show ?thesis using n st t
    by (auto simp: ioc_initialize_source_buffer_def Let_def sbuf_wf_def covers_def fresh_sbuf_def is_bidir_def)
qed

lemma initialize_target_spec:
  assumes wf: "mblk_wf n mblk sbufs"
  shows "\<exists>tb. ioc_initialize_target_buffer True True r (c, con) (b, mblk) remote_id flags =
      Some (con\<lparr>con_tbufs := con_tbufs con @ [(r, tb)]\<rparr>, mblk\<lparr>mb_tbufs := mb_tbufs mblk @ [r]\<rparr>) \<and>
    tbuf_wf n tb \<and> tracks n tb \<and> (\<forall>i < n. tb_snapshot tb ! i = mb_content mblk ! i \<and> tb_newdata tb ! i = mb_content mblk ! i) \<and>
    \<not> tb_has_new_data tb \<and> \<not> tb_buf_used tb \<and> tb_flags tb = flags \<and> tb_mblk tb = b \<and> tb_con tb = c"
proof -
  note m = mblk_wf_content [OF wf]
  have n: "0 < n" using wf by (auto simp: mblk_wf_def)
  define sz where "sz = total_sz (has_flag flags IOC_BIDIRECTIONAL) n"
  have t: "(if has_flag flags IOC_BIDIRECTIONAL then int n + (int n + 7) div 8 else int n) = int sz"
    unfolding sz_def by (rule nbytes_total [OF n])
  have le: "n \<le> sz" by (simp add: sz_def total_sz_def)
  let ?mark = "if has_flag (mb_flags mblk) IOC_MBLK_DOWN \<and> \<not> has_flag (con_flags con) IOC_CONNECT_UP then 0xFF else 0 :: byte"
  define tb where "tb = \<lparr>tb_remote_mblk_id = remote_id, tb_buf = Some (mb_content mblk @ replicate (sz - n) 0),
    tb_newdata = mb_content mblk @ replicate (sz - n) ?mark, tb_nbytes = int sz, tb_buf_start = 0, tb_buf_end = 0, tb_buf_used = False,
    tb_has_new_data = False, tb_newdata_start = 0, tb_newdata_end = 0, tb_flags = flags, tb_ndata = int n, tb_mblk = b, tb_con = c\<rparr>"
  have "ioc_initialize_target_buffer True True r (c, con) (b, mblk) remote_id flags =
      Some (con\<lparr>con_tbufs := con_tbufs con @ [(r, tb)]\<rparr>, mblk\<lparr>mb_tbufs := mb_tbufs mblk @ [r]\<rparr>)"
  proof -
    have d: "nat (int sz - int n) = sz - n" using le by linarith
    show ?thesis unfolding ioc_initialize_target_buffer_def Let_def prod.case m(1,3) t d tb_def using m(2) by simp
  qed
  moreover have "tbuf_wf n tb" "tracks n tb"
    using n m(2) le by (auto simp: tbuf_wf_def tb_def sz_def tb_bidir_def tracks_def tb_snapshot_def nth_append)
  moreover have "\<forall>i < n. tb_snapshot tb ! i = mb_content mblk ! i \<and> tb_newdata tb ! i = mb_content mblk ! i"
    using m(2) by (simp add: tb_def tb_snapshot_def nth_append)
  ultimately show ?thesis by (intro exI [of _ tb]) (simp add: tb_def)
qed

end
