(* ===== verification/Ioc_Connection_Send.thy ===== *)
theory Ioc_Connection_Send
  imports Ioc_Connection
begin

text \<open>
  Building and writing frames, \<open>code/ioc_connection_send.c\<close>: \<open>ioc_make_data_frame\<close>,
  \<open>ioc_finish_frame\<close>, \<open>ioc_send_acknowledge\<close>, \<open>ioc_send_timed_keepalive\<close>,
  \<open>ioc_acknowledge_as_needed\<close> and \<open>ioc_write_to_stream\<close>.

  \<open>os_checksum\<close> and the stream functions belong to the operating system abstraction layer and are
  parameters: \<open>checksum\<close> maps bytes to a 16 bit sum, \<open>stream_write\<close> says for the bytes offered
  which status it returns and how many it took. \<open>past\<close> is the byte that happens to lie behind the
  delta buffer: \<open>ioc_compress\<close> reads it (see \<open>compress_reads_past_end\<close>), and the results below
  hold whatever it is.
\<close>

section \<open>Data frames\<close>

text \<open>
  The first half of \<open>ioc_make_data_frame\<close>: header, choice of the delta buffer and compression.
  The result is the frame buffer, the header pointers, \<open>compressed_bytes\<close>, \<open>start_addr\<close> and
  the region plain data is copied from. For a static memory block (\<open>delta\<close> null) that is the memory
  block itself.
\<close>

definition data_frame_start ::
  "byte \<Rightarrow> byte list \<Rightarrow> iocConnection \<Rightarrow> iocSourceBuffer \<Rightarrow>
   (byte list \<times> iocSendHeaderPtrs \<times> int \<times> int \<times> byte list) option" where
  "data_frame_start past mblk_buf con sbuf = do {
     let saved_start_addr = sb_start_addr sbuf;
     (h, ptrs) \<leftarrow> ioc_generate_header (con_is_serial con) (fo_frame_nr con)
        (scast (sb_remote_mblk_id sbuf)) (word_of_int saved_start_addr);
     buf \<leftarrow> wrs (fo_buf con) 0 h;
     let max_dst_bytes = con_dst_frame_sz con - int (shp_header_sz ptrs);
     (case sb_delta sbuf of
        None \<Rightarrow> Some (buf, ptrs, -1, saved_start_addr, mblk_buf)
      | Some delta \<Rightarrow> do {
          buf1 \<leftarrow> (if \<not> sb_is_keyframe sbuf \<and> saved_start_addr < sb_ndata sbuf
             then or_at buf (int (shp_flags ptrs)) IOC_DELTA_ENCODED else Some buf);
          (compressed_bytes, start_addr, out) \<leftarrow>
             ioc_compress (delta @ [past]) saved_start_addr (sb_end_addr sbuf) (nat max_dst_bytes);
          buf2 \<leftarrow> wrs buf1 (int (shp_header_sz ptrs)) out;
          Some (buf2, ptrs, compressed_bytes, start_addr, delta)
        }) }"

text \<open>Size fields and the optional checksum, shared with \<open>ioc_finish_frame\<close>.\<close>

definition set_data_sz :: "byte list \<Rightarrow> iocSendHeaderPtrs \<Rightarrow> int \<Rightarrow> byte list option" where
  "set_data_sz buf ptrs n = do {
     buf1 \<leftarrow> wr buf (int (shp_data_sz_low ptrs)) (word_of_int n);
     (case shp_data_sz_high ptrs of
        None \<Rightarrow> Some buf1
      | Some p \<Rightarrow> wr buf1 (int p) (word_of_int (n div 256))) }"

definition set_checksum :: "(byte list \<Rightarrow> u16) \<Rightarrow> byte list \<Rightarrow> iocSendHeaderPtrs \<Rightarrow> int \<Rightarrow> byte list option" where
  "set_checksum checksum buf ptrs used =
    (case (shp_checksum_low ptrs, shp_checksum_high ptrs) of
       (Some lo, Some hi) \<Rightarrow> do {
         bytes \<leftarrow> rds buf 0 used;
         let crc = checksum bytes;
         buf1 \<leftarrow> wr buf (int lo) (ucast crc);
         wr buf1 (int hi) (ucast (drop_bit 8 crc))
       }
     | (Some lo, None) \<Rightarrow> None
     | (None, _) \<Rightarrow> Some buf)"

definition ioc_make_data_frame ::
  "(byte list \<Rightarrow> u16) \<Rightarrow> byte \<Rightarrow> callback_table \<Rightarrow> byte list \<Rightarrow> iocConnection \<Rightarrow> iocSourceBuffer \<Rightarrow>
   (iocConnection \<times> iocSourceBuffer \<times> ioc_event list) option" where
  "ioc_make_data_frame checksum past cbs mblk_buf con sbuf = do {
     (buf, ptrs, compressed_bytes, start_addr, src) \<leftarrow> data_frame_start past mblk_buf con sbuf;
     let saved_start_addr = sb_start_addr sbuf;
     let hsz = int (shp_header_sz ptrs);
     let max_dst_bytes = con_dst_frame_sz con - hsz;
     let src_bytes = min (sb_end_addr sbuf - saved_start_addr + 1) max_dst_bytes;
     let used_bytes = (if compressed_bytes < 0 then src_bytes else compressed_bytes) + hsz;
     if used_bytes > con_max_in_air con - bytes_in_air con
     then Some (con\<lparr>fo_buf := buf, fo_pos := 0\<rparr>, sbuf, [])
     else do {
       buf1 \<leftarrow> (if compressed_bytes < 0 then os_memcpy buf hsz src saved_start_addr src_bytes
                 else or_at buf (int (shp_flags ptrs)) IOC_COMPRESESSED);
       let start_addr' = (if compressed_bytes < 0 then start_addr + src_bytes else start_addr);
       buf2 \<leftarrow> set_data_sz buf1 ptrs (used_bytes - hsz);
       (buf3, sbuf', ev) \<leftarrow>
         (if start_addr' > sb_end_addr sbuf then
            if sb_bidir_range_set sbuf
            then Some (buf2, sbuf\<lparr>sb_start_addr := sb_bidir_start sbuf, sb_end_addr := sb_bidir_end sbuf,
                              sb_bidir_range_set := False\<rparr>, [])
            else do {
              b \<leftarrow> or_at buf2 (int (shp_flags ptrs)) IOC_SYNC_COMPLETE;
              Some (b, sbuf\<lparr>sb_start_addr := start_addr', sb_used := False\<rparr>,
                    ioc_do_callback cbs IOC_MBLK_CALLBACK_WRITE_TRIGGER 0 0)
            }
          else Some (buf2, sbuf\<lparr>sb_start_addr := start_addr'\<rparr>, []));
       buf4 \<leftarrow> set_checksum checksum buf3 ptrs used_bytes;
       Some (con\<lparr>fo_buf := buf4, fo_pos := 0, fo_used := used_bytes,
                 fo_frame_nr := next_frame_out_nr (fo_frame_nr con)\<rparr>, sbuf', ev)
     } }"

section \<open>System frames\<close>

text \<open>
  \<open>ioc_finish_frame\<close>: the content is already in the frame buffer behind the header; \<open>content_bytes\<close>
  is \<open>p - start\<close>.
\<close>

definition ioc_finish_frame ::
  "(byte list \<Rightarrow> u16) \<Rightarrow> iocConnection \<Rightarrow> iocSendHeaderPtrs \<Rightarrow> int \<Rightarrow> (osalStatus \<times> iocConnection) option" where
  "ioc_finish_frame checksum con ptrs content_bytes =
    (let used_bytes = content_bytes + int (shp_header_sz ptrs)
     in if used_bytes > con_max_in_air con - bytes_in_air con then Some (OSAL_PENDING, con)
        else do {
          buf1 \<leftarrow> set_data_sz (fo_buf con) ptrs content_bytes;
          buf2 \<leftarrow> or_at buf1 (int (shp_flags ptrs)) IOC_SYSTEM_FRAME;
          buf3 \<leftarrow> set_checksum checksum buf2 ptrs used_bytes;
          Some (OSAL_SUCCESS, con\<lparr>fo_buf := buf3, fo_used := used_bytes,
             fo_frame_nr := next_frame_out_nr (fo_frame_nr con)\<rparr>)
        })"

section \<open>Writing to the stream\<close>

text \<open>
  \<open>ioc_write_to_stream\<close>. \<open>stream_write\<close> gets the bytes still to be sent and returns a status and the
  number of bytes written; \<open>tnow\<close> is the reading of the timer.
\<close>

type_synonym stream_write = "byte list \<Rightarrow> osalStatus \<times> nat"

definition ioc_write_to_stream :: "stream_write \<Rightarrow> nat \<Rightarrow> iocConnection \<Rightarrow> (osalStatus \<times> iocConnection) option" where
  "ioc_write_to_stream stream_write tnow con =
    (let n = fo_used con - fo_pos con
     in if n \<le> 0 then Some (OSAL_PENDING, con)
        else do {
          bytes \<leftarrow> rds (fo_buf con) (fo_pos con) n;
          let (status, n_written) = stream_write bytes;
          let con1 = (if n_written \<noteq> 0
             then con\<lparr>con_last_send := tnow, con_bytes_sent := con_bytes_sent con + of_nat n_written\<rparr> else con);
          let con2 = (if status = OSAL_STATUS_CONNECTION_REFUSED
             then con1\<lparr>con_open_fail_timer := tnow, con_open_fail_timer_set := True\<rparr> else con1);
          let status1 = (if status = OSAL_SUCCESS \<and> n \<noteq> int n_written then OSAL_PENDING else status);
          let pos = fo_pos con + int n_written;
          Some (status1, if pos \<ge> fo_used con then con2\<lparr>fo_used := 0, fo_pos := 0\<rparr> else con2\<lparr>fo_pos := pos\<rparr>)
        })"

section \<open>Acknowledgements and keep alive\<close>

definition ack_message :: "iocConnection \<Rightarrow> byte list" where
  "ack_message con = (let rbytes = con_bytes_received con
     in [IOC_ACKNOWLEDGE, ucast rbytes, ucast (drop_bit 8 rbytes)] @
        (if has_flag (con_flags con) IOC_SOCKET then [ucast (drop_bit 16 rbytes)] else []))"

definition ioc_send_acknowledge :: "stream_write \<Rightarrow> nat \<Rightarrow> iocConnection \<Rightarrow> (osalStatus \<times> iocConnection) option" where
  "ioc_send_acknowledge stream_write tnow con =
    (if fo_used con \<noteq> 0 then Some (OSAL_PENDING, con)
     else do {
       buf \<leftarrow> wrs (fo_buf con) 0 (ack_message con);
       let con1 = con\<lparr>fo_buf := buf,
          fo_used := int (if has_flag (con_flags con) IOC_SOCKET then IOC_SOCKET_ACK_SIZE else IOC_SERIAL_ACK_SIZE),
          con_bytes_acknowledged := con_bytes_received con\<rparr>;
       (status, con2) \<leftarrow> ioc_write_to_stream stream_write tnow con1;
       Some (status, con2\<lparr>con_last_send := tnow\<rparr>)
     })"

definition IOC_SERIAL_KEEPALIVE_MS :: nat where "IOC_SERIAL_KEEPALIVE_MS = 150"
definition IOC_SOCKET_KEEPALIVE_MS :: nat where "IOC_SOCKET_KEEPALIVE_MS = 10000"

text \<open>\<open>os_has_elapsed_since\<close> belongs to the abstraction layer: \<open>elapsed start now ms\<close>.\<close>

definition ioc_send_timed_keepalive ::
  "(nat \<Rightarrow> nat \<Rightarrow> nat \<Rightarrow> bool) \<Rightarrow> stream_write \<Rightarrow> nat \<Rightarrow> iocConnection \<Rightarrow> (osalStatus \<times> iocConnection) option" where
  "ioc_send_timed_keepalive elapsed stream_write tnow con =
    (if con_is_serial con \<and> con_sercon_state con \<noteq> OSAL_SERCON_STATE_CONNECTED_5 then Some (OSAL_SUCCESS, con)
     else if elapsed (con_last_send con) tnow
        (if con_is_serial con then IOC_SERIAL_KEEPALIVE_MS else IOC_SOCKET_KEEPALIVE_MS) then do {
       (status, con1) \<leftarrow> ioc_send_acknowledge stream_write tnow con;
       Some (if status \<noteq> OSAL_SUCCESS \<and> status \<noteq> OSAL_PENDING then OSAL_STATUS_FAILED else OSAL_SUCCESS, con1)
     }
     else Some (OSAL_SUCCESS, con))"

definition ioc_acknowledge_as_needed :: "stream_write \<Rightarrow> nat \<Rightarrow> iocConnection \<Rightarrow> (osalStatus \<times> iocConnection) option" where
  "ioc_acknowledge_as_needed stream_write tnow con =
    (let ack_sz = int (if has_flag (con_flags con) IOC_SOCKET then IOC_SOCKET_ACK_SIZE else IOC_SERIAL_ACK_SIZE)
     in if con_max_ack_in_air con - bytes_in_air con < ack_sz then Some (OSAL_PENDING, con)
        else if uint ((con_bytes_received con - con_bytes_acknowledged con) AND ack_mask con) < con_unacknogledged_limit con
        then Some (OSAL_SUCCESS, con)
        else do {
          (status, con1) \<leftarrow> ioc_send_acknowledge stream_write tnow con;
          Some (if status \<noteq> OSAL_SUCCESS \<and> status \<noteq> OSAL_PENDING then OSAL_STATUS_FAILED else OSAL_SUCCESS, con1)
        })"

section \<open>Frame buffers that hold an image\<close>

lemma wrs_front: "length h \<le> length buf \<Longrightarrow> wrs buf 0 h = Some (h @ drop (length h) buf)"
  by (simp add: wrs_in splice_def)

lemma wrs_behind:
  "length c \<le> length rest \<Longrightarrow> wrs (h @ rest) (int (length h)) c = Some (h @ c @ drop (length c) rest)"
  by (simp add: wrs_in splice_def)

lemma header_length_gt': "(if ser then 5 else 4) < header_length ser mb ad"
  by (simp add: header_length_def ids_sz_def)

lemma or_at_image:
  "or_at (frame_image ser nr crc fl ds mb ad c @ rest) (int (if ser then 3 else 1)) v =
    Some (frame_image ser nr crc (fl OR v) ds mb ad c @ rest)"
proof -
  let ?im = "frame_image ser nr crc fl ds mb ad c @ rest"
  have "(if ser then 3 else 1) < length ?im" using header_length_gt' [of ser mb ad] by (auto split: if_splits)
  then have "or_at ?im (int (if ser then 3 else 1)) v =
      Some (?im[if ser then 3 else 1 := (fl OR v) OR header_flags mb ad])"
    by (subst or_at_in) (auto simp: image_flags_at or.assoc or.commute or.left_commute split: if_splits)
  then show ?thesis by (simp only: image_set_flags)
qed

lemma word_bytes:
  "ucast (word_of_int n :: u16) = (word_of_int n :: byte)"
  "ucast (drop_bit 8 (word_of_int n :: u16)) = (word_of_int (n div 256) :: byte)"
proof -
  show "ucast (word_of_int n :: u16) = (word_of_int n :: byte)"
    by (rule bit_word_eqI) (simp add: bit_simps)
  have "n div 256 = drop_bit 8 n" by (simp add: drop_bit_eq_div)
  then show "ucast (drop_bit 8 (word_of_int n :: u16)) = (word_of_int (n div 256) :: byte)"
    by (intro bit_word_eqI) (auto simp: bit_simps)
qed

lemma set_data_sz_image:
  "set_data_sz (frame_image ser nr crc fl ds mb ad c @ rest) (header_ptrs ser mb ad) n =
    Some (frame_image ser nr crc fl (word_of_int n) mb ad c @ rest)"
proof (cases ser)
  case True
  then show ?thesis using header_length_gt' [of True mb ad] image_set_size(1) [of nr crc fl ds mb ad c rest "word_of_int n"]
    by (simp add: set_data_sz_def wr_in word_bytes)
next
  case False
  then show ?thesis using header_length_gt' [of False mb ad] image_set_size(2) [of nr crc fl ds mb ad c rest "word_of_int n"]
    by (simp add: set_data_sz_def wr_in word_bytes)
qed

lemma set_checksum_image:
  "set_checksum checksum (frame_image ser nr 0 fl ds mb ad c @ rest) (header_ptrs ser mb ad)
      (int (header_length ser mb ad + length c)) =
    Some (frame_image ser nr (if ser then checksum (frame_image ser nr 0 fl ds mb ad c) else 0) fl ds mb ad c @ rest)"
proof (cases ser)
  case True
  let ?crc = "checksum (frame_image True nr 0 fl ds mb ad c)"
  have "rds (frame_image True nr 0 fl ds mb ad c @ rest) 0 (int (header_length True mb ad + length c)) =
      Some (frame_image True nr 0 fl ds mb ad c)"
    by (simp add: rds_in nat_add_distrib)
  then show ?thesis using True header_length_gt' [of True mb ad] image_set_checksum [of nr 0 fl ds mb ad c rest ?crc]
    by (simp add: set_checksum_def wr_in Let_def)
next
  case False
  then show ?thesis by (simp add: set_checksum_def)
qed

section \<open>Data frames hold the pending changes\<close>

text \<open>A connection whose frame buffer can hold a header and at least one byte of data.\<close>

definition con_ok :: "iocConnection \<Rightarrow> bool" where
  "con_ok con \<longleftrightarrow> 16 \<le> con_dst_frame_sz con \<and> con_dst_frame_sz con \<le> int (length (fo_buf con)) \<and>
    con_dst_frame_sz con \<le> (if con_is_serial con then 255 else 65535)"

text \<open>The source buffer after the data up to but not including address \<open>a\<close> has been put into a frame.\<close>

definition advance :: "int \<Rightarrow> iocSourceBuffer \<Rightarrow> iocSourceBuffer" where
  "advance a sbuf =
    (if a > sb_end_addr sbuf then
       if sb_bidir_range_set sbuf
       then sbuf\<lparr>sb_start_addr := sb_bidir_start sbuf, sb_end_addr := sb_bidir_end sbuf, sb_bidir_range_set := False\<rparr>
       else sbuf\<lparr>sb_start_addr := a, sb_used := False\<rparr>
     else sbuf\<lparr>sb_start_addr := a\<rparr>)"

definition completes :: "int \<Rightarrow> iocSourceBuffer \<Rightarrow> bool" where
  "completes a sbuf \<longleftrightarrow> a > sb_end_addr sbuf \<and> \<not> sb_bidir_range_set sbuf"

definition remote_id :: "iocSourceBuffer \<Rightarrow> u32" where
  "remote_id sbuf = scast (sb_remote_mblk_id sbuf)"

text \<open>The frame for content and flags, with the checksum over the frame with zero checksum bytes.\<close>

definition data_frame :: "(byte list \<Rightarrow> u16) \<Rightarrow> iocConnection \<Rightarrow> byte \<Rightarrow> u32 \<Rightarrow> u32 \<Rightarrow> byte list \<Rightarrow> byte list" where
  "data_frame checksum con fl mb ad content =
    (let ser = con_is_serial con; nr = fo_frame_nr con; ds = of_nat (length content)
     in frame_image ser nr (if ser then checksum (frame_image ser nr 0 fl ds mb ad content) else 0) fl ds mb ad content)"

lemma length_data_frame: "length (data_frame checksum con fl mb ad content) =
    header_length (con_is_serial con) mb ad + length content"
  by (simp add: data_frame_def Let_def)

lemma header_length_bound: "header_length ser mb ad \<le> 14"
  by (simp add: header_length_def ids_sz_def)

text \<open>The flags of a frame for delta or key data, compressed or plain, complete or not.\<close>

definition frame_fl :: "bool \<Rightarrow> bool \<Rightarrow> bool \<Rightarrow> byte" where
  "frame_fl delta compressed complete = (if delta then IOC_DELTA_ENCODED else 0) OR
     (if compressed then IOC_COMPRESESSED else 0) OR (if complete then IOC_SYNC_COMPLETE else 0)"

lemma frame_fl_bits:
  "has_flag (frame_fl d c s) IOC_DELTA_ENCODED = d" "has_flag (frame_fl d c s) IOC_COMPRESESSED = c"
  "has_flag (frame_fl d c s) IOC_SYNC_COMPLETE = s" "\<not> has_flag (frame_fl d c s) IOC_SYSTEM_FRAME"
  "content_flags (frame_fl d c s)"
  by (auto simp: frame_fl_def content_flags_def has_flag_OR frame_flag_defs has_flag_def)

lemma data_frame_start_eq:
  assumes ok: "con_ok con" and d: "sb_delta sbuf = Some delta"
    and c: "ioc_compress (delta @ [past]) (sb_start_addr sbuf) (sb_end_addr sbuf)
      (nat (con_dst_frame_sz con - int (header_length (con_is_serial con) (remote_id sbuf) (word_of_int (sb_start_addr sbuf))))) =
      Some (r, a', out)"
  shows "\<exists>rest. data_frame_start past mblk_buf con sbuf = Some
    (frame_image (con_is_serial con) (fo_frame_nr con) 0
        (frame_fl (\<not> sb_is_keyframe sbuf \<and> sb_start_addr sbuf < sb_ndata sbuf) False False) 0
        (remote_id sbuf) (word_of_int (sb_start_addr sbuf)) [] @ out @ rest,
     header_ptrs (con_is_serial con) (remote_id sbuf) (word_of_int (sb_start_addr sbuf)), r, a', delta) \<and>
    length rest + length out + header_length (con_is_serial con) (remote_id sbuf) (word_of_int (sb_start_addr sbuf)) =
      length (fo_buf con)"
proof -
  let ?ser = "con_is_serial con" and ?mb = "remote_id sbuf" and ?ad = "word_of_int (sb_start_addr sbuf) :: u32"
  let ?h = "frame_image ?ser (fo_frame_nr con) 0 0 0 ?mb ?ad []" and ?hl = "header_length ?ser ?mb ?ad"
  let ?f = "frame_fl (\<not> sb_is_keyframe sbuf \<and> sb_start_addr sbuf < sb_ndata sbuf) False False"
  have hl: "?hl + 1 < length (fo_buf con)" "int ?hl \<le> con_dst_frame_sz con"
    using ok header_length_bound [of ?ser ?mb ?ad] by (simp_all add: con_ok_def)
  have "con_dst_frame_sz con \<le> int (length (fo_buf con))" using ok by (simp add: con_ok_def)
  then have o: "length out \<le> length (drop ?hl (fo_buf con))"
    using codec.compress_fits [OF c] hl unfolding length_drop by linarith
  have w1: "wrs (fo_buf con) 0 ?h = Some (?h @ drop ?hl (fo_buf con))"
    using wrs_front [of ?h "fo_buf con"] hl by simp
  have w2: "(if \<not> sb_is_keyframe sbuf \<and> sb_start_addr sbuf < sb_ndata sbuf
      then or_at (?h @ drop ?hl (fo_buf con)) (int (if ?ser then 3 else 1)) IOC_DELTA_ENCODED
      else Some (?h @ drop ?hl (fo_buf con))) =
      Some (frame_image ?ser (fo_frame_nr con) 0 ?f 0 ?mb ?ad [] @ drop ?hl (fo_buf con))"
    by (simp only: or_at_image) (simp add: frame_fl_def)
  have w3: "wrs (frame_image ?ser (fo_frame_nr con) 0 ?f 0 ?mb ?ad [] @ drop ?hl (fo_buf con)) (int ?hl) out =
      Some (frame_image ?ser (fo_frame_nr con) 0 ?f 0 ?mb ?ad [] @ out @ drop (length out) (drop ?hl (fo_buf con)))"
    using wrs_behind [OF o, of "frame_image ?ser (fo_frame_nr con) 0 ?f 0 ?mb ?ad []"] by simp
  have "data_frame_start past mblk_buf con sbuf = Some
      (frame_image ?ser (fo_frame_nr con) 0 ?f 0 ?mb ?ad [] @ out @ drop (length out) (drop ?hl (fo_buf con)),
       header_ptrs ?ser ?mb ?ad, r, a', delta)"
    unfolding data_frame_start_def remote_id_def [symmetric] ioc_generate_header_eq Let_def d
    by (simp only: bind.bind_lunit prod.case header_ptrs_simps option.case w1 w2 w3 c)
  then show ?thesis using o hl by (intro exI [of _ "drop (length out) (drop ?hl (fo_buf con))"]) simp
qed

text \<open>What one call of \<open>ioc_make_data_frame\<close> puts into the frame buffer.\<close>

definition delta_frame :: "iocSourceBuffer \<Rightarrow> bool" where
  "delta_frame sbuf \<longleftrightarrow> \<not> sb_is_keyframe sbuf \<and> sb_start_addr sbuf < sb_ndata sbuf"

definition data_frame_made ::
  "(byte list \<Rightarrow> u16) \<Rightarrow> iocConnection \<Rightarrow> iocSourceBuffer \<Rightarrow> iocConnection \<Rightarrow> iocSourceBuffer \<Rightarrow>
   byte \<Rightarrow> byte list \<Rightarrow> byte list \<Rightarrow> bool" where
  "data_frame_made checksum con sbuf con' sbuf' fl content xs \<longleftrightarrow>
    (let a = sb_start_addr sbuf; a' = a + int (length xs); ad = word_of_int a;
         frame = data_frame checksum con fl (remote_id sbuf) ad content
     in (\<exists>b. con' = con\<lparr>fo_buf := b, fo_pos := 0, fo_used := int (length frame),
               fo_frame_nr := next_frame_out_nr (fo_frame_nr con)\<rparr> \<and>
             length b = length (fo_buf con) \<and> take (length frame) b = frame) \<and>
        sbuf' = advance a' sbuf \<and>
        (\<exists>compressed. fl = frame_fl (delta_frame sbuf) compressed (completes a' sbuf)) \<and>
        carries ioc_uncompress (fl OR header_flags (remote_id sbuf) ad) content xs \<and>
        xs \<noteq> [] \<and> a' \<le> sb_end_addr sbuf + 1 \<and> xs = seg (sb_deltas sbuf) (nat a) (nat a') \<and>
        int (length frame) \<le> con_dst_frame_sz con \<and>
        int (length frame) \<le> con_max_in_air con - bytes_in_air con)"

lemma seg_append_left: "q \<le> length m \<Longrightarrow> seg (m @ r) p q = seg m p q"
  by (simp add: seg_def)

text \<open>The second half of \<open>ioc_make_data_frame\<close>, for a buffer that already holds header and content.\<close>

lemma data_frame_finish:
  assumes "ds = int (length content)"
  shows "do {
       buf2 \<leftarrow> set_data_sz (frame_image ser nr 0 f 0 mb ad content @ rest) (header_ptrs ser mb ad) ds;
       (buf3, sbuf', ev) \<leftarrow>
         (if a' > sb_end_addr sbuf then
            if sb_bidir_range_set sbuf
            then Some (buf2, sbuf\<lparr>sb_start_addr := sb_bidir_start sbuf, sb_end_addr := sb_bidir_end sbuf,
                              sb_bidir_range_set := False\<rparr>, [])
            else do {
              b \<leftarrow> or_at buf2 (int (shp_flags (header_ptrs ser mb ad))) IOC_SYNC_COMPLETE;
              Some (b, sbuf\<lparr>sb_start_addr := a', sb_used := False\<rparr>,
                    ioc_do_callback cbs IOC_MBLK_CALLBACK_WRITE_TRIGGER 0 0)
            }
          else Some (buf2, sbuf\<lparr>sb_start_addr := a'\<rparr>, []));
       buf4 \<leftarrow> set_checksum checksum buf3 (header_ptrs ser mb ad) (ds + int (header_length ser mb ad));
       Some (con\<lparr>fo_buf := buf4, fo_pos := 0, fo_used := ds + int (header_length ser mb ad), fo_frame_nr := nr'\<rparr>, sbuf', ev) } =
    (let fl = f OR (if completes a' sbuf then IOC_SYNC_COMPLETE else 0);
         im = (\<lambda>crc. frame_image ser nr crc fl (of_nat (length content)) mb ad content)
     in Some (con\<lparr>fo_buf := im (if ser then checksum (im 0) else 0) @ rest, fo_pos := 0,
          fo_used := int (length content + header_length ser mb ad), fo_frame_nr := nr'\<rparr>, advance a' sbuf,
        if completes a' sbuf then ioc_do_callback cbs IOC_MBLK_CALLBACK_WRITE_TRIGGER 0 0 else []))"
proof -
  have sz: "ds + int (header_length ser mb ad) = int (header_length ser mb ad + length content)"
    "(word_of_int ds :: u16) = of_nat (length content)"
    "int (length content + header_length ser mb ad) = int (header_length ser mb ad + length content)"
    using assms by simp_all
  consider "completes a' sbuf" | "\<not> completes a' sbuf" "a' > sb_end_addr sbuf" "sb_bidir_range_set sbuf"
    | "\<not> completes a' sbuf" "\<not> a' > sb_end_addr sbuf" by (auto simp: completes_def)
  then show ?thesis
  proof cases
    case 1
    then have c: "a' > sb_end_addr sbuf" "\<not> sb_bidir_range_set sbuf" by (simp_all add: completes_def)
    show ?thesis using 1 c
      by (simp only: set_data_sz_image bind.bind_lunit header_ptrs_simps or_at_image prod.case sz set_checksum_image
          if_True if_False Let_def advance_def simp_thms)
  next
    case 2
    then show ?thesis
      by (simp only: set_data_sz_image bind.bind_lunit header_ptrs_simps prod.case sz set_checksum_image
          if_True if_False Let_def advance_def or.right_neutral simp_thms)
  next
    case 3
    then show ?thesis
      by (simp only: set_data_sz_image bind.bind_lunit header_ptrs_simps prod.case sz set_checksum_image
          if_True if_False Let_def advance_def or.right_neutral simp_thms)
  qed
qed

lemma image_Nil_append:
  "frame_image ser nr crc fl ds mb ad [] @ c @ rest = frame_image ser nr crc fl ds mb ad c @ rest"
  by (simp add: frame_image_def)

lemma copy_behind:
  "length c \<le> length rest \<Longrightarrow> rds src a n = Some c \<Longrightarrow>
   os_memcpy (h @ rest) (int (length h)) src a n = Some (h @ c @ drop (length c) rest)"
  by (simp add: os_memcpy_def wrs_behind)

lemma rds_seg:
  assumes "0 \<le> a" and "a \<le> a'" and "a' \<le> int (length d)"
  shows "rds d a (a' - a) = Some (seg d (nat a) (nat a'))"
  using assms by (simp add: rds_in seg_def nat_diff_distrib)

lemma make_data_frame_spec:
  assumes ok: "con_ok con" and wf: "sbuf_wf n sbuf" and used: "sb_used sbuf"
  shows "\<exists>con' sbuf' ev. ioc_make_data_frame checksum past cbs mblk_buf con sbuf = Some (con', sbuf', ev) \<and>
    ((\<exists>b. con' = con\<lparr>fo_buf := b, fo_pos := 0\<rparr> \<and> length b = length (fo_buf con) \<and> sbuf' = sbuf \<and>
        con_max_in_air con - bytes_in_air con < con_dst_frame_sz con) \<or>
     (\<exists>fl content xs. data_frame_made checksum con sbuf con' sbuf' fl content xs))"
proof -
  let ?ser = "con_is_serial con" and ?nr = "fo_frame_nr con" and ?mb = "remote_id sbuf"
  let ?a = "sb_start_addr sbuf" and ?e = "sb_end_addr sbuf" and ?d = "sb_deltas sbuf"
  let ?ad = "word_of_int ?a :: u32"
  let ?hl = "header_length ?ser ?mb ?ad" and ?p = "header_ptrs ?ser ?mb ?ad"
  let ?sz = "nat (con_dst_frame_sz con - int ?hl)"
  note b = sbuf_wf_buffers [OF wf]
  have ae: "0 \<le> ?a" "?a \<le> ?e" "?e < int (length ?d)"
    using wf used b(4) by (auto simp: sbuf_wf_def total_sz_def split: if_splits)
  have hl: "int ?hl + 1 < con_dst_frame_sz con" using ok header_length_bound [of ?ser ?mb ?ad] by (simp add: con_ok_def)
  obtain r a1 out where c: "ioc_compress (?d @ [past]) ?a ?e ?sz = Some (r, a1, out)"
    using ioc_compress_total [of ?a ?e "?d @ [past]" ?sz] ae by fastforce
  define a' where "a' = (if r < 0 then ?a + min (?e - ?a + 1) (int ?sz) else a1)"
  define content where "content = (if r < 0 then seg (?d @ [past]) (nat ?a) (nat a') else out)"
  define xs where "xs = seg ?d (nat ?a) (nat a')"
  define fl where "fl = frame_fl (delta_frame sbuf) (\<not> r < 0) (completes a' sbuf)"
  have ed: "?e < int (length (?d @ [past]))" using ae by simp
  have "has_flag (fl OR header_flags ?mb ?ad) IOC_COMPRESESSED \<longleftrightarrow> 0 \<le> r"
    by (auto simp: fl_def has_flag_OR frame_fl_bits header_flag_bits)
  note t = codec.payload_transfer [OF c ae(1,2) ed _ a'_def content_def this]
  have sz0: "0 < ?sz" using hl by simp
  have a': "?a < a'" "a' \<le> ?e + 1" and lc: "length content \<le> ?sz" using t(2-4) [OF sz0] by simp_all
  have xs: "seg (?d @ [past]) (nat ?a) (nat a') = xs" unfolding xs_def using a' ae by (intro seg_append_left) simp
  have lx: "int (length xs) = a' - ?a" "xs \<noteq> []" using a' ae by (auto simp: xs_def seg_def)
  obtain rest where st: "data_frame_start past mblk_buf con sbuf =
      Some (frame_image ?ser ?nr 0 (frame_fl (delta_frame sbuf) False False) 0 ?mb ?ad [] @ out @ rest, ?p, r, a1, ?d)"
    and lr: "length rest + length out + ?hl = length (fo_buf con)"
    using data_frame_start_eq [OF ok b(2) c] unfolding delta_frame_def by blast
  let ?h = "frame_image ?ser ?nr 0 (frame_fl (delta_frame sbuf) False False) 0 ?mb ?ad []"
  have k: "min (?e - ?a + 1) (con_dst_frame_sz con - int ?hl) = a' - ?a" if "r < 0" using that hl by (simp add: a'_def)
  have ub: "(if r < 0 then min (?e - ?a + 1) (con_dst_frame_sz con - int ?hl) else r) = int (length content)"
    using k xs lx codec.compress_size [OF c] by (simp add: content_def)
  have "con_dst_frame_sz con \<le> int (length (fo_buf con))" using ok by (simp add: con_ok_def)
  then have lo: "length content \<le> length (out @ rest)" using lc lr hl unfolding length_append by linarith
  obtain rest' where b1: "(if r < 0 then os_memcpy (?h @ out @ rest) (int ?hl) ?d ?a (min (?e - ?a + 1) (con_dst_frame_sz con - int ?hl))
      else or_at (?h @ out @ rest) (int (if ?ser then 3 else 1)) IOC_COMPRESESSED) =
      Some (frame_image ?ser ?nr 0 (frame_fl (delta_frame sbuf) (\<not> r < 0) False) 0 ?mb ?ad content @ rest')"
    and lr': "length rest' + length content + ?hl = length (fo_buf con)"
  proof (cases "r < 0")
    case True
    have "rds ?d ?a (min (?e - ?a + 1) (con_dst_frame_sz con - int ?hl)) = Some content"
      using rds_seg [of ?a a' ?d] a' ae True xs k by (simp add: content_def xs_def)
    from copy_behind [OF lo this, of ?h] show ?thesis
      using that [of "drop (length content) (out @ rest)"] True lo lr
      by (simp add: image_Nil_append del: drop_append)
  next
    case False
    then show ?thesis
      using that [of rest] lr or_at_image [of ?ser ?nr 0 "frame_fl (delta_frame sbuf) False False" 0 ?mb ?ad "[]" "out @ rest"]
      by (simp add: content_def frame_fl_def image_Nil_append)
  qed
  let ?f = "frame_fl (delta_frame sbuf) (\<not> r < 0) False"
  have fl2: "?f OR (if completes a' sbuf then IOC_SYNC_COMPLETE else 0) = fl" by (simp add: fl_def frame_fl_def or.assoc)
  let ?mk = "ioc_make_data_frame checksum past cbs mblk_buf con sbuf"
  show ?thesis
  proof (cases "int (length content) + int ?hl > con_max_in_air con - bytes_in_air con")
    case True
    have "?mk = Some (con\<lparr>fo_buf := ?h @ out @ rest, fo_pos := 0\<rparr>, sbuf, [])"
      unfolding ioc_make_data_frame_def st Let_def
      by (simp only: bind.bind_lunit prod.case header_ptrs_simps ub True if_True)
    moreover have "con_max_in_air con - bytes_in_air con < con_dst_frame_sz con" using True lc hl by simp
    ultimately show ?thesis using lr by auto
  next
    case False
    have sa: "(if r < 0 then a1 + min (?e - ?a + 1) (con_dst_frame_sz con - int ?hl) else a1) = a'"
      using k codec.compress_refused [OF c] by (simp add: a'_def)
    let ?fr = "data_frame checksum con fl ?mb ?ad content"
    let ?con = "con\<lparr>fo_buf := ?fr @ rest', fo_pos := 0, fo_used := int (length content + ?hl), fo_frame_nr := next_frame_out_nr ?nr\<rparr>"
    obtain ev where mk: "?mk = Some (?con, advance a' sbuf, ev)"
      unfolding ioc_make_data_frame_def st Let_def
      using data_frame_finish [OF refl, where ser = ?ser and nr = ?nr and f = ?f and mb = ?mb and ad = ?ad and content = content
        and rest = rest' and a' = a' and sbuf = sbuf and cbs = cbs and checksum = checksum and con = con and nr' = "next_frame_out_nr ?nr"]
      by (simp only: bind.bind_lunit prod.case header_ptrs_simps ub False if_False b1 sa add_diff_cancel_right'
          Let_def fl2 data_frame_def)
    have lf: "length ?fr = length content + ?hl" by (simp add: length_data_frame)
    have "int (length content + ?hl) \<le> con_dst_frame_sz con" using lc hl by simp
    moreover have "carries ioc_uncompress (fl OR header_flags ?mb ?ad) content xs" using t(1) [OF sz0] xs by simp
    moreover have "?a + int (length xs) = a'" using lx(1) by simp
    moreover have "length (?fr @ rest') = length (fo_buf con)" "take (length ?fr) (?fr @ rest') = ?fr" using lr' lf by simp_all
    ultimately have "data_frame_made checksum con sbuf ?con (advance a' sbuf) fl content xs"
      unfolding data_frame_made_def Let_def lf using lx(2) a'(2) False xs_def fl_def by auto
    with mk show ?thesis by blast
  qed
qed

section \<open>Flow control\<close>

definition ack_bits :: "iocConnection \<Rightarrow> nat" where
  "ack_bits con = (if has_flag (con_flags con) IOC_SOCKET then 24 else 16)"

lemma and_ack_mask: "x AND ack_mask con = take_bit (ack_bits con) x"
proof -
  have "(0xFFFFFF :: u32) = mask 24" "(0xFFFF :: u32) = mask 16" by (simp_all add: mask_eq_exp_minus_1)
  then show ?thesis by (simp only: ack_mask_def ack_bits_def take_bit_eq_mask split: if_splits) simp
qed

lemma bytes_in_air_mod:
  "bytes_in_air con = uint (con_bytes_sent con - con_processed_bytes con) mod 2 ^ ack_bits con"
  unfolding bytes_in_air_def and_ack_mask unsigned_take_bit_eq by (rule take_bit_eq_mod)

lemma bytes_in_air_add:
  assumes "con_bytes_sent con' = con_bytes_sent con + of_nat k" and "con_processed_bytes con' = con_processed_bytes con"
    and "con_flags con' = con_flags con" and "bytes_in_air con + int k < 2 ^ ack_bits con"
  shows "bytes_in_air con' = bytes_in_air con + int k"
proof -
  let ?m = "2 ^ ack_bits con :: int" and ?x = "con_bytes_sent con - con_processed_bytes con"
  have b: "ack_bits con' = ack_bits con" using assms(3) by (simp add: ack_bits_def)
  have "con_bytes_sent con' - con_processed_bytes con' = ?x + of_nat k" using assms by simp
  moreover have "uint (?x + of_nat k) = (uint ?x + int k) mod 2 ^ 32"
    by (simp add: uint_word_ariths unsigned_of_nat take_bit_eq_mod zmod_int mod_simps)
  moreover have "?m dvd 2 ^ 32" by (auto simp: ack_bits_def intro: le_imp_power_dvd)
  ultimately have "bytes_in_air con' = (uint ?x + int k) mod ?m"
    unfolding bytes_in_air_mod b by (simp add: mod_mod_cancel)
  also have "\<dots> = (bytes_in_air con + int k) mod ?m" unfolding bytes_in_air_mod by (simp add: mod_simps)
  also have "\<dots> = bytes_in_air con + int k"
    using assms(4) by (intro mod_pos_pos_trivial) (simp_all add: bytes_in_air_mod)
  finally show ?thesis .
qed

text \<open>What is left in the frame buffer, and the promise of the stream to take at most what it is offered.\<close>

definition unsent :: "iocConnection \<Rightarrow> int" where
  "unsent con = fo_used con - fo_pos con"

definition stream_contract :: "stream_write \<Rightarrow> bool" where
  "stream_contract stream_write \<longleftrightarrow> (\<forall>bs. snd (stream_write bs) \<le> length bs)"

definition out_ok :: "iocConnection \<Rightarrow> bool" where
  "out_ok con \<longleftrightarrow> 0 \<le> fo_pos con \<and> fo_pos con \<le> fo_used con \<and> fo_used con \<le> int (length (fo_buf con)) \<and>
     (fo_used con = 0 \<or> fo_pos con < fo_used con)"

lemma write_to_stream_spec:
  assumes ok: "out_ok con" and sw: "stream_contract stream_write"
    and air: "bytes_in_air con + unsent con < 2 ^ ack_bits con"
  shows "\<exists>st con'. ioc_write_to_stream stream_write tnow con = Some (st, con') \<and> out_ok con' \<and>
    bytes_in_air con' + unsent con' = bytes_in_air con + unsent con \<and> unsent con' \<le> unsent con \<and>
    fo_buf con' = fo_buf con \<and> fo_frame_nr con' = fo_frame_nr con \<and> con_processed_bytes con' = con_processed_bytes con \<and>
    con_flags con' = con_flags con \<and> con_bytes_received con' = con_bytes_received con"
proof (cases "unsent con \<le> 0")
  case True
  then show ?thesis using ok by (simp add: ioc_write_to_stream_def unsent_def)
next
  case False
  let ?n = "unsent con"
  obtain bs where bs: "rds (fo_buf con) (fo_pos con) ?n = Some bs" "length bs = nat ?n"
    using ok False by (auto simp: rds_def out_ok_def unsent_def)
  obtain st k where w: "stream_write bs = (st, k)" by (cases "stream_write bs")
  have k: "k \<le> nat ?n" using sw w bs(2) by (metis stream_contract_def snd_conv)
  let ?c1 = "if k \<noteq> 0 then con\<lparr>con_last_send := tnow, con_bytes_sent := con_bytes_sent con + of_nat k\<rparr> else con"
  let ?c2 = "if st = OSAL_STATUS_CONNECTION_REFUSED then ?c1\<lparr>con_open_fail_timer := tnow, con_open_fail_timer_set := True\<rparr> else ?c1"
  let ?c3 = "if fo_pos con + int k \<ge> fo_used con then ?c2\<lparr>fo_used := 0, fo_pos := 0\<rparr> else ?c2\<lparr>fo_pos := fo_pos con + int k\<rparr>"
  have r: "ioc_write_to_stream stream_write tnow con =
      Some (if st = OSAL_SUCCESS \<and> ?n \<noteq> int k then OSAL_PENDING else st, ?c3)"
    using False bs(1) w by (simp add: ioc_write_to_stream_def unsent_def Let_def)
  have "bytes_in_air ?c3 = bytes_in_air con + int k"
    by (rule bytes_in_air_add) (use air k False in auto)
  moreover have "unsent ?c3 = ?n - int k" using k False by (auto simp: unsent_def)
  moreover have "out_ok ?c3" using ok k False by (auto simp: out_ok_def unsent_def)
  moreover have "fo_buf ?c3 = fo_buf con \<and> fo_frame_nr ?c3 = fo_frame_nr con \<and> con_processed_bytes ?c3 = con_processed_bytes con \<and>
    con_flags ?c3 = con_flags con \<and> con_bytes_received ?c3 = con_bytes_received con" by simp
  ultimately show ?thesis using r by (intro exI [of _ ?c3] exI conjI) simp_all
qed

lemma data_frame_made_out:
  assumes "data_frame_made checksum con sbuf con' sbuf' fl content xs" and ok: "con_ok con"
  shows "out_ok con' \<and> bytes_in_air con' + unsent con' \<le> con_max_in_air con \<and> ack_bits con' = ack_bits con"
proof -
  let ?f = "data_frame checksum con fl (remote_id sbuf) (word_of_int (sb_start_addr sbuf)) content"
  obtain b where con': "con' = con\<lparr>fo_buf := b, fo_pos := 0, fo_used := int (length ?f),
      fo_frame_nr := next_frame_out_nr (fo_frame_nr con)\<rparr>"
    and b: "length b = length (fo_buf con)"
    and f: "int (length ?f) \<le> con_dst_frame_sz con" "int (length ?f) \<le> con_max_in_air con - bytes_in_air con"
    using assms(1) unfolding data_frame_made_def Let_def by blast
  have "0 < length ?f" using header_length_gt' [of "con_is_serial con" "remote_id sbuf" "word_of_int (sb_start_addr sbuf)"]
    by (auto simp: length_data_frame split: if_splits)
  moreover have "con_dst_frame_sz con \<le> int (length (fo_buf con))" using ok by (simp add: con_ok_def)
  moreover have "bytes_in_air con' = bytes_in_air con" "ack_bits con' = ack_bits con"
    unfolding con' by (simp_all add: bytes_in_air_def ack_mask_def ack_bits_def)
  ultimately show ?thesis using f b unfolding con' out_ok_def unsent_def by auto
qed

section \<open>Properties\<close>

text \<open>A connection as \<open>os_memclear\<close> and \<open>ioc_connect\<close> leave it, for concrete instances.\<close>

definition con_blank :: iocConnection where
  "con_blank = \<lparr>con_flags = 0, con_frame_sz = 0, con_dst_frame_sz = 0, con_max_in_air = 0, con_max_ack_in_air = 0,
    con_unacknogledged_limit = 0, con_stream_open = False, con_open_fail_timer = 0, con_open_try_timer = 0,
    con_open_fail_timer_set = False, con_last_receive = 0, con_last_send = 0, fo_buf = [], fo_used = 0, fo_pos = 0,
    fo_frame_nr = 0, fi_buf = [], fi_pos = 0, fi_frame_nr = 0, con_sercon_state = OSAL_SERCON_STATE_INIT_1,
    con_sercon_timer = 0, con_bytes_received = 0, con_bytes_acknowledged = 0, con_bytes_sent = 0, con_processed_bytes = 0,
    con_has_trig = False, con_sbufs = [], con_current = None, con_tbufs = [], con_auto_device_nr = 0,
    con_authentication_sent = False, con_authentication_received = False, con_handshake_ready = False,
    con_connected = False, con_remove_mblk_req = [], con_has_callback = False, con_current_mblk = None,
    con_current_cloud_mblk = None, con_sbuf_mbinfo_down = None, con_tbuf_mbinfo_down = None, con_allowed_networks = [],
    con_user_override = [], con_password_override = [], con_unique_id_bin = []\<rparr>"

definition con_sample :: "u16 \<Rightarrow> iocConnection" where
  "con_sample flags = (connect_limits False flags con_blank)
     \<lparr>fo_buf := replicate (if has_flag flags IOC_SOCKET then 1392 else 96) 0,
      fi_buf := replicate (if has_flag flags IOC_SOCKET then 1392 else 96) 0\<rparr>"

lemmas con_sample_simps = con_sample_def connect_limits_def con_blank_def con_ok_def con_is_serial_def out_ok_def
  unsent_def bytes_in_air_def ack_mask_def ack_bits_def flow_limit_defs ack_size_defs con_flag_defs has_flag_def Let_def

text \<open>
  \<^bold>\<open>C20\<close>: a data frame holds the pending changes. For a source buffer with captured changes,
  \<open>ioc_make_data_frame\<close> returns without leaving any buffer, whatever lies behind the delta buffer.
  Either flow control cancels it and the source buffer is unchanged, which happens only if less than
  one full frame of air space is left; or the frame buffer holds the frame with the connection's
  frame number, the remote memory block identifier, the start address, the flags and content that
  unpack to exactly the next pending bytes, correct size and checksum, within the frame size of the
  other end and the free air space, and the source buffer is advanced past those bytes and marked
  unused exactly when the frame is flagged as completing the transfer.
\<close>

theorem data_frame_holds_changes:
  assumes "con_ok con" and "sbuf_wf n sbuf" and "sb_used sbuf"
  shows "\<exists>con' sbuf' ev. ioc_make_data_frame checksum past cbs mblk_buf con sbuf = Some (con', sbuf', ev) \<and>
    ((\<exists>b. con' = con\<lparr>fo_buf := b, fo_pos := 0\<rparr> \<and> length b = length (fo_buf con) \<and> sbuf' = sbuf \<and>
        con_max_in_air con - bytes_in_air con < con_dst_frame_sz con) \<or>
     (\<exists>fl content xs. data_frame_made checksum con sbuf con' sbuf' fl content xs))"
  by (rule make_data_frame_spec [OF assms])

theorem data_frame_holds_changes_witness:
  "\<exists>con' sbuf' ev. ioc_make_data_frame (\<lambda>bs. of_nat (length bs)) 77 [] [1, 9, 3] (con_sample 0)
      (sbuf_sample 0 [1, 9, 3] [0, 7, 0]\<lparr>sb_used := True, sb_start_addr := 1, sb_end_addr := 1\<rparr>) = Some (con', sbuf', ev) \<and>
    ((\<exists>b. con' = (con_sample 0)\<lparr>fo_buf := b, fo_pos := 0\<rparr> \<and> length b = length (fo_buf (con_sample 0)) \<and>
        sbuf' = sbuf_sample 0 [1, 9, 3] [0, 7, 0]\<lparr>sb_used := True, sb_start_addr := 1, sb_end_addr := 1\<rparr> \<and>
        con_max_in_air (con_sample 0) - bytes_in_air (con_sample 0) < con_dst_frame_sz (con_sample 0)) \<or>
     (\<exists>fl content xs. data_frame_made (\<lambda>bs. of_nat (length bs)) (con_sample 0)
        (sbuf_sample 0 [1, 9, 3] [0, 7, 0]\<lparr>sb_used := True, sb_start_addr := 1, sb_end_addr := 1\<rparr>) con' sbuf' fl content xs))"
  by (rule data_frame_holds_changes [where n = 3]) (simp_all add: con_sample_simps sample_simps)

end
