(* ===== verification/Ioc_Connection_Receive.thy ===== *)
theory Ioc_Connection_Receive
  imports Ioc_Connection_Send
begin

text \<open>
  Receiving, \<open>code/ioc_connection_receive.c\<close>: \<open>ioc_read_frame\<close>, which collects one frame from the
  stream over any number of calls, \<open>ioc_connection_receive\<close>, \<open>ioc_process_received_data_frame\<close>, and
  the authorization check \<open>ioc_is_network_authorized\<close> of \<open>code/ioc_authentication.c\<close>.

  \<open>first_mblk\<close> gives the first memory block of the root, which a system frame may change.
  The stream is a parameter: \<open>stream_read s k\<close> is \<open>osal_stream_read\<close> asked for \<open>k\<close> bytes in stream
  state \<open>s\<close>; it returns a status, the bytes read and the next state. \<open>system_frame\<close> is the handler for
  system frames, which also changes state outside the connection, here \<open>'w\<close>. The loop of
  \<open>ioc_read_frame\<close> ends because it goes round only after the frame has grown, and it never grows
  beyond the frame size.
\<close>

section \<open>Reading one frame\<close>

type_synonym 's stream_read = "'s \<Rightarrow> int \<Rightarrow> osalStatus \<times> byte list \<times> 's"

lemma read_frame_size_bound:
  assumes "read_frame_size rfs = Some (OSAL_SUCCESS, rfs1)"
  shows "rfs_needed rfs1 \<le> max 7 (rfs_frame_sz rfs)" and "rfs_n rfs1 = rfs_n rfs"
    and "rfs_frame_sz rfs1 = rfs_frame_sz rfs" and "rfs_buf rfs1 = rfs_buf rfs"
  using assms
  by (auto simp: read_frame_size_def Let_def bind_eq_Some_conv ack_size_defs split: if_splits)

function read_frame_loop :: "'s stream_read \<Rightarrow> 's \<Rightarrow> iocReadFrameState \<Rightarrow> (osalStatus \<times> iocReadFrameState \<times> 's) option" where
  "read_frame_loop stream_read s rfs =
    (case read_frame_size rfs of
       None \<Rightarrow> None
     | Some (st, rfs1) \<Rightarrow>
       if st \<noteq> OSAL_SUCCESS then Some (st, rfs1, s)
       else if rfs_needed rfs1 = rfs_n rfs1 then Some (OSAL_SUCCESS, rfs1, s)
       else
         let (status, bs, s') = stream_read s (int (rfs_needed rfs1) - int (rfs_n rfs1))
         in case wrs (rfs_buf rfs1) (int (rfs_n rfs1)) bs of
              None \<Rightarrow> None
            | Some buf \<Rightarrow>
              if status \<noteq> OSAL_SUCCESS then Some (status, rfs1\<lparr>rfs_buf := buf\<rparr>, s')
              else
                let rfs2 = rfs1\<lparr>rfs_buf := buf, rfs_n := rfs_n rfs1 + length bs,
                      rfs_bytes_received := rfs_bytes_received rfs1 + of_nat (length bs)\<rparr>
                in if bs \<noteq> [] \<and> 0 < rfs_n rfs2 \<and> buf ! 0 \<noteq> IOC_ACKNOWLEDGE \<and> buf ! 0 \<noteq> rfs_frame_nr rfs2
                   then Some (OSAL_STATUS_FAILED, rfs2, s')
                   else if rfs_n rfs2 = rfs_needed rfs2 \<and> rfs_data_sz rfs2 = 0xFFFF
                   then read_frame_loop stream_read s' rfs2
                   else Some (OSAL_SUCCESS, rfs2, s'))"
  by pat_completeness auto
termination
proof (relation "measure (\<lambda>(r, s, rfs). Suc (max 7 (rfs_frame_sz rfs)) - rfs_n rfs)", goal_cases)
  case 1
  then show ?case by simp
next
  case (2 r s rfs a st rfs1 x status y bs s' buf rfs2)
  then have "read_frame_size rfs = Some (OSAL_SUCCESS, rfs1)" by simp
  from read_frame_size_bound [OF this] 2 show ?case by auto
qed

declare read_frame_loop.simps [simp del]

definition ioc_read_frame ::
  "'s stream_read \<Rightarrow> 's \<Rightarrow> iocReadFrameState \<Rightarrow> (osalStatus \<times> iocReadFrameState \<times> 's) option" where
  "ioc_read_frame stream_read s rfs = read_frame_loop stream_read s (rfs\<lparr>rfs_bytes_received := 0\<rparr>)"

section \<open>Processing a frame\<close>

definition IOC_AUTH_ADMINISTRATOR :: u16 where "IOC_AUTH_ADMINISTRATOR = 1"

text \<open>\<open>ioc_is_network_authorized\<close>; \<open>authorization\<close> tells whether the root has an authorization function.\<close>

definition ioc_is_network_authorized :: "bool \<Rightarrow> iocConnection \<Rightarrow> byte list \<Rightarrow> u16 \<Rightarrow> bool" where
  "ioc_is_network_authorized authorization con network_name flags =
    (if \<not> authorization then True
     else if con_flags con AND (IOC_LISTENER OR IOC_SECURE_CONNECTION) \<noteq> IOC_LISTENER OR IOC_SECURE_CONNECTION then True
     else case find (\<lambda>(name, fl). name = network_name) (con_allowed_networks con) of
            None \<Rightarrow> False
          | Some (name, fl) \<Rightarrow> if has_flag flags IOC_AUTH_ADMINISTRATOR then has_flag fl IOC_AUTH_ADMINISTRATOR else True)"

text \<open>
  \<open>ioc_process_received_data_frame\<close>: the first target buffer of the connection whose memory block has
  the identifier stores the frame. \<open>mblk_of\<close> gives the memory block a reference stands for.
\<close>

fun find_tbuf :: "(nat \<Rightarrow> iocMemoryBlock) \<Rightarrow> u32 \<Rightarrow> (nat \<times> iocTargetBuffer) list \<Rightarrow> (nat \<times> iocTargetBuffer) option" where
  "find_tbuf mblk_of mblk_id [] = None"
| "find_tbuf mblk_of mblk_id ((r, tbuf) # rest) =
    (if mblk_id = mb_mblk_id (mblk_of (tb_mblk tbuf)) then Some (r, tbuf) else find_tbuf mblk_of mblk_id rest)"

definition set_tbuf :: "nat \<Rightarrow> iocTargetBuffer \<Rightarrow> iocConnection \<Rightarrow> iocConnection" where
  "set_tbuf r tbuf con = con\<lparr>con_tbufs := map (\<lambda>(r', t). (r', if r' = r then tbuf else t)) (con_tbufs con)\<rparr>"

definition ioc_process_received_data_frame ::
  "(nat \<Rightarrow> iocMemoryBlock) \<Rightarrow> bool \<Rightarrow> iocConnection \<Rightarrow> u32 \<Rightarrow> int \<Rightarrow> byte list \<Rightarrow> byte \<Rightarrow>
   (osalStatus \<times> iocConnection \<times> ioc_event list) option" where
  "ioc_process_received_data_frame mblk_of authorization con mblk_id addr data flags =
    (case find_tbuf mblk_of mblk_id (con_tbufs con) of
       None \<Rightarrow> Some (OSAL_SUCCESS, con, [])
     | Some (r, tbuf) \<Rightarrow>
       let mblk = mblk_of (tb_mblk tbuf)
       in if \<not> ioc_is_network_authorized authorization con (mb_network_name mblk) 0 then Some (OSAL_SUCCESS, con, [])
          else do {
            (status, tbuf', ev) \<leftarrow> ioc_store_data_frame (mb_cbs mblk) tbuf addr data (length data) flags;
            Some (if status \<noteq> OSAL_SUCCESS then OSAL_STATUS_FAILED else OSAL_SUCCESS, set_tbuf r tbuf' con, ev)
          })"

text \<open>\<open>ioc_add_con_to_global_mbinfo\<close>: the information of all memory blocks is to be sent.\<close>

definition ioc_add_con_to_global_mbinfo :: "nat option \<Rightarrow> iocConnection \<Rightarrow> iocConnection" where
  "ioc_add_con_to_global_mbinfo first_mblk con =
    (if has_flag (con_flags con) IOC_CONNECT_UP then con\<lparr>con_current_mblk := first_mblk\<rparr>
     else if has_flag (con_flags con) IOC_CLOUD_CONNECTION then con\<lparr>con_current_cloud_mblk := first_mblk\<rparr>
     else con)"

definition ioc_do_connection_callback :: "iocConnection \<Rightarrow> iocConnectionEvent \<Rightarrow> ioc_event list" where
  "ioc_do_connection_callback con event = (if con_has_callback con then [ConCallback event] else [])"

text \<open>The label \<open>alldone\<close> of \<open>ioc_connection_receive\<close>.\<close>

definition receive_done :: "nat option \<Rightarrow> iocConnection \<Rightarrow> iocConnection \<times> ioc_event list" where
  "receive_done first_mblk con =
    (let con1 = con\<lparr>fi_pos := 0\<rparr>
     in if con_connected con then (con1, [])
        else (ioc_add_con_to_global_mbinfo first_mblk (con1\<lparr>con_connected := True\<rparr>),
              ioc_do_connection_callback con IOC_CONNECTION_ESTABLISHED))"

text \<open>The number of processed bytes in an acknowledgement.\<close>

definition parse_ack :: "bool \<Rightarrow> byte list \<Rightarrow> u32 option" where
  "parse_ack is_socket buf = do {
     b1 \<leftarrow> rd buf 1;
     b2 \<leftarrow> rd buf 2;
     if is_socket then do {
       b3 \<leftarrow> rd buf 3;
       Some (ucast b1 OR push_bit 8 (ucast b2) OR push_bit 16 (ucast b3))
     } else Some (ucast b1 OR push_bit 8 (ucast b2)) }"

text \<open>
  The checksum test for serial lines: the checksum bytes are cleared in the frame buffer before the
  sum of the frame is compared with them.
\<close>

definition check_frame_sum :: "(byte list \<Rightarrow> u16) \<Rightarrow> nat \<Rightarrow> byte list \<Rightarrow> (bool \<times> byte list) option" where
  "check_frame_sum checksum needed buf = do {
     b1 \<leftarrow> rd buf 1;
     b2 \<leftarrow> rd buf 2;
     buf1 \<leftarrow> wr buf 1 0;
     buf2 \<leftarrow> wr buf1 2 0;
     bytes \<leftarrow> rds buf2 0 (int needed);
     Some (checksum bytes = ucast b1 OR push_bit 8 (ucast b2), buf2) }"

text \<open>A complete frame that is not an acknowledgement: checksum, header fields, frame number, content.\<close>

definition process_frame ::
  "(byte list \<Rightarrow> u16) \<Rightarrow> (nat \<Rightarrow> iocMemoryBlock) \<Rightarrow> bool \<Rightarrow>
   ('w \<Rightarrow> iocConnection \<Rightarrow> u32 \<Rightarrow> byte list \<Rightarrow> (osalStatus \<times> iocConnection \<times> 'w \<times> ioc_event list) option) \<Rightarrow>
   'w \<Rightarrow> iocConnection \<Rightarrow> iocReadFrameState \<Rightarrow> (bool \<times> osalStatus \<times> iocConnection \<times> 'w \<times> ioc_event list) option" where
  "process_frame checksum mblk_of authorization system_frame w con rfs = do {
     (ok, buf) \<leftarrow> (if rfs_is_serial rfs then check_frame_sum checksum (rfs_needed rfs) (rfs_buf rfs)
                    else Some (True, rfs_buf rfs));
     let con1 = con\<lparr>fi_buf := buf\<rparr>;
     if \<not> ok then Some (False, OSAL_STATUS_FAILED, con1, w, [])
     else do {
       (mblk_id, addr, p) \<leftarrow> parse_frame_header (rfs_is_serial rfs) (rfs_flags rfs) (rfs_extra_flags rfs) buf;
       b0 \<leftarrow> rd buf 0;
       let con2 = con1\<lparr>fi_frame_nr := next_frame_in_nr b0\<rparr>;
       (status, con3, w', ev) \<leftarrow>
         (if has_flag (rfs_flags rfs) IOC_SYSTEM_FRAME then system_frame w con2 mblk_id (drop p buf)
          else do {
            data \<leftarrow> rds buf (int p) (uint (rfs_data_sz rfs));
            (status, con3, ev) \<leftarrow> ioc_process_received_data_frame mblk_of authorization con2 mblk_id (sint addr) data (rfs_flags rfs);
            Some (status, con3, w, ev)
          });
       Some (True, status, con3, w', ev)
     } }"

section \<open>Receive\<close>

definition rfs_start :: "iocConnection \<Rightarrow> iocReadFrameState" where
  "rfs_start con = \<lparr>rfs_n = fi_pos con, rfs_needed = 0, rfs_frame_sz = nat (con_frame_sz con), rfs_bytes_received = 0,
     rfs_data_sz = 0, rfs_frame_nr = fi_frame_nr con, rfs_is_serial = con_is_serial con, rfs_flags = 0,
     rfs_extra_flags = 0, rfs_buf = fi_buf con\<rparr>"

definition receive_bookkeeping :: "nat \<Rightarrow> iocReadFrameState \<Rightarrow> iocConnection \<Rightarrow> iocConnection" where
  "receive_bookkeeping tnow rfs con =
    (let con1 = con\<lparr>fi_buf := rfs_buf rfs, fi_pos := rfs_n rfs\<rparr>
     in if rfs_bytes_received rfs \<noteq> 0
        then con1\<lparr>con_last_receive := tnow, con_bytes_received := con_bytes_received con + rfs_bytes_received rfs\<rparr>
        else con1)"

definition ioc_connection_receive ::
  "(byte list \<Rightarrow> u16) \<Rightarrow> (nat \<Rightarrow> iocMemoryBlock) \<Rightarrow> ('w \<Rightarrow> nat option) \<Rightarrow> bool \<Rightarrow>
   ('w \<Rightarrow> iocConnection \<Rightarrow> u32 \<Rightarrow> byte list \<Rightarrow> (osalStatus \<times> iocConnection \<times> 'w \<times> ioc_event list) option) \<Rightarrow>
   's stream_read \<Rightarrow> nat \<Rightarrow> 'w \<Rightarrow> 's \<Rightarrow> iocConnection \<Rightarrow>
   (osalStatus \<times> iocConnection \<times> 'w \<times> 's \<times> ioc_event list) option" where
  "ioc_connection_receive checksum mblk_of first_mblk authorization system_frame stream_read tnow w s con = do {
     (status, rfs, s') \<leftarrow> ioc_read_frame stream_read s (rfs_start con);
     if status \<noteq> OSAL_SUCCESS then
       Some (status,
         if status = OSAL_STATUS_CONNECTION_REFUSED
         then con\<lparr>fi_buf := rfs_buf rfs, con_open_fail_timer := tnow, con_open_fail_timer_set := True\<rparr>
         else con\<lparr>fi_buf := rfs_buf rfs\<rparr>, w, s', [])
     else do {
       let con1 = receive_bookkeeping tnow rfs con;
       if rfs_n rfs < rfs_needed rfs then Some (OSAL_PENDING, con1, w, s', [])
       else do {
         b0 \<leftarrow> rd (rfs_buf rfs) 0;
         if b0 = IOC_ACKNOWLEDGE then do {
           processed \<leftarrow> parse_ack (has_flag (con_flags con) IOC_SOCKET) (rfs_buf rfs);
           let (con2, ev) = receive_done (first_mblk w) (con1\<lparr>con_processed_bytes := processed\<rparr>);
           Some (OSAL_SUCCESS, con2, w, s', ev)
         } else do {
           (ok, st, con2, w', ev) \<leftarrow> process_frame checksum mblk_of authorization system_frame w con1 rfs;
           if \<not> ok then Some (st, con2, w', s', ev)
           else
             let (con3, ev') = receive_done (first_mblk w') con2
             in Some (st, con3, w', s', ev @ ev')
         } } } }"

section \<open>Collecting a frame from a stream\<close>

text \<open>
  What the loop needs to know of a frame \<open>f\<close>: whenever the buffer holds a beginning of \<open>f\<close>, the size
  decision either knows the frame (its length, data size and flags) or asks for more bytes, but
  never for more than \<open>f\<close> has.
\<close>

definition reads_as :: "bool \<Rightarrow> nat \<Rightarrow> byte list \<Rightarrow> u16 \<Rightarrow> byte \<Rightarrow> byte \<Rightarrow> bool" where
  "reads_as ser fsz f ds fl ex \<longleftrightarrow> (\<forall>rfs. rfs_is_serial rfs = ser \<and> rfs_frame_sz rfs = fsz \<and>
     (rfs_extra_flags rfs = 0 \<or> rfs_extra_flags rfs = ex) \<and> rfs_n rfs \<le> length f \<and> length f \<le> length (rfs_buf rfs) \<and>
     take (rfs_n rfs) (rfs_buf rfs) = take (rfs_n rfs) f \<longrightarrow>
     (\<exists>needed d g e. read_frame_size rfs = Some (OSAL_SUCCESS,
        rfs\<lparr>rfs_data_sz := d, rfs_needed := needed, rfs_flags := g, rfs_extra_flags := e\<rparr>) \<and>
        (needed = length f \<and> d = ds \<and> g = fl \<and> e = ex \<or>
         rfs_n rfs < needed \<and> needed \<le> length f \<and> d = 0xFFFF \<and> (e = 0 \<or> e = ex))))"

lemma rd_0_prefix:
  assumes "take n buf = take n f" and "1 \<le> n" and "f \<noteq> []"
  shows "rd buf 0 = Some (f ! 0)"
proof -
  have "take 1 buf = take 1 f" using assms(1,2) by (metis min_absorb1 take_take)
  then have "rd buf 0 = rd f 0" using assms(3) by (intro rd_take_cong [of 1]) (auto simp: Suc_le_eq)
  then show ?thesis using assms(3) by (simp add: rd_in)
qed

lemma read_frame_size_start:
  assumes "rfs_buf rfs \<noteq> []" and "rfs_n rfs = 0"
  shows "read_frame_size rfs = Some (OSAL_SUCCESS, rfs\<lparr>rfs_data_sz := 0xFFFF,
    rfs_needed := (if rfs_is_serial rfs then 3 else 4), rfs_flags := 0\<rparr>)"
  using assms by (simp add: read_frame_size_def rd_in Let_def ack_size_defs)

lemma read_frame_size_early:
  assumes "rd (rfs_buf rfs) 0 = Some b" and "b \<noteq> IOC_ACKNOWLEDGE" and "1 \<le> rfs_n rfs"
    and "rfs_n rfs < (if rfs_is_serial rfs then 6 else 5)"
  shows "read_frame_size rfs = Some (OSAL_SUCCESS, rfs\<lparr>rfs_data_sz := 0xFFFF,
    rfs_needed := (if rfs_is_serial rfs then 7 else 6), rfs_flags := 0\<rparr>)"
  using assms by (simp add: read_frame_size_def Let_def)

lemma reads_as_ack:
  assumes "length f = (if ser then 3 else 4)" and "f ! 0 = IOC_ACKNOWLEDGE"
  shows "reads_as ser fsz f 0 0 0"
  unfolding reads_as_def
proof (intro allI impI, elim conjE)
  fix rfs :: iocReadFrameState
  assume a: "rfs_is_serial rfs = ser" "rfs_extra_flags rfs = 0 \<or> rfs_extra_flags rfs = 0" "rfs_n rfs \<le> length f"
    "length f \<le> length (rfs_buf rfs)" "take (rfs_n rfs) (rfs_buf rfs) = take (rfs_n rfs) f"
  have f: "f \<noteq> []" using assms(1) by (auto split: if_splits)
  let ?g = "\<lambda>needed d g e. read_frame_size rfs = Some (OSAL_SUCCESS,
        rfs\<lparr>rfs_data_sz := d, rfs_needed := needed, rfs_flags := g, rfs_extra_flags := e\<rparr>) \<and>
        (needed = length f \<and> d = 0 \<and> g = 0 \<and> e = 0 \<or>
         rfs_n rfs < needed \<and> needed \<le> length f \<and> d = 0xFFFF \<and> (e = 0 \<or> e = 0))"
  show "\<exists>needed d g e. ?g needed d g e"
  proof (cases "rfs_n rfs = 0")
    case True
    moreover have "rfs_buf rfs \<noteq> []" using a(4) f by auto
    ultimately have "?g (length f) 0xFFFF 0 (rfs_extra_flags rfs)"
      using read_frame_size_start [of rfs] a assms(1) f by (auto split: if_splits)
    then show ?thesis by blast
  next
    case False
    then have "rd (rfs_buf rfs) 0 = Some IOC_ACKNOWLEDGE" using rd_0_prefix [OF a(5) _ f] assms(2) by simp
    then have "?g (length f) 0 0 0" using False a assms(1) by (simp add: read_frame_size_def Let_def ack_size_defs)
    then show ?thesis by blast
  qed
qed

lemma reads_as_image:
  assumes f: "f = frame_image ser nr crc fl ds mb ad content" and nr: "nr \<noteq> IOC_ACKNOWLEDGE" and fl: "content_flags fl"
    and ser: "ser \<longrightarrow> ds < 256" and ds: "unat ds = length content" and fit: "length f \<le> fsz"
  shows "reads_as ser fsz f ds (fl OR header_flags mb ad) (extra_byte mb ad)"
  unfolding reads_as_def
proof (intro allI impI, elim conjE)
  fix rfs :: iocReadFrameState
  let ?h = "if ser then 6 else 5 :: nat"
  assume a: "rfs_is_serial rfs = ser" "rfs_frame_sz rfs = fsz"
    "rfs_extra_flags rfs = 0 \<or> rfs_extra_flags rfs = extra_byte mb ad" "rfs_n rfs \<le> length f"
    "length f \<le> length (rfs_buf rfs)" "take (rfs_n rfs) (rfs_buf rfs) = take (rfs_n rfs) f"
  have hl: "?h < length f" using header_length_gt [of ser mb ad] by (auto simp: f split: if_splits)
  have f0: "f ! 0 = nr" "f \<noteq> []" by (simp_all add: f frame_image_def)
  let ?g = "\<lambda>needed d g e. read_frame_size rfs = Some (OSAL_SUCCESS,
        rfs\<lparr>rfs_data_sz := d, rfs_needed := needed, rfs_flags := g, rfs_extra_flags := e\<rparr>) \<and>
        (needed = length f \<and> d = ds \<and> g = fl OR header_flags mb ad \<and> e = extra_byte mb ad \<or>
         rfs_n rfs < needed \<and> needed \<le> length f \<and> d = 0xFFFF \<and> (e = 0 \<or> e = extra_byte mb ad))"
  consider "rfs_n rfs = 0" | "1 \<le> rfs_n rfs" "rfs_n rfs < ?h" | "?h \<le> rfs_n rfs" by fastforce
  then show "\<exists>needed d g e. ?g needed d g e"
  proof cases
    case 1
    have "rfs_buf rfs \<noteq> []" using a(5) hl by auto
    then have "?g (if ser then 3 else 4) 0xFFFF 0 (rfs_extra_flags rfs)"
      using read_frame_size_start [of rfs] a hl 1 by (auto split: if_splits)
    then show ?thesis by blast
  next
    case 2
    have "rd (rfs_buf rfs) 0 = Some nr" using rd_0_prefix [OF a(6) 2(1) f0(2)] f0(1) by simp
    then have "?g (if ser then 7 else 6) 0xFFFF 0 (rfs_extra_flags rfs)"
      using read_frame_size_early [of rfs nr] a hl 2 nr by (auto split: if_splits)
    then show ?thesis by blast
  next
    case 3
    have "take ?h (rfs_buf rfs) = take ?h f" using a(6) 3 by (metis min_absorb1 take_take)
    then have "?g (length f) ds (fl OR header_flags mb ad) (extra_byte mb ad)"
      using read_frame_size_image [OF nr fl ser _ a(3) a(1), of crc content] 3 fit a(2) ds by (simp add: f)
    then show ?thesis by blast
  qed
qed

text \<open>
  The promise of the stream: it hands out at most the bytes asked for, and on success these are the
  next pending bytes. A stream is live if it never fails and gives at least one pending byte, and
  full if it never gives less than it could.
\<close>

definition stream_ok :: "'s stream_read \<Rightarrow> ('s \<Rightarrow> byte list) \<Rightarrow> bool" where
  "stream_ok stream_read pend \<longleftrightarrow> (\<forall>s k st bs s'. 0 < k \<and> stream_read s k = (st, bs, s') \<longrightarrow>
     int (length bs) \<le> k \<and> (st = OSAL_SUCCESS \<longrightarrow> pend s = bs @ pend s'))"

definition stream_live :: "'s stream_read \<Rightarrow> ('s \<Rightarrow> byte list) \<Rightarrow> bool" where
  "stream_live stream_read pend \<longleftrightarrow> (\<forall>s k st bs s'. 0 < k \<and> stream_read s k = (st, bs, s') \<longrightarrow>
     st = OSAL_SUCCESS \<and> (pend s \<noteq> [] \<longrightarrow> bs \<noteq> []))"

definition stream_full :: "'s stream_read \<Rightarrow> ('s \<Rightarrow> byte list) \<Rightarrow> bool" where
  "stream_full stream_read pend \<longleftrightarrow> (\<forall>s k st bs s'. 0 < k \<and> k \<le> int (length (pend s)) \<and> stream_read s k = (st, bs, s') \<longrightarrow>
     int (length bs) = k)"

text \<open>The state of a reader that has \<open>n\<close> bytes of frame \<open>f\<close>.\<close>

definition has_prefix :: "bool \<Rightarrow> nat \<Rightarrow> byte list \<Rightarrow> byte \<Rightarrow> iocReadFrameState \<Rightarrow> bool" where
  "has_prefix ser fsz f ex rfs \<longleftrightarrow> rfs_is_serial rfs = ser \<and> rfs_frame_sz rfs = fsz \<and>
     (rfs_extra_flags rfs = 0 \<or> rfs_extra_flags rfs = ex) \<and> rfs_n rfs \<le> length f \<and> length f \<le> length (rfs_buf rfs) \<and>
     take (rfs_n rfs) (rfs_buf rfs) = take (rfs_n rfs) f"

definition knows_frame :: "byte list \<Rightarrow> u16 \<Rightarrow> byte \<Rightarrow> byte \<Rightarrow> iocReadFrameState \<Rightarrow> bool" where
  "knows_frame f ds fl ex rfs \<longleftrightarrow> rfs_n rfs = length f \<and> rfs_needed rfs = length f \<and> rfs_data_sz rfs = ds \<and>
     rfs_flags rfs = fl \<and> rfs_extra_flags rfs = ex"

text \<open>
  Outcome of reading from state \<open>rfs\<close> with \<open>todo\<close> pending: the bytes taken are the next ones of the
  frame, and the reader either needs more or knows the complete frame.
\<close>

definition frame_read ::
  "('s \<Rightarrow> byte list) \<Rightarrow> bool \<Rightarrow> nat \<Rightarrow> byte list \<Rightarrow> u16 \<Rightarrow> byte \<Rightarrow> byte \<Rightarrow> iocReadFrameState \<Rightarrow> 's \<Rightarrow> iocReadFrameState \<Rightarrow> 's \<Rightarrow> bool" where
  "frame_read pend ser fsz f ds fl ex rfs s rfs' s' \<longleftrightarrow> has_prefix ser fsz f ex rfs' \<and> rfs_n rfs \<le> rfs_n rfs' \<and>
     length (rfs_buf rfs') = length (rfs_buf rfs) \<and>
     pend s = take (rfs_n rfs' - rfs_n rfs) (drop (rfs_n rfs) f) @ pend s' \<and>
     rfs_bytes_received rfs' = rfs_bytes_received rfs + of_nat (rfs_n rfs' - rfs_n rfs) \<and>
     (rfs_n rfs' < rfs_needed rfs' \<or> knows_frame f ds fl ex rfs')"

lemma prefix_grows:
  assumes hp: "take n buf = take n f" "n \<le> length f" "length f \<le> length buf" and bs: "bs = take (length bs) (drop n f)"
    and fit: "n + length bs \<le> length f"
  shows "take (n + length bs) (splice buf n bs) = take (n + length bs) f"
proof -
  have "take (n + length bs) f = take n f @ take (length bs) (drop n f)" by (rule take_add)
  then have tf: "take (n + length bs) f = take n f @ bs" using bs by argo
  have "splice buf n bs = take n buf @ bs @ drop (n + length bs) buf" by (simp add: splice_def)
  moreover have "length (take n buf @ bs) = n + length bs" using hp by simp
  ultimately have "take (n + length bs) (splice buf n bs) = take n buf @ bs"
    by (metis append.assoc append_eq_conv_conj)
  then show ?thesis using tf hp(1) by simp
qed

text \<open>One read within a round: the bytes delivered extend the beginning of the frame.\<close>

lemma read_step:
  assumes hp: "has_prefix ser fsz f ex rfs" and so: "stream_ok stream_read pend" and pd: "pend s = drop (rfs_n rfs) f @ later"
    and k: "rfs_n rfs < needed" "needed \<le> length f"
    and r: "stream_read s (int needed - int (rfs_n rfs)) = (st, bs, s')"
  shows "wrs (rfs_buf rfs) (int (rfs_n rfs)) bs = Some (splice (rfs_buf rfs) (rfs_n rfs) bs)"
    and "length (splice (rfs_buf rfs) (rfs_n rfs) bs) = length (rfs_buf rfs)" and "rfs_n rfs + length bs \<le> needed"
    and "st = OSAL_SUCCESS \<Longrightarrow> bs = take (length bs) (drop (rfs_n rfs) f)"
    and "st = OSAL_SUCCESS \<Longrightarrow> pend s' = drop (rfs_n rfs + length bs) f @ later"
    and "st = OSAL_SUCCESS \<Longrightarrow> take (rfs_n rfs + length bs) (splice (rfs_buf rfs) (rfs_n rfs) bs) = take (rfs_n rfs + length bs) f"
proof -
  let ?n = "rfs_n rfs"
  have kk: "0 < int needed - int ?n" using k by simp
  from so r kk have c: "int (length bs) \<le> int needed - int ?n" "st = OSAL_SUCCESS \<longrightarrow> pend s = bs @ pend s'"
    unfolding stream_ok_def by blast+
  from c(1) show l: "?n + length bs \<le> needed" by simp
  have hb: "take ?n (rfs_buf rfs) = take ?n f" "?n \<le> length f" "length f \<le> length (rfs_buf rfs)"
    using hp by (auto simp: has_prefix_def)
  have fb: "?n + length bs \<le> length (rfs_buf rfs)" using l k(2) hb(3) by linarith
  then show "wrs (rfs_buf rfs) (int ?n) bs = Some (splice (rfs_buf rfs) ?n bs)"
    by (simp add: wrs_in)
  show "length (splice (rfs_buf rfs) ?n bs) = length (rfs_buf rfs)" using fb by simp
  assume "st = OSAL_SUCCESS"
  with c(2) pd have p: "drop ?n f @ later = bs @ pend s'" by simp
  have lb: "length bs \<le> length (drop ?n f)" using l k(2) by simp
  from p lb have t: "bs = take (length bs) (drop ?n f)"
    by (metis append_eq_append_conv_if append_eq_conv_conj)
  then show "bs = take (length bs) (drop ?n f)" .
  have "pend s' = drop (length bs) (drop ?n f @ later)" using p by simp
  then show "pend s' = drop (?n + length bs) f @ later" using lb by (simp add: add.commute)
  show "take (?n + length bs) (splice (rfs_buf rfs) ?n bs) = take (?n + length bs) f"
    by (rule prefix_grows [OF hb t]) (use l k in linarith)
qed

lemma read_frame_round:
  assumes "read_frame_size rfs = Some (OSAL_SUCCESS, r1)" and "rfs_needed r1 \<noteq> rfs_n r1"
    and "stream_read s (int (rfs_needed r1) - int (rfs_n r1)) = (OSAL_SUCCESS, bs, s')"
    and "wrs (rfs_buf r1) (int (rfs_n r1)) bs = Some b" and "bs = [] \<or> b ! 0 = IOC_ACKNOWLEDGE \<or> b ! 0 = rfs_frame_nr r1"
  shows "read_frame_loop stream_read s rfs =
    (let r2 = r1\<lparr>rfs_buf := b, rfs_n := rfs_n r1 + length bs, rfs_bytes_received := rfs_bytes_received r1 + of_nat (length bs)\<rparr>
     in if rfs_n r1 + length bs = rfs_needed r1 \<and> rfs_data_sz r1 = 0xFFFF then read_frame_loop stream_read s' r2
        else Some (OSAL_SUCCESS, r2, s'))"
  by (subst read_frame_loop.simps, simp only: assms(1-4) option.case prod.case Let_def if_False if_True simp_thms)
    (use assms(5) in auto)

lemma knows_or_needs:
  assumes ra: "reads_as ser fsz f ds fl ex" and hp: "has_prefix ser fsz f ex rfs"
  obtains needed d g e where "read_frame_size rfs = Some (OSAL_SUCCESS,
      rfs\<lparr>rfs_data_sz := d, rfs_needed := needed, rfs_flags := g, rfs_extra_flags := e\<rparr>)"
    "needed = length f \<and> d = ds \<and> g = fl \<and> e = ex \<or>
     rfs_n rfs < needed \<and> needed \<le> length f \<and> d = 0xFFFF \<and> (e = 0 \<or> e = ex)"
  using ra hp unfolding reads_as_def has_prefix_def by blast

lemma frame_read_extend:
  assumes part: "pend s = take b (drop (rfs_n rfs) f) @ pend s'" and n: "rfs_n r2 = rfs_n rfs + b"
    and br: "rfs_bytes_received r2 = rfs_bytes_received rfs + of_nat b" and lb: "length (rfs_buf r2) = length (rfs_buf rfs)"
    and fr: "frame_read pend ser fsz f ds fl ex r2 s' rfs' s''"
  shows "frame_read pend ser fsz f ds fl ex rfs s rfs' s''"
proof -
  let ?m = "rfs_n rfs'" and ?n = "rfs_n rfs"
  have m: "?n + b \<le> ?m" using fr n by (simp add: frame_read_def)
  have "take (?m - ?n) (drop ?n f) = take b (drop ?n f) @ take (?m - (?n + b)) (drop (?n + b) f)"
    using take_add [of b "?m - (?n + b)" "drop ?n f"] m by (simp add: add.commute)
  then have "pend s = take (?m - ?n) (drop ?n f) @ pend s''" using part fr n by (simp add: frame_read_def)
  moreover have "of_nat b + of_nat (?m - (?n + b)) = (of_nat (?m - ?n) :: u32)"
    unfolding of_nat_add [symmetric] using m by simp
  ultimately show ?thesis using fr n br lb m by (auto simp: frame_read_def add.assoc)
qed

lemma read_frame_collects:
  fixes stream_read :: "'s stream_read"
  assumes ra: "reads_as ser fsz f ds fl ex" and so: "stream_ok stream_read pend"
    and hp: "has_prefix ser fsz f ex rfs" and pd: "pend s = drop (rfs_n rfs) f @ later"
    and f0: "f \<noteq> []" "f ! 0 = IOC_ACKNOWLEDGE \<or> f ! 0 = rfs_frame_nr rfs"
  shows "\<exists>st rfs' s'. read_frame_loop stream_read s rfs = Some (st, rfs', s') \<and>
    (st = OSAL_SUCCESS \<longrightarrow> frame_read pend ser fsz f ds fl ex rfs s rfs' s' \<and>
      (stream_live stream_read pend \<and> rfs_n rfs < length f \<longrightarrow> rfs_n rfs < rfs_n rfs') \<and>
      (stream_full stream_read pend \<longrightarrow> knows_frame f ds fl ex rfs')) \<and>
    (stream_live stream_read pend \<longrightarrow> st = OSAL_SUCCESS) \<and> length (rfs_buf rfs') = length (rfs_buf rfs)"
  using hp pd f0(2)
proof (induction "length f - rfs_n rfs" arbitrary: s rfs rule: less_induct)
  case less
  let ?n = "rfs_n rfs"
  obtain needed d g e where sz: "read_frame_size rfs = Some (OSAL_SUCCESS,
      rfs\<lparr>rfs_data_sz := d, rfs_needed := needed, rfs_flags := g, rfs_extra_flags := e\<rparr>)"
    and kn: "needed = length f \<and> d = ds \<and> g = fl \<and> e = ex \<or>
     ?n < needed \<and> needed \<le> length f \<and> d = 0xFFFF \<and> (e = 0 \<or> e = ex)"
    by (rule knows_or_needs [OF ra less.prems(1)])
  let ?r1 = "rfs\<lparr>rfs_data_sz := d, rfs_needed := needed, rfs_flags := g, rfs_extra_flags := e\<rparr>"
  have nl: "?n \<le> length f" using less.prems(1) by (simp add: has_prefix_def)
  have e: "e = 0 \<or> e = ex" using kn by blast
  show ?case
  proof (cases "needed = ?n")
    case True
    then have "read_frame_loop stream_read s rfs = Some (OSAL_SUCCESS, ?r1, s)"
      by (subst read_frame_loop.simps) (simp add: sz)
    moreover have "frame_read pend ser fsz f ds fl ex rfs s ?r1 s"
      using True kn less.prems(1) by (auto simp: frame_read_def has_prefix_def knows_frame_def)
    moreover have "knows_frame f ds fl ex ?r1" using True kn by (auto simp: knows_frame_def)
    ultimately show ?thesis using True kn by auto
  next
    case False
    then have k: "?n < needed" "needed \<le> length f" using kn nl by auto
    obtain st bs s' where r: "stream_read s (int needed - int ?n) = (st, bs, s')"
      by (cases "stream_read s (int needed - int ?n)")
    note rs = read_step [OF less.prems(1) so less.prems(2) k r]
    let ?b = "splice (rfs_buf rfs) ?n bs"
    let ?r2 = "?r1\<lparr>rfs_buf := ?b, rfs_n := ?n + length bs,
        rfs_bytes_received := rfs_bytes_received rfs + of_nat (length bs)\<rparr>"
    have kk: "0 < int needed - int ?n" using k by simp
    have live: "st = OSAL_SUCCESS \<and> bs \<noteq> []" if "stream_live stream_read pend"
    proof -
      have "st = OSAL_SUCCESS \<and> (pend s \<noteq> [] \<longrightarrow> bs \<noteq> [])" using that r kk unfolding stream_live_def by blast
      then show ?thesis using less.prems(2) k by simp
    qed
    have full: "?n + length bs = needed" if "stream_full stream_read pend"
    proof -
      have "int needed - int ?n \<le> int (length (pend s))" using less.prems(2) k by simp
      then have "int (length bs) = int needed - int ?n" using that r kk unfolding stream_full_def by blast
      then show ?thesis by linarith
    qed
    show ?thesis
    proof (cases "st = OSAL_SUCCESS")
      case st: False
      then have "read_frame_loop stream_read s rfs = Some (st, ?r1\<lparr>rfs_buf := ?b\<rparr>, s')"
        using False by (subst read_frame_loop.simps) (simp add: sz r rs(1) Let_def)
      then show ?thesis using st rs(2) live by auto
    next
      case st: True
      have hp2: "has_prefix ser fsz f ex ?r2"
        using less.prems(1) rs(2,3) rs(6) [OF st] k(2) e by (simp add: has_prefix_def)
      have b0: "?b ! 0 = f ! 0" if "bs \<noteq> []"
      proof -
        have "0 < ?n + length bs" using that by simp
        then show ?thesis using arg_cong [OF rs(6) [OF st], of "\<lambda>x. x ! 0"] by simp
      qed
      have chk: "bs = [] \<or> ?b ! 0 = IOC_ACKNOWLEDGE \<or> ?b ! 0 = rfs_frame_nr rfs"
        using b0 less.prems(3) by auto
      have step: "read_frame_loop stream_read s rfs =
          (if ?n + length bs = needed \<and> d = 0xFFFF then read_frame_loop stream_read s' ?r2 else Some (OSAL_SUCCESS, ?r2, s'))"
        using read_frame_round [OF sz, of stream_read s bs s' ?b] False st chk r rs(1) by (auto simp: Let_def)
      have part: "pend s = take (length bs) (drop ?n f) @ pend s'"
        using less.prems(2) rs(4,5) [OF st] by (metis append.assoc append_take_drop_id drop_drop add.commute)
      show ?thesis
      proof (cases "?n + length bs = needed \<and> d = 0xFFFF")
        case False
        have "?n + length bs < needed \<or> knows_frame f ds fl ex ?r2"
          using False kn rs(3) by (auto simp: knows_frame_def)
        then have "frame_read pend ser fsz f ds fl ex rfs s ?r2 s'"
          using hp2 part rs(2) by (auto simp: frame_read_def)
        moreover have "knows_frame f ds fl ex ?r2" if "stream_full stream_read pend"
          using full [OF that] False kn by (auto simp: knows_frame_def)
        ultimately show ?thesis using step False st live rs(2) by auto
      next
        case True
        then have lp: "read_frame_loop stream_read s rfs = read_frame_loop stream_read s' ?r2" using step by simp
        have lb: "0 < length bs" using True k by (cases bs) auto
        have n2: "rfs_n ?r2 = ?n + length bs" by simp
        have "length f - rfs_n ?r2 < length f - ?n" unfolding n2 using lb k by linarith
        moreover have "pend s' = drop (rfs_n ?r2) f @ later" unfolding n2 by (rule rs(5) [OF st])
        moreover have "f ! 0 = IOC_ACKNOWLEDGE \<or> f ! 0 = rfs_frame_nr ?r2" using less.prems(3) by simp
        ultimately obtain st' rfs' s'' where ih: "read_frame_loop stream_read s' ?r2 = Some (st', rfs', s'')"
          "st' = OSAL_SUCCESS \<longrightarrow> frame_read pend ser fsz f ds fl ex ?r2 s' rfs' s'' \<and>
             (stream_full stream_read pend \<longrightarrow> knows_frame f ds fl ex rfs')"
          "stream_live stream_read pend \<longrightarrow> st' = OSAL_SUCCESS" "length (rfs_buf rfs') = length (rfs_buf ?r2)"
          using less.hyps [OF _ hp2] by blast
        have "frame_read pend ser fsz f ds fl ex rfs s rfs' s'' \<and> ?n < rfs_n rfs'" if "st' = OSAL_SUCCESS"
        proof
          have fr: "frame_read pend ser fsz f ds fl ex ?r2 s' rfs' s''" using ih(2) that by blast
          show "frame_read pend ser fsz f ds fl ex rfs s rfs' s''"
            by (rule frame_read_extend [where b = "length bs", OF part _ _ _ fr]) (use rs(2) in simp_all)
          have "?n + length bs \<le> rfs_n rfs'" using fr by (simp add: frame_read_def)
          then show "?n < rfs_n rfs'" using lb by linarith
        qed
        then show ?thesis using lp ih rs(2) by auto
      qed
    qed
  qed
qed

section \<open>Processing what was collected\<close>

lemma check_frame_sum_image:
  assumes "crc = checksum (frame_image True nr 0 fl ds mb ad content)"
  shows "check_frame_sum checksum (header_length True mb ad + length content) (frame_image True nr crc fl ds mb ad content @ rest) =
    Some (True, frame_image True nr 0 fl ds mb ad content @ rest)"
proof -
  let ?im = "\<lambda>c. frame_image True nr c fl ds mb ad content @ rest"
  have im: "?im c = nr # ucast c # ucast (drop_bit 8 c) # drop 3 (?im c)" "drop 3 (?im c) = drop 3 (?im 0)" for c
    by (simp_all add: frame_image_def)
  have z: "(?im crc)[1 := 0, 2 := 0] = ?im 0" using image_set_checksum [of nr crc fl ds mb ad content rest 0] by simp
  have "rd (?im crc) 1 = Some (ucast crc)" "rd (?im crc) 2 = Some (ucast (drop_bit 8 crc))"
    by (simp_all add: frame_image_def rd_Cons)
  moreover have "wr (?im crc) 1 0 = Some ((?im crc)[1 := 0])" using header_length_gt' [of True mb ad] by (simp add: wr_in)
  moreover have "wr ((?im crc)[1 := 0]) 2 0 = Some (?im 0)" using header_length_gt' [of True mb ad] z by (simp add: wr_in)
  moreover have "rds (?im 0) 0 (int (header_length True mb ad + length content)) = Some (frame_image True nr 0 fl ds mb ad content)"
    by (simp add: rds_in nat_add_distrib)
  ultimately show ?thesis
    unfolding check_frame_sum_def by (simp only: bind.bind_lunit assms u16_bytes2 refl)
qed

text \<open>Content that fits the size field of a frame.\<close>

definition content_fits :: "bool \<Rightarrow> byte list \<Rightarrow> bool" where
  "content_fits ser content \<longleftrightarrow> length content < (if ser then 256 else 65536)"

text \<open>The buffer a frame is parsed from: on a serial line without its checksum.\<close>

definition parsed_frame :: "iocConnection \<Rightarrow> byte \<Rightarrow> u32 \<Rightarrow> u32 \<Rightarrow> byte list \<Rightarrow> byte list" where
  "parsed_frame con fl mb ad content =
     frame_image (con_is_serial con) (fo_frame_nr con) 0 fl (of_nat (length content)) mb ad content"

lemma unat_of_nat_u16: "n < 65536 \<Longrightarrow> unat (of_nat n :: u16) = n"
  by (simp add: unat_of_nat take_bit_eq_mod)

lemma process_data_frame:
  assumes f: "f = data_frame checksum scon fl mb ad content" and fl: "content_flags fl" "\<not> has_flag fl IOC_SYSTEM_FRAME"
    and fits: "content_fits (con_is_serial scon) content"
    and rfs: "rfs_is_serial rfs = con_is_serial scon" "rfs_buf rfs = f @ rest"
      "knows_frame f (of_nat (length content)) (fl OR header_flags mb ad) (extra_byte mb ad) rfs"
  shows "process_frame checksum mblk_of authorization system_frame w con rfs = do {
      (st, con', ev) \<leftarrow> ioc_process_received_data_frame mblk_of authorization
        (con\<lparr>fi_buf := parsed_frame scon fl mb ad content @ rest, fi_frame_nr := next_frame_in_nr (fo_frame_nr scon)\<rparr>)
        mb (sint ad) content (fl OR header_flags mb ad);
      Some (True, st, con', w, ev) }"
proof -
  let ?ser = "con_is_serial scon" and ?nr = "fo_frame_nr scon" and ?ds = "of_nat (length content) :: u16"
  let ?p = "parsed_frame scon fl mb ad content @ rest" and ?hl = "header_length (con_is_serial scon) mb ad"
  note k = rfs(3) [unfolded knows_frame_def]
  have lf: "length f = ?hl + length content" by (simp add: f length_data_frame)
  have c: "(if ?ser then check_frame_sum checksum (rfs_needed rfs) (rfs_buf rfs) else Some (True, rfs_buf rfs)) = Some (True, ?p)"
    using check_frame_sum_image [where crc = "checksum (parsed_frame scon fl mb ad content)" and nr = ?nr and fl = fl and ds = ?ds and
        mb = mb and ad = ad and content = content and rest = rest and checksum = checksum] k lf rfs(2)
    by (auto simp: f data_frame_def parsed_frame_def Let_def)
  have p: "parse_frame_header ?ser (fl OR header_flags mb ad) (extra_byte mb ad) ?p = Some (mb, ad, ?hl)"
    unfolding parsed_frame_def frame_image_append by (rule parse_frame_image [OF fl(1)])
  have b0: "rd ?p 0 = Some ?nr" by (simp add: parsed_frame_def frame_image_def rd_Cons)
  have "length content < 65536" using fits by (simp add: content_fits_def split: if_splits)
  then have "int (unat ?ds) = int (length content)" by (simp only: unat_of_nat_u16)
  then have ds: "uint ?ds = int (length content)" by (simp only: uint_nat)
  have "?p = frame_image ?ser ?nr 0 fl ?ds mb ad [] @ content @ rest"
    by (simp add: parsed_frame_def frame_image_append)
  then have d: "rds ?p (int ?hl) (uint ?ds) = Some content"
    unfolding ds by (simp add: rds_in)
  have ns: "\<not> has_flag (fl OR header_flags mb ad) IOC_SYSTEM_FRAME"
    using fl(2) by (simp add: has_flag_OR header_flag_bits)
  show ?thesis
    unfolding process_frame_def rfs(1) Let_def c
    by (simp only: p b0 d k ns bind.bind_lunit prod.case if_False not_True_eq_False)
      (simp add: split_def)
qed

text \<open>A complete data frame, delivered by a stream that holds nothing back, is processed by one call.\<close>

lemma data_frame_reads_as:
  assumes "f = data_frame checksum scon fl mb ad content" and "content_flags fl" and "fo_frame_nr scon \<noteq> IOC_ACKNOWLEDGE"
    and fits: "content_fits (con_is_serial scon) content" and "length f \<le> fsz"
  shows "reads_as (con_is_serial scon) fsz f (of_nat (length content)) (fl OR header_flags mb ad) (extra_byte mb ad)"
proof -
  have "length content < 65536" using fits by (simp add: content_fits_def split: if_splits)
  then have u: "unat (of_nat (length content) :: u16) = length content" by (rule unat_of_nat_u16)
  then have "con_is_serial scon \<longrightarrow> (of_nat (length content) :: u16) < 256"
    using fits by (auto simp: content_fits_def word_less_nat_alt)
  with u assms show ?thesis by (intro reads_as_image) (auto simp: data_frame_def Let_def)
qed

lemma data_frame_head: "data_frame checksum scon fl mb ad content ! 0 = fo_frame_nr scon"
  "data_frame checksum scon fl mb ad content \<noteq> []"
  by (simp_all add: data_frame_def frame_image_def Let_def)

definition frame_arrived :: "nat \<Rightarrow> byte list \<Rightarrow> byte list \<Rightarrow> iocConnection \<Rightarrow> iocConnection" where
  "frame_arrived tnow f rest con = con\<lparr>fi_buf := f @ rest, fi_pos := length f, con_last_receive := tnow,
     con_bytes_received := con_bytes_received con + of_nat (length f)\<rparr>"

text \<open>Reading from the start of a frame, for a stream that is live and full.\<close>

lemma read_frame_at_once:
  assumes ra: "reads_as (con_is_serial con) (nat (con_frame_sz con)) f ds fl ex" and f0: "f \<noteq> []"
      "f ! 0 = IOC_ACKNOWLEDGE \<or> f ! 0 = fi_frame_nr con" and fl: "length f < 2 ^ 32" "length f \<le> length (fi_buf con)"
    and so: "stream_ok stream_read pend" "stream_live stream_read pend" "stream_full stream_read pend"
    and pd: "pend s = f @ later" and p0: "fi_pos con = 0"
  shows "\<exists>rest rfs s'. ioc_read_frame stream_read s (rfs_start con) = Some (OSAL_SUCCESS, rfs, s') \<and>
    knows_frame f ds fl ex rfs \<and> rfs_buf rfs = f @ rest \<and> rfs_is_serial rfs = con_is_serial con \<and> pend s' = later \<and>
    receive_bookkeeping tnow rfs con = frame_arrived tnow f rest con \<and> length rest + length f = length (fi_buf con)"
proof -
  let ?r = "rfs_start con\<lparr>rfs_bytes_received := 0\<rparr>"
  have hp: "has_prefix (con_is_serial con) (nat (con_frame_sz con)) f ex ?r"
    using fl(2) p0 by (simp add: has_prefix_def rfs_start_def)
  have "pend s = drop (rfs_n ?r) f @ later" using pd p0 by (simp add: rfs_start_def)
  moreover have "f ! 0 = IOC_ACKNOWLEDGE \<or> f ! 0 = rfs_frame_nr ?r" using f0(2) by (simp add: rfs_start_def)
  ultimately obtain rfs s' where r: "read_frame_loop stream_read s ?r = Some (OSAL_SUCCESS, rfs, s')"
    and fr: "frame_read pend (con_is_serial con) (nat (con_frame_sz con)) f ds fl ex ?r s rfs s'"
    and kf: "knows_frame f ds fl ex rfs"
    using read_frame_collects [OF ra so(1) hp _ f0(1)] so(2,3) by blast
  let ?rest = "drop (length f) (rfs_buf rfs)"
  have n: "rfs_n rfs = length f" using kf by (simp add: knows_frame_def)
  have tk: "take (length f) (rfs_buf rfs) = f" and ser: "rfs_is_serial rfs = con_is_serial con"
    using fr n by (simp_all add: frame_read_def has_prefix_def)
  have buf: "rfs_buf rfs = f @ ?rest" using append_take_drop_id [of "length f" "rfs_buf rfs"] tk by argo
  have br: "rfs_bytes_received rfs = of_nat (length f)" and lb: "length (rfs_buf rfs) = length (fi_buf con)"
    and pe: "f @ later = f @ pend s'"
    using fr n pd p0 by (simp_all add: frame_read_def rfs_start_def)
  have "unat (of_nat (length f) :: u32) = length f" using fl(1) by (simp add: unat_of_nat take_bit_eq_mod)
  then have nz: "rfs_bytes_received rfs \<noteq> 0" using br f0(1) by (metis length_0_conv unat_0)
  have "receive_bookkeeping tnow rfs con = frame_arrived tnow f ?rest con"
    using nz br n buf by (simp add: receive_bookkeeping_def frame_arrived_def)
  moreover have "length ?rest + length f = length (fi_buf con)" using lb fl(2) by simp
  ultimately show ?thesis using r kf buf ser pe unfolding ioc_read_frame_def by blast
qed

lemma receive_data_frame:
  assumes f: "f = data_frame checksum scon fl mb ad content" and fl: "content_flags fl" "\<not> has_flag fl IOC_SYSTEM_FRAME"
    and fits: "content_fits (con_is_serial scon) content"
    and nr: "fo_frame_nr scon = fi_frame_nr con" "fo_frame_nr scon \<noteq> IOC_ACKNOWLEDGE"
    and con: "con_is_serial con = con_is_serial scon" "fi_pos con = 0" "length f \<le> nat (con_frame_sz con)"
      "length f \<le> length (fi_buf con)"
    and so: "stream_ok stream_read pend" "stream_live stream_read pend" "stream_full stream_read pend"
    and pd: "pend s = f @ later"
  shows "\<exists>rest s'. pend s' = later \<and> length rest + length f = length (fi_buf con) \<and>
    ioc_connection_receive checksum mblk_of first_mblk authorization system_frame stream_read tnow w s con = do {
      (st, con', ev) \<leftarrow> ioc_process_received_data_frame mblk_of authorization
        (frame_arrived tnow f rest con\<lparr>fi_buf := parsed_frame scon fl mb ad content @ rest,
           fi_frame_nr := next_frame_in_nr (fo_frame_nr scon)\<rparr>) mb (sint ad) content (fl OR header_flags mb ad);
      let (con3, ev') = receive_done (first_mblk w) con' in Some (st, con3, w, s', ev @ ev') }"
proof -
  have lf: "length f < 2 ^ 32"
    using fits header_length_bound [of "con_is_serial scon" mb ad]
    by (auto simp: f length_data_frame content_fits_def split: if_splits)
  have "reads_as (con_is_serial con) (nat (con_frame_sz con)) f (of_nat (length content)) (fl OR header_flags mb ad) (extra_byte mb ad)"
    unfolding con(1) using con(3) by (intro data_frame_reads_as [OF f fl(1) nr(2) fits])
  moreover have "f \<noteq> []" "f ! 0 = IOC_ACKNOWLEDGE \<or> f ! 0 = fi_frame_nr con" using data_frame_head nr(1) by (simp_all add: f)
  ultimately obtain rest rfs s' where r: "ioc_read_frame stream_read s (rfs_start con) = Some (OSAL_SUCCESS, rfs, s')"
    and k: "knows_frame f (of_nat (length content)) (fl OR header_flags mb ad) (extra_byte mb ad) rfs"
    and b: "rfs_buf rfs = f @ rest" "rfs_is_serial rfs = con_is_serial con" "pend s' = later"
      "receive_bookkeeping tnow rfs con = frame_arrived tnow f rest con" "length rest + length f = length (fi_buf con)"
    using read_frame_at_once [OF _ _ _ lf con(4) so pd con(2)] by blast
  have n: "\<not> rfs_n rfs < rfs_needed rfs" using k by (simp add: knows_frame_def)
  have b0: "rd (rfs_buf rfs) 0 = Some (fo_frame_nr scon)"
    using data_frame_head [of checksum scon fl mb ad content, folded f] by (cases f) (simp_all add: b(1) rd_Cons)
  have "ioc_connection_receive checksum mblk_of first_mblk authorization system_frame stream_read tnow w s con = do {
      (ok, st, con2, w', ev) \<leftarrow> process_frame checksum mblk_of authorization system_frame w (frame_arrived tnow f rest con) rfs;
      if \<not> ok then Some (st, con2, w', s', ev)
      else let (con3, ev') = receive_done (first_mblk w') con2 in Some (st, con3, w', s', ev @ ev') }"
    unfolding ioc_connection_receive_def r
    by (simp only: bind.bind_lunit prod.case Let_def b(4) n b0 nr(2) if_False not_True_eq_False simp_thms)
  also have "\<dots> = do {
      (st, con', ev) \<leftarrow> ioc_process_received_data_frame mblk_of authorization
        (frame_arrived tnow f rest con\<lparr>fi_buf := parsed_frame scon fl mb ad content @ rest,
           fi_frame_nr := next_frame_in_nr (fo_frame_nr scon)\<rparr>) mb (sint ad) content (fl OR header_flags mb ad);
      let (con3, ev') = receive_done (first_mblk w) con' in Some (st, con3, w, s', ev @ ev') }"
    unfolding process_data_frame [OF f fl fits _ b(1) k, unfolded b(2), OF con(1)]
    by (simp add: split_def)
  finally show ?thesis using b(3,5) by blast
qed

section \<open>Acknowledgements\<close>

lemma ack_bytes:
  "ucast (ucast (x :: u32) :: byte) OR push_bit 8 (ucast (ucast (drop_bit 8 x) :: byte)) = take_bit 16 x"
  "ucast (ucast (x :: u32) :: byte) OR push_bit 8 (ucast (ucast (drop_bit 8 x) :: byte)) OR
     push_bit 16 (ucast (ucast (drop_bit 16 x) :: byte)) = take_bit 24 x"
proof -
  show "ucast (ucast (x :: u32) :: byte) OR push_bit 8 (ucast (ucast (drop_bit 8 x) :: byte)) = take_bit 16 x"
    by (rule bit_word_eqI) (auto simp: bit_simps)
  show "ucast (ucast (x :: u32) :: byte) OR push_bit 8 (ucast (ucast (drop_bit 8 x) :: byte)) OR
     push_bit 16 (ucast (ucast (drop_bit 16 x) :: byte)) = take_bit 24 x"
  proof (rule bit_word_eqI)
    fix n :: nat
    assume "n < LENGTH(32)"
    then show "bit ((ucast (ucast x :: byte) :: u32) OR push_bit 8 (ucast (ucast (drop_bit 8 x) :: byte)) OR
       push_bit 16 (ucast (ucast (drop_bit 16 x) :: byte))) n = bit (take_bit 24 x) n"
      by (cases "n < 8"; cases "n < 16") (auto simp: bit_simps)
  qed
qed

lemma parse_ack_message:
  assumes "has_flag (con_flags peer) IOC_SOCKET = has_flag (con_flags con) IOC_SOCKET"
  shows "parse_ack (has_flag (con_flags con) IOC_SOCKET) (ack_message peer @ rest) =
    Some (take_bit (ack_bits con) (con_bytes_received peer))"
  using assms
  by (auto simp: parse_ack_def ack_message_def Let_def rd_Cons ack_bits_def ack_bytes)

lemma take_bit_minus_take_bit: "take_bit n (a - take_bit n b) = take_bit n (a - b)" for a b :: u32
proof -
  have u: "uint (take_bit n (x - y)) = take_bit (min n 32) (uint x - uint y)" for x y :: u32
    using take_bit_take_bit [of n 32 "uint x - uint y"]
    by (simp add: unsigned_take_bit_eq uint_word_ariths take_bit_eq_mod [of 32])
  have "take_bit (min n 32) (uint a - take_bit n (uint b)) = take_bit (min n 32) (uint a - uint b)"
    using take_bit_diff [of "min n 32" "uint a" "take_bit n (uint b)"] take_bit_diff [of "min n 32" "uint a" "uint b"]
    by simp
  then have "uint (take_bit n (a - take_bit n b)) = uint (take_bit n (a - b))"
    unfolding u by (simp add: unsigned_take_bit_eq)
  then show ?thesis by (simp only: word_uint_eq_iff)
qed

lemma receive_ack:
  assumes fl: "has_flag (con_flags peer) IOC_SOCKET = has_flag (con_flags con) IOC_SOCKET"
    and con: "fi_pos con = 0" "4 \<le> length (fi_buf con)"
    and so: "stream_ok stream_read pend" "stream_live stream_read pend" "stream_full stream_read pend"
    and pd: "pend s = ack_message peer @ later"
  shows "\<exists>rest s' ev. pend s' = later \<and> length rest + length (ack_message peer) = length (fi_buf con) \<and>
    ioc_connection_receive checksum mblk_of first_mblk authorization system_frame stream_read tnow w s con =
      Some (OSAL_SUCCESS, fst (receive_done (first_mblk w) (frame_arrived tnow (ack_message peer) rest con
        \<lparr>con_processed_bytes := take_bit (ack_bits con) (con_bytes_received peer)\<rparr>)), w, s', ev)"
proof -
  let ?f = "ack_message peer"
  have l: "length ?f = (if con_is_serial con then 3 else 4)"
    using fl by (simp add: ack_message_def con_is_serial_def Let_def)
  have h: "?f ! 0 = IOC_ACKNOWLEDGE" "?f \<noteq> []" by (simp_all add: ack_message_def Let_def)
  have "length ?f < 2 ^ 32" "length ?f \<le> length (fi_buf con)" using l con(2) by (auto split: if_splits)
  then obtain rest rfs s' where r: "ioc_read_frame stream_read s (rfs_start con) = Some (OSAL_SUCCESS, rfs, s')"
    and k: "knows_frame ?f 0 0 0 rfs"
    and b: "rfs_buf rfs = ?f @ rest" "pend s' = later" "receive_bookkeeping tnow rfs con = frame_arrived tnow ?f rest con"
      "length rest + length ?f = length (fi_buf con)"
    using read_frame_at_once [OF reads_as_ack [OF l h(1)] h(2) _ _ _ so pd con(1)] h(1) by blast
  have n: "\<not> rfs_n rfs < rfs_needed rfs" using k by (simp add: knows_frame_def)
  have b0: "rd (rfs_buf rfs) 0 = Some IOC_ACKNOWLEDGE" using h by (simp add: b(1) ack_message_def Let_def rd_Cons)
  have pa: "parse_ack (has_flag (con_flags con) IOC_SOCKET) (rfs_buf rfs) = Some (take_bit (ack_bits con) (con_bytes_received peer))"
    unfolding b(1) by (rule parse_ack_message [OF fl])
  have "\<exists>ev. ioc_connection_receive checksum mblk_of first_mblk authorization system_frame stream_read tnow w s con =
      Some (OSAL_SUCCESS, fst (receive_done (first_mblk w) (frame_arrived tnow ?f rest con
        \<lparr>con_processed_bytes := take_bit (ack_bits con) (con_bytes_received peer)\<rparr>)), w, s', ev)"
    unfolding ioc_connection_receive_def r
    by (simp only: bind.bind_lunit prod.case Let_def b(3) n b0 pa if_False if_True not_True_eq_False simp_thms)
      (simp add: split_def)
  with b(2,4) show ?thesis by blast
qed

section \<open>Properties\<close>

text \<open>A stream that is a queue of bytes and hands out as many as it has.\<close>

definition fifo_read :: "byte list stream_read" where
  "fifo_read s k = (OSAL_SUCCESS, take (nat k) s, drop (nat k) s)"

lemma fifo_stream: "stream_ok fifo_read (\<lambda>s. s)" "stream_live fifo_read (\<lambda>s. s)" "stream_full fifo_read (\<lambda>s. s)"
  by (auto simp: fifo_read_def stream_ok_def stream_live_def stream_full_def)

text \<open>
  \<^bold>\<open>C26\<close>: \<open>ioc_read_frame\<close> reassembles a frame from a stream that delivers it in arbitrary pieces.
  When the buffer holds the first bytes of a frame made by the other end and the stream the rest of
  it, the call returns; unless the stream fails, the buffer then holds more of the same frame and
  nothing of what follows it, the received bytes are counted, and either more bytes are needed or the
  frame is complete with the size and the flags it was made with. If the stream never fails and gives
  at least one byte, every call makes progress.
\<close>

theorem read_frame_reassembles:
  fixes stream_read :: "'s stream_read"
  assumes f: "f = data_frame checksum scon fl mb ad content" and fl: "content_flags fl"
    and nr: "fo_frame_nr scon \<noteq> IOC_ACKNOWLEDGE" "rfs_frame_nr rfs = fo_frame_nr scon"
    and fits: "content_fits (con_is_serial scon) content" "length f \<le> fsz"
    and so: "stream_ok stream_read pend"
    and hp: "has_prefix (con_is_serial scon) fsz f (extra_byte mb ad) rfs" and pd: "pend s = drop (rfs_n rfs) f @ later"
  shows "\<exists>st rfs' s'. ioc_read_frame stream_read s rfs = Some (st, rfs', s') \<and>
    (st = OSAL_SUCCESS \<longrightarrow> frame_read pend (con_is_serial scon) fsz f (of_nat (length content))
       (fl OR header_flags mb ad) (extra_byte mb ad) (rfs\<lparr>rfs_bytes_received := 0\<rparr>) s rfs' s') \<and>
    (stream_live stream_read pend \<longrightarrow> st = OSAL_SUCCESS \<and> (rfs_n rfs < length f \<longrightarrow> rfs_n rfs < rfs_n rfs'))"
proof -
  let ?r = "rfs\<lparr>rfs_bytes_received := 0\<rparr>"
  have hp': "has_prefix (con_is_serial scon) fsz f (extra_byte mb ad) ?r" using hp by (simp add: has_prefix_def)
  have "pend s = drop (rfs_n ?r) f @ later" "f \<noteq> []" "f ! 0 = IOC_ACKNOWLEDGE \<or> f ! 0 = rfs_frame_nr ?r"
    using pd nr(2) data_frame_head by (simp_all add: f)
  from read_frame_collects [OF data_frame_reads_as [OF f fl nr(1) fits] so hp' this]
  show ?thesis unfolding ioc_read_frame_def by auto
qed

theorem read_frame_reassembles_witness:
  "\<exists>st rfs' s'. ioc_read_frame fifo_read [10, 3, 77, 88] (rfs_start ((con_sample 1)\<lparr>fi_buf := 0 # 0 # 1 # 0 # replicate 100 0, fi_pos := 4\<rparr>)) =
      Some (st, rfs', s') \<and>
    (st = OSAL_SUCCESS \<longrightarrow> frame_read (\<lambda>s. s) (con_is_serial (con_sample 1)) 1392
       (data_frame (\<lambda>_. 0) (con_sample 1) 0 10 3 [77]) (of_nat (length [77 :: byte]))
       (0 OR header_flags 10 3) (extra_byte 10 3)
       ((rfs_start ((con_sample 1)\<lparr>fi_buf := 0 # 0 # 1 # 0 # replicate 100 0, fi_pos := 4\<rparr>))\<lparr>rfs_bytes_received := 0\<rparr>) [10, 3, 77, 88] rfs' s') \<and>
    (stream_live fifo_read (\<lambda>s. s) \<longrightarrow> st = OSAL_SUCCESS \<and>
      (rfs_n (rfs_start ((con_sample 1)\<lparr>fi_buf := 0 # 0 # 1 # 0 # replicate 100 0, fi_pos := 4\<rparr>)) <
         length (data_frame (\<lambda>_. 0) (con_sample 1) 0 10 3 [77]) \<longrightarrow>
       rfs_n (rfs_start ((con_sample 1)\<lparr>fi_buf := 0 # 0 # 1 # 0 # replicate 100 0, fi_pos := 4\<rparr>)) < rfs_n rfs'))"
  by (rule read_frame_reassembles [OF refl, where later = "[88]"])
    (auto simp: fifo_stream content_flags_def has_flag_def frame_flag_defs con_sample_simps content_fits_def data_frame_def
      frame_image_def header_flags_def header_extra_def header_ids_def ioc_msg_set_uint_def has_prefix_def rfs_start_def extra_byte_def)

text \<open>
  \<^bold>\<open>C27\<close>: acknowledgements close the flow control loop. When a connection receives the acknowledgement
  that the other end generates, the number of bytes in the air it computes afterwards is the number of
  bytes it has sent less the number the other end has received, cut to the bits an acknowledgement
  transfers, although the message holds only two or three bytes of the counter.
\<close>

theorem acknowledge_updates_in_air:
  assumes fl: "has_flag (con_flags peer) IOC_SOCKET = has_flag (con_flags con) IOC_SOCKET"
    and con: "fi_pos con = 0" "4 \<le> length (fi_buf con)"
    and so: "stream_ok stream_read pend" "stream_live stream_read pend" "stream_full stream_read pend"
    and pd: "pend s = ack_message peer @ later"
  shows "\<exists>con' s' ev. ioc_connection_receive checksum mblk_of first_mblk authorization system_frame stream_read tnow w s con =
      Some (OSAL_SUCCESS, con', w, s', ev) \<and> pend s' = later \<and>
    bytes_in_air con' = uint ((con_bytes_sent con - con_bytes_received peer) AND ack_mask con) \<and>
    con_bytes_received con' = con_bytes_received con + of_nat (length (ack_message peer)) \<and> con_connected con'"
proof -
  obtain rest s' ev where r: "pend s' = later"
    "ioc_connection_receive checksum mblk_of first_mblk authorization system_frame stream_read tnow w s con =
      Some (OSAL_SUCCESS, fst (receive_done (first_mblk w) (frame_arrived tnow (ack_message peer) rest con
        \<lparr>con_processed_bytes := take_bit (ack_bits con) (con_bytes_received peer)\<rparr>)), w, s', ev)"
    using receive_ack [OF fl con so pd, of checksum mblk_of first_mblk authorization system_frame tnow w] by (elim exE conjE)
  let ?c = "fst (receive_done (first_mblk w) (frame_arrived tnow (ack_message peer) rest con
        \<lparr>con_processed_bytes := take_bit (ack_bits con) (con_bytes_received peer)\<rparr>))"
  have c: "con_bytes_sent ?c = con_bytes_sent con" "con_flags ?c = con_flags con"
    "con_processed_bytes ?c = take_bit (ack_bits con) (con_bytes_received peer)"
    "con_bytes_received ?c = con_bytes_received con + of_nat (length (ack_message peer))" "con_connected ?c"
    by (simp_all add: receive_done_def ioc_add_con_to_global_mbinfo_def frame_arrived_def Let_def)
  have "ack_bits ?c = ack_bits con" "ack_mask ?c = ack_mask con" using c(2) by (simp_all add: ack_bits_def ack_mask_def)
  then have "bytes_in_air ?c = uint ((con_bytes_sent con - con_bytes_received peer) AND ack_mask con)"
    by (simp only: bytes_in_air_def c and_ack_mask take_bit_minus_take_bit)
  with r c(4,5) show ?thesis by blast
qed

theorem acknowledge_updates_in_air_witness:
  "\<exists>con' s' ev. ioc_connection_receive (\<lambda>_. 0) (\<lambda>_. mblk_sample []) (\<lambda>_. None) False (\<lambda>_ _ _ _. None) fifo_read 7 ()
      (ack_message ((con_sample 1)\<lparr>con_bytes_received := 0x3000064\<rparr>)) ((con_sample 1)\<lparr>con_bytes_sent := 0x30000C8\<rparr>) =
      Some (OSAL_SUCCESS, con', (), s', ev) \<and> s' = [] \<and>
    bytes_in_air con' = uint ((con_bytes_sent ((con_sample 1)\<lparr>con_bytes_sent := 0x30000C8\<rparr>) -
      con_bytes_received ((con_sample 1)\<lparr>con_bytes_received := 0x3000064\<rparr>)) AND ack_mask ((con_sample 1)\<lparr>con_bytes_sent := 0x30000C8\<rparr>)) \<and>
    con_bytes_received con' = con_bytes_received ((con_sample 1)\<lparr>con_bytes_sent := 0x30000C8\<rparr>) +
      of_nat (length (ack_message ((con_sample 1)\<lparr>con_bytes_received := 0x3000064\<rparr>))) \<and> con_connected con'"
  by (rule acknowledge_updates_in_air [where pend = "\<lambda>s. s"]) (simp_all add: fifo_stream con_sample_simps)

end
