(* ===== verification/Ioc_Link.thy ===== *)
theory Ioc_Link
  imports Ioc_Buffers Ioc_Connection_Receive
begin

text \<open>
  The two ends of a connection together: an application writes a memory block and sends it, the
  sender's connection turns changes into frames, the frames travel in order, the receiver's
  connection stores them, and the receiving application takes over complete snapshots. The steps
  are the operations of the component theories; this theory shows that together they transfer the
  memory block.

  Frames on the wire are kept as a list: that a receiver collects frame by frame from a stream that
  cuts them into arbitrary pieces is \<open>read_frame_reassembles\<close>. One memory block is transferred in
  one direction (not bidirectional).
\<close>

section \<open>Messages\<close>

text \<open>What a frame means: delta or key data, the address, the bytes, and whether it completes a transfer.\<close>

type_synonym msg = "bool \<times> nat \<times> byte list \<times> bool"

fun apply_msg :: "msg \<Rightarrow> byte list \<Rightarrow> byte list" where
  "apply_msg (delta, a, xs, complete) m = overlay delta m a xs"

definition apply_msgs :: "msg list \<Rightarrow> byte list \<Rightarrow> byte list" where
  "apply_msgs ms m = fold apply_msg ms m"

fun completing :: "msg \<Rightarrow> bool" where
  "completing (delta, a, xs, complete) = complete"

fun msg_ok :: "nat \<Rightarrow> msg \<Rightarrow> bool" where
  "msg_ok n (delta, a, xs, complete) \<longleftrightarrow> xs \<noteq> [] \<and> a + length xs \<le> n"

lemma length_apply_msg: "msg_ok n x \<Longrightarrow> length m = n \<Longrightarrow> length (apply_msg x m) = n"
  by (cases x) simp

lemma length_apply_msgs: "list_all (msg_ok n) ms \<Longrightarrow> length m = n \<Longrightarrow> length (apply_msgs ms m) = n"
  unfolding apply_msgs_def by (induction ms arbitrary: m) (auto simp: length_apply_msg)

lemma apply_msgs_simps [simp]:
  "apply_msgs [] m = m" "apply_msgs (x # ms) m = apply_msgs ms (apply_msg x m)"
  "apply_msgs (ms @ ms') m = apply_msgs ms' (apply_msgs ms m)"
  by (simp_all add: apply_msgs_def)

text \<open>Every complete transfer among the messages yields one of the contents \<open>hist\<close>.\<close>

primrec yields :: "byte list set \<Rightarrow> byte list \<Rightarrow> msg list \<Rightarrow> bool" where
  "yields hist m [] = True"
| "yields hist m (x # ms) = ((completing x \<longrightarrow> apply_msg x m \<in> hist) \<and> yields hist (apply_msg x m) ms)"

lemma yields_append:
  "yields hist m (ms @ ms') \<longleftrightarrow> yields hist m ms \<and> yields hist (apply_msgs ms m) ms'"
  by (induction ms arbitrary: m) auto

lemma yields_mono: "yields hist m ms \<Longrightarrow> hist \<subseteq> hist' \<Longrightarrow> yields hist' m ms"
  by (induction ms arbitrary: m) auto

section \<open>The sender's buffer against the messages sent\<close>

definition pending :: "iocSourceBuffer \<Rightarrow> nat \<Rightarrow> bool" where
  "pending sbuf i \<longleftrightarrow> sb_used sbuf \<and> sb_start_addr sbuf \<le> int i \<and> int i \<le> sb_end_addr sbuf"

text \<open>
  \<open>m\<close> is what the receiver will have once it has everything sent so far: where nothing is pending it
  equals the captured values, elsewhere the pending bytes lead from \<open>m\<close> to the captured values.
\<close>

definition in_step :: "nat \<Rightarrow> byte list \<Rightarrow> iocSourceBuffer \<Rightarrow> bool" where
  "in_step n m sbuf \<longleftrightarrow> (sb_make_keyframe sbuf \<longrightarrow> \<not> sb_used sbuf) \<and> (sb_make_keyframe sbuf \<or>
    (\<forall>i < n. if pending sbuf i
       then sb_values sbuf ! i = (if sb_is_keyframe sbuf then sb_deltas sbuf ! i else m ! i + sb_deltas sbuf ! i)
       else m ! i = sb_values sbuf ! i))"

lemma in_step_capture:
  assumes "in_step n m sbuf" and "captured c sbuf sbuf'" and "\<not> sb_used sbuf" and "length c = n"
  shows "in_step n m sbuf'"
  using assms by (auto simp: in_step_def captured_def pending_def split: if_splits)

lemma in_step_mark:
  assumes "in_step n m sbuf" and "sb_make_keyframe sbuf' = sb_make_keyframe sbuf" "sb_used sbuf' = sb_used sbuf"
    "sb_start_addr sbuf' = sb_start_addr sbuf" "sb_end_addr sbuf' = sb_end_addr sbuf"
    "sb_is_keyframe sbuf' = sb_is_keyframe sbuf" "sb_deltas sbuf' = sb_deltas sbuf" "sb_values sbuf' = sb_values sbuf"
  shows "in_step n m sbuf'"
  using assms(1) unfolding in_step_def pending_def assms(2-8) .

lemma in_step_advance:
  assumes wf: "sbuf_wf n sbuf" and nb: "\<not> is_bidir sbuf" and used: "sb_used sbuf" and len: "length m = n"
    and inst: "in_step n m sbuf"
    and a: "sb_start_addr sbuf = int a" "xs = seg (sb_deltas sbuf) a (a + length xs)" "xs \<noteq> []" "a + length xs \<le> n"
      "int (a + length xs) \<le> sb_end_addr sbuf + 1"
  shows "in_step n (overlay (\<not> sb_is_keyframe sbuf) m a xs) (advance (int (a + length xs)) sbuf)"
proof -
  let ?q = "a + length xs"
  have nr: "\<not> sb_bidir_range_set sbuf" using wf nb by (auto simp: sbuf_wf_def)
  have mk: "\<not> sb_make_keyframe sbuf" using inst used by (auto simp: in_step_def)
  have ld: "length (sb_deltas sbuf) = n" using sbuf_wf_buffers(4) [OF wf] nb by (simp add: total_sz_def)
  have p: "pending (advance (int ?q) sbuf) i \<longleftrightarrow> int ?q \<le> int i \<and> int i \<le> sb_end_addr sbuf" for i
    using nr used by (auto simp: pending_def advance_def)
  have same: "sb_values (advance (int ?q) sbuf) = sb_values sbuf" "sb_deltas (advance (int ?q) sbuf) = sb_deltas sbuf"
    "sb_is_keyframe (advance (int ?q) sbuf) = sb_is_keyframe sbuf" "sb_make_keyframe (advance (int ?q) sbuf) = sb_make_keyframe sbuf"
    by (simp_all add: advance_def sb_values_def sb_deltas_def)
  have o: "overlay (\<not> sb_is_keyframe sbuf) m a xs ! i =
      (if a \<le> i \<and> i < ?q then if sb_is_keyframe sbuf then sb_deltas sbuf ! i else m ! i + sb_deltas sbuf ! i else m ! i)"
    if "i < n" for i
  proof -
    have "xs ! (i - a) = sb_deltas sbuf ! i" if "a \<le> i" "i < ?q"
    proof -
      have "seg (sb_deltas sbuf) a ?q ! (i - a) = sb_deltas sbuf ! i" using that a(4) ld by (subst nth_seg) auto
      then show ?thesis using a(2) by metis
    qed
    then show ?thesis using nth_overlay [of a xs m i "\<not> sb_is_keyframe sbuf"] a(4) len that by auto
  qed
  have "if pending (advance (int ?q) sbuf) i
       then sb_values sbuf ! i = (if sb_is_keyframe sbuf then sb_deltas sbuf ! i
         else overlay (\<not> sb_is_keyframe sbuf) m a xs ! i + sb_deltas sbuf ! i)
       else overlay (\<not> sb_is_keyframe sbuf) m a xs ! i = sb_values sbuf ! i" if i: "i < n" for i
  proof -
    have h: "if pending sbuf i then sb_values sbuf ! i = (if sb_is_keyframe sbuf then sb_deltas sbuf ! i else m ! i + sb_deltas sbuf ! i)
       else m ! i = sb_values sbuf ! i" using inst i mk by (simp add: in_step_def)
    have pi: "pending sbuf i \<longleftrightarrow> a \<le> i \<and> int i \<le> sb_end_addr sbuf" using used a(1) by (auto simp: pending_def)
    consider "i < a" | "a \<le> i" "i < ?q" | "?q \<le> i" by linarith
    then show ?thesis using h pi p [of i] o [OF i] a(5) by cases auto
  qed
  then show ?thesis unfolding in_step_def same using mk by simp
qed

lemma merge_changed_form:
  "\<exists>x y z. merge_changed sbuf s e = sbuf\<lparr>sb_changed_start := x, sb_changed_end := y, sb_changed_range_set := z\<rparr>"
  by (cases sbuf) (auto simp: merge_changed_def)

lemma invalidate_form:
  assumes "\<not> is_bidir sbuf" and "ioc_sbuf_invalidate m sbuf s e = Some sbuf'"
  shows "\<exists>x y z. sbuf' = sbuf\<lparr>sb_changed_start := x, sb_changed_end := y, sb_changed_range_set := z\<rparr>"
proof -
  have "sbuf' = sbuf \<or> (\<exists>s e. sbuf' = merge_changed sbuf s e)"
    using assms
    by (auto simp: ioc_sbuf_invalidate_def is_bidir_def Let_def bind_eq_Some_conv split: option.splits if_splits) metis
  moreover have "sbuf = sbuf\<lparr>sb_changed_start := sb_changed_start sbuf, sb_changed_end := sb_changed_end sbuf,
      sb_changed_range_set := sb_changed_range_set sbuf\<rparr>" by simp
  ultimately show ?thesis using merge_changed_form by metis
qed

lemma invalidate_in_step:
  assumes "\<not> is_bidir sbuf" and "ioc_sbuf_invalidate m sbuf s e = Some sbuf'" and "in_step n c sbuf"
  shows "in_step n c sbuf'" and "\<not> is_bidir sbuf'" and "sb_remote_mblk_id sbuf' = sb_remote_mblk_id sbuf"
    and "sb_used sbuf' = sb_used sbuf" and "sb_values sbuf' = sb_values sbuf" and "sb_make_keyframe sbuf' = sb_make_keyframe sbuf"
proof -
  obtain x y z where s: "sbuf' = sbuf\<lparr>sb_changed_start := x, sb_changed_end := y, sb_changed_range_set := z\<rparr>"
    using invalidate_form [OF assms(1,2)] by blast
  show "in_step n c sbuf'" by (rule in_step_mark [OF assms(3)]) (simp_all add: s sb_values_def sb_deltas_def)
  show "\<not> is_bidir sbuf'" "sb_remote_mblk_id sbuf' = sb_remote_mblk_id sbuf" "sb_used sbuf' = sb_used sbuf"
    "sb_values sbuf' = sb_values sbuf" "sb_make_keyframe sbuf' = sb_make_keyframe sbuf"
    using assms(1) by (simp_all add: s is_bidir_def sb_values_def)
qed

section \<open>Frames on the wire\<close>

text \<open>Frame \<open>f\<close>, numbered \<open>nr\<close>, says \<open>x\<close> about memory block \<open>mb\<close>; it fits the receiver's frame size.\<close>

fun frame_says :: "(byte list \<Rightarrow> u16) \<Rightarrow> bool \<Rightarrow> nat \<Rightarrow> u32 \<Rightarrow> byte \<Rightarrow> byte list \<Rightarrow> msg \<Rightarrow> bool" where
  "frame_says checksum ser fsz mb nr f (delta, a, xs, complete) \<longleftrightarrow>
    (\<exists>scon compressed content. con_is_serial scon = ser \<and> fo_frame_nr scon = nr \<and>
       f = data_frame checksum scon (frame_fl delta compressed complete) mb (word_of_int (int a)) content \<and>
       carries ioc_uncompress (frame_fl delta compressed complete OR header_flags mb (word_of_int (int a))) content xs \<and>
       content_fits ser content \<and> length f \<le> fsz)"

fun wire_says :: "(byte list \<Rightarrow> u16) \<Rightarrow> bool \<Rightarrow> nat \<Rightarrow> u32 \<Rightarrow> byte \<Rightarrow> byte list list \<Rightarrow> msg list \<Rightarrow> bool" where
  "wire_says checksum ser fsz mb nr [] [] = True"
| "wire_says checksum ser fsz mb nr (f # fs) (x # xs) =
    (frame_says checksum ser fsz mb nr f x \<and> wire_says checksum ser fsz mb (next_frame_out_nr nr) fs xs)"
| "wire_says checksum ser fsz mb nr fs xs = False"

lemma wire_says_snoc:
  "wire_says checksum ser fsz mb nr fs ms \<Longrightarrow> frame_says checksum ser fsz mb ((next_frame_out_nr ^^ length fs) nr) f x \<Longrightarrow>
   wire_says checksum ser fsz mb nr (fs @ [f]) (ms @ [x])"
  by (induction checksum ser fsz mb nr fs ms rule: wire_says.induct) (auto simp: funpow_swap1)

lemma wire_says_ConsD:
  assumes "wire_says checksum ser fsz mb nr (f # fs) ms"
  obtains x xs where "ms = x # xs" "frame_says checksum ser fsz mb nr f x" "wire_says checksum ser fsz mb (next_frame_out_nr nr) fs xs"
  using assms by (cases ms) auto

lemma wire_says_length: "wire_says checksum ser fsz mb nr fs ms \<Longrightarrow> length fs = length ms"
  by (induction checksum ser fsz mb nr fs ms rule: wire_says.induct) auto

section \<open>The system\<close>

record link =
  lk_mblk :: iocMemoryBlock
  lk_sbuf :: iocSourceBuffer
  lk_scon :: iocConnection
  lk_wire :: "byte list list"
  lk_rcon :: iocConnection
  lk_rmblk :: iocMemoryBlock
  lk_hist :: "byte list list"

text \<open>
  \<open>lk_hist\<close> is a history variable: the contents of the sender's memory block at the sends so far and
  at the start. \<open>cs\<close> is the checksum function. The receiver's connection has one target buffer.
\<close>

definition accept_all :: stream_write where
  "accept_all bs = (OSAL_SUCCESS, length bs)"

inductive link_step :: "(byte list \<Rightarrow> u16) \<Rightarrow> link \<Rightarrow> link \<Rightarrow> bool" for cs where
  Write: "\<lbrakk>a < length (mb_content (lk_mblk l)); 0 < k;
      write_args se flags data (min k (length (mb_content (lk_mblk l)) - a));
      ioc_write se (lk_mblk l) [lk_sbuf l] (int a) data (int k) flags = Some (mblk', [sbuf'])\<rbrakk> \<Longrightarrow>
    link_step cs l (l\<lparr>lk_mblk := mblk', lk_sbuf := sbuf'\<rparr>)"
| Send: "ioc_send trig (lk_mblk l) [lk_sbuf l] = Some ([sbuf'], ev) \<Longrightarrow>
    link_step cs l (l\<lparr>lk_sbuf := sbuf', lk_hist := mb_content (lk_mblk l) # lk_hist l\<rparr>)"
| Transmit: "\<lbrakk>sb_used (lk_sbuf l);
      ioc_make_data_frame cs past (mb_cbs (lk_mblk l)) (mb_content (lk_mblk l)) (lk_scon l) (lk_sbuf l) = Some (con1, sbuf', ev);
      fo_used con1 \<noteq> 0;
      ioc_write_to_stream accept_all tnow con1 = Some (OSAL_SUCCESS, con2)\<rbrakk> \<Longrightarrow>
    link_step cs l (l\<lparr>lk_scon := con2, lk_sbuf := sbuf', lk_wire := lk_wire l @ [take (nat (fo_used con1)) (fo_buf con1)]\<rparr>)"
| Deliver: "\<lbrakk>lk_wire l = f # rest;
      ioc_connection_receive cs (\<lambda>_. lk_rmblk l) (\<lambda>_. None) False (\<lambda>_ _ _ _. None) fifo_read tnow () f (lk_rcon l) =
        Some (OSAL_SUCCESS, con', (), [], ev)\<rbrakk> \<Longrightarrow>
    link_step cs l (l\<lparr>lk_rcon := con', lk_wire := rest\<rparr>)"
| Receive: "\<lbrakk>con_tbufs (lk_rcon l) = [(r, tbuf)];
      ioc_receive_nolock cf (lk_rmblk l) [] [tbuf] = Some (mblk', [], [tbuf'], ev)\<rbrakk> \<Longrightarrow>
    link_step cs l (l\<lparr>lk_rmblk := mblk', lk_rcon := (lk_rcon l)\<lparr>con_tbufs := [(r, tbuf')]\<rparr>\<rparr>)"
| Acknowledge: "ioc_connection_receive cs (\<lambda>_. lk_mblk l) (\<lambda>_. None) False (\<lambda>_ _ _ _. None) fifo_read tnow ()
      (ack_message (lk_rcon l)) (lk_scon l) = Some (OSAL_SUCCESS, con', (), [], ev) \<Longrightarrow>
    link_step cs l (l\<lparr>lk_scon := con'\<rparr>)"

inductive_cases link_stepE: "link_step cs l l'"

section \<open>Invariant\<close>

definition sender_ok :: "nat \<Rightarrow> link \<Rightarrow> bool" where
  "sender_ok n l \<longleftrightarrow> mblk_wf n (lk_mblk l) [lk_sbuf l] \<and> \<not> is_bidir (lk_sbuf l) \<and> con_ok (lk_scon l) \<and>
     fo_used (lk_scon l) = 0 \<and> fi_pos (lk_scon l) = 0 \<and> 4 \<le> length (fi_buf (lk_scon l)) \<and> n < 2 ^ 31"

definition receiver_ok :: "nat \<Rightarrow> link \<Rightarrow> bool" where
  "receiver_ok n l \<longleftrightarrow> mblk_wf n (lk_rmblk l) [] \<and> \<not> has_flag (mb_flags (lk_rmblk l)) IOC_STATIC \<and>
     fi_pos (lk_rcon l) = 0 \<and> fi_frame_nr (lk_rcon l) \<le> IOC_MAX_FRAME_NR \<and>
     (\<exists>r t. con_tbufs (lk_rcon l) = [(r, t)] \<and> tbuf_wf n t \<and> tracks n t \<and> \<not> tb_bidir t \<and>
        (\<forall>i < n. \<not> is_unread t i \<longrightarrow> mb_content (lk_rmblk l) ! i = tb_snapshot t ! i))"

definition ends_match :: "link \<Rightarrow> bool" where
  "ends_match l \<longleftrightarrow> mb_mblk_id (lk_rmblk l) = remote_id (lk_sbuf l) \<and>
     has_flag (con_flags (lk_rcon l)) IOC_SOCKET = has_flag (con_flags (lk_scon l)) IOC_SOCKET \<and>
     con_dst_frame_sz (lk_scon l) \<le> con_frame_sz (lk_rcon l) \<and>
     con_frame_sz (lk_rcon l) \<le> int (length (fi_buf (lk_rcon l))) \<and>
     fo_frame_nr (lk_scon l) = (next_frame_out_nr ^^ length (lk_wire l)) (fi_frame_nr (lk_rcon l))"

definition lk_tbuf :: "link \<Rightarrow> iocTargetBuffer" where
  "lk_tbuf l = snd (hd (con_tbufs (lk_rcon l)))"

definition transfer_ok :: "(byte list \<Rightarrow> u16) \<Rightarrow> nat \<Rightarrow> link \<Rightarrow> bool" where
  "transfer_ok cs n l \<longleftrightarrow> (\<exists>ms. list_all (msg_ok n) ms \<and>
     wire_says cs (con_is_serial (lk_rcon l)) (nat (con_frame_sz (lk_rcon l))) (remote_id (lk_sbuf l)) (fi_frame_nr (lk_rcon l)) (lk_wire l) ms \<and>
     in_step n (apply_msgs ms (tb_newdata (lk_tbuf l))) (lk_sbuf l) \<and>
     yields (set (lk_hist l)) (tb_newdata (lk_tbuf l)) ms \<and>
     (sb_used (lk_sbuf l) \<or> (if ms = [] then \<not> tb_has_new_data (lk_tbuf l) else completing (last ms))) \<and>
     (sb_make_keyframe (lk_sbuf l) \<or> sb_values (lk_sbuf l) \<in> set (lk_hist l)) \<and>
     tb_snapshot (lk_tbuf l) \<in> set (lk_hist l))"

definition link_inv :: "(byte list \<Rightarrow> u16) \<Rightarrow> nat \<Rightarrow> link \<Rightarrow> bool" where
  "link_inv cs n l \<longleftrightarrow> sender_ok n l \<and> receiver_ok n l \<and> ends_match l \<and> transfer_ok cs n l"

section \<open>The steps keep the invariant\<close>

lemma write_sbuf:
  assumes "ioc_write se mblk [sbuf] addr buf k flags = Some (mblk', [sbuf'])"
  shows "sbuf' = sbuf \<or> (\<exists>m s e. ioc_sbuf_invalidate m sbuf s e = Some sbuf')"
  using assms by (auto simp: ioc_write_def Let_def bind_eq_Some_conv split: if_splits)

lemma transfer_sbuf:
  assumes "transfer_ok cs n l"
    and "\<And>c. in_step n c (lk_sbuf l) \<Longrightarrow> in_step n c sbuf'" "sb_remote_mblk_id sbuf' = sb_remote_mblk_id (lk_sbuf l)"
    and "sb_used (lk_sbuf l) \<Longrightarrow> sb_used sbuf'" "set (lk_hist l) \<subseteq> set h"
    and "sb_make_keyframe sbuf' \<or> sb_values sbuf' \<in> set h"
  shows "transfer_ok cs n (l\<lparr>lk_mblk := mblk', lk_sbuf := sbuf', lk_hist := h\<rparr>)"
proof -
  obtain ms where ms: "list_all (msg_ok n) ms"
    "wire_says cs (con_is_serial (lk_rcon l)) (nat (con_frame_sz (lk_rcon l))) (remote_id (lk_sbuf l)) (fi_frame_nr (lk_rcon l)) (lk_wire l) ms"
    "in_step n (apply_msgs ms (tb_newdata (lk_tbuf l))) (lk_sbuf l)"
    "yields (set (lk_hist l)) (tb_newdata (lk_tbuf l)) ms"
    "sb_used (lk_sbuf l) \<or> (if ms = [] then \<not> tb_has_new_data (lk_tbuf l) else completing (last ms))"
    "tb_snapshot (lk_tbuf l) \<in> set (lk_hist l)"
    using assms(1) unfolding transfer_ok_def by blast
  have "remote_id sbuf' = remote_id (lk_sbuf l)" using assms(3) by (simp add: remote_id_def)
  with ms assms show ?thesis unfolding transfer_ok_def lk_tbuf_def
    by (intro exI [of _ ms]) (auto intro: yields_mono split: if_splits)
qed

lemma Write_inv:
  assumes inv: "link_inv cs n l" and a: "a < n" "0 < k" "write_args se flags data (min k (n - a))"
    and w: "ioc_write se (lk_mblk l) [lk_sbuf l] (int a) data (int k) flags = Some (mblk', [sbuf'])"
  shows "link_inv cs n (l\<lparr>lk_mblk := mblk', lk_sbuf := sbuf'\<rparr>)"
proof -
  have so: "mblk_wf n (lk_mblk l) [lk_sbuf l]" "\<not> is_bidir (lk_sbuf l)" using inv by (simp_all add: link_inv_def sender_ok_def)
  have wf: "mblk_wf n mblk' [sbuf']" using write_spec [OF so(1) a] w by auto
  have st: "in_step n c sbuf' \<and> \<not> is_bidir sbuf' \<and> sb_remote_mblk_id sbuf' = sb_remote_mblk_id (lk_sbuf l) \<and>
      sb_used sbuf' = sb_used (lk_sbuf l) \<and> sb_values sbuf' = sb_values (lk_sbuf l) \<and>
      sb_make_keyframe sbuf' = sb_make_keyframe (lk_sbuf l)" if "in_step n c (lk_sbuf l)" for c
    using write_sbuf [OF w] invalidate_in_step [OF so(2) _ that] so(2) that by metis
  have tr: "transfer_ok cs n l" using inv by (simp add: link_inv_def)
  then obtain c where "in_step n c (lk_sbuf l)" unfolding transfer_ok_def by blast
  note s = st [OF this]
  have "transfer_ok cs n (l\<lparr>lk_mblk := mblk', lk_sbuf := sbuf', lk_hist := lk_hist l\<rparr>)"
    by (rule transfer_sbuf [OF tr]) (use st s tr in \<open>auto simp: transfer_ok_def\<close>)
  moreover have "l\<lparr>lk_mblk := mblk', lk_sbuf := sbuf', lk_hist := lk_hist l\<rparr> = l\<lparr>lk_mblk := mblk', lk_sbuf := sbuf'\<rparr>" by simp
  ultimately show ?thesis using inv wf s
    by (simp add: link_inv_def sender_ok_def receiver_ok_def ends_match_def remote_id_def)
qed

lemma plain_list_eq:
  assumes "sbuf_wf n sbuf" and "\<not> is_bidir sbuf" and "length c = n" and "\<forall>i < n. sb_values sbuf ! i = c ! i"
  shows "sb_values sbuf = c"
  using assms sbuf_wf_buffers(3) [OF assms(1)] by (intro nth_equalityI) (simp_all add: total_sz_def)

lemma Send_inv:
  assumes inv: "link_inv cs n l" and s: "ioc_send trig (lk_mblk l) [lk_sbuf l] = Some ([sbuf'], ev)"
  shows "link_inv cs n (l\<lparr>lk_sbuf := sbuf', lk_hist := mb_content (lk_mblk l) # lk_hist l\<rparr>)"
proof -
  let ?m = "mb_content (lk_mblk l)" and ?s = "lk_sbuf l"
  have so: "mblk_wf n (lk_mblk l) [?s]" "\<not> is_bidir ?s" using inv by (simp_all add: link_inv_def sender_ok_def)
  note c = mblk_wf_content [OF so(1)]
  obtain st ev' where sy: "ioc_sbuf_synchronize (trig (sb_con ?s)) ?m (int n) ?s = Some (st, sbuf', ev')"
    using s c by (auto simp: ioc_send_def bind_eq_Some_conv)
  have tr: "transfer_ok cs n l" using inv by (simp add: link_inv_def)
  have "mblk_wf n (lk_mblk l) [sbuf'] \<and> \<not> is_bidir sbuf' \<and> sb_remote_mblk_id sbuf' = sb_remote_mblk_id ?s \<and>
    (sb_used ?s \<longrightarrow> sb_used sbuf') \<and> (\<forall>d. in_step n d ?s \<longrightarrow> in_step n d sbuf') \<and>
    (sb_make_keyframe sbuf' \<or> sb_values sbuf' \<in> set (?m # lk_hist l))"
  proof (cases "\<not> sb_changed_range_set ?s \<and> \<not> sb_make_keyframe ?s \<or> sb_used ?s")
    case True
    then have "sbuf' = ?s" using sy by (auto simp: ioc_sbuf_synchronize_def)
    with so tr show ?thesis by (auto simp: transfer_ok_def)
  next
    case False
    then have f: "\<not> sb_used ?s" "sb_changed_range_set ?s \<or> sb_make_keyframe ?s" by auto
    have w: "sbuf_wf n sbuf'" and cap: "captured ?m ?s sbuf'"
      using synchronize_spec [OF _ _ c(2) f, of "trig (sb_con ?s)"] c(4) sy by auto
    have nb: "\<not> is_bidir sbuf'" and rid: "sb_remote_mblk_id sbuf' = sb_remote_mblk_id ?s"
      using so(2) cap by (auto simp: captured_def is_bidir_def)
    have "sb_values sbuf' = ?m" by (rule plain_list_eq [OF w nb c(2)]) (use cap c(2) in \<open>auto simp: captured_def\<close>)
    moreover then have "covers ?m sbuf'" by (simp add: covers_def)
    ultimately show ?thesis using f(1) w nb rid so(1) in_step_capture [OF _ cap f(1) c(2)] by (auto simp: mblk_wf_def mb_content_def)
  qed
  note h = this
  have "transfer_ok cs n (l\<lparr>lk_mblk := lk_mblk l, lk_sbuf := sbuf', lk_hist := ?m # lk_hist l\<rparr>)"
    by (rule transfer_sbuf [OF tr]) (use h in auto)
  moreover have "l\<lparr>lk_mblk := lk_mblk l, lk_sbuf := sbuf', lk_hist := ?m # lk_hist l\<rparr> = l\<lparr>lk_sbuf := sbuf', lk_hist := ?m # lk_hist l\<rparr>" by simp
  ultimately show ?thesis using inv h
    by (simp add: link_inv_def sender_ok_def receiver_ok_def ends_match_def remote_id_def)
qed

lemma write_all_to_stream:
  assumes "fo_pos con = 0" and "0 < fo_used con" and "fo_used con \<le> int (length (fo_buf con))"
  shows "ioc_write_to_stream accept_all tnow con = Some (OSAL_SUCCESS, con\<lparr>con_last_send := tnow,
    con_bytes_sent := con_bytes_sent con + of_nat (nat (fo_used con)), fo_used := 0, fo_pos := 0\<rparr>)"
  using assms by (auto simp: ioc_write_to_stream_def accept_all_def rds_in Let_def)

lemma advance_wf:
  assumes "sbuf_wf n sbuf" and "\<not> is_bidir sbuf" and "0 \<le> a"
  shows "sbuf_wf n (advance a sbuf)" and "\<not> is_bidir (advance a sbuf)" and "covers m sbuf \<Longrightarrow> covers m (advance a sbuf)"
    and "sb_used (advance a sbuf) \<longleftrightarrow> sb_used sbuf \<and> \<not> completes a sbuf"
    and "sb_remote_mblk_id (advance a sbuf) = sb_remote_mblk_id sbuf" and "sb_values (advance a sbuf) = sb_values sbuf"
    and "sb_make_keyframe (advance a sbuf) = sb_make_keyframe sbuf"
  using assms by (auto simp: sbuf_wf_def advance_def completes_def is_bidir_def covers_def sb_values_def)

text \<open>A frame the sender makes, as a message.\<close>

lemma made_frame_says:
  assumes d: "data_frame_made cs con sbuf con1 sbuf' fl content xs"
    and wf: "sbuf_wf n sbuf" and nb: "\<not> is_bidir sbuf" and used: "sb_used sbuf" and ok: "con_ok con"
    and fsz: "con_dst_frame_sz con \<le> int fsz"
  defines "a \<equiv> nat (sb_start_addr sbuf)"
  defines "x \<equiv> (\<not> sb_is_keyframe sbuf, a, xs, completes (int (a + length xs)) sbuf)"
  shows "frame_says cs (con_is_serial con) fsz (remote_id sbuf) (fo_frame_nr con) (take (nat (fo_used con1)) (fo_buf con1)) x"
    and "msg_ok n x" and "sb_start_addr sbuf = int a" and "sbuf' = advance (int (a + length xs)) sbuf"
    and "xs = seg (sb_deltas sbuf) a (a + length xs)" and "int (a + length xs) \<le> sb_end_addr sbuf + 1"
    and "\<exists>b. con1 = con\<lparr>fo_buf := b, fo_pos := 0, fo_used := fo_used con1, fo_frame_nr := next_frame_out_nr (fo_frame_nr con)\<rparr> \<and>
      length b = length (fo_buf con)"
    and "0 < fo_used con1" and "fo_used con1 \<le> int (length (fo_buf con1))"
    and "fo_used con1 \<le> con_max_in_air con - bytes_in_air con"
proof -
  have nr: "\<not> sb_bidir_range_set sbuf" "0 \<le> sb_start_addr sbuf" "sb_end_addr sbuf < int n" using wf nb used by (auto simp: sbuf_wf_def)
  show a: "sb_start_addr sbuf = int a" using nr(2) by (simp add: a_def)
  let ?ad = "word_of_int (int a) :: u32"
  let ?f = "data_frame cs con fl (remote_id sbuf) ?ad content"
  obtain b compressed where d': "con1 = con\<lparr>fo_buf := b, fo_pos := 0, fo_used := int (length ?f), fo_frame_nr := next_frame_out_nr (fo_frame_nr con)\<rparr>"
    "length b = length (fo_buf con)" "take (length ?f) b = ?f" "sbuf' = advance (int a + int (length xs)) sbuf"
    "fl = frame_fl (delta_frame sbuf) compressed (completes (int a + int (length xs)) sbuf)"
    "carries ioc_uncompress (fl OR header_flags (remote_id sbuf) ?ad) content xs" "xs \<noteq> []"
    "int a + int (length xs) \<le> sb_end_addr sbuf + 1" "xs = seg (sb_deltas sbuf) (nat (int a)) (nat (int a + int (length xs)))"
    "int (length ?f) \<le> con_dst_frame_sz con" "int (length ?f) \<le> con_max_in_air con - bytes_in_air con"
    using d unfolding data_frame_made_def Let_def a by blast
  have df: "delta_frame sbuf = (\<not> sb_is_keyframe sbuf)"
    using a d'(7,8) nr(3) wf unfolding delta_frame_def sbuf_wf_def by (cases xs) auto
  have lf: "length content < length ?f"
    using header_length_gt' [of "con_is_serial con" "remote_id sbuf" ?ad] by (auto simp: length_data_frame split: if_splits)
  have cf: "content_fits (con_is_serial con) content" using ok lf d'(10) by (auto simp: con_ok_def content_fits_def split: if_splits)
  have lfs: "length ?f \<le> fsz" using d'(10) fsz by linarith
  have fr: "take (nat (fo_used con1)) (fo_buf con1) = ?f" using d'(1,3) by simp
  have fl': "fl = frame_fl (\<not> sb_is_keyframe sbuf) compressed (completes (int (a + length xs)) sbuf)" using d'(5) df by simp
  show "frame_says cs (con_is_serial con) fsz (remote_id sbuf) (fo_frame_nr con) (take (nat (fo_used con1)) (fo_buf con1)) x"
    unfolding x_def frame_says.simps fr
    by (intro exI [of _ con] exI [of _ compressed] exI [of _ content], unfold fl' [symmetric]) (use d'(6) cf lfs in simp)
  show "msg_ok n x" using d'(7,8) nr(3) unfolding x_def by simp
  show "sbuf' = advance (int (a + length xs)) sbuf" "xs = seg (sb_deltas sbuf) a (a + length xs)" "int (a + length xs) \<le> sb_end_addr sbuf + 1"
    using d'(4,8,9) by (simp_all add: nat_add_distrib)
  show "\<exists>b. con1 = con\<lparr>fo_buf := b, fo_pos := 0, fo_used := fo_used con1, fo_frame_nr := next_frame_out_nr (fo_frame_nr con)\<rparr> \<and>
      length b = length (fo_buf con)" using d'(1,2) by (intro exI [of _ b]) simp
  show "0 < fo_used con1" "fo_used con1 \<le> con_max_in_air con - bytes_in_air con" using d'(1,11) data_frame_head(2) by simp_all
  show "fo_used con1 \<le> int (length (fo_buf con1))" using d'(1,2,10) ok by (simp add: con_ok_def)
qed

text \<open>
  A frame the sender makes and writes: the message it carries, what remains in the source buffer, and
  the connection afterwards.
\<close>

lemma transmitted:
  assumes inv: "link_inv cs n l" and used: "sb_used (lk_sbuf l)"
    and mk: "ioc_make_data_frame cs past (mb_cbs (lk_mblk l)) (mb_content (lk_mblk l)) (lk_scon l) (lk_sbuf l) = Some (con1, sbuf', ev)"
    and fu: "fo_used con1 \<noteq> 0"
  obtains x q b f where "f = take (nat (fo_used con1)) (fo_buf con1)" and "msg_ok n x"
    and "frame_says cs (con_is_serial (lk_rcon l)) (nat (con_frame_sz (lk_rcon l))) (remote_id (lk_sbuf l)) (fo_frame_nr (lk_scon l)) f x"
    and "\<forall>m. length m = n \<longrightarrow> in_step n m (lk_sbuf l) \<longrightarrow> in_step n (apply_msg x m) sbuf'"
    and "completing x \<longleftrightarrow> \<not> sb_used sbuf'"
    and "sbuf' = advance q (lk_sbuf l)" and "sb_start_addr (lk_sbuf l) < q" and "length b = length (fo_buf (lk_scon l))"
    and "\<forall>tnow. ioc_write_to_stream accept_all tnow con1 = Some (OSAL_SUCCESS, (lk_scon l)\<lparr>fo_buf := b, fo_pos := 0,
      fo_frame_nr := next_frame_out_nr (fo_frame_nr (lk_scon l)), con_last_send := tnow,
      con_bytes_sent := con_bytes_sent (lk_scon l) + of_nat (length f)\<rparr>)"
proof -
  let ?s = "lk_sbuf l" and ?c = "lk_scon l" and ?fsz = "nat (con_frame_sz (lk_rcon l))"
  let ?f = "take (nat (fo_used con1)) (fo_buf con1)"
  have so: "mblk_wf n (lk_mblk l) [?s]" "\<not> is_bidir ?s" "con_ok ?c" "fo_used ?c = 0" and em: "ends_match l"
    using inv by (simp_all add: link_inv_def sender_ok_def)
  have wf: "sbuf_wf n ?s" using so(1) by (auto simp: mblk_wf_def)
  have fsz: "con_dst_frame_sz ?c \<le> int ?fsz" using em so(3) by (simp add: ends_match_def con_ok_def)
  have ser: "con_is_serial (lk_rcon l) = con_is_serial ?c" using em by (simp add: ends_match_def con_is_serial_def)
  obtain fl content xs where d: "data_frame_made cs ?c ?s con1 sbuf' fl content xs"
    using make_data_frame_spec [OF so(3) wf used, of cs past "mb_cbs (lk_mblk l)" "mb_content (lk_mblk l)"] mk fu so(4) by auto
  define a where "a = nat (sb_start_addr ?s)"
  define x where "x = (\<not> sb_is_keyframe ?s, a, xs, completes (int (a + length xs)) ?s)"
  note mf = made_frame_says [OF d wf so(2) used so(3) fsz, folded a_def, folded x_def]
  obtain b where con1: "con1 = ?c\<lparr>fo_buf := b, fo_pos := 0, fo_used := fo_used con1, fo_frame_nr := next_frame_out_nr (fo_frame_nr ?c)\<rparr>"
    and lb: "length b = length (fo_buf ?c)" using mf(7) by blast
  have p0: "fo_pos con1 = 0" by (subst con1) simp
  have xs: "xs \<noteq> []" "a + length xs \<le> n" using mf(2) by (simp_all add: x_def)
  have lf: "length ?f = nat (fo_used con1)" using mf(8,9) by simp
  have ws: "ioc_write_to_stream accept_all tnow con1 = Some (OSAL_SUCCESS, ?c\<lparr>fo_buf := b, fo_pos := 0,
      fo_frame_nr := next_frame_out_nr (fo_frame_nr ?c), con_last_send := tnow, con_bytes_sent := con_bytes_sent ?c + of_nat (length ?f)\<rparr>)" for tnow
  proof -
    obtain u where u: "con1 = ?c\<lparr>fo_buf := b, fo_pos := 0, fo_used := u, fo_frame_nr := next_frame_out_nr (fo_frame_nr ?c)\<rparr>" "u = fo_used con1"
      using con1 by blast
    have lu: "length ?f = nat u" using lf u(2) by simp
    show ?thesis unfolding write_all_to_stream [OF p0 mf(8,9)] lu unfolding u(2) [symmetric] unfolding u(1) using so(4) by (cases ?c) simp
  qed
  show thesis
  proof (rule that [OF refl mf(2) mf(1) [folded ser] _ _ mf(4) _ lb])
    show "\<forall>m. length m = n \<longrightarrow> in_step n m ?s \<longrightarrow> in_step n (apply_msg x m) sbuf'"
      unfolding x_def apply_msg.simps mf(4) using in_step_advance [OF wf so(2) used _ _ mf(3,5) xs mf(6)] by blast
    show "completing x \<longleftrightarrow> \<not> sb_used sbuf'"
      using advance_wf(4) [OF wf so(2), of "int (a + length xs)", folded mf(4)] used by (simp add: x_def)
    show "sb_start_addr ?s < int (a + length xs)" using mf(3) xs by (cases xs) auto
  qed (use ws in blast)
qed

lemma Transmit_inv:
  assumes inv: "link_inv cs n l" and used: "sb_used (lk_sbuf l)"
    and mk: "ioc_make_data_frame cs past (mb_cbs (lk_mblk l)) (mb_content (lk_mblk l)) (lk_scon l) (lk_sbuf l) = Some (con1, sbuf', ev)"
    and fu: "fo_used con1 \<noteq> 0" and ws: "ioc_write_to_stream accept_all tnow con1 = Some (OSAL_SUCCESS, con2)"
  shows "link_inv cs n (l\<lparr>lk_scon := con2, lk_sbuf := sbuf', lk_wire := lk_wire l @ [take (nat (fo_used con1)) (fo_buf con1)]\<rparr>)"
proof -
  let ?s = "lk_sbuf l" and ?w = "lk_wire l" and ?fsz = "nat (con_frame_sz (lk_rcon l))" and ?t = "tb_newdata (lk_tbuf l)"
  obtain x q b f where f: "f = take (nat (fo_used con1)) (fo_buf con1)" and x: "msg_ok n x"
      "frame_says cs (con_is_serial (lk_rcon l)) ?fsz (remote_id ?s) (fo_frame_nr (lk_scon l)) f x"
      "\<forall>m. length m = n \<longrightarrow> in_step n m ?s \<longrightarrow> in_step n (apply_msg x m) sbuf'" "completing x \<longleftrightarrow> \<not> sb_used sbuf'"
    and q: "sbuf' = advance q ?s" "sb_start_addr ?s < q" and b: "length b = length (fo_buf (lk_scon l))"
    and w: "\<forall>tnow. ioc_write_to_stream accept_all tnow con1 = Some (OSAL_SUCCESS, (lk_scon l)\<lparr>fo_buf := b, fo_pos := 0,
      fo_frame_nr := next_frame_out_nr (fo_frame_nr (lk_scon l)), con_last_send := tnow,
      con_bytes_sent := con_bytes_sent (lk_scon l) + of_nat (length f)\<rparr>)"
    by (rule transmitted [OF inv used mk fu])
  have so: "mblk_wf n (lk_mblk l) [?s]" "\<not> is_bidir ?s" "con_ok (lk_scon l)" and em: "ends_match l" and ro: "receiver_ok n l" and tr: "transfer_ok cs n l"
    using inv by (simp_all add: link_inv_def sender_ok_def)
  have wf: "sbuf_wf n ?s" using so(1) by (auto simp: mblk_wf_def)
  have "0 \<le> q" using wf used q(2) by (auto simp: sbuf_wf_def)
  note ad = advance_wf [OF wf so(2) this, folded q(1)]
  obtain ms where ms: "list_all (msg_ok n) ms"
    "wire_says cs (con_is_serial (lk_rcon l)) ?fsz (remote_id ?s) (fi_frame_nr (lk_rcon l)) ?w ms"
    "in_step n (apply_msgs ms ?t) ?s" "yields (set (lk_hist l)) ?t ms"
    "sb_make_keyframe ?s \<or> sb_values ?s \<in> set (lk_hist l)" "tb_snapshot (lk_tbuf l) \<in> set (lk_hist l)"
    using tr unfolding transfer_ok_def by blast
  have "length ?t = n" using ro tbuf_wf_buffers(3) by (auto simp: receiver_ok_def lk_tbuf_def total_sz_def)
  then have lN: "length (apply_msgs ms ?t) = n" by (rule length_apply_msgs [OF ms(1)])
  note ist = x(3) [rule_format, OF lN ms(3)]
  have mkf: "\<not> sb_make_keyframe ?s" using ms(3) used by (auto simp: in_step_def)
  have yl: "apply_msg x (apply_msgs ms ?t) \<in> set (lk_hist l)" if "completing x"
  proof -
    have "\<forall>i < n. apply_msg x (apply_msgs ms ?t) ! i = sb_values sbuf' ! i" using ist mkf ad(7) that x(4) by (auto simp: in_step_def pending_def)
    then have "sb_values sbuf' = apply_msg x (apply_msgs ms ?t)" using length_apply_msg [OF x(1) lN] by (intro plain_list_eq [OF ad(1,2)]) auto
    then show ?thesis using ad(6) ms(5) mkf by simp
  qed
  have rid: "remote_id sbuf' = remote_id ?s" using ad(5) by (simp add: remote_id_def)
  have nrw: "(next_frame_out_nr ^^ length ?w) (fi_frame_nr (lk_rcon l)) = fo_frame_nr (lk_scon l)" using em by (simp add: ends_match_def)
  have ws': "wire_says cs (con_is_serial (lk_rcon l)) ?fsz (remote_id sbuf') (fi_frame_nr (lk_rcon l)) (?w @ [f]) (ms @ [x])"
    unfolding rid using x(2) by (intro wire_says_snoc [OF ms(2)]) (simp add: nrw)
  have "transfer_ok cs n (l\<lparr>lk_scon := con2, lk_sbuf := sbuf', lk_wire := ?w @ [f]\<rparr>)"
    unfolding transfer_ok_def lk_tbuf_def using ms x(1,4) ws' ist yl ad(6,7) mkf
    by (intro exI [of _ "ms @ [x]"]) (simp add: yields_append lk_tbuf_def)
  moreover have "mblk_wf n (lk_mblk l) [sbuf']" using so(1) ad(1,3) by (auto simp: mblk_wf_def mb_content_def)
  moreover have "con2 = (lk_scon l)\<lparr>fo_buf := b, fo_pos := 0, fo_frame_nr := next_frame_out_nr (fo_frame_nr (lk_scon l)), con_last_send := tnow,
      con_bytes_sent := con_bytes_sent (lk_scon l) + of_nat (length f)\<rparr>" using w ws by simp
  ultimately show ?thesis using inv ad(2) b rid unfolding f [symmetric]
    by (simp add: link_inv_def sender_ok_def receiver_ok_def ends_match_def con_ok_def con_is_serial_def)
qed

lemma sint_small: "0 \<le> k \<Longrightarrow> k < 2 ^ 31 \<Longrightarrow> sint (word_of_int k :: u32) = k"
  by (simp add: signed_of_int signed_take_bit_int_eq_self)

text \<open>A delivered frame: the receiver's connection accepts it and its target buffer takes the message over.\<close>

lemma deliver_frame:
  assumes fs: "frame_says cs (con_is_serial con) (nat (con_frame_sz con)) (mb_mblk_id mblk) (fi_frame_nr con) f (delta, a, xs, complete)"
    and mo: "msg_ok n (delta, a, xs, complete)" and n: "n < 2 ^ 31"
    and con: "fi_pos con = 0" "fi_frame_nr con \<le> IOC_MAX_FRAME_NR" "con_frame_sz con \<le> int (length (fi_buf con))"
      "con_tbufs con = [(r, t)]"
    and t: "tbuf_wf n t" "tracks n t"
  shows "\<exists>con' t' ev. ioc_connection_receive cs (\<lambda>_. mblk) (\<lambda>_. None) False sf fifo_read tnow w f con =
      Some (OSAL_SUCCESS, con', w, [], ev) \<and> fi_pos con' = 0 \<and> fi_frame_nr con' = next_frame_out_nr (fi_frame_nr con) \<and>
    con_flags con' = con_flags con \<and> con_frame_sz con' = con_frame_sz con \<and> length (fi_buf con') = length (fi_buf con) \<and>
    con_bytes_received con' = con_bytes_received con + of_nat (length f) \<and> con_tbufs con' = [(r, t')] \<and>
    tb_newdata t' = apply_msg (delta, a, xs, complete) (tb_newdata t) \<and> tb_has_new_data t' = (\<not> complete) \<and>
    tbuf_wf n t' \<and> tracks n t' \<and> tb_bidir t' = tb_bidir t \<and>
    (\<forall>i < n. tb_snapshot t' ! i \<noteq> tb_snapshot t ! i \<or> is_unread t i \<longrightarrow> is_unread t' i) \<and>
    (if complete then \<forall>i < n. tb_snapshot t' ! i = tb_newdata t' ! i else tb_snapshot t' = tb_snapshot t)"
proof -
  let ?mb = "mb_mblk_id mblk" and ?ad = "word_of_int (int a) :: u32"
  obtain scon compressed content where sc: "con_is_serial scon = con_is_serial con" "fo_frame_nr scon = fi_frame_nr con"
    and f: "f = data_frame cs scon (frame_fl delta compressed complete) ?mb ?ad content"
    and ca: "carries ioc_uncompress (frame_fl delta compressed complete OR header_flags ?mb ?ad) content xs"
    and cf: "content_fits (con_is_serial con) content" and lf: "length f \<le> nat (con_frame_sz con)"
    using fs unfolding frame_says.simps by blast
  let ?fl = "frame_fl delta compressed complete"
  let ?g = "?fl OR header_flags ?mb ?ad"
  have nr: "fo_frame_nr scon \<noteq> IOC_ACKNOWLEDGE"
    using con(2) unfolding sc(2) IOC_MAX_FRAME_NR_def IOC_ACKNOWLEDGE_def by (auto simp: word_le_nat_alt)
  have lf': "length f \<le> length (fi_buf con)" using lf con(3) by linarith
  obtain rest s' where rs: "s' = []" "length rest + length f = length (fi_buf con)"
    and rc: "ioc_connection_receive cs (\<lambda>_. mblk) (\<lambda>_. None) False sf fifo_read tnow w f con = do {
      (st, con', ev) \<leftarrow> ioc_process_received_data_frame (\<lambda>_. mblk) False
        (frame_arrived tnow f rest con\<lparr>fi_buf := parsed_frame scon ?fl ?mb ?ad content @ rest,
           fi_frame_nr := next_frame_in_nr (fo_frame_nr scon)\<rparr>) ?mb (sint ?ad) content ?g;
      let (con3, ev') = receive_done None con' in Some (st, con3, w, s', ev @ ev') }"
    using receive_data_frame [where pend = "\<lambda>s. s" and later = "[]" and s = f and con = con and mblk_of = "\<lambda>_. mblk" and first_mblk = "\<lambda>_. None"
      and authorization = False and system_frame = sf and tnow = tnow and w = w, OF f frame_fl_bits(5,4) _ sc(2) nr sc(1) [symmetric] con(1) lf lf' fifo_stream]
      cf sc(1) by auto
  have sa: "sint ?ad = int a" by (rule sint_small) (use mo n in simp_all)
  obtain t' ev where st: "ioc_store_data_frame (mb_cbs mblk) t (int a) content (length content) ?g = Some (OSAL_SUCCESS, t', ev)"
    and fst: "frame_stored n a ?g xs t t'"
    using store_data_frame_spec [OF t ca, of a "mb_cbs mblk"] mo by auto
  have fl: "has_flag ?g IOC_DELTA_ENCODED = delta" "has_flag ?g IOC_SYNC_COMPLETE = complete"
    by (simp_all add: has_flag_OR frame_fl_bits header_flag_bits)
  let ?c1 = "frame_arrived tnow f rest con\<lparr>fi_buf := parsed_frame scon ?fl ?mb ?ad content @ rest,
           fi_frame_nr := next_frame_in_nr (fo_frame_nr scon)\<rparr>"
  have "con_tbufs ?c1 = [(r, t)]" using con(4) by (simp add: frame_arrived_def)
  then have pr: "ioc_process_received_data_frame (\<lambda>_. mblk) False ?c1 ?mb (sint ?ad) content ?g =
      Some (OSAL_SUCCESS, ?c1\<lparr>con_tbufs := [(r, t')]\<rparr>, ev)"
    unfolding sa ioc_process_received_data_frame_def using st
    by (simp add: ioc_is_network_authorized_def set_tbuf_def Let_def)
  let ?c2 = "fst (receive_done None (?c1\<lparr>con_tbufs := [(r, t')]\<rparr>))"
  let ?ev = "ev @ snd (receive_done None (?c1\<lparr>con_tbufs := [(r, t')]\<rparr>))"
  have rd: "ioc_connection_receive cs (\<lambda>_. mblk) (\<lambda>_. None) False sf fifo_read tnow w f con = Some (OSAL_SUCCESS, ?c2, w, [], ?ev)"
    unfolding rc pr rs(1) by (simp add: split_def Let_def)
  have nn: "next_frame_in_nr (fo_frame_nr scon) = next_frame_out_nr (fi_frame_nr con)"
    unfolding sc(2) using next_frame_nr_step [OF con(2)] by simp
  have lp: "length (parsed_frame scon ?fl ?mb ?ad content) = length f" by (simp add: f parsed_frame_def length_data_frame)
  have c2: "fi_pos ?c2 = 0" "fi_frame_nr ?c2 = next_frame_out_nr (fi_frame_nr con)" "con_flags ?c2 = con_flags con"
    "con_frame_sz ?c2 = con_frame_sz con" "length (fi_buf ?c2) = length (fi_buf con)"
    "con_bytes_received ?c2 = con_bytes_received con + of_nat (length f)" "con_tbufs ?c2 = [(r, t')]"
    using lp rs(2) nn by (simp_all add: receive_done_def ioc_add_con_to_global_mbinfo_def frame_arrived_def Let_def)
  have "tb_bidir t' = tb_bidir t" using fst by (simp add: frame_stored_def tb_bidir_def)
  then show ?thesis using rd c2 fst unfolding frame_stored_def fl apply_msg.simps by blast
qed

lemma Deliver_inv:
  assumes inv: "link_inv cs n l" and w: "lk_wire l = f # rest"
    and r: "ioc_connection_receive cs (\<lambda>_. lk_rmblk l) (\<lambda>_. None) False (\<lambda>_ _ _ _. None) fifo_read tnow () f (lk_rcon l) =
        Some (OSAL_SUCCESS, con', (), [], ev)"
  shows "link_inv cs n (l\<lparr>lk_rcon := con', lk_wire := rest\<rparr>)"
proof -
  let ?c = "lk_rcon l" and ?R = "lk_rmblk l"
  have em: "ends_match l" and ro: "receiver_ok n l" and so: "sender_ok n l" and tr: "transfer_ok cs n l" using inv by (simp_all add: link_inv_def)
  obtain q t where t: "con_tbufs ?c = [(q, t)]" "tbuf_wf n t" "tracks n t" "\<not> tb_bidir t"
    "\<forall>i < n. \<not> is_unread t i \<longrightarrow> mb_content ?R ! i = tb_snapshot t ! i" using ro by (auto simp: receiver_ok_def)
  have lt: "lk_tbuf l = t" using t(1) by (simp add: lk_tbuf_def)
  obtain ms where ms: "list_all (msg_ok n) ms"
    "wire_says cs (con_is_serial ?c) (nat (con_frame_sz ?c)) (remote_id (lk_sbuf l)) (fi_frame_nr ?c) (f # rest) ms"
    "in_step n (apply_msgs ms (tb_newdata t)) (lk_sbuf l)" "yields (set (lk_hist l)) (tb_newdata t) ms"
    "sb_used (lk_sbuf l) \<or> (if ms = [] then \<not> tb_has_new_data t else completing (last ms))"
    "sb_make_keyframe (lk_sbuf l) \<or> sb_values (lk_sbuf l) \<in> set (lk_hist l)" "tb_snapshot t \<in> set (lk_hist l)"
    using tr unfolding transfer_ok_def lt w by blast
  obtain x xs where x: "ms = x # xs" "frame_says cs (con_is_serial ?c) (nat (con_frame_sz ?c)) (remote_id (lk_sbuf l)) (fi_frame_nr ?c) f x"
    "wire_says cs (con_is_serial ?c) (nat (con_frame_sz ?c)) (remote_id (lk_sbuf l)) (next_frame_out_nr (fi_frame_nr ?c)) rest xs"
    using ms(2) by (rule wire_says_ConsD)
  obtain delta a ys complete where xe: "x = (delta, a, ys, complete)" by (cases x)
  have mid: "remote_id (lk_sbuf l) = mb_mblk_id ?R" using em by (simp add: ends_match_def)
  have c: "fi_pos ?c = 0" "fi_frame_nr ?c \<le> IOC_MAX_FRAME_NR" "con_frame_sz ?c \<le> int (length (fi_buf ?c))"
    using ro em by (simp_all add: receiver_ok_def ends_match_def)
  have mo: "msg_ok n x" and n31: "n < 2 ^ 31" using ms(1) x(1) so by (simp_all add: sender_ok_def)
  obtain t' where c': "fi_pos con' = 0" "fi_frame_nr con' = next_frame_out_nr (fi_frame_nr ?c)" "con_flags con' = con_flags ?c"
    "con_frame_sz con' = con_frame_sz ?c" "length (fi_buf con') = length (fi_buf ?c)" "con_tbufs con' = [(q, t')]"
    and t': "tb_newdata t' = apply_msg x (tb_newdata t)" "tb_has_new_data t' = (\<not> complete)" "tbuf_wf n t'" "tracks n t'" "\<not> tb_bidir t'"
    "\<forall>i < n. tb_snapshot t' ! i \<noteq> tb_snapshot t ! i \<or> is_unread t i \<longrightarrow> is_unread t' i"
    "if complete then \<forall>i < n. tb_snapshot t' ! i = tb_newdata t' ! i else tb_snapshot t' = tb_snapshot t"
    using deliver_frame [OF x(2) [unfolded mid xe] mo [unfolded xe] n31 c t(1-3), of "\<lambda>_ _ _ _. None" tnow "()"] r t(4) unfolding xe
    by (elim exE conjE) simp
  have ser: "con_is_serial con' = con_is_serial ?c" using c'(3) by (simp add: con_is_serial_def)
  have lt': "lk_tbuf (l\<lparr>lk_rcon := con', lk_wire := rest\<rparr>) = t'" using c'(6) by (simp add: lk_tbuf_def)
  have sn: "tb_snapshot t' \<in> set (lk_hist l)"
  proof (cases complete)
    case True
    then have "tb_snapshot t' = tb_newdata t'"
      using t'(7) tbuf_wf_buffers [OF t'(3)] t'(5) by (intro nth_equalityI) (auto simp: total_sz_def)
    then show ?thesis using True ms(4) t'(1) by (simp add: x(1) xe)
  next
    case False
    then show ?thesis using t'(7) ms(7) by simp
  qed
  have "transfer_ok cs n (l\<lparr>lk_rcon := con', lk_wire := rest\<rparr>)"
    unfolding transfer_ok_def lt' using ms x c' t'(1,2) sn ser
    by (intro exI [of _ xs]) (auto simp: xe split: if_splits)
  moreover have "receiver_ok n (l\<lparr>lk_rcon := con', lk_wire := rest\<rparr>)"
    using ro c' t' t(5) next_frame_nr_step [OF c(2)] by (auto simp: receiver_ok_def)
  moreover have "ends_match (l\<lparr>lk_rcon := con', lk_wire := rest\<rparr>)"
    using em c' w by (simp add: ends_match_def funpow_swap1)
  ultimately show ?thesis using so by (simp add: link_inv_def sender_ok_def)
qed

lemma Receive_inv:
  assumes inv: "link_inv cs n l" and t: "con_tbufs (lk_rcon l) = [(r, tbuf)]"
    and rc: "ioc_receive_nolock cf (lk_rmblk l) [] [tbuf] = Some (mblk', [], [tbuf'], ev)"
  shows "link_inv cs n (l\<lparr>lk_rmblk := mblk', lk_rcon := (lk_rcon l)\<lparr>con_tbufs := [(r, tbuf')]\<rparr>\<rparr>)"
    and "tbuf' = tbuf\<lparr>tb_buf_used := False\<rparr>" and "\<forall>i < n. mb_content mblk' ! i = tb_snapshot tbuf ! i"
proof -
  have ro: "receiver_ok n l" using inv by (simp add: link_inv_def)
  have wf: "mblk_wf n (lk_rmblk l) []" "\<not> has_flag (mb_flags (lk_rmblk l)) IOC_STATIC"
    and tw: "tbuf_wf n tbuf" "tracks n tbuf" "\<not> tb_bidir tbuf" "\<forall>i < n. \<not> is_unread tbuf i \<longrightarrow> mb_content (lk_rmblk l) ! i = tb_snapshot tbuf ! i"
    using ro t by (auto simp: receiver_ok_def)
  have ru: "receive_tbuf cf (lk_rmblk l) [] tbuf = Some (mblk', [], tbuf', ev)"
    using rc wf(2) by (auto simp: ioc_receive_nolock_def bind_eq_Some_conv split: if_splits)
  from receive_tbuf_plain [OF wf(1) tw(1,3), of cf] ru obtain b where tb: "tbuf' = tbuf\<lparr>tb_buf_used := False\<rparr>"
    and m: "mblk_wf n mblk' []" "mblk' = (lk_rmblk l)\<lparr>mb_buf := Some b\<rparr>"
      "\<forall>i < n. mb_content mblk' ! i = (if is_unread tbuf i then tb_snapshot tbuf ! i else mb_content (lk_rmblk l) ! i)" by auto
  show "tbuf' = tbuf\<lparr>tb_buf_used := False\<rparr>" by (rule tb)
  show eq: "\<forall>i < n. mb_content mblk' ! i = tb_snapshot tbuf ! i" using m(3) tw(4) by auto
  let ?l = "l\<lparr>lk_rmblk := mblk', lk_rcon := (lk_rcon l)\<lparr>con_tbufs := [(r, tbuf')]\<rparr>\<rparr>"
  have f: "tb_newdata tbuf' = tb_newdata tbuf" "tb_has_new_data tbuf' = tb_has_new_data tbuf" "tb_snapshot tbuf' = tb_snapshot tbuf"
    by (simp_all add: tb tb_snapshot_def)
  have lt: "lk_tbuf l = tbuf" "lk_tbuf ?l = tbuf'" using t by (simp_all add: lk_tbuf_def)
  have "transfer_ok cs n ?l" using inv unfolding link_inv_def transfer_ok_def lt f by (simp add: con_is_serial_def)
  moreover have "receiver_ok n ?l" using ro m wf eq tw
    by (auto simp: receiver_ok_def tb tbuf_wf_def tracks_def tb_bidir_def tb_snapshot_def)
  moreover have "ends_match ?l" using inv m(2) by (simp add: link_inv_def ends_match_def)
  ultimately show "link_inv cs n ?l" using inv by (simp add: link_inv_def sender_ok_def)
qed

lemma Acknowledge_inv:
  assumes inv: "link_inv cs n l"
    and r: "ioc_connection_receive cs (\<lambda>_. lk_mblk l) (\<lambda>_. None) False (\<lambda>_ _ _ _. None) fifo_read tnow ()
      (ack_message (lk_rcon l)) (lk_scon l) = Some (OSAL_SUCCESS, con', (), [], ev)"
  shows "link_inv cs n (l\<lparr>lk_scon := con'\<rparr>)"
proof -
  let ?c = "lk_scon l"
  have so: "fi_pos ?c = 0" "4 \<le> length (fi_buf ?c)" using inv by (simp_all add: link_inv_def sender_ok_def)
  have fl: "has_flag (con_flags (lk_rcon l)) IOC_SOCKET = has_flag (con_flags ?c) IOC_SOCKET" using inv by (simp add: link_inv_def ends_match_def)
  obtain rest where lr: "length rest + length (ack_message (lk_rcon l)) = length (fi_buf ?c)"
    and c: "con' = fst (receive_done None (frame_arrived tnow (ack_message (lk_rcon l)) rest ?c
        \<lparr>con_processed_bytes := take_bit (ack_bits ?c) (con_bytes_received (lk_rcon l))\<rparr>))"
    using receive_ack [OF fl so fifo_stream, of "ack_message (lk_rcon l)" "[]" cs "\<lambda>_. lk_mblk l" "\<lambda>_. None" False "\<lambda>_ _ _ _. None" tnow "()"] r by auto
  have "con_flags con' = con_flags ?c" "con_dst_frame_sz con' = con_dst_frame_sz ?c" "fo_buf con' = fo_buf ?c" "fo_used con' = fo_used ?c"
    "fo_frame_nr con' = fo_frame_nr ?c" "fi_pos con' = 0" "length (fi_buf con') = length (fi_buf ?c)"
    using lr by (simp_all add: c receive_done_def ioc_add_con_to_global_mbinfo_def frame_arrived_def Let_def)
  moreover have "transfer_ok cs n (l\<lparr>lk_scon := con'\<rparr>) = transfer_ok cs n l" by (simp add: transfer_ok_def lk_tbuf_def)
  ultimately show ?thesis using inv
    by (simp add: link_inv_def sender_ok_def receiver_ok_def ends_match_def con_ok_def con_is_serial_def)
qed

lemma link_step_inv:
  assumes "link_step cs l l'" and "link_inv cs n l"
  shows "link_inv cs n l'"
  using assms
proof (induction rule: link_step.induct)
  case (Write a l k se flags data mblk' sbuf')
  have "length (mb_content (lk_mblk l)) = n" using Write(5) by (auto simp: link_inv_def sender_ok_def dest: mblk_wf_content(2))
  with Write show ?case using Write_inv by blast
qed (blast intro: Send_inv Transmit_inv Deliver_inv Receive_inv(1) Acknowledge_inv)+

section \<open>Counters\<close>

text \<open>
  The bytes the sender has counted are those the receiver has counted and those on the wire; one full
  frame fits the sender's limit of bytes in the air.
\<close>

definition counters_ok :: "link \<Rightarrow> bool" where
  "counters_ok l \<longleftrightarrow> con_bytes_sent (lk_scon l) = con_bytes_received (lk_rcon l) + of_nat (sum_list (map length (lk_wire l))) \<and>
     con_dst_frame_sz (lk_scon l) \<le> con_max_in_air (lk_scon l)"

text \<open>What the delivery of the first frame and an acknowledgement do to the connections.\<close>

lemma delivered:
  assumes inv: "link_inv cs n l" and w: "lk_wire l = f # rest"
  shows "\<exists>con' ev. ioc_connection_receive cs (\<lambda>_. lk_rmblk l) (\<lambda>_. None) False (\<lambda>_ _ _ _. None) fifo_read tnow () f (lk_rcon l) =
      Some (OSAL_SUCCESS, con', (), [], ev) \<and> con_bytes_received con' = con_bytes_received (lk_rcon l) + of_nat (length f)"
proof -
  let ?c = "lk_rcon l"
  obtain q t where t: "con_tbufs ?c = [(q, t)]" "tbuf_wf n t" "tracks n t" using inv by (auto simp: link_inv_def receiver_ok_def)
  obtain ms where "list_all (msg_ok n) ms"
    "wire_says cs (con_is_serial ?c) (nat (con_frame_sz ?c)) (remote_id (lk_sbuf l)) (fi_frame_nr ?c) (f # rest) ms"
    using inv w unfolding link_inv_def transfer_ok_def by auto
  then obtain delta a ys complete where x: "msg_ok n (delta, a, ys, complete)"
    "frame_says cs (con_is_serial ?c) (nat (con_frame_sz ?c)) (remote_id (lk_sbuf l)) (fi_frame_nr ?c) f (delta, a, ys, complete)"
    by (cases ms) auto
  have mid: "remote_id (lk_sbuf l) = mb_mblk_id (lk_rmblk l)" and n: "n < 2 ^ 31"
    and c: "fi_pos ?c = 0" "fi_frame_nr ?c \<le> IOC_MAX_FRAME_NR" "con_frame_sz ?c \<le> int (length (fi_buf ?c))"
    using inv by (simp_all add: link_inv_def ends_match_def receiver_ok_def sender_ok_def)
  show ?thesis
    using deliver_frame [OF x(2) [unfolded mid] x(1) n c t, of "\<lambda>_ _ _ _. None" tnow "()"] by blast
qed

lemma acknowledged:
  assumes inv: "link_inv cs n l"
  shows "\<exists>con' ev. ioc_connection_receive cs (\<lambda>_. lk_mblk l) (\<lambda>_. None) False (\<lambda>_ _ _ _. None) fifo_read tnow ()
      (ack_message (lk_rcon l)) (lk_scon l) = Some (OSAL_SUCCESS, con', (), [], ev) \<and>
    con_flags con' = con_flags (lk_scon l) \<and> con_bytes_sent con' = con_bytes_sent (lk_scon l) \<and>
    con_dst_frame_sz con' = con_dst_frame_sz (lk_scon l) \<and> con_max_in_air con' = con_max_in_air (lk_scon l) \<and>
    con_processed_bytes con' = take_bit (ack_bits (lk_scon l)) (con_bytes_received (lk_rcon l))"
proof -
  let ?c = "lk_scon l"
  have so: "fi_pos ?c = 0" "4 \<le> length (fi_buf ?c)" using inv by (simp_all add: link_inv_def sender_ok_def)
  have fl: "has_flag (con_flags (lk_rcon l)) IOC_SOCKET = has_flag (con_flags ?c) IOC_SOCKET" using inv by (simp add: link_inv_def ends_match_def)
  show ?thesis
    using receive_ack [OF fl so fifo_stream, of "ack_message (lk_rcon l)" "[]" cs "\<lambda>_. lk_mblk l" "\<lambda>_. None" False "\<lambda>_ _ _ _. None" tnow "()"]
    by (auto simp: receive_done_def ioc_add_con_to_global_mbinfo_def frame_arrived_def Let_def)
qed

lemma link_step_counters:
  assumes "link_step cs l l'" and "link_inv cs n l" and "counters_ok l"
  shows "counters_ok l'"
  using assms
proof (induction rule: link_step.induct)
  case (Transmit l past con1 sbuf' ev tnow con2)
  obtain x q b f where f: "f = take (nat (fo_used con1)) (fo_buf con1)"
    and w: "\<forall>tnow. ioc_write_to_stream accept_all tnow con1 = Some (OSAL_SUCCESS, (lk_scon l)\<lparr>fo_buf := b, fo_pos := 0,
      fo_frame_nr := next_frame_out_nr (fo_frame_nr (lk_scon l)), con_last_send := tnow,
      con_bytes_sent := con_bytes_sent (lk_scon l) + of_nat (length f)\<rparr>)"
    using transmitted [OF Transmit(5) Transmit(1-3)] by metis
  show ?case using Transmit(4,6) w unfolding f [symmetric] by (auto simp: counters_ok_def)
next
  case (Deliver l f rest tnow con' ev)
  then show ?case using delivered [OF Deliver(3,1), of tnow] by (auto simp: counters_ok_def)
next
  case (Acknowledge l tnow con' ev)
  then show ?case using acknowledged [OF Acknowledge(2), of tnow] by (auto simp: counters_ok_def)
qed (auto simp: counters_ok_def)

section \<open>Reachable states\<close>

definition link_config :: "nat \<Rightarrow> iocMemoryBlock \<Rightarrow> iocMemoryBlock \<Rightarrow> iocConnection \<Rightarrow> iocConnection \<Rightarrow> u16 \<Rightarrow> bool" where
  "link_config n mblk rmblk scon rcon rid \<longleftrightarrow> mblk_wf n mblk [] \<and> mblk_wf n rmblk [] \<and> n < 2 ^ 31 \<and>
     \<not> has_flag (mb_flags mblk) IOC_STATIC \<and> \<not> has_flag (mb_flags rmblk) IOC_STATIC \<and> mb_mblk_id rmblk = scast rid \<and>
     con_ok scon \<and> 4 \<le> length (fi_buf scon) \<and> con_dst_frame_sz scon \<le> con_max_in_air scon \<and>
     con_dst_frame_sz scon \<le> con_frame_sz rcon \<and> con_frame_sz rcon \<le> int (length (fi_buf rcon)) \<and> con_tbufs rcon = [] \<and>
     has_flag (con_flags rcon) IOC_SOCKET = has_flag (con_flags scon) IOC_SOCKET"

text \<open>Two connections that were just reset, with the block bound to each end.\<close>

definition link_start ::
  "nat \<Rightarrow> iocMemoryBlock \<Rightarrow> iocMemoryBlock \<Rightarrow> iocConnection \<Rightarrow> iocConnection \<Rightarrow> u16 \<Rightarrow> link option" where
  "link_start tnow mblk rmblk scon rcon rid = do {
     (scon', mblk') \<leftarrow> ioc_initialize_source_buffer True True 0 (0, ioc_reset_connection_state tnow scon) (0, mblk) rid 0;
     (rcon', rmblk') \<leftarrow> ioc_initialize_target_buffer True True 0 (0, ioc_reset_connection_state tnow rcon) (0, rmblk) rid 0;
     Some \<lparr>lk_mblk = mblk', lk_sbuf = snd (last (con_sbufs scon')), lk_scon = scon', lk_wire = [], lk_rcon = rcon',
           lk_rmblk = rmblk', lk_hist = [mb_content rmblk']\<rparr> }"

definition reachable :: "(byte list \<Rightarrow> u16) \<Rightarrow> nat \<Rightarrow> link \<Rightarrow> bool" where
  "reachable cs n l \<longleftrightarrow> (\<exists>tnow mblk rmblk scon rcon rid l0. link_config n mblk rmblk scon rcon rid \<and>
     link_start tnow mblk rmblk scon rcon rid = Some l0 \<and> (link_step cs)\<^sup>*\<^sup>* l0 l)"

definition no_tearing :: "link \<Rightarrow> bool" where
  "no_tearing l \<longleftrightarrow> mb_content (lk_rmblk l) \<in> set (lk_hist l)"

lemma link_start_ok:
  assumes c: "link_config n mblk rmblk scon rcon rid" and l: "link_start tnow mblk rmblk scon rcon rid = Some l"
  shows "link_inv cs n l \<and> counters_ok l \<and> no_tearing l"
proof -
  have wf: "mblk_wf n mblk []" "mblk_wf n rmblk []" "\<not> has_flag (mb_flags mblk) IOC_STATIC"
    using c by (simp_all add: link_config_def)
  let ?sc = "ioc_reset_connection_state tnow scon" and ?rc = "ioc_reset_connection_state tnow rcon"
  obtain sb where sb: "ioc_initialize_source_buffer True True 0 (0, ?sc) (0, mblk) rid 0 =
      Some (?sc\<lparr>con_sbufs := con_sbufs ?sc @ [(0, sb)]\<rparr>, mblk\<lparr>mb_sbufs := mb_sbufs mblk @ [0]\<rparr>)"
    "sbuf_wf n sb" "covers (mb_content mblk) sb" "fresh_sbuf rid sb" "sb_flags sb = 0"
    using initialize_source_spec [OF wf(1,3)] by metis
  obtain tb where tb: "ioc_initialize_target_buffer True True 0 (0, ?rc) (0, rmblk) rid 0 =
      Some (?rc\<lparr>con_tbufs := con_tbufs ?rc @ [(0, tb)]\<rparr>, rmblk\<lparr>mb_tbufs := mb_tbufs rmblk @ [0]\<rparr>)"
    "tbuf_wf n tb" "tracks n tb" "\<forall>i < n. tb_snapshot tb ! i = mb_content rmblk ! i" "\<not> tb_has_new_data tb" "\<not> tb_buf_used tb" "tb_flags tb = 0"
    using initialize_target_spec [OF wf(2)] by metis
  have l': "l = \<lparr>lk_mblk = mblk\<lparr>mb_sbufs := mb_sbufs mblk @ [0]\<rparr>, lk_sbuf = sb, lk_scon = ?sc\<lparr>con_sbufs := con_sbufs ?sc @ [(0, sb)]\<rparr>,
      lk_wire = [], lk_rcon = ?rc\<lparr>con_tbufs := con_tbufs ?rc @ [(0, tb)]\<rparr>, lk_rmblk = rmblk\<lparr>mb_tbufs := mb_tbufs rmblk @ [0]\<rparr>,
      lk_hist = [mb_content rmblk]\<rparr>"
    using l unfolding link_start_def sb(1) tb(1) by (simp add: mb_content_def)
  have nb: "\<not> is_bidir sb" "\<not> tb_bidir tb" using sb(5) tb(7) by (simp_all add: is_bidir_def tb_bidir_def has_flag_def)
  have cn: "con_tbufs ?rc = []" using c by (simp add: link_config_def ioc_reset_connection_state_def)
  have "tb_snapshot tb = mb_content rmblk"
    using tb(2,4) nb(2) mblk_wf_content(2) [OF wf(2)] tbuf_wf_buffers(2) by (intro nth_equalityI) (auto simp: total_sz_def)
  moreover have "mb_content (mblk\<lparr>mb_sbufs := x\<rparr>) = mb_content mblk" "mb_content (rmblk\<lparr>mb_tbufs := x\<rparr>) = mb_content rmblk" for x
    by (simp_all add: mb_content_def)
  moreover have "transfer_ok cs n l" unfolding transfer_ok_def l' lk_tbuf_def cn
    using sb(4) tb(5) calculation(1) by (intro exI [of _ "[]"]) (simp add: in_step_def fresh_sbuf_def)
  moreover have "mblk_wf n (mblk\<lparr>mb_sbufs := x\<rparr>) [sb]" "mblk_wf n (rmblk\<lparr>mb_tbufs := x\<rparr>) []" for x
    using wf sb(2,3) by (auto simp: mblk_wf_def mb_content_def)
  moreover have "sender_ok n l" using c nb calculation(5) unfolding l'
    by (simp add: sender_ok_def link_config_def ioc_reset_connection_state_def con_ok_def con_is_serial_def)
  moreover have "receiver_ok n l" using c tb nb cn calculation(3,6) unfolding l'
    by (simp add: receiver_ok_def link_config_def ioc_reset_connection_state_def IOC_MAX_FRAME_NR_def)
  moreover have "ends_match l" "counters_ok l" using c sb(4) unfolding l'
    by (simp_all add: ends_match_def counters_ok_def link_config_def ioc_reset_connection_state_def fresh_sbuf_def remote_id_def)
  ultimately show ?thesis by (simp add: link_inv_def no_tearing_def l')
qed

lemma link_step_no_tearing:
  assumes "link_step cs l l'" and "link_inv cs n l" and "no_tearing l"
  shows "no_tearing l'"
  using assms
proof (induction rule: link_step.induct)
  case (Receive l r tbuf cf mblk' tbuf' ev)
  note i = Receive_inv [OF Receive(3,1,2)]
  have "mblk_wf n mblk' []" "tbuf_wf n tbuf" "\<not> tb_bidir tbuf" using i(1) Receive(1,3) by (auto simp: link_inv_def receiver_ok_def)
  then have "mb_content mblk' = tb_snapshot tbuf"
    using i(3) mblk_wf_content(2) tbuf_wf_buffers(2) by (intro nth_equalityI) (auto simp: total_sz_def)
  moreover have "tb_snapshot tbuf \<in> set (lk_hist l)" using Receive(1,3) by (auto simp: link_inv_def transfer_ok_def lk_tbuf_def)
  ultimately show ?case by (simp add: no_tearing_def)
qed (auto simp: no_tearing_def)

lemma reachable_inv:
  assumes "reachable cs n l"
  shows "link_inv cs n l \<and> counters_ok l \<and> no_tearing l"
proof -
  obtain tnow mblk rmblk scon rcon rid l0 where c: "link_config n mblk rmblk scon rcon rid"
    "link_start tnow mblk rmblk scon rcon rid = Some l0" and s: "(link_step cs)\<^sup>*\<^sup>* l0 l"
    using assms unfolding reachable_def by blast
  from s show ?thesis
  proof (induction rule: rtranclp_induct)
    case base
    show ?case by (rule link_start_ok [OF c])
  next
    case (step l l')
    then show ?case using link_step_inv link_step_counters link_step_no_tearing by blast
  qed
qed

section \<open>Delivery\<close>

definition quiescent :: "link \<Rightarrow> bool" where
  "quiescent l \<longleftrightarrow> \<not> sb_changed_range_set (lk_sbuf l) \<and> \<not> sb_make_keyframe (lk_sbuf l) \<and> \<not> sb_used (lk_sbuf l) \<and>
     lk_wire l = [] \<and> \<not> tb_buf_used (lk_tbuf l)"

lemma quiescent_equal:
  assumes inv: "link_inv cs n l" and q: "quiescent l"
  shows "mb_content (lk_rmblk l) = mb_content (lk_mblk l)"
proof -
  have so: "mblk_wf n (lk_mblk l) [lk_sbuf l]" and wr: "mblk_wf n (lk_rmblk l) []"
    using inv by (simp_all add: link_inv_def sender_ok_def receiver_ok_def)
  obtain r t where t: "con_tbufs (lk_rcon l) = [(r, t)]" "tracks n t" "\<forall>i < n. \<not> is_unread t i \<longrightarrow> mb_content (lk_rmblk l) ! i = tb_snapshot t ! i"
    using inv by (auto simp: link_inv_def receiver_ok_def)
  have lt: "lk_tbuf l = t" using t(1) by (simp add: lk_tbuf_def)
  obtain ms where ms: "wire_says cs (con_is_serial (lk_rcon l)) (nat (con_frame_sz (lk_rcon l))) (remote_id (lk_sbuf l)) (fi_frame_nr (lk_rcon l)) (lk_wire l) ms"
    "in_step n (apply_msgs ms (tb_newdata t)) (lk_sbuf l)" "sb_used (lk_sbuf l) \<or> (if ms = [] then \<not> tb_has_new_data t else completing (last ms))"
    using inv unfolding link_inv_def transfer_ok_def lt by blast
  have m0: "ms = []" using wire_says_length [OF ms(1)] q by (simp add: quiescent_def)
  have nd: "\<not> tb_has_new_data t" using ms(3) q m0 by (simp add: quiescent_def)
  have "mb_content (lk_rmblk l) ! i = mb_content (lk_mblk l) ! i" if i: "i < n" for i
  proof -
    have "mb_content (lk_rmblk l) ! i = tb_snapshot t ! i" using t(3) i q lt by (auto simp: quiescent_def is_unread_def)
    also have "\<dots> = tb_newdata t ! i" using t(2) nd i by (auto simp: tracks_def)
    also have "\<dots> = sb_values (lk_sbuf l) ! i" using ms(2) m0 i q by (auto simp: in_step_def quiescent_def pending_def)
    also have "\<dots> = mb_content (lk_mblk l) ! i" using mblk_wf_content [OF so] i q by (auto simp: covers_def quiescent_def)
    finally show ?thesis .
  qed
  then show ?thesis using mblk_wf_content(2) [OF so] mblk_wf_content(2) [OF wr] by (intro nth_equalityI) simp_all
qed

lemma deliver_all:
  assumes "link_inv cs n l" and "counters_ok l"
  shows "\<exists>l'. (link_step cs)\<^sup>*\<^sup>* l l' \<and> link_inv cs n l' \<and> counters_ok l' \<and> lk_wire l' = [] \<and>
    lk_mblk l' = lk_mblk l \<and> lk_sbuf l' = lk_sbuf l"
  using assms
proof (induction "lk_wire l" arbitrary: l)
  case Nil
  then show ?case by (metis rtranclp.rtrancl_refl)
next
  case (Cons f rest)
  obtain con' ev where r: "ioc_connection_receive cs (\<lambda>_. lk_rmblk l) (\<lambda>_. None) False (\<lambda>_ _ _ _. None) fifo_read 0 () f (lk_rcon l) =
      Some (OSAL_SUCCESS, con', (), [], ev)"
    using delivered [OF Cons(3) Cons(2) [symmetric], of 0] by blast
  let ?l = "l\<lparr>lk_rcon := con', lk_wire := rest\<rparr>"
  have s: "link_step cs l ?l" by (rule link_step.Deliver [OF Cons(2) [symmetric] r])
  have "rest = lk_wire ?l" by simp
  from Cons(1) [OF this link_step_inv [OF s Cons(3)] link_step_counters [OF s Cons(3,4)]] s
  show ?case by (auto intro: converse_rtranclp_into_rtranclp)
qed

lemma acknowledge_all:
  assumes inv: "link_inv cs n l" and co: "counters_ok l" and w: "lk_wire l = []"
  shows "\<exists>l'. link_step cs l l' \<and> lk_wire l' = [] \<and> lk_mblk l' = lk_mblk l \<and> lk_sbuf l' = lk_sbuf l \<and> bytes_in_air (lk_scon l') = 0"
proof -
  obtain con' ev where r: "ioc_connection_receive cs (\<lambda>_. lk_mblk l) (\<lambda>_. None) False (\<lambda>_ _ _ _. None) fifo_read 0 ()
      (ack_message (lk_rcon l)) (lk_scon l) = Some (OSAL_SUCCESS, con', (), [], ev)"
    and c: "con_flags con' = con_flags (lk_scon l)" "con_bytes_sent con' = con_bytes_sent (lk_scon l)"
      "con_processed_bytes con' = take_bit (ack_bits (lk_scon l)) (con_bytes_received (lk_rcon l))"
    using acknowledged [OF inv, of 0] by blast
  have "ack_bits con' = ack_bits (lk_scon l)" using c(1) by (simp add: ack_bits_def)
  moreover have "con_bytes_sent (lk_scon l) = con_bytes_received (lk_rcon l)" using co w by (simp add: counters_ok_def)
  ultimately have "bytes_in_air con' = 0"
    by (simp only: bytes_in_air_def c and_ack_mask take_bit_minus_take_bit) simp
  then show ?thesis using link_step.Acknowledge [OF r] w by (intro exI [of _ "l\<lparr>lk_scon := con'\<rparr>"]) simp
qed

lemma transmit_next:
  assumes inv: "link_inv cs n l" and co: "counters_ok l" and used: "sb_used (lk_sbuf l)" and air: "bytes_in_air (lk_scon l) = 0"
  shows "\<exists>l' q. link_step cs l l' \<and> lk_mblk l' = lk_mblk l \<and> lk_sbuf l' = advance q (lk_sbuf l) \<and> sb_start_addr (lk_sbuf l) < q"
proof -
  have so: "con_ok (lk_scon l)" "mblk_wf n (lk_mblk l) [lk_sbuf l]" using inv by (simp_all add: link_inv_def sender_ok_def)
  then have wf: "sbuf_wf n (lk_sbuf l)" by (auto simp: mblk_wf_def)
  obtain con1 sbuf' ev where mk: "ioc_make_data_frame cs 0 (mb_cbs (lk_mblk l)) (mb_content (lk_mblk l)) (lk_scon l) (lk_sbuf l) = Some (con1, sbuf', ev)"
    and d: "\<exists>fl content xs. data_frame_made cs (lk_scon l) (lk_sbuf l) con1 sbuf' fl content xs"
    using make_data_frame_spec [OF so(1) wf used, of cs 0 "mb_cbs (lk_mblk l)" "mb_content (lk_mblk l)"] co air
    unfolding counters_ok_def by (metis diff_zero not_less)
  have fu: "fo_used con1 \<noteq> 0" using d data_frame_head(2) by (auto simp: data_frame_made_def Let_def)
  obtain x q b f where "f = take (nat (fo_used con1)) (fo_buf con1)" "msg_ok n x"
      "frame_says cs (con_is_serial (lk_rcon l)) (nat (con_frame_sz (lk_rcon l))) (remote_id (lk_sbuf l)) (fo_frame_nr (lk_scon l)) f x"
      "\<forall>m. length m = n \<longrightarrow> in_step n m (lk_sbuf l) \<longrightarrow> in_step n (apply_msg x m) sbuf'" "completing x \<longleftrightarrow> \<not> sb_used sbuf'"
    and q: "sbuf' = advance q (lk_sbuf l)" "sb_start_addr (lk_sbuf l) < q" and "length b = length (fo_buf (lk_scon l))"
    and w: "\<forall>tnow. ioc_write_to_stream accept_all tnow con1 = Some (OSAL_SUCCESS, (lk_scon l)\<lparr>fo_buf := b, fo_pos := 0,
      fo_frame_nr := next_frame_out_nr (fo_frame_nr (lk_scon l)), con_last_send := tnow,
      con_bytes_sent := con_bytes_sent (lk_scon l) + of_nat (length f)\<rparr>)"
    by (rule transmitted [OF inv used mk fu])
  show ?thesis
    by (rule exI, rule exI [of _ q], rule conjI, rule link_step.Transmit [OF used mk fu w [rule_format, of 0]]) (simp add: q)
qed

text \<open>Everything that has been captured can be sent, delivered and acknowledged.\<close>

lemma flush:
  assumes "link_inv cs n l" and "counters_ok l"
  shows "\<exists>l'. (link_step cs)\<^sup>*\<^sup>* l l' \<and> link_inv cs n l' \<and> counters_ok l' \<and> lk_wire l' = [] \<and> lk_mblk l' = lk_mblk l \<and> \<not> sb_used (lk_sbuf l') \<and>
    sb_make_keyframe (lk_sbuf l') = sb_make_keyframe (lk_sbuf l) \<and> sb_changed_range_set (lk_sbuf l') = sb_changed_range_set (lk_sbuf l)"
  using assms
proof (induction "nat (sb_end_addr (lk_sbuf l) - sb_start_addr (lk_sbuf l) + 1)" arbitrary: l rule: less_induct)
  case (less l)
  obtain l1 where l1: "(link_step cs)\<^sup>*\<^sup>* l l1" "link_inv cs n l1" "counters_ok l1" "lk_wire l1 = []" "lk_mblk l1 = lk_mblk l" "lk_sbuf l1 = lk_sbuf l"
    using deliver_all [OF less(2,3)] by blast
  show ?case
  proof (cases "sb_used (lk_sbuf l)")
    case False
    then show ?thesis using l1 by metis
  next
    case used: True
    obtain l2 where l2: "link_step cs l1 l2" "lk_wire l2 = []" "lk_mblk l2 = lk_mblk l1" "lk_sbuf l2 = lk_sbuf l1" "bytes_in_air (lk_scon l2) = 0"
      using acknowledge_all [OF l1(2,3,4)] by blast
    note i2 = link_step_inv [OF l2(1) l1(2)] link_step_counters [OF l2(1) l1(2,3)]
    obtain l3 q where l3: "link_step cs l2 l3" "lk_mblk l3 = lk_mblk l2" "lk_sbuf l3 = advance q (lk_sbuf l2)" "sb_start_addr (lk_sbuf l2) < q"
      using transmit_next [OF i2] l1(6) l2(4,5) used by auto
    note i3 = link_step_inv [OF l3(1) i2(1)] link_step_counters [OF l3(1) i2]
    have so: "sbuf_wf n (lk_sbuf l)" "\<not> is_bidir (lk_sbuf l)" using less(2) by (auto simp: link_inv_def sender_ok_def mblk_wf_def)
    have nr: "\<not> sb_bidir_range_set (lk_sbuf l)" "sb_start_addr (lk_sbuf l) \<le> sb_end_addr (lk_sbuf l)"
      using so used by (auto simp: sbuf_wf_def)
    have s3: "lk_sbuf l3 = advance q (lk_sbuf l)" "sb_start_addr (lk_sbuf l) < q" using l3(3,4) l2(4) l1(6) by simp_all
    have dec: "nat (sb_end_addr (lk_sbuf l3) - sb_start_addr (lk_sbuf l3) + 1) < nat (sb_end_addr (lk_sbuf l) - sb_start_addr (lk_sbuf l) + 1)"
      unfolding s3(1) using nr s3(2) by (auto simp: advance_def)
    have keep: "sb_make_keyframe (lk_sbuf l3) = sb_make_keyframe (lk_sbuf l)" "sb_changed_range_set (lk_sbuf l3) = sb_changed_range_set (lk_sbuf l)"
      unfolding s3(1) by (simp_all add: advance_def)
    have st: "(link_step cs)\<^sup>*\<^sup>* l l3" using l1(1) l2(1) l3(1) by auto
    obtain l' where "(link_step cs)\<^sup>*\<^sup>* l3 l'" "link_inv cs n l'" "counters_ok l'" "lk_wire l' = []" "lk_mblk l' = lk_mblk l3" "\<not> sb_used (lk_sbuf l')"
      "sb_make_keyframe (lk_sbuf l') = sb_make_keyframe (lk_sbuf l3)" "sb_changed_range_set (lk_sbuf l') = sb_changed_range_set (lk_sbuf l3)"
      using less(1) [OF dec i3] by blast
    with st keep l1(5) l2(3) l3(2) show ?thesis by (intro exI [of _ l']) auto
  qed
qed

lemma send_captures:
  assumes inv: "link_inv cs n l" and nu: "\<not> sb_used (lk_sbuf l)"
  shows "\<exists>l'. (link_step cs)\<^sup>*\<^sup>* l l' \<and> lk_mblk l' = lk_mblk l \<and> \<not> sb_make_keyframe (lk_sbuf l') \<and> \<not> sb_changed_range_set (lk_sbuf l')"
proof (cases "sb_changed_range_set (lk_sbuf l) \<or> sb_make_keyframe (lk_sbuf l)")
  case False
  then show ?thesis by (intro exI [of _ l]) simp
next
  case True
  have so: "mblk_wf n (lk_mblk l) [lk_sbuf l]" using inv by (simp add: link_inv_def sender_ok_def)
  note c = mblk_wf_content [OF so]
  obtain sbuf' ev where s: "ioc_sbuf_synchronize False (mb_content (lk_mblk l)) (int n) (lk_sbuf l) = Some (OSAL_SUCCESS, sbuf', ev)"
    and cap: "captured (mb_content (lk_mblk l)) (lk_sbuf l) sbuf'"
    using synchronize_spec [OF _ _ c(2) nu True, of False] c(4) by auto
  have "ioc_send (\<lambda>_. False) (lk_mblk l) [lk_sbuf l] = Some ([sbuf'], ev)" using c(1,3) s by (simp add: ioc_send_def)
  from link_step.Send [OF this, of cs] cap show ?thesis
    by (intro exI [of _ "l\<lparr>lk_sbuf := sbuf', lk_hist := mb_content (lk_mblk l) # lk_hist l\<rparr>"]) (auto simp: captured_def)
qed

lemma receive_step:
  assumes inv: "link_inv cs n l"
  shows "\<exists>l'. link_step cs l l' \<and> lk_mblk l' = lk_mblk l \<and> lk_sbuf l' = lk_sbuf l \<and> lk_wire l' = lk_wire l \<and> \<not> tb_buf_used (lk_tbuf l')"
proof -
  obtain r t where t: "con_tbufs (lk_rcon l) = [(r, t)]" "tbuf_wf n t" "\<not> tb_bidir t"
    and wf: "mblk_wf n (lk_rmblk l) []" "\<not> has_flag (mb_flags (lk_rmblk l)) IOC_STATIC"
    using inv by (auto simp: link_inv_def receiver_ok_def)
  obtain mblk' ev where "receive_tbuf (\<lambda>_. 0) (lk_rmblk l) [] t = Some (mblk', [], t\<lparr>tb_buf_used := False\<rparr>, ev)"
    using receive_tbuf_plain [OF wf(1) t(2,3), of "\<lambda>_. 0"] by auto
  then have "ioc_receive_nolock (\<lambda>_. 0) (lk_rmblk l) [] [t] = Some (mblk', [], [t\<lparr>tb_buf_used := False\<rparr>], ev)"
    using wf(2) by (simp add: ioc_receive_nolock_def)
  from link_step.Receive [OF t(1) this, of cs] show ?thesis by (auto simp: lk_tbuf_def)
qed

lemma drain:
  assumes "link_inv cs n l" and "counters_ok l"
  shows "\<exists>l'. (link_step cs)\<^sup>*\<^sup>* l l' \<and> lk_mblk l' = lk_mblk l \<and> quiescent l' \<and> link_inv cs n l'"
proof -
  have keep: "link_inv cs n b \<and> counters_ok b" if "(link_step cs)\<^sup>*\<^sup>* a b" "link_inv cs n a" "counters_ok a" for a b
    using that by (induction rule: rtranclp_induct) (auto intro: link_step_inv link_step_counters)
  obtain l1 where l1: "(link_step cs)\<^sup>*\<^sup>* l l1" "lk_mblk l1 = lk_mblk l" "link_inv cs n l1" "counters_ok l1" "\<not> sb_used (lk_sbuf l1)"
    using flush [OF assms] by blast
  obtain l2 where l2: "(link_step cs)\<^sup>*\<^sup>* l1 l2" "lk_mblk l2 = lk_mblk l1" "\<not> sb_make_keyframe (lk_sbuf l2)" "\<not> sb_changed_range_set (lk_sbuf l2)"
    using send_captures [OF l1(3,5)] by blast
  note i2 = keep [OF l2(1) l1(3,4)]
  obtain l3 where l3: "(link_step cs)\<^sup>*\<^sup>* l2 l3" "link_inv cs n l3" "lk_wire l3 = []" "lk_mblk l3 = lk_mblk l2" "\<not> sb_used (lk_sbuf l3)"
    "\<not> sb_make_keyframe (lk_sbuf l3)" "\<not> sb_changed_range_set (lk_sbuf l3)"
    using flush i2 l2(3,4) by blast
  obtain l4 where l4: "link_step cs l3 l4" "lk_mblk l4 = lk_mblk l3" "lk_sbuf l4 = lk_sbuf l3" "lk_wire l4 = lk_wire l3" "\<not> tb_buf_used (lk_tbuf l4)"
    using receive_step [OF l3(2)] by blast
  have "(link_step cs)\<^sup>*\<^sup>* l l4" using l1(1) l2(1) l3(1) l4(1) by auto
  moreover have "quiescent l4" using l3 l4 by (simp add: quiescent_def)
  ultimately show ?thesis using l1(2) l2(2) l3(4) l4(2) link_step_inv [OF l4(1) l3(2)] by auto
qed

section \<open>Properties\<close>

text \<open>A socket link that is about to transfer \<open>[1, 2, 3]\<close> to a cleared block.\<close>

definition link_sample :: link where
  "link_sample = the (link_start 0 (mblk_sample [1, 2, 3]) (mblk_sample [0, 0, 0]\<lparr>mb_mblk_id := 10\<rparr>) (con_sample 1) (con_sample 1) 10)"

lemma link_sample_reachable: "reachable cs 3 link_sample" "mb_content (lk_mblk link_sample) = [1, 2, 3]"
proof -
  let ?b = "mblk_sample [0, 0, 0]\<lparr>mb_mblk_id := 10\<rparr>"
  have "link_config 3 (mblk_sample [1, 2, 3]) ?b (con_sample 1) (con_sample 1) 10"
    by (simp add: link_config_def mblk_wf_def mblk_sample_def con_sample_simps mblk_flag_defs)
  moreover have "link_start 0 (mblk_sample [1, 2, 3]) ?b (con_sample 1) (con_sample 1) 10 = Some link_sample"
    by (simp add: link_sample_def link_start_def ioc_initialize_source_buffer_def ioc_initialize_target_buffer_def Let_def)
  ultimately show "reachable cs 3 link_sample" unfolding reachable_def by blast
  show "mb_content (lk_mblk link_sample) = [1, 2, 3]"
    by (simp add: link_sample_def link_start_def ioc_initialize_source_buffer_def ioc_initialize_target_buffer_def Let_def mb_content_def mblk_sample_def)
qed

lemma link_sample_drained: "\<exists>l. reachable cs 3 l \<and> quiescent l \<and> mb_content (lk_mblk l) = [1, 2, 3]"
proof -
  obtain l where l: "(link_step cs)\<^sup>*\<^sup>* link_sample l" "lk_mblk l = lk_mblk link_sample" "quiescent l"
    using drain reachable_inv [OF link_sample_reachable(1)] by blast
  have "reachable cs 3 l" using link_sample_reachable(1) l(1) unfolding reachable_def by (meson rtranclp_trans)
  with l link_sample_reachable(2) show ?thesis by auto
qed

text \<open>
  \<^bold>\<open>C1\<close>: delivery. However writes, sends, transmissions, deliveries, receives and acknowledgements of
  a memory block are interleaved: when the source buffer holds no change that is not captured and
  sent, nothing is on the wire and the receiver has read what arrived, the receiver's memory block
  holds exactly the content of the sender's memory block.
\<close>

theorem link_delivers:
  assumes "reachable cs n l" and "quiescent l"
  shows "mb_content (lk_rmblk l) = mb_content (lk_mblk l)"
  using reachable_inv [OF assms(1)] quiescent_equal [OF _ assms(2)] by blast

theorem link_delivers_witness:
  "\<exists>l. reachable (\<lambda>_. 0) 3 l \<and> quiescent l \<and> mb_content (lk_rmblk l) = [1, 2, 3]"
  using link_sample_drained link_delivers by metis

text \<open>
  \<^bold>\<open>C2\<close>: no torn data. The content that the receiving application sees in its memory block is always
  one that the sending application had in its block as a whole when it called \<open>ioc_send\<close> (or the
  content the receiver started with), although a transfer is split into many frames and new writes
  happen while it is under way.
\<close>

theorem link_no_torn_data:
  assumes "reachable cs n l"
  shows "mb_content (lk_rmblk l) \<in> set (lk_hist l)"
  using reachable_inv [OF assms] by (simp add: no_tearing_def)

theorem link_no_torn_data_witness:
  "reachable (\<lambda>_. 0) 3 link_sample \<and> mb_content (lk_rmblk link_sample) \<in> set (lk_hist link_sample)"
  using link_sample_reachable(1) link_no_torn_data by blast

text \<open>
  \<^bold>\<open>C3\<close>: changes get through. From every reachable state the operations of the two ends can go on,
  with the sender's block unchanged, to a state in which the receiver's memory block equals the sender's: flow control
  never blocks for good, every frame is accepted, and every captured change is sent after finitely
  many frames.
\<close>

theorem link_drains:
  assumes "reachable cs n l"
  shows "\<exists>l'. (link_step cs)\<^sup>*\<^sup>* l l' \<and> quiescent l' \<and> lk_mblk l' = lk_mblk l \<and> mb_content (lk_rmblk l') = mb_content (lk_mblk l)"
proof -
  have i: "link_inv cs n l" "counters_ok l" using reachable_inv [OF assms] by blast+
  obtain l' where l': "(link_step cs)\<^sup>*\<^sup>* l l'" "lk_mblk l' = lk_mblk l" "quiescent l'" "link_inv cs n l'" using drain [OF i] by blast
  with quiescent_equal [OF l'(4,3)] show ?thesis by auto
qed

theorem link_drains_witness:
  "\<exists>l'. (link_step (\<lambda>_. 0))\<^sup>*\<^sup>* link_sample l' \<and> quiescent l' \<and> lk_mblk l' = lk_mblk link_sample \<and> mb_content (lk_rmblk l') = [1, 2, 3]"
  using link_drains [OF link_sample_reachable(1)] unfolding link_sample_reachable(2) .

end
