(* ===== verification/Ioc_Memory_Pool.thy ===== *)
theory Ioc_Memory_Pool
  imports Ioc_Prelude
begin

text \<open>
  The memory pool of \<open>code/ioc_memory.c\<close>: \<open>ioc_set_memory_pool\<close>, \<open>ioc_malloc\<close> and \<open>ioc_free\<close> when
  a pool is set.

  A released block is turned into an \<open>iocFreeBlk\<close> in place: it holds the links of the free lists
  itself. The memory is therefore explicit: \<open>pl_mem\<close> gives the free block structure stored at an
  address. Free blocks of one size form a list linked by \<open>next_samesz\<close>; the first blocks of these
  lists are linked by \<open>next_diffsz\<close> from \<open>root->poolfree\<close>. Memory that was never used is cut off from
  the end of the used part of the pool (\<open>poolpos\<close>).

  The program's use of a block may overwrite anything inside the block, so the properties are stated
  for arbitrary interleavings of allocations, releases and writes into live blocks.
\<close>

section \<open>State\<close>

record iocFreeBlk =
  fb_next_samesz :: "nat option"
  fb_next_diffsz :: "nat option"
  fb_sz :: nat

record iocPool =
  pl_pool :: nat
  pl_poolsz :: nat
  pl_poolpos :: nat
  pl_poolfree :: "nat option"
  pl_mem :: "nat \<rightharpoonup> iocFreeBlk"

definition ioc_set_memory_pool :: "nat \<Rightarrow> nat \<Rightarrow> iocPool" where
  "ioc_set_memory_pool buf bufsz = \<lparr>pl_pool = buf, pl_poolsz = bufsz, pl_poolpos = 0, pl_poolfree = None, pl_mem = Map.empty\<rparr>"

section \<open>Operations\<close>

text \<open>The loop over the list of sizes; it returns the block before the one found and the one found.\<close>

partial_function (option) find_size ::
  "(nat \<rightharpoonup> iocFreeBlk) \<Rightarrow> nat \<Rightarrow> nat option \<Rightarrow> nat option \<Rightarrow> (nat option \<times> nat) option option" where
  "find_size mem sz prevb b = (if b = None then Some None
     else Option.bind (mem (the b)) (\<lambda>f.
       if fb_sz f = sz then Some (Some (prevb, the b)) else find_size mem sz b (fb_next_diffsz f)))"

text \<open>\<open>None\<close>: a read of an address that holds no free block, or a loop that does not end.\<close>

definition ioc_malloc :: "iocPool \<Rightarrow> nat \<Rightarrow> (nat option \<times> iocPool) option" where
  "ioc_malloc pl request_bytes = do {
     found \<leftarrow> find_size (pl_mem pl) request_bytes None (pl_poolfree pl);
     case found of
       Some (prevb, b) \<Rightarrow> do {
         f \<leftarrow> pl_mem pl b;
         case fb_next_samesz f of
           Some r \<Rightarrow> do {
             g \<leftarrow> pl_mem pl r;
             Some (Some r, pl\<lparr>pl_mem := (pl_mem pl)(b \<mapsto> f\<lparr>fb_next_samesz := fb_next_samesz g\<rparr>)\<rparr>) }
         | None \<Rightarrow> (case prevb of
             Some q \<Rightarrow> do {
               g \<leftarrow> pl_mem pl q;
               Some (Some b, pl\<lparr>pl_mem := (pl_mem pl)(q \<mapsto> g\<lparr>fb_next_diffsz := fb_next_diffsz f\<rparr>)\<rparr>) }
           | None \<Rightarrow> Some (Some b, pl\<lparr>pl_poolfree := fb_next_diffsz f\<rparr>)) }
     | None \<Rightarrow>
         if request_bytes \<le> pl_poolsz pl - pl_poolpos pl
         then Some (Some (pl_pool pl + pl_poolpos pl), pl\<lparr>pl_poolpos := pl_poolpos pl + request_bytes\<rparr>)
         else Some (None, pl) }"

definition ioc_free :: "iocPool \<Rightarrow> nat option \<Rightarrow> nat \<Rightarrow> iocPool option" where
  "ioc_free pl memory_block bytes = (case memory_block of
     None \<Rightarrow> Some pl
   | Some r \<Rightarrow> (let mem = (pl_mem pl)(r \<mapsto> \<lparr>fb_next_samesz = None, fb_next_diffsz = None, fb_sz = bytes\<rparr>) in do {
       found \<leftarrow> find_size mem bytes None (pl_poolfree pl);
       case found of
         Some (prevb, b) \<Rightarrow> do {
           f \<leftarrow> mem b;
           Some (pl\<lparr>pl_mem := mem(r \<mapsto> \<lparr>fb_next_samesz = fb_next_samesz f, fb_next_diffsz = None, fb_sz = bytes\<rparr>,
             b \<mapsto> f\<lparr>fb_next_samesz := Some r\<rparr>)\<rparr>) }
       | None \<Rightarrow> Some (pl\<lparr>pl_mem := mem(r \<mapsto> \<lparr>fb_next_samesz = None, fb_next_diffsz = pl_poolfree pl, fb_sz = bytes\<rparr>),
           pl_poolfree := Some r\<rparr>) }))"

section \<open>The contract of an allocator\<close>

type_synonym blocks = "(nat \<times> nat) set"

fun apart :: "nat \<times> nat \<Rightarrow> nat \<times> nat \<Rightarrow> bool" where
  "apart (a, n) (b, m) \<longleftrightarrow> a + n \<le> b \<or> b + m \<le> a"

definition all_apart :: "blocks \<Rightarrow> bool" where
  "all_apart B \<longleftrightarrow> (\<forall>x \<in> B. \<forall>y \<in> B. x \<noteq> y \<longrightarrow> apart x y)"

text \<open>What the program does with an allocator: it allocates, releases a block it has, or writes into its blocks.\<close>

datatype 's alloc_op = Alloc nat | Release "nat \<times> nat" | Use 's

locale allocator =
  fixes alloc :: "'s \<Rightarrow> nat \<Rightarrow> (nat option \<times> 's) option"
    and release :: "'s \<Rightarrow> nat option \<Rightarrow> nat \<Rightarrow> 's option"
    and used_only :: "blocks \<Rightarrow> 's \<Rightarrow> 's \<Rightarrow> bool"
    and ok :: "'s \<Rightarrow> blocks \<Rightarrow> bool"
    and min_size :: nat
  assumes ok_apart: "ok s L \<Longrightarrow> all_apart L"
    and alloc_ok: "ok s L \<Longrightarrow> min_size \<le> n \<Longrightarrow> \<exists>p s'. alloc s n = Some (p, s') \<and>
      (case p of None \<Rightarrow> ok s' L | Some a \<Rightarrow> (a, n) \<notin> L \<and> ok s' (insert (a, n) L))"
    and release_ok: "ok s L \<Longrightarrow> (a, n) \<in> L \<Longrightarrow> \<exists>s'. release s (Some a) n = Some s' \<and> ok s' (L - {(a, n)})"
    and used_ok: "ok s L \<Longrightarrow> used_only L s s' \<Longrightarrow> ok s' L"
begin

text \<open>Running a sequence of operations; a step the program must not take ends the run.\<close>

fun run :: "'s alloc_op list \<Rightarrow> 's \<times> blocks \<Rightarrow> ('s \<times> blocks) option" where
  "run [] sL = Some sL"
| "run (Alloc n # xs) (s, L) = (case alloc s n of
     None \<Rightarrow> None
   | Some (p, s') \<Rightarrow> run xs (s', case p of None \<Rightarrow> L | Some a \<Rightarrow> insert (a, n) L))"
| "run (Release (a, n) # xs) (s, L) = (case release s (Some a) n of
     None \<Rightarrow> None
   | Some s' \<Rightarrow> run xs (s', L - {(a, n)}))"
| "run (Use s' # xs) (s, L) = run xs (s', L)"

fun legal :: "'s alloc_op list \<Rightarrow> 's \<times> blocks \<Rightarrow> bool" where
  "legal [] sL = True"
| "legal (Alloc n # xs) (s, L) \<longleftrightarrow> min_size \<le> n \<and> (\<forall>p s'. alloc s n = Some (p, s') \<longrightarrow>
     legal xs (s', case p of None \<Rightarrow> L | Some a \<Rightarrow> insert (a, n) L))"
| "legal (Release (a, n) # xs) (s, L) \<longleftrightarrow> (a, n) \<in> L \<and> (\<forall>s'. release s (Some a) n = Some s' \<longrightarrow> legal xs (s', L - {(a, n)}))"
| "legal (Use s' # xs) (s, L) \<longleftrightarrow> used_only L s s' \<and> legal xs (s', L)"

lemma run_ok:
  "ok s L \<Longrightarrow> legal xs (s, L) \<Longrightarrow> \<exists>s' L'. run xs (s, L) = Some (s', L') \<and> ok s' L'"
proof (induction xs arbitrary: s L)
  case (Cons x xs)
  show ?case
  proof (cases x)
    case (Alloc n)
    with Cons(3) have "min_size \<le> n" by simp
    with alloc_ok [OF Cons(2)] obtain p s' where p: "alloc s n = Some (p, s')"
      "case p of None \<Rightarrow> ok s' L | Some a \<Rightarrow> (a, n) \<notin> L \<and> ok s' (insert (a, n) L)" by blast
    then show ?thesis using Cons Alloc by (cases p) auto
  next
    case (Release b)
    obtain a n where b: "b = (a, n)" by (cases b)
    with Cons(3) Release have "(a, n) \<in> L" by simp
    then obtain s' where "release s (Some a) n = Some s'" "ok s' (L - {(a, n)})" using release_ok [OF Cons(2)] by blast
    then show ?thesis using Cons Release b by auto
  next
    case (Use s')
    with Cons used_ok show ?thesis by auto
  qed
qed simp

lemma run_apart:
  "ok s L \<Longrightarrow> legal xs (s, L) \<Longrightarrow> \<exists>s' L'. run xs (s, L) = Some (s', L') \<and> all_apart L' \<and> ok s' L'"
  using run_ok ok_apart by blast

end

section \<open>The free lists\<close>

primrec chain :: "('m \<Rightarrow> nat option) \<Rightarrow> (nat \<rightharpoonup> 'm) \<Rightarrow> nat option \<Rightarrow> nat list \<Rightarrow> bool" where
  "chain nx mem p [] \<longleftrightarrow> p = None"
| "chain nx mem p (x # xs) \<longleftrightarrow> p = Some x \<and> (case mem x of None \<Rightarrow> False | Some f \<Rightarrow> chain nx mem (nx f) xs)"

lemma chain_cong:
  "(\<And>x. x \<in> set xs \<Longrightarrow> map_option nx (mem' x) = map_option nx (mem x)) \<Longrightarrow> chain nx mem p xs \<Longrightarrow> chain nx mem' p xs"
proof (induction xs arbitrary: p)
  case (Cons x xs)
  then obtain f where "p = Some x" "mem x = Some f" "chain nx mem (nx f) xs" by (auto split: option.splits)
  moreover then obtain f' where "mem' x = Some f'" "nx f' = nx f" using Cons(2) [of x] by auto
  ultimately show ?case using Cons(1) [of "nx f"] Cons(2) by auto
qed simp

text \<open>A class of free blocks: their size and their addresses, the head of the list first.\<close>

type_synonym free_class = "nat \<times> nat list"

definition class_ok :: "(nat \<rightharpoonup> iocFreeBlk) \<Rightarrow> free_class \<Rightarrow> bool" where
  "class_ok mem c \<longleftrightarrow> snd c \<noteq> [] \<and> (\<forall>f. mem (hd (snd c)) = Some f \<longrightarrow> fb_sz f = fst c) \<and> chain fb_next_samesz mem (Some (hd (snd c))) (snd c)"

definition addrs :: "free_class list \<Rightarrow> nat list" where
  "addrs cs = concat (map snd cs)"

definition free_blocks :: "free_class list \<Rightarrow> blocks" where
  "free_blocks cs = {(a, n). \<exists>as. (n, as) \<in> set cs \<and> a \<in> set as}"

definition lists_ok :: "(nat \<rightharpoonup> iocFreeBlk) \<Rightarrow> nat option \<Rightarrow> free_class list \<Rightarrow> bool" where
  "lists_ok mem p cs \<longleftrightarrow> chain fb_next_diffsz mem p (map (hd \<circ> snd) cs) \<and> list_all (class_ok mem) cs \<and>
     distinct (map fst cs) \<and> distinct (addrs cs)"

lemma lists_ok_head:
  assumes "class_ok mem c"
  obtains x xs f where "snd c = x # xs" "mem x = Some f" "fb_sz f = fst c" "chain fb_next_samesz mem (fb_next_samesz f) xs"
proof -
  obtain x xs where c: "snd c = x # xs" using assms by (cases "snd c") (auto simp: class_ok_def)
  then obtain f where "mem x = Some f" using assms by (auto simp: class_ok_def split: option.splits)
  then show thesis using that c assms by (auto simp: class_ok_def)
qed

lemma class_ok_cong:
  assumes "class_ok mem c"
    and "\<And>a. a \<in> set (snd c) \<Longrightarrow> map_option (\<lambda>f. (fb_next_samesz f, fb_sz f)) (mem' a) = map_option (\<lambda>f. (fb_next_samesz f, fb_sz f)) (mem a)"
  shows "class_ok mem' c"
proof -
  have ne: "snd c \<noteq> []" using assms(1) by (simp add: class_ok_def)
  have "map_option fb_next_samesz (mem' a) = map_option fb_next_samesz (mem a)" if "a \<in> set (snd c)" for a
    using assms(2) [OF that] by (cases "mem a"; cases "mem' a") auto
  then have "chain fb_next_samesz mem' (Some (hd (snd c))) (snd c)" using assms(1) chain_cong unfolding class_ok_def by blast
  moreover have "fb_sz f = fst c" if "mem' (hd (snd c)) = Some f" for f
    using assms(1) assms(2) [of "hd (snd c)"] that ne by (cases "mem (hd (snd c))") (auto simp: class_ok_def)
  ultimately show ?thesis using ne by (simp add: class_ok_def)
qed

lemma classes_ok_update:
  assumes "list_all (class_ok mem) cs" and "x \<notin> set (addrs cs)"
  shows "list_all (class_ok (mem(x \<mapsto> f))) cs"
  unfolding list_all_iff
proof
  fix c assume c: "c \<in> set cs"
  then have "x \<notin> set (snd c)" using assms(2) by (auto simp: addrs_def)
  moreover have "class_ok mem c" using assms(1) c by (simp add: list_all_iff)
  ultimately show "class_ok (mem(x \<mapsto> f)) c" by (auto intro: class_ok_cong)
qed

lemma chain_update: "x \<notin> set xs \<Longrightarrow> chain nx mem p xs \<Longrightarrow> chain nx (mem(x \<mapsto> f)) p xs"
  by (rule chain_cong) auto

lemma heads_in_addrs: "list_all (class_ok mem) cs \<Longrightarrow> set (map (hd \<circ> snd) cs) \<subseteq> set (addrs cs)"
  by (force simp: list_all_iff addrs_def class_ok_def)

lemma find_size_simps:
  "find_size mem sz prevb None = Some None"
  "mem p = Some f \<Longrightarrow> find_size mem sz prevb (Some p) =
     (if fb_sz f = sz then Some (Some (prevb, p)) else find_size mem sz (Some p) (fb_next_diffsz f))"
  by (subst find_size.simps, simp)+

lemma find_size_absent:
  assumes "chain fb_next_diffsz mem p (map (hd \<circ> snd) cs)" and "list_all (class_ok mem) cs" and "sz \<notin> fst ` set cs"
  shows "find_size mem sz prevb p = Some None"
  using assms
proof (induction cs arbitrary: p prevb)
  case Nil
  then show ?case by (simp add: find_size_simps)
next
  case (Cons c cs)
  obtain x xs f where c: "snd c = x # xs" "mem x = Some f" "fb_sz f = fst c" using Cons(3) by (auto elim: lists_ok_head)
  then show ?case using Cons by (simp add: find_size_simps(2) [of mem x f])
qed

lemma find_size_present:
  assumes "chain fb_next_diffsz mem p (map (hd \<circ> snd) (as @ (sz, x # xs) # bs))" and "list_all (class_ok mem) (as @ (sz, x # xs) # bs)"
    and "sz \<notin> fst ` set as"
  shows "find_size mem sz prevb p = Some (Some (if as = [] then prevb else Some (hd (snd (last as))), x))"
  using assms
proof (induction as arbitrary: p prevb)
  case Nil
  then obtain f where "mem x = Some f" "fb_sz f = sz" by (auto elim: lists_ok_head)
  with Nil show ?case by (simp add: find_size_simps(2))
next
  case (Cons c as)
  obtain y ys f where c: "snd c = y # ys" "mem y = Some f" "fb_sz f = fst c" using Cons(3) by (auto elim: lists_ok_head)
  then show ?case using Cons by (simp add: find_size_simps(2) [of mem y f])
qed

section \<open>List surgery\<close>

lemma chain_head: "chain nx mem p (x # xs) \<Longrightarrow> mem x = Some f \<Longrightarrow> chain nx mem (nx f) xs"
  by simp

lemma chain_unlink:
  assumes "chain nx mem p (as @ q # x # bs)" and "distinct (as @ q # x # bs)" and "mem q = Some g" "mem x = Some f" and "nx g' = nx f"
  shows "chain nx (mem(q \<mapsto> g')) p (as @ q # bs)"
  using assms
proof (induction as arbitrary: p)
  case Nil
  then show ?case using chain_update [of q bs nx mem "nx f" g'] by (simp del: fun_upd_apply) simp
next
  case (Cons a as)
  then show ?case by (cases "mem a") auto
qed

lemma addrs_simps [simp]: "addrs [] = []" "addrs (c # cs) = snd c @ addrs cs" "addrs (as @ bs) = addrs as @ addrs bs"
  by (simp_all add: addrs_def)

lemma pop_same:
  assumes ok: "lists_ok mem p (as @ (sz, x # y # ys) # bs)" and f: "mem x = Some f" and g: "mem y = Some g"
  shows "lists_ok (mem(x \<mapsto> f\<lparr>fb_next_samesz := fb_next_samesz g\<rparr>)) p (as @ (sz, x # ys) # bs)"
proof -
  let ?m = "mem(x \<mapsto> f\<lparr>fb_next_samesz := fb_next_samesz g\<rparr>)"
  have d: "distinct (addrs (as @ (sz, x # y # ys) # bs))" and cl: "list_all (class_ok mem) (as @ (sz, x # y # ys) # bs)"
    and ch: "chain fb_next_diffsz mem p (map (hd \<circ> snd) (as @ (sz, x # ys) # bs))" using ok by (auto simp: lists_ok_def)
  have c: "fb_sz f = sz" "chain fb_next_samesz mem (fb_next_samesz g) ys" using cl f g by (auto simp: class_ok_def)
  have "list_all (class_ok ?m) as" "list_all (class_ok ?m) bs" using cl d by (auto intro!: classes_ok_update)
  moreover have "class_ok ?m (sz, x # ys)" using c d by (auto simp: class_ok_def intro: chain_update)
  moreover have "chain fb_next_diffsz ?m p (map (hd \<circ> snd) (as @ (sz, x # ys) # bs))" by (rule chain_cong [OF _ ch]) (simp add: f)
  ultimately show ?thesis using ok by (auto simp: lists_ok_def)
qed

lemma push_same:
  assumes ok: "lists_ok mem p (as @ (sz, x # xs) # bs)" and f: "mem x = Some f" and r: "r \<notin> set (addrs (as @ (sz, x # xs) # bs))"
  shows "lists_ok (mem(r \<mapsto> \<lparr>fb_next_samesz = fb_next_samesz f, fb_next_diffsz = None, fb_sz = sz\<rparr>, x \<mapsto> f\<lparr>fb_next_samesz := Some r\<rparr>)) p
    (as @ (sz, x # r # xs) # bs)"
proof -
  let ?r = "\<lparr>fb_next_samesz = fb_next_samesz f, fb_next_diffsz = None, fb_sz = sz\<rparr>"
  let ?m = "mem(r \<mapsto> ?r, x \<mapsto> f\<lparr>fb_next_samesz := Some r\<rparr>)"
  have d: "distinct (addrs (as @ (sz, x # xs) # bs))" and cl: "list_all (class_ok mem) (as @ (sz, x # xs) # bs)"
    and ch: "chain fb_next_diffsz mem p (map (hd \<circ> snd) (as @ (sz, x # xs) # bs))" using ok by (auto simp: lists_ok_def)
  have c: "fb_sz f = sz" "chain fb_next_samesz mem (fb_next_samesz f) xs" using cl f by (auto simp: class_ok_def)
  have "list_all (class_ok ?m) as" "list_all (class_ok ?m) bs" using cl d r by (auto intro!: classes_ok_update)
  moreover have "class_ok ?m (sz, x # r # xs)" using c d r by (auto simp: class_ok_def intro!: chain_update)
  moreover have "chain fb_next_diffsz ?m p (map (hd \<circ> snd) (as @ (sz, x # r # xs) # bs))"
  proof -
    have "r \<notin> set (map (hd \<circ> snd) (as @ (sz, x # xs) # bs))" using heads_in_addrs [OF cl] r by blast
    from chain_update [OF this ch, of ?r] have "chain fb_next_diffsz (mem(r \<mapsto> ?r)) p (map (hd \<circ> snd) (as @ (sz, x # r # xs) # bs))" by simp
    moreover have "r \<noteq> x" using r by auto
    ultimately show ?thesis by (elim chain_cong [rotated]) (auto simp: f)
  qed
  ultimately show ?thesis using ok r by (auto simp: lists_ok_def)
qed

lemma pop_last:
  assumes ok: "lists_ok mem p (as @ (sz, [x]) # bs)" and f: "mem x = Some f"
  shows "as = [] \<Longrightarrow> lists_ok mem (fb_next_diffsz f) bs"
    and "as \<noteq> [] \<Longrightarrow> mem (hd (snd (last as))) = Some g \<Longrightarrow>
      lists_ok (mem(hd (snd (last as)) \<mapsto> g\<lparr>fb_next_diffsz := fb_next_diffsz f\<rparr>)) p (as @ bs)"
proof -
  have d: "distinct (addrs (as @ (sz, [x]) # bs))" and cl: "list_all (class_ok mem) (as @ (sz, [x]) # bs)"
    and ch: "chain fb_next_diffsz mem p (map (hd \<circ> snd) (as @ (sz, [x]) # bs))" using ok by (auto simp: lists_ok_def)
  show "lists_ok mem (fb_next_diffsz f) bs" if "as = []" using ok ch f that by (auto simp: lists_ok_def)
  assume as: "as \<noteq> []" and g: "mem (hd (snd (last as))) = Some g"
  let ?q = "hd (snd (last as))"
  let ?m = "mem(?q \<mapsto> g\<lparr>fb_next_diffsz := fb_next_diffsz f\<rparr>)"
  have hd: "distinct (map (hd \<circ> snd) cs)" if "distinct (addrs cs)" "list_all (class_ok mem) cs" for cs
    using that
  proof (induction cs)
    case (Cons c cs)
    then have "hd (snd c) \<in> set (snd c)" by (auto simp: class_ok_def)
    with Cons heads_in_addrs [of mem cs] show ?case by auto
  qed simp
  have sp: "as = butlast as @ [last as]" using as by simp
  have e: "map (hd \<circ> snd) (as @ (sz, [x]) # bs) = map (hd \<circ> snd) (butlast as) @ ?q # x # map (hd \<circ> snd) bs" by (subst sp) simp
  have "chain fb_next_diffsz ?m p (map (hd \<circ> snd) (butlast as) @ ?q # map (hd \<circ> snd) bs)"
    by (rule chain_unlink [OF ch [unfolded e] hd [OF d cl, unfolded e] g f]) simp
  moreover have "map (hd \<circ> snd) (butlast as) @ ?q # map (hd \<circ> snd) bs = map (hd \<circ> snd) (as @ bs)" by (subst (3) sp) simp
  moreover have "class_ok ?m c" if "class_ok mem c" for c by (rule class_ok_cong [OF that]) (simp add: g)
  then have "list_all (class_ok ?m) (as @ bs)" using cl by (simp add: list_all_iff)
  ultimately show "lists_ok ?m p (as @ bs)" using ok by (auto simp: lists_ok_def)
qed

lemma push_new:
  assumes ok: "lists_ok mem p cs" and r: "r \<notin> set (addrs cs)" and sz: "sz \<notin> fst ` set cs"
  shows "lists_ok (mem(r \<mapsto> \<lparr>fb_next_samesz = None, fb_next_diffsz = p, fb_sz = sz\<rparr>)) (Some r) ((sz, [r]) # cs)"
proof -
  have cl: "list_all (class_ok mem) cs" using ok by (simp add: lists_ok_def)
  then have "r \<notin> set (map (hd \<circ> snd) cs)" using heads_in_addrs r by blast
  then show ?thesis using ok r sz classes_ok_update [OF cl r] by (auto simp: lists_ok_def class_ok_def intro!: chain_update)
qed

section \<open>The pool is an allocator\<close>

definition sizeof_iocFreeBlk :: nat where "sizeof_iocFreeBlk = 24"

definition in_pool :: "iocPool \<Rightarrow> nat \<times> nat \<Rightarrow> bool" where
  "in_pool pl b \<longleftrightarrow> sizeof_iocFreeBlk \<le> snd b \<and> pl_pool pl \<le> fst b \<and> fst b + snd b \<le> pl_pool pl + pl_poolpos pl"

definition pool_rep :: "iocPool \<Rightarrow> blocks \<Rightarrow> free_class list \<Rightarrow> bool" where
  "pool_rep pl L cs \<longleftrightarrow> lists_ok (pl_mem pl) (pl_poolfree pl) cs \<and> pl_poolpos pl \<le> pl_poolsz pl \<and>
     free_blocks cs \<inter> L = {} \<and> all_apart (free_blocks cs \<union> L) \<and> (\<forall>b \<in> free_blocks cs \<union> L. in_pool pl b)"

definition pool_ok :: "iocPool \<Rightarrow> blocks \<Rightarrow> bool" where
  "pool_ok pl L \<longleftrightarrow> (\<exists>cs. pool_rep pl L cs)"

text \<open>The program may have changed the memory inside its own blocks only.\<close>

definition writes_within :: "blocks \<Rightarrow> iocPool \<Rightarrow> iocPool \<Rightarrow> bool" where
  "writes_within L pl pl' \<longleftrightarrow> (\<exists>m. pl' = pl\<lparr>pl_mem := m\<rparr> \<and>
     (\<forall>a. (\<forall>(b, n) \<in> L. \<not> (b \<le> a \<and> a < b + n)) \<longrightarrow> m a = pl_mem pl a))"

lemma free_blocks_simps [simp]:
  "free_blocks [] = {}"
  "free_blocks ((n, as) # cs) = (\<lambda>a. (a, n)) ` set as \<union> free_blocks cs"
  "free_blocks (cs @ ds) = free_blocks cs \<union> free_blocks ds"
  by (auto simp: free_blocks_def)

lemma set_addrs: "set (addrs cs) = fst ` free_blocks cs"
  by (force simp: addrs_def free_blocks_def)

lemma addrs_block: "a \<in> set (addrs cs) \<Longrightarrow> \<exists>n. (a, n) \<in> free_blocks cs"
  by (auto simp: set_addrs)

lemma free_block_addr: "(a, n) \<in> free_blocks cs \<Longrightarrow> a \<in> set (addrs cs)"
  by (force simp: set_addrs)

lemma pool_rep_swap:
  assumes "pool_rep pl L cs" and "lists_ok mem p cs'" and "free_blocks cs' \<union> L' = free_blocks cs \<union> L" and "free_blocks cs' \<inter> L' = {}"
  shows "pool_rep (pl\<lparr>pl_mem := mem, pl_poolfree := p\<rparr>) L' cs'"
  using assms by (simp add: pool_rep_def in_pool_def)

lemma find_class:
  assumes "sz \<in> fst ` set cs" and "list_all (class_ok mem) cs"
  obtains as x xs bs where "cs = as @ (sz, x # xs) # bs" "sz \<notin> fst ` set as"
proof -
  have "sz \<in> set (map fst cs)" using assms(1) by simp
  then obtain a1 a2 where a: "map fst cs = a1 @ sz # a2" "sz \<notin> set a1" using split_list_first by metis
  then obtain as c bs where s: "cs = as @ c # bs" "map fst as = a1" "fst c = sz" by (auto simp: map_eq_append_conv map_eq_Cons_conv)
  have "snd c \<noteq> []" using assms(2) s(1) by (simp add: class_ok_def)
  then obtain x xs where "snd c = x # xs" by (cases "snd c") auto
  then show thesis using that s a(2) by (metis list.set_map prod.collapse)
qed

lemma free_not_live:
  assumes "pool_rep pl L cs" and "(a, n) \<in> L"
  shows "a \<notin> set (addrs cs)"
proof
  assume "a \<in> set (addrs cs)"
  then obtain m where m: "(a, m) \<in> free_blocks cs" using addrs_block by blast
  then have "(a, m) \<noteq> (a, n)" using assms by (auto simp: pool_rep_def)
  moreover have "apart (a, m) (a, n)" using assms m calculation unfolding pool_rep_def all_apart_def by blast
  moreover have "in_pool pl (a, m)" "in_pool pl (a, n)" using assms m by (auto simp: pool_rep_def)
  ultimately show False by (auto simp: in_pool_def sizeof_iocFreeBlk_def)
qed

lemma malloc_reuse:
  assumes rep: "pool_rep pl L cs" and sz: "sz \<in> fst ` set cs"
  shows "\<exists>a pl' cs'. ioc_malloc pl sz = Some (Some a, pl') \<and> (a, sz) \<notin> L \<and> pool_rep pl' (insert (a, sz) L) cs'"
proof -
  have ok: "lists_ok (pl_mem pl) (pl_poolfree pl) cs" and dj: "free_blocks cs \<inter> L = {}" using rep by (simp_all add: pool_rep_def)
  then have cl: "list_all (class_ok (pl_mem pl)) cs" by (simp add: lists_ok_def)
  obtain as x xs bs where cs: "cs = as @ (sz, x # xs) # bs" and na: "sz \<notin> fst ` set as" using find_class [OF sz cl] .
  note okc = ok [unfolded cs]
  have ch: "chain fb_next_diffsz (pl_mem pl) (pl_poolfree pl) (map (hd \<circ> snd) (as @ (sz, x # xs) # bs))"
    and d: "distinct (addrs (as @ (sz, x # xs) # bs))" using okc by (simp_all add: lists_ok_def)
  note fd = find_size_present [OF ch cl [unfolded cs] na, of None]
  obtain f where f: "pl_mem pl x = Some f" "chain fb_next_samesz (pl_mem pl) (fb_next_samesz f) xs"
    using cl cs by (auto simp: class_ok_def split: option.splits)
  have nb: "(a, sz) \<notin> free_blocks as \<union> free_blocks bs" if "a \<in> set (x # xs)" for a
    using d that by (auto dest!: free_block_addr)
  show ?thesis
  proof (cases xs)
    case (Cons y ys)
    then obtain g where g: "fb_next_samesz f = Some y" "pl_mem pl y = Some g" using f(2) by (auto split: option.splits)
    note ok' = pop_same [OF okc [unfolded Cons] f(1) g(2)]
    have e: "free_blocks (as @ (sz, x # ys) # bs) \<union> insert (y, sz) L = free_blocks cs \<union> L"
      "free_blocks (as @ (sz, x # ys) # bs) \<inter> insert (y, sz) L = {}"
      using cs Cons dj nb [of y] d by auto
    from pool_rep_swap [OF rep ok' e] show ?thesis
      using fd f g dj cs Cons by (auto simp: ioc_malloc_def)
  next
    case Nil
    have e: "free_blocks (as @ bs) \<union> insert (x, sz) L = free_blocks cs \<union> L" "free_blocks (as @ bs) \<inter> insert (x, sz) L = {}"
      using cs Nil dj nb [of x] d by auto
    have n: "fb_next_samesz f = None" "(x, sz) \<notin> L" using f(2) Nil cs dj by auto
    show ?thesis
    proof (cases "as = []")
      case True
      have "lists_ok (pl_mem pl) (fb_next_diffsz f) bs" using pop_last(1) [OF okc [unfolded Nil] f(1) True] .
      from pool_rep_swap [OF rep this, of "insert (x, sz) L"] e True show ?thesis using fd f n by (auto simp: ioc_malloc_def)
    next
      case False
      have "class_ok (pl_mem pl) (last as)" using cl cs False by (auto simp: list_all_iff)
      then obtain g where g: "pl_mem pl (hd (snd (last as))) = Some g" by (auto elim: lists_ok_head)
      from pool_rep_swap [OF rep pop_last(2) [OF okc [unfolded Nil] f(1) False g] e] show ?thesis
        using fd f n False g by (auto simp: ioc_malloc_def)
    qed
  qed
qed

lemma malloc_fresh:
  assumes rep: "pool_rep pl L cs" and sz: "sz \<notin> fst ` set cs" and mn: "sizeof_iocFreeBlk \<le> sz"
  shows "ioc_malloc pl sz = Some (if sz \<le> pl_poolsz pl - pl_poolpos pl
      then (Some (pl_pool pl + pl_poolpos pl), pl\<lparr>pl_poolpos := pl_poolpos pl + sz\<rparr>) else (None, pl))"
    and "sz \<le> pl_poolsz pl - pl_poolpos pl \<Longrightarrow> (pl_pool pl + pl_poolpos pl, sz) \<notin> L \<and>
      pool_rep (pl\<lparr>pl_poolpos := pl_poolpos pl + sz\<rparr>) (insert (pl_pool pl + pl_poolpos pl, sz) L) cs"
proof -
  let ?b = "(pl_pool pl + pl_poolpos pl, sz)"
  have ok: "lists_ok (pl_mem pl) (pl_poolfree pl) cs" using rep by (simp add: pool_rep_def)
  have "find_size (pl_mem pl) sz None (pl_poolfree pl) = Some None"
    by (rule find_size_absent [OF _ _ sz]) (use ok in \<open>simp_all add: lists_ok_def\<close>)
  then show "ioc_malloc pl sz = Some (if sz \<le> pl_poolsz pl - pl_poolpos pl
      then (Some (pl_pool pl + pl_poolpos pl), pl\<lparr>pl_poolpos := pl_poolpos pl + sz\<rparr>) else (None, pl))"
    by (simp add: ioc_malloc_def)
  assume le: "sz \<le> pl_poolsz pl - pl_poolpos pl"
  have inp: "in_pool pl x" if "x \<in> free_blocks cs \<union> L" for x using rep that by (simp add: pool_rep_def)
  have ap: "apart x ?b \<and> apart ?b x \<and> x \<noteq> ?b" if "x \<in> free_blocks cs \<union> L" for x
    using inp [OF that] mn by (cases x) (auto simp: in_pool_def sizeof_iocFreeBlk_def)
  have "all_apart (free_blocks cs \<union> insert ?b L)" using rep ap by (auto simp: pool_rep_def all_apart_def)
  moreover have "\<forall>x \<in> free_blocks cs \<union> insert ?b L. in_pool (pl\<lparr>pl_poolpos := pl_poolpos pl + sz\<rparr>) x"
    using inp mn by (force simp: in_pool_def)
  moreover have "?b \<notin> free_blocks cs \<union> L" using ap by blast
  moreover have "pl_poolpos pl + sz \<le> pl_poolsz pl" using le rep mn by (simp add: pool_rep_def sizeof_iocFreeBlk_def)
  ultimately show "?b \<notin> L \<and> pool_rep (pl\<lparr>pl_poolpos := pl_poolpos pl + sz\<rparr>) (insert ?b L) cs"
    using rep by (auto simp: pool_rep_def)
qed

lemma free_rep:
  assumes rep: "pool_rep pl L cs" and b: "(r, sz) \<in> L"
  shows "\<exists>pl' cs'. ioc_free pl (Some r) sz = Some pl' \<and> pool_rep pl' (L - {(r, sz)}) cs' \<and> sz \<in> fst ` set cs'"
proof -
  have ok: "lists_ok (pl_mem pl) (pl_poolfree pl) cs" and dj: "free_blocks cs \<inter> L = {}" using rep by (simp_all add: pool_rep_def)
  note r = free_not_live [OF rep b]
  let ?z = "\<lparr>fb_next_samesz = None, fb_next_diffsz = None, fb_sz = sz\<rparr>"
  let ?m = "(pl_mem pl)(r \<mapsto> ?z)"
  have ok1: "lists_ok ?m (pl_poolfree pl) cs"
  proof -
    have cl: "list_all (class_ok (pl_mem pl)) cs" using ok by (simp add: lists_ok_def)
    then have "r \<notin> set (map (hd \<circ> snd) cs)" using heads_in_addrs r by blast
    then show ?thesis using ok classes_ok_update [OF cl r, of ?z] chain_update [of r _ fb_next_diffsz "pl_mem pl" "pl_poolfree pl" ?z]
      unfolding lists_ok_def by blast
  qed
  then have cl: "list_all (class_ok ?m) cs" by (simp add: lists_ok_def)
  show ?thesis
  proof (cases "sz \<in> fst ` set cs")
    case True
    then obtain as x xs bs where cs: "cs = as @ (sz, x # xs) # bs" and na: "sz \<notin> fst ` set as" using find_class cl by metis
    note okc = ok1 [unfolded cs]
    have ch: "chain fb_next_diffsz ?m (pl_poolfree pl) (map (hd \<circ> snd) (as @ (sz, x # xs) # bs))" using okc by (simp add: lists_ok_def)
    note fd = find_size_present [OF ch cl [unfolded cs] na, of None]
    obtain f where f: "?m x = Some f" using cl cs by (auto simp: class_ok_def split: option.splits)
    have e: "free_blocks (as @ (sz, x # r # xs) # bs) \<union> (L - {(r, sz)}) = free_blocks cs \<union> L"
      "free_blocks (as @ (sz, x # r # xs) # bs) \<inter> (L - {(r, sz)}) = {}" using cs b dj by auto
    from pool_rep_swap [OF rep push_same [OF okc f r [unfolded cs]] e] show ?thesis
      using fd f by (force simp: ioc_free_def Let_def simp del: fun_upd_apply)
  next
    case False
    have fd: "find_size ?m sz None (pl_poolfree pl) = Some None"
      by (rule find_size_absent [OF _ _ False]) (use ok1 in \<open>simp_all add: lists_ok_def\<close>)
    have e: "free_blocks ((sz, [r]) # cs) \<union> (L - {(r, sz)}) = free_blocks cs \<union> L" "free_blocks ((sz, [r]) # cs) \<inter> (L - {(r, sz)}) = {}"
      using b dj by auto
    from pool_rep_swap [OF rep push_new [OF ok1 r False] e] show ?thesis
      using fd by (force simp: ioc_free_def Let_def simp del: fun_upd_apply)
  qed
qed

lemma live_writes_rep:
  assumes rep: "pool_rep pl L cs" and w: "writes_within L pl pl'"
  shows "pool_rep pl' L cs"
proof -
  obtain m where m: "pl' = pl\<lparr>pl_mem := m\<rparr>" "\<And>a. (\<forall>(b, n) \<in> L. \<not> (b \<le> a \<and> a < b + n)) \<Longrightarrow> m a = pl_mem pl a"
    using w unfolding writes_within_def by blast
  have same: "m a = pl_mem pl a" if a: "a \<in> set (addrs cs)" for a
  proof (rule m(2), clarify)
    fix b n assume b: "(b, n) \<in> L" "b \<le> a" "a < b + n"
    obtain k where k: "(a, k) \<in> free_blocks cs" using addrs_block [OF a] by blast
    have "(a, k) \<noteq> (b, n)" using k b rep by (auto simp: pool_rep_def)
    then have "apart (a, k) (b, n)" using k b rep unfolding pool_rep_def all_apart_def by blast
    moreover have "in_pool pl (a, k)" using k rep by (simp add: pool_rep_def)
    ultimately show False using b by (auto simp: in_pool_def sizeof_iocFreeBlk_def)
  qed
  have ok: "lists_ok (pl_mem pl) (pl_poolfree pl) cs" using rep by (simp add: pool_rep_def)
  then have cl: "list_all (class_ok (pl_mem pl)) cs" by (simp add: lists_ok_def)
  have "class_ok m c" if "c \<in> set cs" for c
  proof (rule class_ok_cong [of "pl_mem pl"])
    show "class_ok (pl_mem pl) c" using cl that by (simp add: list_all_iff)
    show "map_option (\<lambda>f. (fb_next_samesz f, fb_sz f)) (m a) = map_option (\<lambda>f. (fb_next_samesz f, fb_sz f)) (pl_mem pl a)"
      if "a \<in> set (snd c)" for a
    proof -
      have "a \<in> set (addrs cs)" using \<open>c \<in> set cs\<close> that by (auto simp: addrs_def)
      then show ?thesis by (simp add: same)
    qed
  qed
  moreover have "chain fb_next_diffsz m (pl_poolfree pl) (map (hd \<circ> snd) cs)"
    by (rule chain_cong [of _ _ _ "pl_mem pl"]) (use same heads_in_addrs [OF cl] ok in \<open>auto simp: lists_ok_def\<close>)
  ultimately have "lists_ok m (pl_poolfree pl) cs" using ok by (simp add: lists_ok_def list_all_iff)
  then show ?thesis using rep m(1) by (simp add: pool_rep_def in_pool_def)
qed

interpretation pool: allocator ioc_malloc ioc_free writes_within pool_ok sizeof_iocFreeBlk
proof
  fix s :: iocPool and s' L a n
  assume "pool_ok s L"
  then obtain cs where rep: "pool_rep s L cs" unfolding pool_ok_def by blast
  show "all_apart L" using rep by (auto simp: pool_rep_def all_apart_def)
  show "\<exists>s'. ioc_free s (Some a) n = Some s' \<and> pool_ok s' (L - {(a, n)})" if "(a, n) \<in> L"
    using free_rep [OF rep that] unfolding pool_ok_def by blast
  show "pool_ok s' L" if "writes_within L s s'" using live_writes_rep [OF rep that] unfolding pool_ok_def by blast
  show "\<exists>p s'. ioc_malloc s n = Some (p, s') \<and>
      (case p of None \<Rightarrow> pool_ok s' L | Some a \<Rightarrow> (a, n) \<notin> L \<and> pool_ok s' (insert (a, n) L))" if "sizeof_iocFreeBlk \<le> n"
  proof (cases "n \<in> fst ` set cs")
    case True
    then show ?thesis using malloc_reuse [OF rep True] unfolding pool_ok_def by force
  next
    case False
    then show ?thesis using malloc_fresh [OF rep False that] rep unfolding pool_ok_def
      by (cases "n \<le> pl_poolsz s - pl_poolpos s") auto
  qed
qed

section \<open>Properties\<close>

lemma new_pool_ok: "pool_ok (ioc_set_memory_pool buf sz) {}"
  unfolding pool_ok_def
  by (rule exI [of _ "[]"]) (simp add: pool_rep_def ioc_set_memory_pool_def lists_ok_def all_apart_def)

text \<open>
  \<^bold>\<open>C32\<close>: allocated blocks never overlap. In a pool set up by \<open>ioc_set_memory_pool\<close>, every sequence of
  allocations, releases of allocated blocks with their size, and arbitrary writes into allocated
  blocks runs through: no operation reads a link that is not there or loops, the blocks that are in
  use are pairwise disjoint and lie within the pool.
\<close>

theorem pool_blocks_disjoint:
  assumes "pool.legal ops (ioc_set_memory_pool buf sz, {})"
  shows "\<exists>pl L. pool.run ops (ioc_set_memory_pool buf sz, {}) = Some (pl, L) \<and> all_apart L \<and> (\<forall>b \<in> L. in_pool pl b)"
proof -
  obtain pl L where r: "pool.run ops (ioc_set_memory_pool buf sz, {}) = Some (pl, L)" "all_apart L" "pool_ok pl L"
    using pool.run_apart [OF new_pool_ok assms] by blast
  then show ?thesis by (auto simp: pool_ok_def pool_rep_def)
qed

lemma sample_allocs: "ioc_malloc (ioc_set_memory_pool 100 80) 32 =
    Some (Some 100, \<lparr>pl_pool = 100, pl_poolsz = 80, pl_poolpos = 32, pl_poolfree = None, pl_mem = Map.empty\<rparr>)"
  "ioc_malloc \<lparr>pl_pool = 100, pl_poolsz = 80, pl_poolpos = 32, pl_poolfree = None, pl_mem = Map.empty\<rparr> 40 =
    Some (Some 132, \<lparr>pl_pool = 100, pl_poolsz = 80, pl_poolpos = 72, pl_poolfree = None, pl_mem = Map.empty\<rparr>)"
  by (simp_all add: ioc_malloc_def ioc_set_memory_pool_def find_size_simps)

theorem pool_blocks_disjoint_witness:
  "\<exists>pl L. pool.run [Alloc 32, Alloc 40, Release (100, 32), Alloc 32] (ioc_set_memory_pool 100 80, {}) = Some (pl, L) \<and>
    all_apart L \<and> (\<forall>b \<in> L. in_pool pl b)"
proof (rule pool_blocks_disjoint)
  have "sizeof_iocFreeBlk \<le> 32" "sizeof_iocFreeBlk \<le> 40" by (simp_all add: sizeof_iocFreeBlk_def)
  then show "pool.legal [Alloc 32, Alloc 40, Release (100, 32), Alloc 32] (ioc_set_memory_pool 100 80, {})"
    by (simp add: sample_allocs)
qed

text \<open>
  \<^bold>\<open>C33\<close>: released memory is found again. After a block has been released, the next request for a
  block of that size succeeds, even when nothing is left of the unused part of the pool.
\<close>

theorem pool_reuses_released:
  assumes "pool_ok pl L" and "(r, sz) \<in> L"
  shows "\<exists>pl1 a pl2. ioc_free pl (Some r) sz = Some pl1 \<and> ioc_malloc pl1 sz = Some (Some a, pl2) \<and>
    (a, sz) \<notin> L - {(r, sz)} \<and> pool_ok pl2 (insert (a, sz) (L - {(r, sz)})) \<and> pl_poolpos pl2 = pl_poolpos pl"
proof -
  obtain cs where rep: "pool_rep pl L cs" using assms(1) unfolding pool_ok_def by blast
  obtain pl1 cs1 where f: "ioc_free pl (Some r) sz = Some pl1" "pool_rep pl1 (L - {(r, sz)}) cs1" "sz \<in> fst ` set cs1"
    using free_rep [OF rep assms(2)] by blast
  obtain a pl2 cs2 where m: "ioc_malloc pl1 sz = Some (Some a, pl2)" "(a, sz) \<notin> L - {(r, sz)}" "pool_rep pl2 (insert (a, sz) (L - {(r, sz)})) cs2"
    using malloc_reuse [OF f(2,3)] by blast
  have "pl_poolpos pl1 = pl_poolpos pl"
    using f(1) by (auto simp: ioc_free_def Let_def bind_eq_Some_conv split: option.splits)
  moreover have "pl_poolpos pl2 = pl_poolpos pl1"
  proof -
    have "find_size (pl_mem pl1) sz None (pl_poolfree pl1) \<noteq> Some None"
    proof -
      have "list_all (class_ok (pl_mem pl1)) cs1" "chain fb_next_diffsz (pl_mem pl1) (pl_poolfree pl1) (map (hd \<circ> snd) cs1)"
        using f(2) by (simp_all add: pool_rep_def lists_ok_def)
      then show ?thesis using find_class [OF f(3)] find_size_present by (metis option.distinct(1) option.inject)
    qed
    then show ?thesis using m(1) by (auto simp: ioc_malloc_def bind_eq_Some_conv split: option.splits)
  qed
  ultimately show ?thesis using f(1) m unfolding pool_ok_def by auto
qed

theorem pool_reuses_released_witness:
  "\<exists>pl1 a pl2. ioc_free \<lparr>pl_pool = 100, pl_poolsz = 32, pl_poolpos = 32, pl_poolfree = None, pl_mem = Map.empty\<rparr> (Some 100) 32 = Some pl1 \<and>
    ioc_malloc pl1 32 = Some (Some a, pl2) \<and> (a, 32) \<notin> {(100, 32)} - {(100, 32)} \<and>
    pool_ok pl2 (insert (a, 32) ({(100, 32)} - {(100, 32)})) \<and> pl_poolpos pl2 = 32"
proof -
  have "pool_rep \<lparr>pl_pool = 100, pl_poolsz = 32, pl_poolpos = 32, pl_poolfree = None, pl_mem = Map.empty\<rparr> {(100, 32)} []"
    by (simp add: pool_rep_def lists_ok_def all_apart_def in_pool_def sizeof_iocFreeBlk_def)
  then have "pool_ok \<lparr>pl_pool = 100, pl_poolsz = 32, pl_poolpos = 32, pl_poolfree = None, pl_mem = Map.empty\<rparr> {(100, 32)}"
    unfolding pool_ok_def by blast
  from pool_reuses_released [OF this, of 100 32] show ?thesis by simp
qed

end
