(* ===== verification/Ioc_Mbinfo.thy ===== *)
theory Ioc_Mbinfo
  imports Ioc_Buffers Ioc_Connection_Receive
begin

text \<open>
  Memory block information: how two ends learn of each other's memory blocks and bind those that
  match (\<open>code/ioc_memory_block_info.c\<close> and \<open>ioc_make_mblk_info_frame\<close> of
  \<open>code/ioc_connection_send.c\<close>).

  A frame with the description of one memory block is sent as a system frame. Each connection keeps
  cursors into lists of blocks whose information it still has to send. On reception the block with
  the same names and device number is looked up and source and target buffers are created.

  The model is that of a build with memory block specific device names, bidirectional blocks and
  server to cloud code. Names are stored without the terminating zero.
\<close>

section \<open>Information frames\<close>

definition IOC_INFO_D_2BYTES :: byte where "IOC_INFO_D_2BYTES = 2"
definition IOC_INFO_D_4BYTES :: byte where "IOC_INFO_D_4BYTES = 4"
definition IOC_INFO_N_2BYTES :: byte where "IOC_INFO_N_2BYTES = 8"
definition IOC_INFO_N_4BYTES :: byte where "IOC_INFO_N_4BYTES = 16"
definition IOC_INFO_F_2BYTES :: byte where "IOC_INFO_F_2BYTES = 32"
definition IOC_INFO_HAS_DEVICE_NAME :: byte where "IOC_INFO_HAS_DEVICE_NAME = 64"
definition IOC_INFO_HAS_MBLK_NAME :: byte where "IOC_INFO_HAS_MBLK_NAME = 128"
definition IOC_SYSFRAME_MBLK_INFO :: byte where "IOC_SYSFRAME_MBLK_INFO = 1"
definition IOC_AUTO_DEVICE_NR :: u32 where "IOC_AUTO_DEVICE_NR = 9000"
definition IOC_TO_AUTO_DEVICE_NR :: u32 where "IOC_TO_AUTO_DEVICE_NR = IOC_AUTO_DEVICE_NR - 1"
definition IOC_MBLK_LOCAL_AUTO_ID :: byte where "IOC_MBLK_LOCAL_AUTO_ID = 1"
definition IOC_NAME_SZ :: nat where "IOC_NAME_SZ = 16"
definition IOC_NETWORK_NAME_SZ :: nat where "IOC_NETWORK_NAME_SZ = 24"

lemmas info_flag_defs = IOC_INFO_D_2BYTES_def IOC_INFO_D_4BYTES_def IOC_INFO_N_2BYTES_def IOC_INFO_N_4BYTES_def
  IOC_INFO_F_2BYTES_def IOC_INFO_HAS_DEVICE_NAME_def IOC_INFO_HAS_MBLK_NAME_def

record iocMemoryBlockInfo =
  mi_device_name :: "byte list"
  mi_device_nr :: u32
  mi_network_name :: "byte list"
  mi_mblk_name :: "byte list"
  mi_mblk_id :: u32
  mi_nbytes :: u32
  mi_flags :: u16
  mi_local_flags :: byte

text \<open>The device number as it is sent: blocks of an automatically numbered device are marked.\<close>

definition sent_device_nr :: "iocConnection \<Rightarrow> iocMemoryBlock \<Rightarrow> u32" where
  "sent_device_nr con mblk =
    (if mb_device_nr mblk > IOC_AUTO_DEVICE_NR \<and> mb_device_nr mblk = con_auto_device_nr con \<and>
        has_flag (mb_local_flags mblk) IOC_MBLK_LOCAL_AUTO_ID
     then IOC_TO_AUTO_DEVICE_NR else mb_device_nr mblk)"

text \<open>The content that \<open>ioc_make_mblk_info_frame\<close> writes behind the header.\<close>

definition mblk_info_content :: "u32 \<Rightarrow> iocMemoryBlock \<Rightarrow> byte list" where
  "mblk_info_content device_nr mblk =
    (let (d, d2, d4) = ioc_msg_set_uint device_nr IOC_INFO_D_2BYTES IOC_INFO_D_4BYTES;
         (n, n2, n4) = ioc_msg_set_uint (word_of_int (mb_nbytes mblk)) IOC_INFO_N_2BYTES IOC_INFO_N_4BYTES;
         (f, f2) = ioc_msg_set_ushort (mb_flags mblk);
         (dn, dfl) = (if mb_device_name mblk \<noteq> []
            then (ioc_msg_setstr (mb_device_name mblk) @ ioc_msg_setstr (mb_network_name mblk), IOC_INFO_HAS_DEVICE_NAME) else ([], 0));
         (mn, mfl) = (if mb_mblk_name mblk \<noteq> [] then (ioc_msg_setstr (mb_mblk_name mblk), IOC_INFO_HAS_MBLK_NAME) else ([], 0));
         iflags = d2 OR d4 OR n2 OR n4 OR (if f2 then IOC_INFO_F_2BYTES else 0) OR dfl OR mfl
     in IOC_SYSFRAME_MBLK_INFO # iflags # d @ n @ f @ dn @ mn)"

text \<open>\<open>ioc_process_received_mbinfo_frame\<close> up to the device number handling; \<open>None\<close> inside is a corrupted frame.\<close>

definition parse_mbinfo :: "u32 \<Rightarrow> byte list \<Rightarrow> iocMemoryBlockInfo option option" where
  "parse_mbinfo mblk_id data = do {
     iflags \<leftarrow> rd data 1;
     (device_nr, p1) \<leftarrow> ioc_msg_get_uint data 2 (has_flag iflags IOC_INFO_D_2BYTES) (has_flag iflags IOC_INFO_D_4BYTES);
     (nbytes, p2) \<leftarrow> ioc_msg_get_uint data p1 (has_flag iflags IOC_INFO_N_2BYTES) (has_flag iflags IOC_INFO_N_4BYTES);
     (flags, p3) \<leftarrow> ioc_msg_get_ushort data p2 (has_flag iflags IOC_INFO_F_2BYTES);
     (s1, device_name, p4) \<leftarrow> (if has_flag iflags IOC_INFO_HAS_DEVICE_NAME then ioc_msg_getstr data IOC_NAME_SZ p3
        else Some (OSAL_SUCCESS, [], p3));
     if s1 \<noteq> OSAL_SUCCESS then Some None else do {
     (s2, network_name, p5) \<leftarrow> (if has_flag iflags IOC_INFO_HAS_DEVICE_NAME then ioc_msg_getstr data IOC_NETWORK_NAME_SZ p4
        else Some (OSAL_SUCCESS, [], p4));
     if s2 \<noteq> OSAL_SUCCESS then Some None else do {
     (s3, mblk_name, p6) \<leftarrow> (if has_flag iflags IOC_INFO_HAS_MBLK_NAME then ioc_msg_getstr data IOC_NAME_SZ p5
        else Some (OSAL_SUCCESS, [], p5));
     if s3 \<noteq> OSAL_SUCCESS then Some None else
     Some (Some \<lparr>mi_device_name = device_name, mi_device_nr = device_nr, mi_network_name = network_name, mi_mblk_name = mblk_name,
       mi_mblk_id = mblk_id, mi_nbytes = nbytes, mi_flags = flags, mi_local_flags = 0\<rparr>) }}}"

text \<open>
  The device number of a received block. \<open>auto_nr\<close> is the number \<open>ioc_get_automatic_device_nr\<close>
  reserves when the connection has none yet.
\<close>

definition receive_device_nr :: "u32 \<Rightarrow> u32 \<Rightarrow> iocConnection \<Rightarrow> iocMemoryBlockInfo \<Rightarrow> iocConnection \<times> iocMemoryBlockInfo" where
  "receive_device_nr auto_nr root_device_nr con info =
    (if mi_device_nr info = IOC_AUTO_DEVICE_NR then
       let con1 = (if con_auto_device_nr con = 0 then con\<lparr>con_auto_device_nr := auto_nr\<rparr> else con)
       in (con1, info\<lparr>mi_device_nr := con_auto_device_nr con1, mi_local_flags := IOC_MBLK_LOCAL_AUTO_ID\<rparr>)
     else if mi_device_nr info = IOC_TO_AUTO_DEVICE_NR \<and> root_device_nr = IOC_AUTO_DEVICE_NR
     then (con, info\<lparr>mi_device_nr := IOC_AUTO_DEVICE_NR\<rparr>)
     else (con, info))"

definition name_ok :: "nat \<Rightarrow> byte list \<Rightarrow> bool" where
  "name_ok sz name \<longleftrightarrow> length name < sz"

definition names_ok :: "iocMemoryBlock \<Rightarrow> bool" where
  "names_ok mblk \<longleftrightarrow> name_ok IOC_NAME_SZ (mb_device_name mblk) \<and> name_ok IOC_NETWORK_NAME_SZ (mb_network_name mblk) \<and>
     name_ok IOC_NAME_SZ (mb_mblk_name mblk)"

lemma set_uint_flags:
  assumes "ioc_msg_set_uint i two four = (bs, f, f4)"
  shows "f = 0 \<or> f = two" "f4 = 0 \<or> f4 = four" "1 \<le> length bs" "length bs \<le> 4"
  using assms by (auto simp: ioc_msg_set_uint_def Let_def split: if_splits)

lemma set_ushort_length: "length (fst (ioc_msg_set_ushort i)) \<le> 2"
  by (simp add: ioc_msg_set_ushort_def)

lemma mblk_info_content_length:
  assumes "names_ok mblk"
  shows "length (mblk_info_content nr mblk) \<le> 68"
proof -
  obtain d d2 d4 where d: "ioc_msg_set_uint nr IOC_INFO_D_2BYTES IOC_INFO_D_4BYTES = (d, d2, d4)" by (metis prod_cases3)
  obtain n n2 n4 where n: "ioc_msg_set_uint (word_of_int (mb_nbytes mblk)) IOC_INFO_N_2BYTES IOC_INFO_N_4BYTES = (n, n2, n4)" by (metis prod_cases3)
  obtain f f2 where f: "ioc_msg_set_ushort (mb_flags mblk) = (f, f2)" by (metis surj_pair)
  show ?thesis using assms set_uint_flags(4) [OF d] set_uint_flags(4) [OF n] set_ushort_length [of "mb_flags mblk"]
    by (simp add: mblk_info_content_def d n f Let_def ioc_msg_setstr_def names_ok_def name_ok_def IOC_NAME_SZ_def IOC_NETWORK_NAME_SZ_def)
qed

lemma get_uint_at:
  assumes "ioc_msg_set_uint i two four = (bs, f, f4)" and "two \<noteq> 0" "four \<noteq> 0" and "data = pre @ bs @ rest" "p = length pre"
    and "t = (f \<noteq> 0)" "u = (f4 \<noteq> 0)"
  shows "ioc_msg_get_uint data p t u = Some (i, p + length bs)"
  using get_uint_set_uint [OF assms(1-3), of pre rest] assms(4-) by simp

lemma get_ushort_at:
  assumes "ioc_msg_set_ushort i = (bs, two)" and "data = pre @ bs @ rest" "p = length pre"
  shows "ioc_msg_get_ushort data p two = Some (i, p + length bs)"
  using get_ushort_set_ushort [OF assms(1), of pre rest] assms(2-) by simp

lemma getstr_at:
  assumes "name_ok sz str" and "sz \<le> 256" and "data = pre @ ioc_msg_setstr str @ rest" "p = length pre"
  shows "ioc_msg_getstr data sz p = Some (OSAL_SUCCESS, str, p + length (ioc_msg_setstr str))"
  using getstr_setstr [of str sz pre rest] assms by (simp add: name_ok_def)

text \<open>What the other end learns of a block.\<close>

definition info_of :: "u32 \<Rightarrow> u32 \<Rightarrow> iocMemoryBlock \<Rightarrow> iocMemoryBlockInfo" where
  "info_of mblk_id device_nr mblk = \<lparr>mi_device_name = mb_device_name mblk, mi_device_nr = device_nr,
     mi_network_name = (if mb_device_name mblk = [] then [] else mb_network_name mblk), mi_mblk_name = mb_mblk_name mblk,
     mi_mblk_id = mblk_id, mi_nbytes = word_of_int (mb_nbytes mblk), mi_flags = mb_flags mblk, mi_local_flags = 0\<rparr>"

lemma has_flag_part: "f = 0 \<or> f = (two :: byte) \<Longrightarrow> has_flag f m \<longleftrightarrow> f \<noteq> 0 \<and> has_flag two m"
  by (auto simp: has_flag_def)

lemma parse_mblk_info:
  assumes ok: "names_ok mblk"
  shows "parse_mbinfo i (mblk_info_content nr mblk @ rest) = Some (Some (info_of i nr mblk))"
proof -
  obtain d d2 d4 where d: "ioc_msg_set_uint nr IOC_INFO_D_2BYTES IOC_INFO_D_4BYTES = (d, d2, d4)" by (metis prod_cases3)
  obtain n n2 n4 where n: "ioc_msg_set_uint (word_of_int (mb_nbytes mblk)) IOC_INFO_N_2BYTES IOC_INFO_N_4BYTES = (n, n2, n4)" by (metis prod_cases3)
  obtain f f2 where f: "ioc_msg_set_ushort (mb_flags mblk) = (f, f2)" by (metis surj_pair)
  define hasd where "hasd \<longleftrightarrow> mb_device_name mblk \<noteq> []"
  define hm where "hm \<longleftrightarrow> mb_mblk_name mblk \<noteq> []"
  define dn where "dn = (if hasd then ioc_msg_setstr (mb_device_name mblk) else [])"
  define nn where "nn = (if hasd then ioc_msg_setstr (mb_network_name mblk) else [])"
  define mn where "mn = (if hm then ioc_msg_setstr (mb_mblk_name mblk) else [])"
  define fl where "fl = d2 OR d4 OR n2 OR n4 OR (if f2 then IOC_INFO_F_2BYTES else 0) OR
    (if hasd then IOC_INFO_HAS_DEVICE_NAME else 0) OR (if hm then IOC_INFO_HAS_MBLK_NAME else 0)"
  define data where "data = mblk_info_content nr mblk @ rest"
  have data: "data = IOC_SYSFRAME_MBLK_INFO # fl # d @ n @ f @ dn @ nn @ mn @ rest"
    by (simp add: data_def mblk_info_content_def d n f Let_def dn_def nn_def mn_def hasd_def hm_def fl_def)
  note fd = set_uint_flags(1,2) [OF d] and fn = set_uint_flags(1,2) [OF n]
  have bits: "has_flag fl IOC_INFO_D_2BYTES = (d2 \<noteq> 0)" "has_flag fl IOC_INFO_D_4BYTES = (d4 \<noteq> 0)"
    "has_flag fl IOC_INFO_N_2BYTES = (n2 \<noteq> 0)" "has_flag fl IOC_INFO_N_4BYTES = (n4 \<noteq> 0)"
    "has_flag fl IOC_INFO_F_2BYTES = f2" "has_flag fl IOC_INFO_HAS_DEVICE_NAME = hasd" "has_flag fl IOC_INFO_HAS_MBLK_NAME = hm"
    unfolding fl_def has_flag_OR has_flag_if has_flag_part [OF fd(1)] has_flag_part [OF fd(2)] has_flag_part [OF fn(1)] has_flag_part [OF fn(2)]
    by (simp_all add: info_flag_defs has_flag_def)
  have nz: "IOC_INFO_D_2BYTES \<noteq> 0" "IOC_INFO_D_4BYTES \<noteq> 0" "IOC_INFO_N_2BYTES \<noteq> 0" "IOC_INFO_N_4BYTES \<noteq> 0" by (simp_all add: info_flag_defs)
  let ?p1 = "2 + length d" and ?p2 = "2 + length d + length n" and ?p3 = "2 + length d + length n + length f"
  let ?p4 = "2 + length d + length n + length f + length dn" and ?p5 = "2 + length d + length n + length f + length dn + length nn"
  have g1: "ioc_msg_get_uint data 2 (d2 \<noteq> 0) (d4 \<noteq> 0) = Some (nr, ?p1)"
    by (rule get_uint_at [OF d nz(1,2), where pre = "[IOC_SYSFRAME_MBLK_INFO, fl]"]) (simp_all add: data)
  have g2: "ioc_msg_get_uint data ?p1 (n2 \<noteq> 0) (n4 \<noteq> 0) = Some (word_of_int (mb_nbytes mblk), ?p2)"
    by (rule get_uint_at [OF n nz(3,4), where pre = "[IOC_SYSFRAME_MBLK_INFO, fl] @ d"]) (simp_all add: data)
  have g3: "ioc_msg_get_ushort data ?p2 f2 = Some (mb_flags mblk, ?p3)"
    by (rule get_ushort_at [OF f, where pre = "[IOC_SYSFRAME_MBLK_INFO, fl] @ d @ n"]) (simp_all add: data)
  have nm: "name_ok IOC_NAME_SZ (mb_device_name mblk)" "name_ok IOC_NETWORK_NAME_SZ (mb_network_name mblk)" "name_ok IOC_NAME_SZ (mb_mblk_name mblk)"
    using ok by (simp_all add: names_ok_def)
  have sz: "IOC_NAME_SZ \<le> 256" "IOC_NETWORK_NAME_SZ \<le> 256" by (simp_all add: IOC_NAME_SZ_def IOC_NETWORK_NAME_SZ_def)
  have g4: "(if hasd then ioc_msg_getstr data IOC_NAME_SZ ?p3 else Some (OSAL_SUCCESS, [], ?p3)) = Some (OSAL_SUCCESS, mb_device_name mblk, ?p4)"
    using getstr_at [OF nm(1) sz(1), of data "[IOC_SYSFRAME_MBLK_INFO, fl] @ d @ n @ f" "nn @ mn @ rest" ?p3]
    by (auto simp: data dn_def hasd_def)
  have g5: "(if hasd then ioc_msg_getstr data IOC_NETWORK_NAME_SZ ?p4 else Some (OSAL_SUCCESS, [], ?p4)) =
      Some (OSAL_SUCCESS, if hasd then mb_network_name mblk else [], ?p5)"
    using getstr_at [OF nm(2) sz(2), of data "[IOC_SYSFRAME_MBLK_INFO, fl] @ d @ n @ f @ dn" "mn @ rest" ?p4]
    by (auto simp: data nn_def)
  have g6: "\<exists>p6. (if hm then ioc_msg_getstr data IOC_NAME_SZ ?p5 else Some (OSAL_SUCCESS, [], ?p5)) = Some (OSAL_SUCCESS, mb_mblk_name mblk, p6)"
    using getstr_at [OF nm(3) sz(1), of data "[IOC_SYSFRAME_MBLK_INFO, fl] @ d @ n @ f @ dn @ nn" rest ?p5]
    by (auto simp: data mn_def hm_def)
  then obtain p6 where g6: "(if hm then ioc_msg_getstr data IOC_NAME_SZ ?p5 else Some (OSAL_SUCCESS, [], ?p5)) = Some (OSAL_SUCCESS, mb_mblk_name mblk, p6)" ..
  have r: "rd data 1 = Some fl" by (simp add: data rd_Cons)
  have "parse_mbinfo i data = Some (Some (info_of i nr mblk))"
    unfolding parse_mbinfo_def r bind.bind_lunit bits g1 g2 g3 g4 g5 g6 prod.case
    by (simp add: info_of_def hasd_def)
  then show ?thesis by (simp add: data_def)
qed

section \<open>Making the frame\<close>

text \<open>
  A system frame: header, content behind it, and \<open>ioc_finish_frame\<close>, as both
  \<open>ioc_make_mblk_info_frame\<close> and \<open>ioc_make_remove_mblk_req_frame\<close> do it. The status tells whether the
  frame is in the frame buffer (\<open>OSAL_SUCCESS\<close>) or was held back by flow control. The content is written
  without a check of the buffer size; a write outside the frame buffer is \<open>None\<close>.
\<close>

definition make_system_frame :: "(byte list \<Rightarrow> u16) \<Rightarrow> iocConnection \<Rightarrow> u32 \<Rightarrow> byte list \<Rightarrow> (osalStatus \<times> iocConnection) option" where
  "make_system_frame checksum con mblk_id content = do {
     (header, ptrs) \<leftarrow> ioc_generate_header (con_is_serial con) (fo_frame_nr con) mblk_id 0;
     buf1 \<leftarrow> wrs (fo_buf con) 0 header;
     buf2 \<leftarrow> wrs buf1 (int (shp_header_sz ptrs)) content;
     ioc_finish_frame checksum (con\<lparr>fo_buf := buf2\<rparr>) ptrs (int (length content)) }"

text \<open>\<open>ioc_make_mblk_info_frame\<close> up to \<open>ioc_mbinfo_sent\<close>.\<close>

definition ioc_make_mblk_info_frame :: "(byte list \<Rightarrow> u16) \<Rightarrow> iocConnection \<Rightarrow> iocMemoryBlock \<Rightarrow> (osalStatus \<times> iocConnection) option" where
  "ioc_make_mblk_info_frame checksum con mblk =
     make_system_frame checksum con (mb_mblk_id mblk) (mblk_info_content (sent_device_nr con mblk) mblk)"

lemma finish_frame_image:
  assumes "fo_buf con = frame_image (con_is_serial con) (fo_frame_nr con) 0 0 0 mb ad content @ rest"
    and air: "int (header_length (con_is_serial con) mb ad + length content) \<le> con_max_in_air con - bytes_in_air con"
  shows "ioc_finish_frame checksum con (header_ptrs (con_is_serial con) mb ad) (int (length content)) =
    Some (OSAL_SUCCESS, con\<lparr>fo_buf := data_frame checksum con IOC_SYSTEM_FRAME mb ad content @ rest,
      fo_used := int (length (data_frame checksum con IOC_SYSTEM_FRAME mb ad content)), fo_frame_nr := next_frame_out_nr (fo_frame_nr con)\<rparr>)"
proof -
  let ?ser = "con_is_serial con" and ?nr = "fo_frame_nr con" and ?ds = "of_nat (length content) :: u16"
  have u: "int (length content) + int (shp_header_sz (header_ptrs ?ser mb ad)) = int (header_length ?ser mb ad + length content)"
    by (simp add: header_ptrs_def)
  have na: "\<not> con_max_in_air con - bytes_in_air con < int (header_length ?ser mb ad + length content)" using air by simp
  have fl: "shp_flags (header_ptrs ?ser mb ad) = (if ?ser then 3 else 1)" by simp
  have z: "0 OR IOC_SYSTEM_FRAME = IOC_SYSTEM_FRAME" by simp
  show ?thesis
    unfolding ioc_finish_frame_def Let_def u assms(1) set_data_sz_image bind.bind_lunit fl or_at_image set_checksum_image z
    using na by (simp add: length_data_frame data_frame_def Let_def)
qed

text \<open>What is in the connection once a system frame has been made or held back.\<close>

definition system_frame_made ::
  "(byte list \<Rightarrow> u16) \<Rightarrow> iocConnection \<Rightarrow> u32 \<Rightarrow> byte list \<Rightarrow> osalStatus \<Rightarrow> iocConnection \<Rightarrow> bool" where
  "system_frame_made checksum con mb content st con' \<longleftrightarrow>
    (if st = OSAL_SUCCESS
     then take (nat (fo_used con')) (fo_buf con') = data_frame checksum con IOC_SYSTEM_FRAME mb 0 content \<and>
       fo_used con' \<le> int (14 + length content) \<and> fo_frame_nr con' = next_frame_out_nr (fo_frame_nr con)
     else st = OSAL_PENDING \<and> con_max_in_air con - bytes_in_air con < int (14 + length content) \<and> fo_used con' = fo_used con) \<and>
    (\<exists>b u k. con' = con\<lparr>fo_buf := b, fo_used := u, fo_frame_nr := k\<rparr>)"

lemma make_system_frame_spec:
  assumes sz: "14 + length content \<le> length (fo_buf con)"
  shows "\<exists>st con'. make_system_frame checksum con mb content = Some (st, con') \<and> system_frame_made checksum con mb content st con'"
proof -
  let ?ser = "con_is_serial con" and ?nr = "fo_frame_nr con"
  let ?h = "frame_image (con_is_serial con) (fo_frame_nr con) 0 0 0 mb 0 []"
  have lh: "length ?h = header_length ?ser mb 0" "header_length ?ser mb 0 \<le> 14" by (simp_all add: header_length_bound)
  define rest where "rest = drop (length content) (drop (length ?h) (fo_buf con))"
  have w1: "wrs (fo_buf con) 0 ?h = Some (?h @ drop (length ?h) (fo_buf con))" by (rule wrs_front) (use lh sz in simp)
  have w2: "wrs (?h @ drop (length ?h) (fo_buf con)) (int (shp_header_sz (header_ptrs ?ser mb 0))) content =
      Some (frame_image ?ser ?nr 0 0 0 mb 0 content @ rest)"
  proof -
    have "int (shp_header_sz (header_ptrs ?ser mb 0)) = int (length ?h)" by (simp add: header_ptrs_def)
    then show ?thesis using wrs_behind [of content "drop (length ?h) (fo_buf con)" ?h] lh sz by (simp add: rest_def image_Nil_append)
  qed
  let ?con = "con\<lparr>fo_buf := frame_image ?ser ?nr 0 0 0 mb 0 content @ rest\<rparr>"
  have f: "make_system_frame checksum con mb content = ioc_finish_frame checksum ?con (header_ptrs ?ser mb 0) (int (length content))"
    unfolding make_system_frame_def ioc_generate_header_eq bind.bind_lunit prod.case w1 w2 ..
  have b: "con_is_serial ?con = ?ser" "bytes_in_air ?con = bytes_in_air con" by (simp_all add: con_is_serial_def bytes_in_air_def ack_mask_def)
  show ?thesis
  proof (cases "int (header_length ?ser mb 0 + length content) \<le> con_max_in_air con - bytes_in_air con")
    case True
    have "data_frame checksum ?con IOC_SYSTEM_FRAME mb 0 content = data_frame checksum con IOC_SYSTEM_FRAME mb 0 content"
      by (simp add: data_frame_def con_is_serial_def)
    then have e: "make_system_frame checksum con mb content = Some (OSAL_SUCCESS,
        con\<lparr>fo_buf := data_frame checksum con IOC_SYSTEM_FRAME mb 0 content @ rest,
          fo_used := int (length (data_frame checksum con IOC_SYSTEM_FRAME mb 0 content)), fo_frame_nr := next_frame_out_nr (fo_frame_nr con)\<rparr>)"
      (is "_ = Some (_, ?con')")
      using finish_frame_image [of ?con mb 0 content rest checksum] True b unfolding f by simp
    have x: "\<exists>b u k. ?con' = con\<lparr>fo_buf := b, fo_used := u, fo_frame_nr := k\<rparr>" by blast
    have m: "take (nat (fo_used ?con')) (fo_buf ?con') = data_frame checksum con IOC_SYSTEM_FRAME mb 0 content \<and>
       fo_used ?con' \<le> int (14 + length content) \<and> fo_frame_nr ?con' = next_frame_out_nr (fo_frame_nr con)"
      using lh by (simp add: length_data_frame)
    have "system_frame_made checksum con mb content OSAL_SUCCESS ?con'"
      unfolding system_frame_made_def using m x by (simp only: if_True simp_thms)
    then show ?thesis using e by blast
  next
    case False
    then have e: "make_system_frame checksum con mb content = Some (OSAL_PENDING, ?con)"
      using b unfolding f by (simp add: ioc_finish_frame_def header_ptrs_def Let_def)
    have "?con = con\<lparr>fo_buf := fo_buf ?con, fo_used := fo_used con, fo_frame_nr := fo_frame_nr con\<rparr>"
      by (rule iocConnection.equality) simp_all
    then have x: "\<exists>b u k. ?con = con\<lparr>fo_buf := b, fo_used := u, fo_frame_nr := k\<rparr>" by blast
    have m: "con_max_in_air con - bytes_in_air con < int (14 + length content) \<and> fo_used ?con = fo_used con"
      using False lh by simp
    have "OSAL_PENDING \<noteq> OSAL_SUCCESS" by simp
    then have "system_frame_made checksum con mb content OSAL_PENDING ?con"
      unfolding system_frame_made_def using m x by (simp only: if_False simp_thms)
    then show ?thesis using e by blast
  qed
qed

lemma make_mblk_info_frame_spec:
  assumes ok: "names_ok mblk" and sz: "82 \<le> length (fo_buf con)"
  shows "\<exists>st con'. ioc_make_mblk_info_frame checksum con mblk = Some (st, con') \<and>
    system_frame_made checksum con (mb_mblk_id mblk) (mblk_info_content (sent_device_nr con mblk) mblk) st con'"
  unfolding ioc_make_mblk_info_frame_def
  by (rule make_system_frame_spec) (use mblk_info_content_length [OF ok, of "sent_device_nr con mblk"] sz in simp)

section \<open>Property\<close>

text \<open>
  \<^bold>\<open>C31\<close> Memory block information survives the wire: when \<open>ioc_make_mblk_info_frame\<close> has put a
  frame in the frame buffer, the frame is a system frame of at most 82 bytes for the block's identifier,
  so it fits even a serial frame, and parsing its content at the other end gives the names, the device
  number as sent, the size and the flags of the block (the network name only with a device name).
\<close>

theorem mblk_info_roundtrip:
  assumes "names_ok mblk" and "82 \<le> length (fo_buf con)" and "ioc_make_mblk_info_frame checksum con mblk = Some (OSAL_SUCCESS, con')"
  shows "\<exists>content. take (nat (fo_used con')) (fo_buf con') = data_frame checksum con IOC_SYSTEM_FRAME (mb_mblk_id mblk) 0 content \<and>
    fo_used con' \<le> 82 \<and> parse_mbinfo (mb_mblk_id mblk) content = Some (Some (info_of (mb_mblk_id mblk) (sent_device_nr con mblk) mblk))"
proof -
  let ?c = "mblk_info_content (sent_device_nr con mblk) mblk"
  have "system_frame_made checksum con (mb_mblk_id mblk) ?c OSAL_SUCCESS con'"
    using make_mblk_info_frame_spec [OF assms(1,2), of checksum] assms(3) by simp
  then show ?thesis using parse_mblk_info [OF assms(1), of _ _ "[]"] mblk_info_content_length [OF assms(1), of "sent_device_nr con mblk"]
    by (intro exI [of _ ?c]) (simp add: system_frame_made_def)
qed

definition mbinfo_sample :: "iocMemoryBlock" where
  "mbinfo_sample = (mblk_sample [1, 2, 3])\<lparr>mb_device_name := [100, 101, 118], mb_network_name := [110, 101, 116], mb_mblk_name := [101, 120, 112]\<rparr>"

theorem mblk_info_roundtrip_witness:
  "\<exists>con' content. ioc_make_mblk_info_frame (\<lambda>_. 7) (con_sample 1) mbinfo_sample = Some (OSAL_SUCCESS, con') \<and>
    take (nat (fo_used con')) (fo_buf con') = data_frame (\<lambda>_. 7) (con_sample 1) IOC_SYSTEM_FRAME (mb_mblk_id mbinfo_sample) 0 content \<and>
    fo_used con' \<le> 82 \<and> parse_mbinfo (mb_mblk_id mbinfo_sample) content =
      Some (Some (info_of (mb_mblk_id mbinfo_sample) (sent_device_nr (con_sample 1) mbinfo_sample) mbinfo_sample))"
proof -
  have n: "names_ok mbinfo_sample"
    by (simp add: names_ok_def name_ok_def mbinfo_sample_def mblk_sample_def IOC_NAME_SZ_def IOC_NETWORK_NAME_SZ_def)
  have l: "82 \<le> length (fo_buf (con_sample 1))" "\<not> con_max_in_air (con_sample 1) - bytes_in_air (con_sample 1) < 82"
    by (simp_all add: con_sample_simps)
  obtain con' where s: "ioc_make_mblk_info_frame (\<lambda>_. 7) (con_sample 1) mbinfo_sample = Some (OSAL_SUCCESS, con')"
    using make_mblk_info_frame_spec [OF n l(1), of "\<lambda>_. 7"] l(2) mblk_info_content_length [OF n, of "sent_device_nr (con_sample 1) mbinfo_sample"] by (force simp: system_frame_made_def split: if_splits)
  show ?thesis using s mblk_info_roundtrip [OF n l(1) s] by blast
qed

end
