(* ===== verification/Ioc_Root.thy ===== *)
theory Ioc_Root
  imports Ioc_Mbinfo
begin

text \<open>
  The objects under a root (\<open>iocRoot\<close> of \<open>code/ioc_root.h\<close>): memory blocks, connections and the source
  and target buffers that bind them, with the operations that create, bind, unbind and delete them:
  \<open>code/ioc_memory_block_info.c\<close>, and \<open>ioc_initialize_memory_block\<close>, \<open>ioc_release_memory_block\<close>,
  \<open>ioc_release_dynamic_mblk_if_not_attached\<close>, \<open>ioc_generate_del_mblk_request\<close> of
  \<open>code/ioc_memory_block.c\<close> and \<open>ioc_free_source_and_target_bufs\<close> of \<open>code/ioc_connection.c\<close>.

  Pointers are references; the linked lists of a root are the lists of references in list order.
  Following a pointer to an object that does not exist is \<open>None\<close>. The references of new objects are
  arguments, as the addresses come from \<open>ioc_malloc\<close>. The dynamic network structures
  (\<open>root->droot\<close>) are not set.
\<close>

section \<open>State\<close>

record iocRoot =
  rt_mblk_refs :: "nat list"
  rt_mblk :: "nat \<rightharpoonup> iocMemoryBlock"
  rt_con_refs :: "nat list"
  rt_con :: "nat \<rightharpoonup> iocConnection"
  rt_device_nr :: u32
  rt_next_unique_mblk_id :: u32
  rt_authorization :: bool
  rt_network_name :: "byte list"
  rt_device_name :: "byte list"
  rt_password :: "byte list"

definition set_con :: "nat \<Rightarrow> iocConnection \<Rightarrow> iocRoot \<Rightarrow> iocRoot" where
  "set_con c con root = root\<lparr>rt_con := (rt_con root)(c \<mapsto> con)\<rparr>"

definition set_mblk :: "nat \<Rightarrow> iocMemoryBlock \<Rightarrow> iocRoot \<Rightarrow> iocRoot" where
  "set_mblk b mblk root = root\<lparr>rt_mblk := (rt_mblk root)(b \<mapsto> mblk)\<rparr>"

definition next_mblk :: "iocRoot \<Rightarrow> nat \<Rightarrow> nat option" where
  "next_mblk root b = next_ref b (rt_mblk_refs root)"

section \<open>Cursors of information to send\<close>

text \<open>Does the cloud setting of block and connection keep the block from this connection?\<close>

definition cloud_skips :: "iocConnection \<Rightarrow> iocMemoryBlock \<Rightarrow> bool" where
  "cloud_skips con mblk = (if has_flag (con_flags con) IOC_CLOUD_CONNECTION then has_flag (mb_flags mblk) IOC_NO_CLOUD
     else has_flag (mb_flags mblk) IOC_CLOUD_ONLY)"

definition cloud_only :: "iocMemoryBlock \<Rightarrow> bool" where
  "cloud_only mblk \<longleftrightarrow> mb_flags mblk AND (IOC_CLOUD_ONLY OR IOC_NO_CLOUD) = IOC_CLOUD_ONLY"

definition add_mblk_to_con :: "nat \<Rightarrow> iocMemoryBlock \<Rightarrow> iocConnection \<Rightarrow> iocConnection" where
  "add_mblk_to_con b mblk con =
    (if cloud_skips con mblk then con
     else if has_flag (con_flags con) IOC_CONNECT_UP
     then (if con_current_mblk con = None then con\<lparr>con_current_mblk := Some b\<rparr> else con)
     else if has_flag (con_flags con) IOC_CLOUD_CONNECTION \<and> cloud_only mblk
     then con\<lparr>con_current_cloud_mblk := Some b\<rparr>
     else con)"

definition ioc_add_mblk_to_global_mbinfo :: "nat \<Rightarrow> iocRoot \<Rightarrow> iocRoot option" where
  "ioc_add_mblk_to_global_mbinfo b root = do {
     mblk \<leftarrow> rt_mblk root b;
     Some (root\<lparr>rt_con := (\<lambda>c. if c \<in> set (rt_con_refs root) then map_option (add_mblk_to_con b mblk) (rt_con root c) else rt_con root c)\<rparr>) }"

definition ioc_mbinfo_con_is_closed :: "iocConnection \<Rightarrow> iocConnection" where
  "ioc_mbinfo_con_is_closed con = con\<lparr>con_current_mblk := None, con_current_cloud_mblk := None\<rparr>"

text \<open>The block of the source or target buffer a cursor points to.\<close>

definition sbuf_mblk :: "iocConnection \<Rightarrow> nat \<Rightarrow> nat option" where
  "sbuf_mblk con r = map_option sb_mblk (map_of (con_sbufs con) r)"

definition tbuf_mblk :: "iocConnection \<Rightarrow> nat \<Rightarrow> nat option" where
  "tbuf_mblk con r = map_option tb_mblk (map_of (con_tbufs con) r)"

definition ioc_get_mbinfo_to_send2 :: "iocConnection \<Rightarrow> nat option option" where
  "ioc_get_mbinfo_to_send2 con =
    (if has_flag (con_flags con) IOC_CONNECT_UP then Some (con_current_mblk con)
     else case con_current_cloud_mblk con of Some b \<Rightarrow> Some (Some b)
     | None \<Rightarrow> (case con_sbuf_mbinfo_down con of Some r \<Rightarrow> map_option Some (sbuf_mblk con r)
     | None \<Rightarrow> (case con_tbuf_mbinfo_down con of Some r \<Rightarrow> map_option Some (tbuf_mblk con r)
     | None \<Rightarrow> Some None)))"

text \<open>Moves a cursor over buffers on when it is at a buffer of block \<open>b\<close>.\<close>

definition pass_cursor :: "(nat \<Rightarrow> nat option) \<Rightarrow> nat list \<Rightarrow> nat \<Rightarrow> nat option \<Rightarrow> nat option option" where
  "pass_cursor block_of refs b cursor = (case cursor of None \<Rightarrow> Some None
     | Some r \<Rightarrow> do { b' \<leftarrow> block_of r; Some (if b' = b then next_ref r refs else cursor) })"

definition ioc_mbinfo_sent :: "iocRoot \<Rightarrow> nat \<Rightarrow> iocConnection \<Rightarrow> iocConnection option" where
  "ioc_mbinfo_sent root b con =
    (if has_flag (con_flags con) IOC_CONNECT_UP then Some (con\<lparr>con_current_mblk := next_mblk root b\<rparr>)
     else do {
       let con1 = (if con_current_cloud_mblk con = Some b then con\<lparr>con_current_cloud_mblk := next_mblk root b\<rparr> else con);
       t \<leftarrow> pass_cursor (tbuf_mblk con1) (map fst (con_tbufs con1)) b (con_tbuf_mbinfo_down con1);
       let con2 = con1\<lparr>con_tbuf_mbinfo_down := t\<rparr>;
       s \<leftarrow> pass_cursor (sbuf_mblk con2) (map fst (con_sbufs con2)) b (con_sbuf_mbinfo_down con2);
       Some (con2\<lparr>con_sbuf_mbinfo_down := s\<rparr>) })"

text \<open>Is the information about this block to be sent through the connection?\<close>

definition wants_info :: "bool \<Rightarrow> iocConnection \<Rightarrow> iocMemoryBlock \<Rightarrow> bool" where
  "wants_info authorization con mblk \<longleftrightarrow> \<not> cloud_skips con mblk \<and>
     ioc_is_network_authorized authorization con (mb_network_name mblk) 0 \<and>
     (has_flag (con_flags con) IOC_CONNECT_UP \<or> \<not> has_flag (mb_flags mblk) IOC_FLOOR)"

partial_function (option) ioc_get_mbinfo_to_send :: "iocRoot \<Rightarrow> iocConnection \<Rightarrow> (nat option \<times> iocConnection) option" where
  "ioc_get_mbinfo_to_send root con = Option.bind (ioc_get_mbinfo_to_send2 con) (\<lambda>m.
     if m = None then Some (None, con)
     else Option.bind (rt_mblk root (the m)) (\<lambda>mblk.
       if wants_info (rt_authorization root) con mblk then Some (m, con)
       else Option.bind (ioc_mbinfo_sent root (the m) con) (\<lambda>con'. ioc_get_mbinfo_to_send root con')))"

definition ioc_mbinfo_mblk_is_deleted :: "nat \<Rightarrow> iocRoot \<Rightarrow> iocRoot" where
  "ioc_mbinfo_mblk_is_deleted b root =
    (let leave = (\<lambda>con.
       let con1 = (if con_current_mblk con = Some b then con\<lparr>con_current_mblk := next_mblk root b\<rparr> else con)
       in if con_current_cloud_mblk con1 = Some b then con1\<lparr>con_current_cloud_mblk := next_mblk root b\<rparr> else con1)
     in root\<lparr>rt_con := (\<lambda>c. if c \<in> set (rt_con_refs root) then map_option leave (rt_con root c) else rt_con root c)\<rparr>)"

section \<open>Binding\<close>

text \<open>
  \<open>ioc_mbinfo_new_sbuf\<close> and \<open>ioc_mbinfo_new_tbuf\<close>. \<open>got\<close> tells whether memory for the buffer could be
  allocated. When it could not, the initialization returns a null pointer, \<open>ioc_sbuf_synchronize\<close> refuses
  it, and the rest goes on with it: the application is told that the block has been connected.
  \<open>after_new_sbuf\<close> and \<open>after_new_tbuf\<close> are what both do at last, \<open>buf\<close> being the new buffer or null.
\<close>

definition after_new_sbuf :: "nat option \<Rightarrow> nat \<Rightarrow> iocMemoryBlock \<Rightarrow> iocConnection \<Rightarrow> iocConnection" where
  "after_new_sbuf buf b mblk con =
    (if \<not> has_flag (con_flags con) IOC_CONNECT_UP
     then (if con_sbuf_mbinfo_down con = None then con\<lparr>con_sbuf_mbinfo_down := buf\<rparr> else con)
     else if has_flag (con_flags con) IOC_CLOUD_CONNECTION \<and> cloud_only mblk
     then (if con_current_cloud_mblk con = None then con\<lparr>con_current_cloud_mblk := Some b\<rparr> else con)
     else con)"

definition ioc_mbinfo_new_sbuf ::
  "bool \<Rightarrow> nat \<Rightarrow> nat \<Rightarrow> nat \<Rightarrow> iocMemoryBlockInfo \<Rightarrow> u16 \<Rightarrow> iocRoot \<Rightarrow> (iocRoot \<times> ioc_event list) option" where
  "ioc_mbinfo_new_sbuf got r c b info bdflags root = do {
     con \<leftarrow> rt_con root c;
     mblk \<leftarrow> rt_mblk root b;
     if (\<exists>x \<in> set (con_sbufs con). sb_mblk (snd x) = b) then Some (root, [])
     else (case ioc_initialize_source_buffer got got r (c, con) (b, mblk) (ucast (mi_mblk_id info)) (bdflags AND IOC_BIDIRECTIONAL) of
       None \<Rightarrow> Some (set_con c (after_new_sbuf None b mblk con) root, [RootEvent IOC_MBLK_CONNECTED_AS_SOURCE b])
     | Some (con1, mblk1) \<Rightarrow> do {
       sbuf \<leftarrow> map_of (con_sbufs con1) r;
       buf \<leftarrow> mb_buf mblk1;
       (status, sbuf', ev) \<leftarrow> ioc_sbuf_synchronize (con_has_trig con1) buf (mb_nbytes mblk1) sbuf;
       let con2 = con1\<lparr>con_sbufs := map (\<lambda>(k, x). (k, if k = r then sbuf' else x)) (con_sbufs con1)\<rparr>;
       Some (set_con c (after_new_sbuf (Some r) b mblk1 con2) (set_mblk b mblk1 root), ev @ [RootEvent IOC_MBLK_CONNECTED_AS_SOURCE b])
     }) }"

text \<open>Releasing a buffer given by its reference; the connection it belongs to is \<open>clink.con\<close>.\<close>

definition release_sbuf :: "nat \<Rightarrow> nat \<Rightarrow> iocRoot \<Rightarrow> iocRoot option" where
  "release_sbuf c r root = do {
     con \<leftarrow> rt_con root c;
     b \<leftarrow> sbuf_mblk con r;
     mblk \<leftarrow> rt_mblk root b;
     let (con', mblk') = ioc_release_source_buffer r con mblk;
     Some (set_con c con' (set_mblk b mblk' root)) }"

definition release_tbuf :: "nat \<Rightarrow> nat \<Rightarrow> iocRoot \<Rightarrow> iocRoot option" where
  "release_tbuf c r root = do {
     con \<leftarrow> rt_con root c;
     b \<leftarrow> tbuf_mblk con r;
     mblk \<leftarrow> rt_mblk root b;
     let (con', mblk') = ioc_release_target_buffer r con mblk;
     Some (set_con c con' (set_mblk b mblk' root)) }"

text \<open>The connection that has the buffer, as \<open>clink.con\<close> tells.\<close>

definition sbuf_owner :: "iocRoot \<Rightarrow> nat \<Rightarrow> nat option" where
  "sbuf_owner root r = find (\<lambda>c. case rt_con root c of None \<Rightarrow> False | Some con \<Rightarrow> r \<in> fst ` set (con_sbufs con)) (rt_con_refs root)"

definition tbuf_owner :: "iocRoot \<Rightarrow> nat \<Rightarrow> nat option" where
  "tbuf_owner root r = find (\<lambda>c. case rt_con root c of None \<Rightarrow> False | Some con \<Rightarrow> r \<in> fst ` set (con_tbufs con)) (rt_con_refs root)"

text \<open>Drops the plain target buffers of a block, in list order.\<close>

fun drop_plain_tbufs :: "nat list \<Rightarrow> iocRoot \<Rightarrow> iocRoot option" where
  "drop_plain_tbufs [] root = Some root"
| "drop_plain_tbufs (r # rs) root = do {
     c \<leftarrow> tbuf_owner root r;
     con \<leftarrow> rt_con root c;
     tbuf \<leftarrow> map_of (con_tbufs con) r;
     root' \<leftarrow> (if \<not> has_flag (tb_flags tbuf) IOC_BIDIRECTIONAL then release_tbuf c r root else Some root);
     drop_plain_tbufs rs root' }"

definition after_new_tbuf :: "nat option \<Rightarrow> nat \<Rightarrow> iocMemoryBlock \<Rightarrow> iocConnection \<Rightarrow> iocConnection" where
  "after_new_tbuf buf b mblk con =
    (if \<not> has_flag (con_flags con) IOC_CONNECT_UP
     then (if con_tbuf_mbinfo_down con = None then con\<lparr>con_tbuf_mbinfo_down := buf\<rparr> else con)
     else if has_flag (con_flags con) IOC_CLOUD_CONNECTION \<and> cloud_only mblk
     then (if con_current_cloud_mblk con = None then con\<lparr>con_current_cloud_mblk := Some b\<rparr> else con)
     else con)"

definition ioc_mbinfo_new_tbuf ::
  "bool \<Rightarrow> nat \<Rightarrow> nat \<Rightarrow> nat \<Rightarrow> iocMemoryBlockInfo \<Rightarrow> u16 \<Rightarrow> iocRoot \<Rightarrow> (iocRoot \<times> ioc_event list) option" where
  "ioc_mbinfo_new_tbuf got r c b info bdflags root = do {
     con0 \<leftarrow> rt_con root c;
     mblk0 \<leftarrow> rt_mblk root b;
     if (\<exists>x \<in> set (con_tbufs con0). tb_mblk (snd x) = b) then Some (root, [])
     else do {
       root1 \<leftarrow> (if bdflags = 0 then drop_plain_tbufs (mb_tbufs mblk0) root else Some root);
       con \<leftarrow> rt_con root1 c;
       mblk \<leftarrow> rt_mblk root1 b;
       Some (case ioc_initialize_target_buffer got got r (c, con) (b, mblk) (ucast (mi_mblk_id info)) (bdflags AND IOC_BIDIRECTIONAL) of
         None \<Rightarrow> (set_con c (after_new_tbuf None b mblk con) root1, [RootEvent IOC_MBLK_CONNECTED_AS_TARGET b])
       | Some (con1, mblk1) \<Rightarrow>
         (set_con c (after_new_tbuf (Some r) b mblk1 con1) (set_mblk b mblk1 root1), [RootEvent IOC_MBLK_CONNECTED_AS_TARGET b]))
     } }"

section \<open>Memory blocks\<close>

record iocMemoryBlockParams =
  mp_network_name :: "byte list"
  mp_device_name :: "byte list"
  mp_device_nr :: u32
  mp_mblk_name :: "byte list"
  mp_buf :: "byte list option"
  mp_nbytes :: int
  mp_flags :: u16
  mp_local_flags :: byte

text \<open>\<open>os_strncpy\<close> cuts a name so that the terminating zero fits.\<close>

definition os_strncpy :: "nat \<Rightarrow> byte list \<Rightarrow> byte list" where
  "os_strncpy sz name = take (sz - 1) name"

text \<open>
  \<open>ioc_initialize_memory_block\<close> of a block at reference \<open>b\<close>. \<open>is_static\<close> tells whether the structure
  was given by the application, \<open>got_obj\<close> and \<open>got_buf\<close> whether \<open>ioc_malloc\<close> had memory for the
  structure and the content; clearing a content that could not be allocated is \<open>None\<close>.
\<close>

definition ioc_initialize_memory_block ::
  "(nat \<Rightarrow> u32) \<Rightarrow> bool \<Rightarrow> bool \<Rightarrow> bool \<Rightarrow> nat \<Rightarrow> iocMemoryBlockParams \<Rightarrow> iocRoot \<Rightarrow> (osalStatus \<times> iocRoot) option" where
  "ioc_initialize_memory_block rand is_static got_obj got_buf b prm root =
    (if \<not> is_static \<and> \<not> got_obj then Some (OSAL_STATUS_FAILED, root)
     else do {
       let own = (mp_buf prm = None);
       let grow = own \<and> mp_nbytes prm \<le> 0;
       let nbytes = (if own \<and> mp_nbytes prm < IOC_MIN_MBLK_SZ then IOC_MIN_MBLK_SZ else mp_nbytes prm);
       let fl = (if grow then mp_flags prm OR IOC_ALLOW_RESIZE else mp_flags prm);
       let flags = (if has_flag fl IOC_STATIC then fl else fl OR IOC_BIDIRECTIONAL);
       let mem = (case mp_buf prm of Some m \<Rightarrow> Some m | None \<Rightarrow> if got_buf then Some (replicate (nat nbytes) 0) else None);
       buf \<leftarrow> (if has_flag fl IOC_STATIC then Some mem
               else do { m \<leftarrow> mem; m' \<leftarrow> os_memclear m 0 nbytes; Some (Some m') });
       let (mblk_id, next_id) = ioc_get_unique_mblk_id rand
          (map (\<lambda>x. case rt_mblk root x of None \<Rightarrow> 0 | Some m \<Rightarrow> mb_mblk_id m) (rt_mblk_refs root)) (rt_next_unique_mblk_id root);
       let mblk = \<lparr>mb_flags = flags, mb_local_flags = mp_local_flags prm, mb_buf = buf, mb_nbytes = nbytes,
          mb_network_name = os_strncpy IOC_NETWORK_NAME_SZ (mp_network_name prm), mb_device_name = os_strncpy IOC_NAME_SZ (mp_device_name prm),
          mb_device_nr = mp_device_nr prm, mb_mblk_id = mblk_id, mb_mblk_name = os_strncpy IOC_NAME_SZ (mp_mblk_name prm),
          mb_cbs = replicate IOC_MBLK_MAX_CALLBACK_FUNCS None, mb_sbufs = [], mb_tbufs = [],
          mb_allocated = (\<not> is_static), mb_buf_allocated = own, mb_to_be_deleted = False\<rparr>;
       let root1 = (set_mblk b mblk root)\<lparr>rt_mblk_refs := rt_mblk_refs root @ [b], rt_next_unique_mblk_id := next_id\<rparr>;
       root2 \<leftarrow> ioc_add_mblk_to_global_mbinfo b root1;
       Some (OSAL_SUCCESS, root2)
     })"

text \<open>The loops \<open>while (mblk->sbuf.first)\<close> and \<open>while (mblk->tbuf.first)\<close>.\<close>

fun release_sbufs :: "nat list \<Rightarrow> iocRoot \<Rightarrow> iocRoot option" where
  "release_sbufs [] root = Some root"
| "release_sbufs (r # rs) root = do { c \<leftarrow> sbuf_owner root r; root' \<leftarrow> release_sbuf c r root; release_sbufs rs root' }"

fun release_tbufs :: "nat list \<Rightarrow> iocRoot \<Rightarrow> iocRoot option" where
  "release_tbufs [] root = Some root"
| "release_tbufs (r # rs) root = do { c \<leftarrow> tbuf_owner root r; root' \<leftarrow> release_tbuf c r root; release_tbufs rs root' }"

definition ioc_release_memory_block :: "nat \<Rightarrow> iocRoot \<Rightarrow> (iocRoot \<times> ioc_event list) option" where
  "ioc_release_memory_block b root = do {
     mblk \<leftarrow> rt_mblk root b;
     let root1 = ioc_mbinfo_mblk_is_deleted b root;
     root2 \<leftarrow> release_sbufs (mb_sbufs mblk) root1;
     root3 \<leftarrow> release_tbufs (mb_tbufs mblk) root2;
     Some (root3\<lparr>rt_mblk_refs := filter (\<lambda>x. x \<noteq> b) (rt_mblk_refs root3), rt_mblk := (rt_mblk root3)(b := None)\<rparr>,
       [RootEvent IOC_MEMORY_BLOCK_DELETED b]) }"

section \<open>Received information\<close>

text \<open>The first block of the list whose names and device number are those of the information.\<close>

definition info_matches :: "iocMemoryBlockInfo \<Rightarrow> iocMemoryBlock \<Rightarrow> bool" where
  "info_matches info mblk \<longleftrightarrow> mi_mblk_name info = mb_mblk_name mblk \<and> mi_device_nr info = mb_device_nr mblk \<and>
     mi_device_name info = mb_device_name mblk \<and> mi_network_name info = mb_network_name mblk"

definition find_mblk :: "iocRoot \<Rightarrow> iocMemoryBlockInfo \<Rightarrow> nat option" where
  "find_mblk root info = find (\<lambda>b. case rt_mblk root b of None \<Rightarrow> False | Some mblk \<Rightarrow> info_matches info mblk) (rt_mblk_refs root)"

text \<open>
  The part of \<open>ioc_mbinfo_received\<close> behind the search: buffers for a block that is known here. First the
  block as a source, the result is also \<open>bdflag\<close> after it, then the block as a target.
\<close>

definition bind_as_source ::
  "bool \<Rightarrow> nat \<Rightarrow> nat \<Rightarrow> nat \<Rightarrow> nat \<Rightarrow> iocMemoryBlockInfo \<Rightarrow> bool \<Rightarrow> u16 \<Rightarrow> u16 \<Rightarrow> iocRoot \<Rightarrow> (u16 \<times> iocRoot \<times> ioc_event list) option" where
  "bind_as_source got rs rt c b info up mflags bdflag root =
    (let source_flag = (if up then IOC_MBLK_UP else IOC_MBLK_DOWN); bd = (if up then 0 else bdflag)
     in if has_flag mflags source_flag \<and> has_flag (mi_flags info) source_flag then do {
         (r1, e1) \<leftarrow> ioc_mbinfo_new_sbuf got rs c b info bd root;
         (r2, e2) \<leftarrow> (if bd \<noteq> 0 then ioc_mbinfo_new_tbuf got rt c b info bd r1 else Some (r1, []));
         Some (bd, r2, e1 @ e2) }
        else Some (bdflag, root, []))"

definition bind_as_target ::
  "bool \<Rightarrow> nat \<Rightarrow> nat \<Rightarrow> nat \<Rightarrow> nat \<Rightarrow> iocMemoryBlockInfo \<Rightarrow> bool \<Rightarrow> u16 \<Rightarrow> u16 \<Rightarrow> iocRoot \<Rightarrow> (iocRoot \<times> ioc_event list) option" where
  "bind_as_target got rs rt c b info up mflags bdflag root =
    (let target_flag = (if up then IOC_MBLK_DOWN else IOC_MBLK_UP); bd = (if \<not> up then 0 else bdflag)
     in if has_flag mflags target_flag \<and> has_flag (mi_flags info) target_flag then do {
         (r1, e1) \<leftarrow> (if bd \<noteq> 0 then ioc_mbinfo_new_sbuf got rs c b info bd root else Some (root, []));
         (r2, e2) \<leftarrow> ioc_mbinfo_new_tbuf got rt c b info bd r1;
         Some (r2, e1 @ e2) }
        else Some (root, []))"

definition bind_mblk ::
  "bool \<Rightarrow> nat \<Rightarrow> nat \<Rightarrow> nat \<Rightarrow> nat \<Rightarrow> iocMemoryBlockInfo \<Rightarrow> iocRoot \<Rightarrow> (iocRoot \<times> ioc_event list) option" where
  "bind_mblk got rs rt c b info root = do {
     con \<leftarrow> rt_con root c;
     mblk \<leftarrow> rt_mblk root b;
     let up = has_flag (con_flags con) IOC_CONNECT_UP;
     let bdflag = (if has_flag (con_flags con) IOC_BIDIRECTIONAL_MBLKS then mb_flags mblk AND mi_flags info AND IOC_BIDIRECTIONAL else 0);
     (bd1, root1, ev1) \<leftarrow> bind_as_source got rs rt c b info up (mb_flags mblk) bdflag root;
     (root2, ev2) \<leftarrow> bind_as_target got rs rt c b info up (mb_flags mblk) bd1 root1;
     Some (root2, ev1 @ ev2) }"

definition ioc_mbinfo_received ::
  "(nat \<Rightarrow> u32) \<Rightarrow> byte list option \<Rightarrow> bool \<Rightarrow> nat \<Rightarrow> nat \<Rightarrow> nat \<Rightarrow> nat \<Rightarrow> iocMemoryBlockInfo \<Rightarrow> iocRoot \<Rightarrow>
   (iocRoot \<times> ioc_event list) option" where
  "ioc_mbinfo_received rand newbuf got rm rs rt c info root = do {
     con \<leftarrow> rt_con root c;
     if \<not> ioc_is_network_authorized (rt_authorization root) con (mi_network_name info) 0 then Some (root, [])
     else do {
       (found, root1, ev1) \<leftarrow> (case find_mblk root info of
           Some b \<Rightarrow> Some (Some b, root, [])
         | None \<Rightarrow>
             if has_flag (con_flags con) IOC_DYNAMIC_MBLKS then do {
               let prm = \<lparr>mp_network_name = mi_network_name info, mp_device_name = mi_device_name info, mp_device_nr = mi_device_nr info,
                  mp_mblk_name = mi_mblk_name info, mp_buf = None, mp_nbytes = sint (mi_nbytes info),
                  mp_flags = (mi_flags info AND (IOC_MBLK_DOWN OR IOC_MBLK_UP)) OR (IOC_ALLOW_RESIZE OR IOC_DYNAMIC),
                  mp_local_flags = mi_local_flags info\<rparr>;
               (st, root1) \<leftarrow> ioc_initialize_memory_block rand False got got rm prm root;
               Some (if st = OSAL_SUCCESS then (Some rm, root1, [RootEvent IOC_NEW_MEMORY_BLOCK rm]) else (None, root1, []))
             } else Some (None, root, []));
       case found of None \<Rightarrow> Some (root1, ev1)
       | Some b \<Rightarrow> do {
           mblk \<leftarrow> rt_mblk root1 b;
           (st, mblk') \<leftarrow> ioc_resize_mblk newbuf mblk (sint (mi_nbytes info)) 0;
           (root2, ev2) \<leftarrow> bind_mblk got rs rt c b info (set_mblk b mblk' root1);
           Some (root2, ev1 @ ev2) }
     } }"

text \<open>\<open>ioc_process_received_mbinfo_frame\<close>; \<open>auto_nr\<close> is the number a call of \<open>ioc_get_automatic_device_nr\<close> returns.\<close>

definition ioc_process_received_mbinfo_frame ::
  "(nat \<Rightarrow> u32) \<Rightarrow> byte list option \<Rightarrow> bool \<Rightarrow> nat \<Rightarrow> nat \<Rightarrow> nat \<Rightarrow> u32 \<Rightarrow> nat \<Rightarrow> u32 \<Rightarrow> byte list \<Rightarrow> iocRoot \<Rightarrow>
   (osalStatus \<times> iocRoot \<times> ioc_event list) option" where
  "ioc_process_received_mbinfo_frame rand newbuf got rm rs rt auto_nr c mblk_id data root = do {
     con \<leftarrow> rt_con root c;
     parsed \<leftarrow> parse_mbinfo mblk_id data;
     case parsed of None \<Rightarrow> Some (OSAL_STATUS_FAILED, root, [])
     | Some info0 \<Rightarrow> do {
         let (con1, info) = receive_device_nr auto_nr (rt_device_nr root) con info0;
         (root1, ev) \<leftarrow> ioc_mbinfo_received rand newbuf got rm rs rt c info (set_con c con1 root);
         Some (OSAL_SUCCESS, root1, ev) } }"

section \<open>Closing a connection\<close>

text \<open>Is the buffer part of a connection downwards other than the one that is deleted?\<close>

definition other_below :: "nat \<Rightarrow> iocRoot \<Rightarrow> nat option \<Rightarrow> bool" where
  "other_below deleting root owner = (case owner of None \<Rightarrow> False
     | Some c \<Rightarrow> c \<noteq> deleting \<and> (case rt_con root c of None \<Rightarrow> False | Some con \<Rightarrow> \<not> has_flag (con_flags con) IOC_CONNECT_UP))"

definition ioc_release_dynamic_mblk_if_not_attached :: "nat \<Rightarrow> nat \<Rightarrow> bool \<Rightarrow> iocRoot \<Rightarrow> (iocRoot \<times> ioc_event list) option" where
  "ioc_release_dynamic_mblk_if_not_attached b deleting really_delete root = do {
     mblk \<leftarrow> rt_mblk root b;
     if \<not> has_flag (mb_flags mblk) IOC_DYNAMIC then Some (root, [])
     else if \<exists>r \<in> set (mb_sbufs mblk). other_below deleting root (sbuf_owner root r) then Some (root, [])
     else if \<exists>r \<in> set (mb_tbufs mblk). other_below deleting root (tbuf_owner root r) then Some (root, [])
     else if really_delete then ioc_release_memory_block b root
     else Some (set_mblk b (mblk\<lparr>mb_to_be_deleted := True\<rparr>) root, []) }"

text \<open>
  \<open>ioc_add_request_to_remove_mblk\<close> of \<open>extensions/dynamicio/ioc_remove_mblk_list.c\<close> (not a debug
  build, which bounds the list): requests are packed, each pack is later sent as one frame. \<open>got\<close> tells
  whether memory for a new pack could be allocated; if not the request is dropped.
\<close>

definition IOC_PACK_N_REQUESTS :: nat where "IOC_PACK_N_REQUESTS = 12"

definition ioc_add_request_to_remove_mblk :: "bool \<Rightarrow> u32 \<Rightarrow> iocConnection \<Rightarrow> iocConnection" where
  "ioc_add_request_to_remove_mblk got remote_mblk_id con =
    (let packs = con_remove_mblk_req con in
     if packs \<noteq> [] \<and> length (last packs) < IOC_PACK_N_REQUESTS
     then con\<lparr>con_remove_mblk_req := butlast packs @ [last packs @ [remote_mblk_id]]\<rparr>
     else if \<not> got then con
     else con\<lparr>con_remove_mblk_req := packs @ [[remote_mblk_id]]\<rparr>)"

definition request_removal :: "bool \<Rightarrow> nat option \<Rightarrow> nat \<Rightarrow> (iocConnection \<Rightarrow> u16 option) \<Rightarrow> iocRoot \<Rightarrow> iocRoot option" where
  "request_removal got deleting c remote_id_in root = do {
     con \<leftarrow> rt_con root c;
     rid \<leftarrow> remote_id_in con;
     Some (if Some c \<noteq> deleting \<and> has_flag (con_flags con) IOC_CONNECT_UP
       then set_con c (ioc_add_request_to_remove_mblk got (scast rid) con) root else root) }"

fun request_sbufs :: "bool \<Rightarrow> nat option \<Rightarrow> nat list \<Rightarrow> iocRoot \<Rightarrow> iocRoot option" where
  "request_sbufs got deleting [] root = Some root"
| "request_sbufs got deleting (r # rs) root = do {
     c \<leftarrow> sbuf_owner root r;
     root' \<leftarrow> request_removal got deleting c (\<lambda>con. map_option sb_remote_mblk_id (map_of (con_sbufs con) r)) root;
     request_sbufs got deleting rs root' }"

fun request_tbufs :: "bool \<Rightarrow> nat option \<Rightarrow> nat list \<Rightarrow> iocRoot \<Rightarrow> iocRoot option" where
  "request_tbufs got deleting [] root = Some root"
| "request_tbufs got deleting (r # rs) root = do {
     c \<leftarrow> tbuf_owner root r;
     root' \<leftarrow> request_removal got deleting c (\<lambda>con. map_option tb_remote_mblk_id (map_of (con_tbufs con) r)) root;
     request_tbufs got deleting rs root' }"

definition ioc_generate_del_mblk_request :: "bool \<Rightarrow> nat \<Rightarrow> nat option \<Rightarrow> iocRoot \<Rightarrow> iocRoot option" where
  "ioc_generate_del_mblk_request got b deleting root = do {
     mblk \<leftarrow> rt_mblk root b;
     if \<not> mb_to_be_deleted mblk then Some root
     else do {
       root1 \<leftarrow> request_sbufs got deleting (mb_sbufs mblk) (set_mblk b (mblk\<lparr>mb_to_be_deleted := False\<rparr>) root);
       request_tbufs got deleting (mb_tbufs mblk) root1 } }"

fun for_mblks :: "(nat \<Rightarrow> iocRoot \<Rightarrow> iocRoot option) \<Rightarrow> nat list \<Rightarrow> iocRoot \<Rightarrow> iocRoot option" where
  "for_mblks f [] root = Some root"
| "for_mblks f (b # bs) root = do { root' \<leftarrow> f b root; for_mblks f bs root' }"

text \<open>
  The loops \<open>while ((sbuf = con->sbuf.first))\<close> and \<open>while ((tbuf = con->tbuf.first))\<close>: a buffer is
  released, then its block if nothing else needs it, which may release further buffers.
\<close>

partial_function (option) free_sbufs :: "nat \<Rightarrow> iocRoot \<Rightarrow> (iocRoot \<times> ioc_event list) option" where
  "free_sbufs c root = Option.bind (rt_con root c) (\<lambda>con.
     if con_sbufs con = [] then Some (root, [])
     else Option.bind (release_sbuf c (fst (hd (con_sbufs con))) root) (\<lambda>root1.
       Option.bind (ioc_release_dynamic_mblk_if_not_attached (sb_mblk (snd (hd (con_sbufs con)))) c True root1) (\<lambda>(root2, e1).
         Option.bind (free_sbufs c root2) (\<lambda>(root3, e2). Some (root3, e1 @ e2)))))"

partial_function (option) free_tbufs :: "nat \<Rightarrow> iocRoot \<Rightarrow> (iocRoot \<times> ioc_event list) option" where
  "free_tbufs c root = Option.bind (rt_con root c) (\<lambda>con.
     if con_tbufs con = [] then Some (root, [])
     else Option.bind (release_tbuf c (fst (hd (con_tbufs con))) root) (\<lambda>root1.
       Option.bind (ioc_release_dynamic_mblk_if_not_attached (tb_mblk (snd (hd (con_tbufs con)))) c True root1) (\<lambda>(root2, e1).
         Option.bind (free_tbufs c root2) (\<lambda>(root3, e2). Some (root3, e1 @ e2)))))"

definition ioc_free_source_and_target_bufs :: "bool \<Rightarrow> nat \<Rightarrow> iocRoot \<Rightarrow> (iocRoot \<times> ioc_event list) option" where
  "ioc_free_source_and_target_bufs got c root = do {
     con \<leftarrow> rt_con root c;
     let bs = map (sb_mblk \<circ> snd) (con_sbufs con) @ map (tb_mblk \<circ> snd) (con_tbufs con);
     let mark = (\<lambda>b root. map_option fst (ioc_release_dynamic_mblk_if_not_attached b c False root));
     root1 \<leftarrow> for_mblks mark bs root;
     root2 \<leftarrow> for_mblks (\<lambda>b. ioc_generate_del_mblk_request got b (Some c)) bs root1;
     (root3, e1) \<leftarrow> free_sbufs c root2;
     (root4, e2) \<leftarrow> free_tbufs c root3;
     Some (root4, e1 @ e2) }"

end
