(* ===== verification/Ioc_Auto_Device_Nr.thy ===== *)
theory Ioc_Auto_Device_Nr
  imports Ioc_Root
begin

text \<open>
  Automatic device numbers, \<open>code/ioc_auto_device_nr.c\<close>. A device without a number of its own gets one
  from the controller. If the device told its unique identifier, the number is reserved for it in a small
  table that is kept in persistent storage.

  The build has \<open>IOC_AUTO_DEVICE_NR_SUPPORT\<close>. Persistent storage and random numbers are parameters:
  \<open>stored\<close> is what \<open>os_load_persistent\<close> puts into the table (\<open>None\<close> when there is nothing to load),
  \<open>rand k\<close> the random number drawn when \<open>k\<close> rounds are left. What is saved is part of the result.
\<close>

definition IOC_AUTO_DEVICE_NR_START :: u32 where "IOC_AUTO_DEVICE_NR_START = IOC_AUTO_DEVICE_NR + 31001"
definition IOC_RESERVED_AUTO_DEVICE_NR_START :: u32 where "IOC_RESERVED_AUTO_DEVICE_NR_START = IOC_AUTO_DEVICE_NR + 1"
definition IOC_NRO_SAVED_DEVICE_NRS :: nat where "IOC_NRO_SAVED_DEVICE_NRS = 5"

lemmas auto_nr_defs = IOC_AUTO_DEVICE_NR_def IOC_AUTO_DEVICE_NR_START_def IOC_RESERVED_AUTO_DEVICE_NR_START_def

record iocSavedAutoNrData =
  sv_reserve :: u32
  sv_device_nr :: "u32 list"
  sv_unique_id :: "byte list list"

record iocAutoDeviceNrState =
  an_auto_device_nr :: u32
  an_data_loaded :: bool
  an_saved :: iocSavedAutoNrData

section \<open>Reserved numbers\<close>

text \<open>The row with this identifier.\<close>

definition find_row :: "byte list \<Rightarrow> iocSavedAutoNrData \<Rightarrow> nat option" where
  "find_row uid d = find (\<lambda>i. sv_unique_id d ! i = uid) [0..<IOC_NRO_SAVED_DEVICE_NRS]"

text \<open>One round of the loop that selects a row to use, then the loop.\<close>

definition select_step :: "u32 \<Rightarrow> nat \<Rightarrow> u32 \<Rightarrow> nat \<times> u32 \<Rightarrow> nat \<times> u32" where
  "select_step reserve i nr best =
    (let best1 = (if nr \<ge> reserve then if nr < snd best then (i, nr) else best else best)
     in if nr + IOC_AUTO_DEVICE_NR_START < snd best1 then (i, nr + IOC_AUTO_DEVICE_NR_START) else best1)"

fun select_rows :: "u32 \<Rightarrow> nat \<Rightarrow> u32 list \<Rightarrow> nat \<times> u32 \<Rightarrow> nat \<times> u32" where
  "select_rows reserve i [] best = best"
| "select_rows reserve i (nr # nrs) best = select_rows reserve (Suc i) nrs (select_step reserve i nr best)"

definition select_row :: "u32 \<Rightarrow> u32 list \<Rightarrow> nat" where
  "select_row reserve nrs =
    (let nr0 = nrs ! 0; id0 = (if nr0 < reserve then nr0 + IOC_AUTO_DEVICE_NR_START else nr0)
     in fst (select_rows reserve 0 nrs (0, id0)))"

definition next_reserve :: "u32 \<Rightarrow> u32" where
  "next_reserve r = (if r < IOC_RESERVED_AUTO_DEVICE_NR_START \<or> r > IOC_AUTO_DEVICE_NR_START - 2
     then IOC_RESERVED_AUTO_DEVICE_NR_START else r)"

definition ioc_get_reserved_autonr ::
  "iocSavedAutoNrData option \<Rightarrow> byte list \<Rightarrow> iocAutoDeviceNrState \<Rightarrow> u32 \<times> iocAutoDeviceNrState \<times> iocSavedAutoNrData option" where
  "ioc_get_reserved_autonr stored uid a =
    (let a1 = (if an_data_loaded a then a
               else a\<lparr>an_saved := (case stored of None \<Rightarrow> an_saved a | Some d \<Rightarrow> d), an_data_loaded := True\<rparr>);
         d = an_saved a1
     in case find_row uid d of
          Some i \<Rightarrow> (sv_device_nr d ! i, a1, None)
        | None \<Rightarrow>
            let reserve = next_reserve (sv_reserve d);
                k = select_row reserve (sv_device_nr d);
                d1 = d\<lparr>sv_device_nr := (sv_device_nr d)[k := reserve], sv_reserve := reserve + 1,
                       sv_unique_id := (sv_unique_id d)[k := uid]\<rparr>
            in (sv_device_nr d1 ! k, a1\<lparr>an_saved := d1\<rparr>, Some d1))"

section \<open>Any number\<close>

primrec draw_device_nr :: "(nat \<Rightarrow> u32) \<Rightarrow> u32 list \<Rightarrow> nat \<Rightarrow> u32" where
  "draw_device_nr rand used 0 = 1"
| "draw_device_nr rand used (Suc k) = (if rand k \<in> set used then draw_device_nr rand used k else rand k)"

text \<open>
  \<open>used\<close> are the automatic device numbers of the connections of the root. The number that
  \<open>auto_device_nr\<close> counts is not used: there is no return after it is taken.
\<close>

definition ioc_get_automatic_device_nr ::
  "(nat \<Rightarrow> u32) \<Rightarrow> iocSavedAutoNrData option \<Rightarrow> u32 list \<Rightarrow> byte list option \<Rightarrow> iocAutoDeviceNrState \<Rightarrow>
   u32 \<times> iocAutoDeviceNrState \<times> iocSavedAutoNrData option" where
  "ioc_get_automatic_device_nr rand stored used uid a =
    (if uid \<noteq> None \<and> (\<exists>b \<in> set (the uid). b \<noteq> 0) then ioc_get_reserved_autonr stored (the uid) a
     else
       let a1 = (if an_auto_device_nr a \<noteq> 0 then a\<lparr>an_auto_device_nr := an_auto_device_nr a + 1\<rparr> else a)
       in (draw_device_nr rand used 100000, a1, None))"

section \<open>The table\<close>

text \<open>
  Rows are free (number and identifier are zero) or hold a number of the reserved range; no number and
  no identifier is in two rows.
\<close>

definition row_free :: "iocSavedAutoNrData \<Rightarrow> nat \<Rightarrow> bool" where
  "row_free d i \<longleftrightarrow> sv_device_nr d ! i = 0 \<and> (\<forall>b \<in> set (sv_unique_id d ! i). b = 0)"

definition table_ok :: "iocSavedAutoNrData \<Rightarrow> bool" where
  "table_ok d \<longleftrightarrow> length (sv_device_nr d) = IOC_NRO_SAVED_DEVICE_NRS \<and> length (sv_unique_id d) = IOC_NRO_SAVED_DEVICE_NRS \<and>
     (\<forall>i < IOC_NRO_SAVED_DEVICE_NRS. row_free d i \<or>
        (IOC_RESERVED_AUTO_DEVICE_NR_START \<le> sv_device_nr d ! i \<and> sv_device_nr d ! i \<le> IOC_AUTO_DEVICE_NR_START - 2 \<and>
         (\<exists>b \<in> set (sv_unique_id d ! i). b \<noteq> 0))) \<and>
     (\<forall>i < IOC_NRO_SAVED_DEVICE_NRS. \<forall>j < IOC_NRO_SAVED_DEVICE_NRS. \<not> row_free d i \<longrightarrow> \<not> row_free d j \<longrightarrow> i \<noteq> j \<longrightarrow>
        sv_device_nr d ! i \<noteq> sv_device_nr d ! j \<and> sv_unique_id d ! i \<noteq> sv_unique_id d ! j)"

text \<open>The order in which rows are used again: first numbers from \<open>reserve\<close> on, then the free and low ones.\<close>

definition row_key :: "u32 \<Rightarrow> u32 \<Rightarrow> u32" where
  "row_key reserve nr = (if nr \<ge> reserve then nr else nr + IOC_AUTO_DEVICE_NR_START)"

definition small_nr :: "u32 \<Rightarrow> bool" where
  "small_nr nr \<longleftrightarrow> unat nr \<le> 39999"

lemma start_plus: "small_nr nr \<Longrightarrow> unat (nr + IOC_AUTO_DEVICE_NR_START) = unat nr + 40001"
  by (simp add: small_nr_def auto_nr_defs unat_word_ariths)

lemma select_step_key:
  assumes "small_nr nr"
  shows "select_step reserve i nr (k, v) = (if row_key reserve nr < v then (i, row_key reserve nr) else (k, v))"
  using start_plus [OF assms] by (auto simp: select_step_def row_key_def word_less_nat_alt word_le_nat_alt Let_def)

lemma select_rows_least:
  assumes "\<forall>nr \<in> set nrs. small_nr nr" and "length done = i" and "k < i \<or> i = 0 \<and> k = 0 \<and> nrs \<noteq> []" and "v = row_key reserve ((done @ nrs) ! k)"
    and "\<forall>nr \<in> set done. v \<le> row_key reserve nr"
  shows "\<exists>k' v'. select_rows reserve i nrs (k, v) = (k', v') \<and> k' < length (done @ nrs) \<and> v' = row_key reserve ((done @ nrs) ! k') \<and>
    (\<forall>nr \<in> set (done @ nrs). v' \<le> row_key reserve nr)"
  using assms
proof (induction nrs arbitrary: "done" i k v)
  case Nil
  then show ?case by auto
next
  case (Cons nr nrs)
  define b where "b = (if row_key reserve nr < v then (i, row_key reserve nr) else (k, v))"
  have s: "select_step reserve i nr (k, v) = b" using Cons(2) by (simp add: b_def select_step_key)
  have "\<exists>k' v'. select_rows reserve (Suc i) nrs (fst b, snd b) = (k', v') \<and> k' < length ((done @ [nr]) @ nrs) \<and>
      v' = row_key reserve (((done @ [nr]) @ nrs) ! k') \<and> (\<forall>x \<in> set ((done @ [nr]) @ nrs). v' \<le> row_key reserve x)"
  proof (rule Cons(1))
    show "\<forall>nr \<in> set nrs. small_nr nr" "length (done @ [nr]) = Suc i" using Cons(2,3) by auto
    show "fst b < Suc i \<or> Suc i = 0 \<and> fst b = 0 \<and> nrs \<noteq> []" using Cons(4) by (auto simp: b_def)
    show "snd b = row_key reserve (((done @ [nr]) @ nrs) ! fst b)" using Cons(3-5) by (auto simp: b_def nth_append)
    show "\<forall>x \<in> set (done @ [nr]). snd b \<le> row_key reserve x" using Cons(6) by (auto simp: b_def)
  qed
  then show ?case by (simp add: s)
qed

lemma select_row_least:
  assumes "\<forall>nr \<in> set nrs. small_nr nr" and "nrs \<noteq> []"
  shows "select_row reserve nrs < length nrs \<and> (\<forall>nr \<in> set nrs. row_key reserve (nrs ! select_row reserve nrs) \<le> row_key reserve nr)"
proof -
  have "(if nrs ! 0 < reserve then nrs ! 0 + IOC_AUTO_DEVICE_NR_START else nrs ! 0) = row_key reserve (nrs ! 0)"
    by (auto simp: row_key_def)
  then show ?thesis
    using select_rows_least [OF assms(1), of "[]" 0 0 "row_key reserve (nrs ! 0)" reserve] assms(2)
    by (auto simp: select_row_def Let_def)
qed

text \<open>The table that a call works on: the one in memory, or what persistent storage has.\<close>

definition loaded_table :: "iocSavedAutoNrData option \<Rightarrow> iocAutoDeviceNrState \<Rightarrow> iocSavedAutoNrData" where
  "loaded_table stored a = (if an_data_loaded a then an_saved a else case stored of None \<Rightarrow> an_saved a | Some d \<Rightarrow> d)"

definition holds :: "iocSavedAutoNrData \<Rightarrow> byte list \<Rightarrow> u32 \<Rightarrow> bool" where
  "holds d uid nr \<longleftrightarrow> (\<exists>i < IOC_NRO_SAVED_DEVICE_NRS. sv_unique_id d ! i = uid \<and> sv_device_nr d ! i = nr)"

lemma row_cases:
  assumes "table_ok d" and "i < IOC_NRO_SAVED_DEVICE_NRS"
  shows "row_free d i \<or> 9001 \<le> unat (sv_device_nr d ! i) \<and> unat (sv_device_nr d ! i) \<le> 39999 \<and> (\<exists>b \<in> set (sv_unique_id d ! i). b \<noteq> 0)"
  using assms by (auto simp: table_ok_def auto_nr_defs word_le_nat_alt)

lemma table_small:
  assumes "table_ok d" and "nr \<in> set (sv_device_nr d)"
  shows "small_nr nr"
proof -
  obtain i where i: "i < IOC_NRO_SAVED_DEVICE_NRS" "nr = sv_device_nr d ! i"
    using assms by (auto simp: in_set_conv_nth table_ok_def)
  show ?thesis using row_cases [OF assms(1) i(1)] i(2) by (auto simp: row_free_def small_nr_def)
qed

lemma find_row_holds:
  assumes t: "table_ok d" and u: "\<exists>b \<in> set uid. b \<noteq> 0" and h: "holds d uid nr"
  shows "\<exists>i. find_row uid d = Some i \<and> sv_device_nr d ! i = nr"
proof -
  obtain j where j: "j < IOC_NRO_SAVED_DEVICE_NRS" "sv_unique_id d ! j = uid" "sv_device_nr d ! j = nr" using h by (auto simp: holds_def)
  have "find_row uid d \<noteq> None" using j by (auto simp: find_row_def find_None_iff)
  then obtain i where i: "find_row uid d = Some i" by blast
  then have r: "i < IOC_NRO_SAVED_DEVICE_NRS" "sv_unique_id d ! i = uid" by (auto simp: find_row_def find_Some_iff)
  have "\<not> row_free d i" "\<not> row_free d j" using u r j by (auto simp: row_free_def)
  then have "i = j" using t r j unfolding table_ok_def by metis
  then show ?thesis using i j by blast
qed

lemma next_reserve_range: "9001 \<le> unat (next_reserve r) \<and> unat (next_reserve r) \<le> 39999"
  by (auto simp: next_reserve_def auto_nr_defs word_less_nat_alt not_less)

lemma reserved_is_new:
  assumes t: "table_ok d" and r: "9001 \<le> unat r" "unat r \<le> 39999" and j: "j < IOC_NRO_SAVED_DEVICE_NRS" "sv_device_nr d ! j = r"
  shows "select_row r (sv_device_nr d) = j"
proof -
  let ?k = "select_row r (sv_device_nr d)"
  have n: "length (sv_device_nr d) = IOC_NRO_SAVED_DEVICE_NRS" using t by (simp add: table_ok_def)
  then have ne: "sv_device_nr d \<noteq> []" by (auto simp: IOC_NRO_SAVED_DEVICE_NRS_def)
  have k: "?k < IOC_NRO_SAVED_DEVICE_NRS" and "row_key r (sv_device_nr d ! ?k) \<le> row_key r (sv_device_nr d ! j)"
    using select_row_least [OF _ ne, of r] table_small [OF t] n j(1) by auto
  then have le: "row_key r (sv_device_nr d ! ?k) \<le> r" using j(2) by (simp add: row_key_def)
  have "small_nr (sv_device_nr d ! ?k)" using table_small [OF t] k n by simp
  note small = this
  have e: "sv_device_nr d ! ?k = r"
  proof (cases "r \<le> sv_device_nr d ! ?k")
    case True
    then show ?thesis using le by (simp add: row_key_def)
  next
    case False
    then have "unat (sv_device_nr d ! ?k) + 40001 \<le> unat r"
      using le start_plus [OF small] by (simp add: row_key_def word_le_nat_alt)
    then show ?thesis using r(2) by simp
  qed
  have f: "\<not> row_free d j" "\<not> row_free d ?k" using e j(2) r(1) by (auto simp: row_free_def)
  show ?thesis using t f k j e unfolding table_ok_def by metis
qed

lemma assign_ok:
  assumes t: "table_ok d" and u: "\<exists>b \<in> set uid. b \<noteq> 0" and new: "find_row uid d = None" and r: "r = next_reserve (sv_reserve d)"
    and k: "k = select_row r (sv_device_nr d)"
    and d1: "d1 = d\<lparr>sv_device_nr := (sv_device_nr d)[k := r], sv_reserve := r + 1, sv_unique_id := (sv_unique_id d)[k := uid]\<rparr>"
  shows "k < IOC_NRO_SAVED_DEVICE_NRS" and "table_ok d1" and "sv_device_nr d1 ! k = r" and "sv_unique_id d1 ! k = uid"
proof -
  let ?N = "IOC_NRO_SAVED_DEVICE_NRS"
  have n: "length (sv_device_nr d) = ?N" "length (sv_unique_id d) = ?N" using t by (simp_all add: table_ok_def)
  then have ne: "sv_device_nr d \<noteq> []" by (auto simp: IOC_NRO_SAVED_DEVICE_NRS_def)
  note rr = next_reserve_range [of "sv_reserve d", folded r]
  show kn: "k < ?N" using select_row_least [OF _ ne, of r] table_small [OF t] n k by simp
  show e: "sv_device_nr d1 ! k = r" "sv_unique_id d1 ! k = uid" using kn n by (simp_all add: d1)
  have same: "i \<noteq> k \<Longrightarrow> sv_device_nr d1 ! i = sv_device_nr d ! i \<and> sv_unique_id d1 ! i = sv_unique_id d ! i" for i by (simp add: d1)
  then have fr: "i \<noteq> k \<Longrightarrow> row_free d1 i = row_free d i" for i by (simp add: row_free_def)
  have nk: "sv_device_nr d ! j \<noteq> r \<and> sv_unique_id d ! j \<noteq> uid" if "j < ?N" "j \<noteq> k" for j
    using reserved_is_new [OF t, of r j] rr that k new by (auto simp: find_row_def find_None_iff)
  have "row_free d1 i \<or> (IOC_RESERVED_AUTO_DEVICE_NR_START \<le> sv_device_nr d1 ! i \<and> sv_device_nr d1 ! i \<le> IOC_AUTO_DEVICE_NR_START - 2 \<and>
         (\<exists>b \<in> set (sv_unique_id d1 ! i). b \<noteq> 0))" if "i < ?N" for i
  proof (cases "i = k")
    case True
    then show ?thesis using e u rr by (simp add: auto_nr_defs word_le_nat_alt)
  next
    case False
    then show ?thesis using t that same [OF False] fr [OF False] by (auto simp: table_ok_def)
  qed
  moreover have "sv_device_nr d1 ! i \<noteq> sv_device_nr d1 ! j \<and> sv_unique_id d1 ! i \<noteq> sv_unique_id d1 ! j"
    if "i < ?N" "j < ?N" "\<not> row_free d1 i" "\<not> row_free d1 j" "i \<noteq> j" for i j
  proof -
    note q = that
    consider "i = k" "j \<noteq> k" | "i \<noteq> k" "j = k" | "i \<noteq> k" "j \<noteq> k" using q(5) by blast
    then show ?thesis
    proof cases
      case 1
      then show ?thesis using e same [of j] nk [OF q(2)] by auto
    next
      case 2
      then show ?thesis using e same [of i] nk [OF q(1)] by auto
    next
      case 3
      then show ?thesis using same [of i] same [of j] fr t q unfolding table_ok_def by metis
    qed
  qed
  ultimately show "table_ok d1" using n unfolding table_ok_def by (simp add: d1)
qed

lemma get_with_id:
  assumes "\<exists>b \<in> set uid. b \<noteq> 0" and "d = loaded_table stored a"
  shows "ioc_get_automatic_device_nr rand stored used (Some uid) a =
    (case find_row uid d of
       Some i \<Rightarrow> (sv_device_nr d ! i, a\<lparr>an_saved := d, an_data_loaded := True\<rparr>, None)
     | None \<Rightarrow>
         let r = next_reserve (sv_reserve d); k = select_row r (sv_device_nr d);
             d1 = d\<lparr>sv_device_nr := (sv_device_nr d)[k := r], sv_reserve := r + 1, sv_unique_id := (sv_unique_id d)[k := uid]\<rparr>
         in (sv_device_nr d1 ! k, a\<lparr>an_saved := d1, an_data_loaded := True\<rparr>, Some d1))"
proof -
  have "(if an_data_loaded a then a
      else a\<lparr>an_saved := (case stored of None \<Rightarrow> an_saved a | Some d \<Rightarrow> d), an_data_loaded := True\<rparr>) = a\<lparr>an_saved := d, an_data_loaded := True\<rparr>"
    by (cases "an_data_loaded a") (simp_all add: assms(2) loaded_table_def split: option.splits)
  then show ?thesis using assms(1)
    by (auto simp: ioc_get_automatic_device_nr_def ioc_get_reserved_autonr_def Let_def split: option.splits)
qed

section \<open>Rows in the order of their numbers\<close>

text \<open>
  How many numbers ago the number of a row was given out, \<open>r\<close> being the next one; the 30999 reserved
  numbers from 9001 on are used in turn. A table is \<^emph>\<open>recent\<close> when its rows hold the last numbers given
  out, at most five, and rows are free only before the fifth.
\<close>

definition age :: "u32 \<Rightarrow> u32 \<Rightarrow> nat" where
  "age r nr = (if unat nr \<le> unat r then unat r - unat nr else unat r + 30999 - unat nr)"

abbreviation next_nr :: "iocSavedAutoNrData \<Rightarrow> u32" where
  "next_nr d \<equiv> next_reserve (sv_reserve d)"

definition recent :: "iocSavedAutoNrData \<Rightarrow> bool" where
  "recent d \<longleftrightarrow> table_ok d \<and>
     (\<forall>i < IOC_NRO_SAVED_DEVICE_NRS. \<not> row_free d i \<longrightarrow> age (next_nr d) (sv_device_nr d ! i) \<in> {1..5}) \<and>
     ((\<exists>i < IOC_NRO_SAVED_DEVICE_NRS. row_free d i) \<longrightarrow>
        unat (next_nr d) \<le> 9001 + card {i. i < IOC_NRO_SAVED_DEVICE_NRS \<and> \<not> row_free d i} \<and>
        (\<forall>i < IOC_NRO_SAVED_DEVICE_NRS. unat (sv_device_nr d ! i) < unat (next_nr d)))"

lemma next_reserve_next:
  assumes "9001 \<le> unat r" "unat r \<le> 39999"
  shows "unat (next_reserve (r + 1)) = (if unat r = 39999 then 9001 else unat r + 1)"
proof -
  have "unat (r + 1) = unat r + 1" using assms(2) by (simp add: unat_word_ariths)
  then show ?thesis using assms by (auto simp: next_reserve_def auto_nr_defs word_less_nat_alt)
qed

lemma age_next:
  assumes "9001 \<le> unat r" "unat r \<le> 39999" "9001 \<le> unat nr" "unat nr \<le> 39999" "age r nr \<in> {1..5}"
  shows "age (next_reserve (r + 1)) nr = age r nr + 1"
  using assms next_reserve_next [OF assms(1,2)] by (auto simp: age_def split: if_splits)

lemma age_new:
  assumes "9001 \<le> unat r" "unat r \<le> 39999" shows "age (next_reserve (r + 1)) r = 1"
  using assms next_reserve_next [OF assms] by (auto simp: age_def)

lemma row_key_unat: "small_nr nr \<Longrightarrow> unat (row_key r nr) = (if unat r \<le> unat nr then unat nr else unat nr + 40001)"
  using start_plus [of nr] by (auto simp: row_key_def word_le_nat_alt)

text \<open>The row that is used next: a free one, or else the one with the oldest number.\<close>

lemma select_row_oldest:
  assumes rc: "recent d" and k: "k = select_row (next_nr d) (sv_device_nr d)"
  shows "row_free d k \<or> (\<forall>i < IOC_NRO_SAVED_DEVICE_NRS. \<not> row_free d i) \<and> age (next_nr d) (sv_device_nr d ! k) = 5"
proof -
  let ?N = "IOC_NRO_SAVED_DEVICE_NRS" and ?r = "next_nr d"
  have t: "table_ok d" using rc by (simp add: recent_def)
  have n: "length (sv_device_nr d) = ?N" using t by (simp add: table_ok_def)
  then have ne: "sv_device_nr d \<noteq> []" by (auto simp: IOC_NRO_SAVED_DEVICE_NRS_def)
  have kN: "k < ?N" using select_row_least [OF _ ne, of ?r] table_small [OF t] n k by simp
  have least: "unat (row_key ?r (sv_device_nr d ! k)) \<le> unat (row_key ?r (sv_device_nr d ! i))" if "i < ?N" for i
    using select_row_least [OF _ ne, of ?r] table_small [OF t] n k that by (simp add: word_le_nat_alt)
  have sm: "small_nr (sv_device_nr d ! i)" if "i < ?N" for i using table_small [OF t] n that by simp
  note rr = next_reserve_range [of "sv_reserve d"]
  show ?thesis
  proof (cases "\<exists>i < ?N. row_free d i")
    case True
    then obtain i where i: "i < ?N" "row_free d i" by blast
    have "unat (sv_device_nr d ! k) < unat ?r" using rc True kN by (auto simp: recent_def)
    then have "unat (sv_device_nr d ! k) = 0"
      using least [OF i(1)] row_key_unat [OF sm [OF kN], of ?r] row_key_unat [OF sm [OF i(1)], of ?r] i(2) rr
      by (simp add: row_free_def)
    then show ?thesis using row_cases [OF t kN] by auto
  next
    case False
    have full: "\<not> row_free d i" if "i < ?N" for i using False that by blast
    have ag: "age ?r (sv_device_nr d ! i) \<in> {1..5}" if "i < ?N" for i using rc full that by (simp add: recent_def)
    have rg: "9001 \<le> unat (sv_device_nr d ! i) \<and> unat (sv_device_nr d ! i) \<le> 39999" if "i < ?N" for i
      using row_cases [OF t that] full [OF that] by blast
    have inj: "inj_on (\<lambda>i. age ?r (sv_device_nr d ! i)) {..<?N}"
    proof (rule inj_onI)
      fix i j
      assume ij: "i \<in> {..<?N}" "j \<in> {..<?N}" "age ?r (sv_device_nr d ! i) = age ?r (sv_device_nr d ! j)"
      then have "unat (sv_device_nr d ! i) = unat (sv_device_nr d ! j)"
        using rg [of i] rg [of j] ag [of i] ag [of j] rr by (auto simp: age_def split: if_splits)
      then have "sv_device_nr d ! i = sv_device_nr d ! j" by (simp add: word_unat_eq_iff)
      then show "i = j" using t full ij unfolding table_ok_def by (metis lessThan_iff)
    qed
    have "(\<lambda>i. age ?r (sv_device_nr d ! i)) ` {..<?N} = {1..5}"
      by (rule card_subset_eq) (use ag card_image [OF inj] in \<open>auto simp: IOC_NRO_SAVED_DEVICE_NRS_def\<close>)
    then have "5 \<in> (\<lambda>i. age ?r (sv_device_nr d ! i)) ` {..<?N}" by simp
    then obtain m where m: "m < ?N" "age ?r (sv_device_nr d ! m) = 5" by auto
    have "age ?r (sv_device_nr d ! k) = 5"
      using least [OF m(1)] m rg [OF m(1)] rg [OF kN] ag [OF kN] rr row_key_unat [OF sm [OF kN], of ?r] row_key_unat [OF sm [OF m(1)], of ?r]
      by (auto simp: age_def split: if_splits)
    then show ?thesis using full by blast
  qed
qed

text \<open>Giving out a number keeps the table recent: the other rows get one older.\<close>

lemma assign_recent:
  assumes rc: "recent d" and u: "\<exists>b \<in> set uid. b \<noteq> 0" and new: "find_row uid d = None"
    and k: "k = select_row (next_nr d) (sv_device_nr d)"
    and d1: "d1 = d\<lparr>sv_device_nr := (sv_device_nr d)[k := next_nr d], sv_reserve := next_nr d + 1, sv_unique_id := (sv_unique_id d)[k := uid]\<rparr>"
  shows "recent d1" and "age (next_nr d1) (sv_device_nr d1 ! k) = 1"
    and "\<And>i. i < IOC_NRO_SAVED_DEVICE_NRS \<Longrightarrow> i \<noteq> k \<Longrightarrow> \<not> row_free d i \<Longrightarrow>
      age (next_nr d1) (sv_device_nr d1 ! i) = age (next_nr d) (sv_device_nr d ! i) + 1"
proof -
  let ?N = "IOC_NRO_SAVED_DEVICE_NRS" and ?r = "next_nr d"
  have t: "table_ok d" using rc by (simp add: recent_def)
  note as = assign_ok [OF t u new refl k d1]
  note rr = next_reserve_range [of "sv_reserve d"]
  have r1: "next_nr d1 = next_reserve (?r + 1)" by (simp add: d1)
  show a1: "age (next_nr d1) (sv_device_nr d1 ! k) = 1" unfolding r1 as(3) by (rule age_new) (use rr in simp_all)
  have same: "sv_device_nr d1 ! i = sv_device_nr d ! i" "row_free d1 i = row_free d i" if "i \<noteq> k" for i
    using that by (simp_all add: d1 row_free_def)
  have kf: "\<not> row_free d1 k" using as(4) u by (auto simp: row_free_def)
  show step: "age (next_nr d1) (sv_device_nr d1 ! i) = age ?r (sv_device_nr d ! i) + 1" if "i < ?N" "i \<noteq> k" "\<not> row_free d i" for i
    unfolding r1 same(1) [OF that(2)]
    by (rule age_next) (use rr row_cases [OF t that(1)] rc that in \<open>auto simp: recent_def\<close>)
  have old: "age ?r (sv_device_nr d ! i) \<le> 4" if i: "i < ?N" "i \<noteq> k" "\<not> row_free d i" for i
  proof (cases "row_free d k")
    case True
    have "unat (sv_device_nr d ! i) < unat ?r" "unat ?r \<le> 9001 + card {i. i < ?N \<and> \<not> row_free d i}"
      using rc True as(1) i(1) by (auto simp: recent_def)
    moreover have "card {i. i < ?N \<and> \<not> row_free d i} \<le> card ({..<?N} - {k})" by (rule card_mono) (use True in auto)
    ultimately show ?thesis using row_cases [OF t i(1)] i(3) as(1) by (auto simp: age_def IOC_NRO_SAVED_DEVICE_NRS_def)
  next
    case False
    then have f: "\<not> row_free d j" if "j < ?N" for j using select_row_oldest [OF rc k] that by blast
    have o5: "age ?r (sv_device_nr d ! k) = 5" using select_row_oldest [OF rc k] False by blast
    have ag: "age ?r (sv_device_nr d ! i) \<le> 5" using rc i by (auto simp: recent_def)
    have "age ?r (sv_device_nr d ! i) \<noteq> 5"
    proof
      assume "age ?r (sv_device_nr d ! i) = 5"
      then have "unat (sv_device_nr d ! i) = unat (sv_device_nr d ! k)"
        using o5 row_cases [OF t i(1)] row_cases [OF t as(1)] i(3) f [OF as(1)] rr by (auto simp: age_def split: if_splits)
      then have "sv_device_nr d ! i = sv_device_nr d ! k" by (simp add: word_unat_eq_iff)
      then show False using t i f as(1) unfolding table_ok_def by metis
    qed
    then show ?thesis using ag by simp
  qed
  have ages: "age (next_nr d1) (sv_device_nr d1 ! i) \<in> {1..5}" if "i < ?N" "\<not> row_free d1 i" for i
  proof (cases "i = k")
    case False
    then show ?thesis using step [of i] old [of i] that same by simp
  qed (use a1 in simp)
  have "unat (next_nr d1) \<le> 9001 + card {i. i < ?N \<and> \<not> row_free d1 i} \<and> (\<forall>i < ?N. unat (sv_device_nr d1 ! i) < unat (next_nr d1))"
    if m: "m < ?N" "row_free d1 m" for m
  proof -
    have mk: "m \<noteq> k" using m kf by auto
    then have fr: "row_free d m" using m same by simp
    then have c: "unat ?r \<le> 9001 + card {i. i < ?N \<and> \<not> row_free d i}" and lt: "\<forall>i < ?N. unat (sv_device_nr d ! i) < unat ?r"
      using rc m(1) by (auto simp: recent_def)
    have "row_free d k" using select_row_oldest [OF rc k] fr m(1) by blast
    then have e: "{i. i < ?N \<and> \<not> row_free d1 i} = insert k {i. i < ?N \<and> \<not> row_free d i}" "k \<notin> {i. i < ?N \<and> \<not> row_free d i}"
      using kf same(2) as(1) by (auto, metis)
    have "card {i. i < ?N \<and> \<not> row_free d i} \<le> card {..<?N}" by (rule card_mono) auto
    then have n: "unat (next_nr d1) = unat ?r + 1"
      using next_reserve_next rr c r1 by (auto simp: IOC_NRO_SAVED_DEVICE_NRS_def)
    have "unat (sv_device_nr d1 ! i) < unat (next_nr d1)" if "i < ?N" for i
      using lt that n same(1) [of i] as(3) by (cases "i = k") auto
    moreover have "card {i. i < ?N \<and> \<not> row_free d1 i} = card {i. i < ?N \<and> \<not> row_free d i} + 1" using e by simp
    ultimately show ?thesis using n c by simp
  qed
  then show "recent d1" using as(2) ages unfolding recent_def by blast
qed

section \<open>A controller at work\<close>

text \<open>
  A controller: what persistent storage has, and the state in memory. It answers devices, which may tell
  an identifier, saving the table whenever the code does; a restart brings the state back to \<open>z\<close>, the
  state at program start, with nothing loaded.
\<close>

type_synonym controller = "iocSavedAutoNrData option \<times> iocAutoDeviceNrState"

datatype request = Ask "nat \<Rightarrow> u32" "u32 list" "byte list option" | Restart

fun serve :: "iocAutoDeviceNrState \<Rightarrow> request \<Rightarrow> controller \<Rightarrow> controller" where
  "serve z (Ask rand used uid) (stored, a) =
    (case ioc_get_automatic_device_nr rand stored used uid a of
       (nr, a', saved) \<Rightarrow> (case saved of None \<Rightarrow> stored | Some d \<Rightarrow> Some d, a'))"
| "serve z Restart (stored, a) = (stored, z)"

fun answer :: "(nat \<Rightarrow> u32) \<Rightarrow> u32 list \<Rightarrow> byte list \<Rightarrow> controller \<Rightarrow> u32" where
  "answer rand used uid (stored, a) = fst (ioc_get_automatic_device_nr rand stored used (Some uid) a)"

fun current_table :: "controller \<Rightarrow> iocSavedAutoNrData" where
  "current_table (stored, a) = loaded_table stored a"

fun asks :: "request \<Rightarrow> byte list set" where
  "asks (Ask rand used (Some uid)) = (if \<exists>b \<in> set uid. b \<noteq> 0 then {uid} else {})"
| "asks _ = {}"

text \<open>Storage has what memory has, unless nothing was ever saved.\<close>

fun in_step :: "iocAutoDeviceNrState \<Rightarrow> controller \<Rightarrow> bool" where
  "in_step z (stored, a) \<longleftrightarrow> \<not> an_data_loaded z \<and>
    (if an_data_loaded a then stored = Some (an_saved a) \<or> stored = None \<and> an_saved a = an_saved z
     else stored \<noteq> None \<or> an_saved a = an_saved z)"

lemma serve_other:
  assumes "in_step z c" and "asks req = {}"
  shows "in_step z (serve z req c) \<and> current_table (serve z req c) = current_table c"
proof (cases req)
  case Restart
  then show ?thesis using assms by (cases c) (auto simp: loaded_table_def split: option.splits if_splits)
next
  case (Ask rand used uid)
  then have "\<not> (uid \<noteq> None \<and> (\<exists>b \<in> set (the uid). b \<noteq> 0))" using assms(2) by (cases uid) (auto split: if_splits)
  then show ?thesis using assms Ask
    by (cases c) (auto simp: ioc_get_automatic_device_nr_def loaded_table_def Let_def split: option.splits if_splits)
qed

lemma serve_known:
  assumes "in_step z c" and u: "\<exists>b \<in> set uid. b \<noteq> 0" and "find_row uid (current_table c) = Some i"
  shows "in_step z (serve z (Ask rand used (Some uid)) c)" "current_table (serve z (Ask rand used (Some uid)) c) = current_table c"
    "answer rand used uid c = sv_device_nr (current_table c) ! i"
  using assms by (cases c; auto simp: get_with_id [OF u refl] loaded_table_def split: option.splits if_splits)+

lemma serve_new:
  assumes "in_step z c" and u: "\<exists>b \<in> set uid. b \<noteq> 0" and "find_row uid (current_table c) = None"
    and "k = select_row (next_nr (current_table c)) (sv_device_nr (current_table c))"
    and "d1 = (current_table c)\<lparr>sv_device_nr := (sv_device_nr (current_table c))[k := next_nr (current_table c)],
      sv_reserve := next_nr (current_table c) + 1, sv_unique_id := (sv_unique_id (current_table c))[k := uid]\<rparr>"
  shows "in_step z (serve z (Ask rand used (Some uid)) c)" "current_table (serve z (Ask rand used (Some uid)) c) = d1"
    "answer rand used uid c = sv_device_nr d1 ! k"
  using assms by (cases c; simp add: get_with_id [OF u refl] loaded_table_def Let_def)+

section \<open>Property\<close>

text \<open>
  The device keeps its row as long as every row with a newer number belongs to one of a few others.
\<close>

definition keeps :: "byte list set \<Rightarrow> byte list \<Rightarrow> u32 \<Rightarrow> iocSavedAutoNrData \<Rightarrow> bool" where
  "keeps others uid nr d \<longleftrightarrow> recent d \<and> (\<exists>i < IOC_NRO_SAVED_DEVICE_NRS. sv_unique_id d ! i = uid \<and> sv_device_nr d ! i = nr \<and>
     (\<forall>g. 1 \<le> g \<and> g < age (next_nr d) nr \<longrightarrow>
        (\<exists>j < IOC_NRO_SAVED_DEVICE_NRS. \<not> row_free d j \<and> age (next_nr d) (sv_device_nr d ! j) = g \<and> sv_unique_id d ! j \<in> others)))"

lemma keeps_new:
  assumes k: "keeps others uid nr d" and u: "\<exists>b \<in> set uid. b \<noteq> 0" and o: "finite others" "card others \<le> 4"
    and x: "x \<in> others" "\<exists>b \<in> set x. b \<noteq> 0" "find_row x d = None"
    and r: "r = select_row (next_nr d) (sv_device_nr d)"
    and d1: "d1 = d\<lparr>sv_device_nr := (sv_device_nr d)[r := next_nr d], sv_reserve := next_nr d + 1, sv_unique_id := (sv_unique_id d)[r := x]\<rparr>"
  shows "keeps others uid nr d1"
proof -
  let ?N = "IOC_NRO_SAVED_DEVICE_NRS" and ?g = "age (next_nr d) nr"
  obtain i where i: "i < ?N" "sv_unique_id d ! i = uid" "sv_device_nr d ! i = nr"
    and nw: "\<forall>g. 1 \<le> g \<and> g < ?g \<longrightarrow> (\<exists>j < ?N. \<not> row_free d j \<and> age (next_nr d) (sv_device_nr d ! j) = g \<and> sv_unique_id d ! j \<in> others)"
    and rc: "recent d" using k unfolding keeps_def by blast
  have t: "table_ok d" using rc by (simp add: recent_def)
  have fi: "\<not> row_free d i" using i(2) u by (auto simp: row_free_def)
  note as = assign_ok [OF t x(2,3) refl r d1] and ar = assign_recent [OF rc x(2,3) r d1]
  have gi: "1 \<le> ?g" using rc i fi unfolding recent_def by auto
  obtain f where f: "\<forall>g \<in> {1..<?g}. f g < ?N \<and> \<not> row_free d (f g) \<and> age (next_nr d) (sv_device_nr d ! f g) = g \<and> sv_unique_id d ! f g \<in> others"
    using nw by (metis atLeastLessThan_iff)
  have "inj_on (\<lambda>g. sv_unique_id d ! f g) {1..<?g}"
    by (rule inj_onI) (use f t in \<open>unfold table_ok_def, metis\<close>)
  moreover have "(\<lambda>g. sv_unique_id d ! f g) ` {1..<?g} \<subseteq> others - {x}"
    using f x(3) by (auto simp: find_row_def find_None_iff)
  ultimately have "card {1..<?g} \<le> card (others - {x})" using o(1) by (metis card_inj_on_le finite_Diff)
  then have g4: "?g \<le> 4" using o x(1) by simp
  have far: "j \<noteq> r" if "j < ?N" "\<not> row_free d j" "age (next_nr d) (sv_device_nr d ! j) \<le> 4" for j
    using select_row_oldest [OF rc r] that by auto
  have ir: "i \<noteq> r" using far [OF i(1) fi] i(3) g4 by simp
  have same: "j \<noteq> r \<Longrightarrow> sv_device_nr d1 ! j = sv_device_nr d ! j \<and> sv_unique_id d1 ! j = sv_unique_id d ! j \<and> row_free d1 j = row_free d j" for j
    by (simp add: d1 row_free_def)
  have ag: "age (next_nr d1) nr = ?g + 1" using ar(3) [OF i(1) ir fi] same [OF ir] i(3) by simp
  have "\<exists>j < ?N. \<not> row_free d1 j \<and> age (next_nr d1) (sv_device_nr d1 ! j) = g \<and> sv_unique_id d1 ! j \<in> others"
    if g: "1 \<le> g" "g < ?g + 1" for g
  proof (cases "g = 1")
    case True
    then show ?thesis using as(1,4) ar(2) x by (intro exI [of _ r]) (auto simp: row_free_def)
  next
    case False
    define h where "h = g - 1"
    have h: "h \<in> {1..<?g}" "g = h + 1" using g False by (auto simp: h_def)
    then have j: "f h < ?N" "\<not> row_free d (f h)" "age (next_nr d) (sv_device_nr d ! f h) = h" "sv_unique_id d ! f h \<in> others" using f by blast+
    have jr: "f h \<noteq> r" using far [OF j(1,2)] j(3) h g4 by simp
    then show ?thesis using ar(3) [OF j(1) jr j(2)] same [OF jr] j h(2) by (intro exI [of _ "f h"]) simp
  qed
  then show ?thesis using ar(1) i ir same [OF ir] ag unfolding keeps_def by (intro conjI exI [of _ i]) auto
qed

lemma keeps_holds: "keeps others uid nr d \<Longrightarrow> recent d \<and> holds d uid nr"
  by (auto simp: keeps_def holds_def)

lemma keeps_request:
  assumes st: "in_step z c" and k: "keeps others uid nr (current_table c)" and u: "\<exists>b \<in> set uid. b \<noteq> 0"
    and o: "finite others" "card others \<le> 4" and q: "asks req \<subseteq> insert uid others"
  shows "in_step z (serve z req c) \<and> keeps others uid nr (current_table (serve z req c))"
proof (cases "asks req = {}")
  case True
  then show ?thesis using serve_other [OF st True] k by simp
next
  case False
  then obtain rand used x where r: "req = Ask rand used (Some x)" "\<exists>b \<in> set x. b \<noteq> 0" "asks req = {x}"
    by (cases req rule: asks.cases) (auto split: if_splits)
  show ?thesis
  proof (cases "find_row x (current_table c)")
    case (Some i)
    then show ?thesis using serve_known [OF st r(2) Some] k r(1) by simp
  next
    case None
    have "x \<noteq> uid" using find_row_holds [of "current_table c" uid nr] keeps_holds [OF k] u None by (auto simp: recent_def)
    then have "x \<in> others" using q r(3) by simp
    then show ?thesis using serve_new(1,2) [OF st r(2) None refl refl] keeps_new [OF k u o _ r(2) None refl refl] r(1) by simp
  qed
qed

lemma keeps_requests:
  assumes "in_step z c" and "keeps others uid nr (current_table c)" and "\<exists>b \<in> set uid. b \<noteq> 0"
    and "finite others" "card others \<le> 4" and "\<forall>req \<in> set reqs. asks req \<subseteq> insert uid others"
  shows "in_step z (fold (serve z) reqs c) \<and> keeps others uid nr (current_table (fold (serve z) reqs c))"
  using assms
proof (induction reqs arbitrary: c)
  case (Cons req reqs)
  have "in_step z (serve z req c) \<and> keeps others uid nr (current_table (serve z req c))"
    by (rule keeps_request [OF Cons.prems(1-5)]) (use Cons.prems(6) in simp)
  then show ?case using Cons by simp
qed simp

text \<open>
  \<^bold>\<open>C9\<close> A device that tells a unique identifier gets a number of the reserved range that no other
  device in the table has, the table stays in order, and the device gets the same number when it asks
  again. A device that got a new number keeps it whatever requests follow, in any number and order, as
  long as at most four other identified devices ask, with restarts of the controller, after which the table
  is loaded as it was saved, and requests of devices without an identifier anywhere in between. (A fifth
  other device may take its row: the table has five.) A device that was known already keeps its number at
  least until another device asks.
\<close>

theorem device_number_reserved:
  assumes st: "in_step z c" and rc: "recent (current_table c)" and u: "\<exists>b \<in> set uid. b \<noteq> 0"
  shows "let nr = answer rand used uid c; c' = serve z (Ask rand used (Some uid)) c in
    in_step z c' \<and> recent (current_table c') \<and> holds (current_table c') uid nr \<and> 9001 \<le> unat nr \<and> unat nr \<le> 39999 \<and>
    (\<forall>other n. holds (current_table c') other n \<longrightarrow> other \<noteq> uid \<longrightarrow> n \<noteq> nr) \<and>
    (\<forall>reqs others rand2 used2. (\<forall>req \<in> set reqs. asks req \<subseteq> insert uid others) \<longrightarrow>
       others = {} \<or> finite others \<and> card others \<le> 4 \<and> find_row uid (current_table c) = None \<longrightarrow>
       answer rand2 used2 uid (fold (serve z) reqs c') = nr)"
proof -
  let ?N = "IOC_NRO_SAVED_DEVICE_NRS"
  define nr where "nr = answer rand used uid c"
  define c' where "c' = serve z (Ask rand used (Some uid)) c"
  have t: "table_ok (current_table c)" using rc by (simp add: recent_def)
  have again: "answer rand2 used2 uid c2 = nr" if "in_step z c2" "recent (current_table c2)" "holds (current_table c2) uid nr" for rand2 used2 c2
    using find_row_holds [OF _ u that(3)] that serve_known(3) [OF that(1) u] by (auto simp: recent_def)
  have c1: "in_step z c' \<and> recent (current_table c') \<and> holds (current_table c') uid nr \<and>
      (find_row uid (current_table c) = None \<longrightarrow> (\<forall>others. keeps others uid nr (current_table c')))"
  proof (cases "find_row uid (current_table c)")
    case (Some i)
    then have "i < ?N" "sv_unique_id (current_table c) ! i = uid" by (auto simp: find_row_def find_Some_iff)
    then show ?thesis using serve_known [OF st u Some] rc Some by (auto simp: c'_def nr_def holds_def)
  next
    case None
    note as = assign_ok [OF t u None refl refl refl] and ar = assign_recent [OF rc u None refl refl]
      and sn = serve_new [OF st u None refl refl]
    have kk: "keeps others uid nr (current_table c')" for others
      unfolding keeps_def c'_def nr_def sn(2,3) using ar(1,2) as(1,4) by (intro conjI) (blast, metis linorder_not_le)
    then show ?thesis using sn(1) keeps_holds [OF kk [of "{}"]] by (simp add: c'_def)
  qed
  then obtain i where i: "i < ?N" "sv_unique_id (current_table c') ! i = uid" "sv_device_nr (current_table c') ! i = nr" by (auto simp: holds_def)
  have t': "table_ok (current_table c')" using c1 by (simp add: recent_def)
  have nf: "\<not> row_free (current_table c') i" using i(2) u by (auto simp: row_free_def)
  have "n \<noteq> nr" if other: "holds (current_table c') other n" "other \<noteq> uid" for other n
  proof -
    obtain j where j: "j < ?N" "sv_unique_id (current_table c') ! j = other" "sv_device_nr (current_table c') ! j = n"
      using other(1) by (auto simp: holds_def)
    show ?thesis
    proof (cases "row_free (current_table c') j")
      case True
      then show ?thesis using j row_cases [OF t' i(1)] nf i(3) by (auto simp: row_free_def)
    next
      case False
      then show ?thesis using t' i j nf other(2) unfolding table_ok_def by metis
    qed
  qed
  moreover have "answer rand2 used2 uid (fold (serve z) reqs c') = nr"
    if q: "\<forall>req \<in> set reqs. asks req \<subseteq> insert uid others"
      "others = {} \<or> finite others \<and> card others \<le> 4 \<and> find_row uid (current_table c) = None" for reqs others rand2 used2
  proof (cases "others = {}")
    case True
    have "in_step z (fold (serve z) reqs c2) \<and> current_table (fold (serve z) reqs c2) = current_table c2"
      if "in_step z c2" "current_table c2 = current_table c'" "\<forall>req \<in> set reqs. asks req \<subseteq> {uid}" for c2 reqs
      using that
    proof (induction reqs arbitrary: c2)
      case (Cons req reqs)
      have "in_step z (serve z req c2) \<and> current_table (serve z req c2) = current_table c2"
      proof (cases "asks req = {}")
        case False
        then obtain rand used where "req = Ask rand used (Some uid)" using Cons.prems(3)
          by (cases req rule: asks.cases) (auto split: if_splits)
        moreover obtain k where "find_row uid (current_table c2) = Some k"
          using find_row_holds [OF t' u] c1 Cons.prems(2) by auto
        ultimately show ?thesis using serve_known(1,2) [OF Cons.prems(1) u] by simp
      qed (use serve_other [OF Cons.prems(1)] in simp)
      then show ?case using Cons by simp
    qed simp
    then show ?thesis using q(1) True c1 again by simp
  next
    case False
    then show ?thesis using keeps_requests [of z c' others uid nr reqs] q c1 u again keeps_holds by blast
  qed
  ultimately show ?thesis using c1 row_cases [OF t' i(1)] nf i(3)
    unfolding Let_def nr_def [symmetric] c'_def [symmetric] by blast
qed

text \<open>The state at program start, and a table with two devices.\<close>

definition autonr_blank :: iocAutoDeviceNrState where
  "autonr_blank = \<lparr>an_auto_device_nr = 40002, an_data_loaded = False,
     an_saved = \<lparr>sv_reserve = 0, sv_device_nr = [0, 0, 0, 0, 0], sv_unique_id = [[0], [0], [0], [0], [0]]\<rparr>\<rparr>"

definition autonr_table :: iocSavedAutoNrData where
  "autonr_table = \<lparr>sv_reserve = 9003, sv_device_nr = [9001, 9002, 0, 0, 0], sv_unique_id = [[1], [2], [0], [0], [0]]\<rparr>"

lemma all_below_5: "(\<forall>i < 5. P i) \<longleftrightarrow> P 0 \<and> P 1 \<and> P 2 \<and> P 3 \<and> P (4 :: nat)"
proof -
  have "{i. i < 5} = {0, 1, 2, 3, 4 :: nat}" by auto
  then show ?thesis by (auto simp: set_eq_iff)
qed

theorem device_number_reserved_witness:
  "answer (\<lambda>_. 0) [] [7] (fold (serve autonr_blank)
      [Ask (\<lambda>_. 0) [] (Some [8]), Restart, Ask (\<lambda>_. 0) [] (Some [9]), Ask (\<lambda>_. 4) [] None, Ask (\<lambda>_. 0) [] (Some [1]), Ask (\<lambda>_. 0) [] (Some [10])]
      (serve autonr_blank (Ask (\<lambda>_. 0) [] (Some [7])) (Some autonr_table, autonr_blank))) = 9003"
proof -
  let ?c = "(Some autonr_table, autonr_blank)"
  let ?reqs = "[Ask (\<lambda>_. 0) [] (Some [8]), Restart, Ask (\<lambda>_. 0) [] (Some [9]), Ask (\<lambda>_. 4) [] None, Ask (\<lambda>_. 0) [] (Some [1]), Ask (\<lambda>_. 0) [] (Some [10])]"
  have t: "current_table ?c = autonr_table" by (simp add: loaded_table_def autonr_blank_def)
  have f: "row_free autonr_table i \<longleftrightarrow> i \<in> {2, 3, 4}" if "i < IOC_NRO_SAVED_DEVICE_NRS" for i
    using that by (auto simp: row_free_def autonr_table_def IOC_NRO_SAVED_DEVICE_NRS_def less_Suc_eq numeral_eq_Suc)
  have "{i. i < IOC_NRO_SAVED_DEVICE_NRS \<and> \<not> row_free autonr_table i} = {0, 1}"
    using f by (auto simp: IOC_NRO_SAVED_DEVICE_NRS_def)
  then have "recent autonr_table"
    by (simp add: recent_def table_ok_def autonr_table_def IOC_NRO_SAVED_DEVICE_NRS_def row_free_def auto_nr_defs all_below_5
        next_reserve_def age_def)
  then have r: "recent (current_table ?c)" using t by simp
  have st: "in_step autonr_blank ?c" by (simp add: autonr_blank_def)
  have n: "find_row [7] (current_table ?c) = None" "answer (\<lambda>_. 0) [] [7] ?c = 9003" by code_simp+
  have "\<forall>req \<in> set ?reqs. asks req \<subseteq> insert [7] {[8], [9], [1], [10]}" "finite {[8], [9], [1], [10 :: byte]}"
    "card {[8], [9], [1], [10 :: byte]} \<le> 4" by (auto simp: card_insert_if)
  moreover have "\<forall>reqs others rand2 used2. (\<forall>req \<in> set reqs. asks req \<subseteq> insert [7] others) \<longrightarrow>
      others = {} \<or> finite others \<and> card others \<le> 4 \<and> find_row [7] (current_table ?c) = None \<longrightarrow>
      answer rand2 used2 [7] (fold (serve autonr_blank) reqs (serve autonr_blank (Ask (\<lambda>_. 0) [] (Some [7])) ?c)) = answer (\<lambda>_. 0) [] [7] ?c"
    using device_number_reserved [OF st r, of "[7]" "\<lambda>_. 0" "[]"] unfolding Let_def by (elim meta_impE) (simp, blast)
  ultimately have "answer (\<lambda>_. 0) [] [7] (fold (serve autonr_blank) ?reqs (serve autonr_blank (Ask (\<lambda>_. 0) [] (Some [7])) ?c)) =
      answer (\<lambda>_. 0) [] [7] ?c" using n(1) by blast
  then show ?thesis unfolding n(2) .
qed

end
