(* ===== verification/Ioc_Root_Inv.thy ===== *)
theory Ioc_Root_Inv
  imports Ioc_Root
begin

text \<open>
  The pointers between the objects under a root stay valid. Bindings are looked at from both sides:
  a connection has buffers, each for a block, and a block has buffers. The invariant says that the two
  views agree, that every cursor points to something that exists, and that a buffer has one owner.
\<close>

section \<open>Bindings\<close>

definition sb_links :: "iocRoot \<Rightarrow> (nat \<times> nat \<times> nat) set" where
  "sb_links root = {(r, c, b). \<exists>con sb. rt_con root c = Some con \<and> (r, sb) \<in> set (con_sbufs con) \<and> sb_mblk sb = b}"

definition tb_links :: "iocRoot \<Rightarrow> (nat \<times> nat \<times> nat) set" where
  "tb_links root = {(r, c, b). \<exists>con tb. rt_con root c = Some con \<and> (r, tb) \<in> set (con_tbufs con) \<and> tb_mblk tb = b}"

definition sb_refs :: "iocRoot \<Rightarrow> (nat \<times> nat) set" where
  "sb_refs root = {(r, b). \<exists>m. rt_mblk root b = Some m \<and> r \<in> set (mb_sbufs m)}"

definition tb_refs :: "iocRoot \<Rightarrow> (nat \<times> nat) set" where
  "tb_refs root = {(r, b). \<exists>m. rt_mblk root b = Some m \<and> r \<in> set (mb_tbufs m)}"

text \<open>Both sides know of the same bindings, and a buffer belongs to one connection and one block.\<close>

definition agree_on :: "(nat \<times> nat \<times> nat) set \<Rightarrow> (nat \<times> nat) set \<Rightarrow> bool" where
  "agree_on L R \<longleftrightarrow> (\<forall>r b. (r, b) \<in> R \<longleftrightarrow> (\<exists>c. (r, c, b) \<in> L)) \<and>
     (\<forall>r c b c' b'. (r, c, b) \<in> L \<longrightarrow> (r, c', b') \<in> L \<longrightarrow> c = c' \<and> b = b')"

lemma agree_on_remove: "agree_on L R \<Longrightarrow> (r, c, b) \<in> L \<Longrightarrow> agree_on (L - {(r, c, b)}) (R - {(r, b)})"
  unfolding agree_on_def by blast

lemma agree_on_insert: "agree_on L R \<Longrightarrow> r \<notin> fst ` L \<Longrightarrow> agree_on (insert (r, c, b) L) (insert (r, b) R)"
  unfolding agree_on_def by (auto simp: image_iff)

lemma agree_on_owner: "agree_on L R \<Longrightarrow> (r, b) \<in> R \<Longrightarrow> \<exists>c. (r, c, b) \<in> L"
  unfolding agree_on_def by blast

lemma agree_on_unique: "agree_on L R \<Longrightarrow> (r, c, b) \<in> L \<Longrightarrow> (r, c', b') \<in> L \<Longrightarrow> c' = c \<and> b' = b"
  unfolding agree_on_def by blast

section \<open>Invariant\<close>

definition points_into :: "nat option \<Rightarrow> nat set \<Rightarrow> bool" where
  "points_into p S \<longleftrightarrow> (case p of None \<Rightarrow> True | Some r \<Rightarrow> r \<in> S)"

lemma points_into_simps [simp]: "points_into None S" "points_into (Some r) S \<longleftrightarrow> r \<in> S"
  by (simp_all add: points_into_def)

definition con_ok_links :: "nat set \<Rightarrow> nat \<Rightarrow> iocConnection \<Rightarrow> bool" where
  "con_ok_links blocks c con \<longleftrightarrow> distinct (map fst (con_sbufs con)) \<and> distinct (map fst (con_tbufs con)) \<and>
     (\<forall>x \<in> set (con_sbufs con). sb_con (snd x) = c) \<and> (\<forall>x \<in> set (con_tbufs con). tb_con (snd x) = c) \<and>
     points_into (con_current con) (fst ` set (con_sbufs con)) \<and>
     points_into (con_sbuf_mbinfo_down con) (fst ` set (con_sbufs con)) \<and>
     points_into (con_tbuf_mbinfo_down con) (fst ` set (con_tbufs con)) \<and>
     points_into (con_current_mblk con) blocks \<and> points_into (con_current_cloud_mblk con) blocks"

definition links_ok :: "iocRoot \<Rightarrow> bool" where
  "links_ok root \<longleftrightarrow> distinct (rt_mblk_refs root) \<and> dom (rt_mblk root) = set (rt_mblk_refs root) \<and> dom (rt_con root) = set (rt_con_refs root) \<and>
     agree_on (sb_links root) (sb_refs root) \<and> agree_on (tb_links root) (tb_refs root) \<and>
     (\<forall>c con. rt_con root c = Some con \<longrightarrow> con_ok_links (set (rt_mblk_refs root)) c con) \<and>
     (\<forall>b m. rt_mblk root b = Some m \<longrightarrow> distinct (mb_sbufs m) \<and> distinct (mb_tbufs m))"

lemma next_ref_in: "distinct xs \<Longrightarrow> next_ref r xs = Some y \<Longrightarrow> y \<in> set xs \<and> y \<noteq> r"
  by (induction xs) (auto split: if_splits list.splits)

lemma points_into_next: "distinct xs \<Longrightarrow> points_into (next_ref r xs) (set xs - {r})"
  using next_ref_in by (cases "next_ref r xs") auto

lemma sbuf_mblk_iff:
  "con_ok_links B c con \<Longrightarrow> sbuf_mblk con r = Some b \<longleftrightarrow> (\<exists>sb. (r, sb) \<in> set (con_sbufs con) \<and> sb_mblk sb = b)"
  by (auto simp: sbuf_mblk_def con_ok_links_def)

lemma tbuf_mblk_iff:
  "con_ok_links B c con \<Longrightarrow> tbuf_mblk con r = Some b \<longleftrightarrow> (\<exists>tb. (r, tb) \<in> set (con_tbufs con) \<and> tb_mblk tb = b)"
  by (auto simp: tbuf_mblk_def con_ok_links_def)

section \<open>Releasing a buffer\<close>

lemma release_sbuf_con_ok:
  assumes "con_ok_links B c con"
  shows "con_ok_links B c (fst (ioc_release_source_buffer r con mblk))"
proof -
  have d: "distinct (map fst (con_sbufs con))" using assms by (simp add: con_ok_links_def)
  have f: "fst ` set (filter (\<lambda>x. fst x \<noteq> r) (con_sbufs con)) = fst ` set (con_sbufs con) - {r}" by auto
  have "points_into (next_ref r (map fst (con_sbufs con))) (fst ` set (con_sbufs con) - {r})"
    using points_into_next [OF d, of r] by simp
  then show ?thesis using assms f
    by (auto simp: con_ok_links_def ioc_release_source_buffer_def Let_def points_into_def distinct_map_filter split: option.splits)
qed

lemma release_tbuf_con_ok:
  assumes "con_ok_links B c con"
  shows "con_ok_links B c (fst (ioc_release_target_buffer r con mblk))"
proof -
  have d: "distinct (map fst (con_tbufs con))" using assms by (simp add: con_ok_links_def)
  have f: "fst ` set (filter (\<lambda>x. fst x \<noteq> r) (con_tbufs con)) = fst ` set (con_tbufs con) - {r}" by auto
  have "points_into (next_ref r (map fst (con_tbufs con))) (fst ` set (con_tbufs con) - {r})"
    using points_into_next [OF d, of r] by simp
  then show ?thesis using assms f
    by (auto simp: con_ok_links_def ioc_release_target_buffer_def Let_def points_into_def distinct_map_filter split: option.splits)
qed

lemma release_source_fields:
  "con_sbufs (fst (ioc_release_source_buffer r con mblk)) = filter (\<lambda>x. fst x \<noteq> r) (con_sbufs con)"
  "con_tbufs (fst (ioc_release_source_buffer r con mblk)) = con_tbufs con"
  "con_flags (fst (ioc_release_source_buffer r con mblk)) = con_flags con"
  "snd (ioc_release_source_buffer r con mblk) = mblk\<lparr>mb_sbufs := filter (\<lambda>x. x \<noteq> r) (mb_sbufs mblk)\<rparr>"
  by (simp_all add: ioc_release_source_buffer_def Let_def)

lemma release_target_fields:
  "con_tbufs (fst (ioc_release_target_buffer r con mblk)) = filter (\<lambda>x. fst x \<noteq> r) (con_tbufs con)"
  "con_sbufs (fst (ioc_release_target_buffer r con mblk)) = con_sbufs con"
  "con_flags (fst (ioc_release_target_buffer r con mblk)) = con_flags con"
  "snd (ioc_release_target_buffer r con mblk) = mblk\<lparr>mb_tbufs := filter (\<lambda>x. x \<noteq> r) (mb_tbufs mblk)\<rparr>"
  by (simp_all add: ioc_release_target_buffer_def Let_def)

lemma release_sbuf_ok:
  assumes ok: "links_ok root" and l: "(r, c, b) \<in> sb_links root"
  shows "\<exists>root'. release_sbuf c r root = Some root' \<and> links_ok root' \<and> sb_links root' = sb_links root - {(r, c, b)} \<and>
    tb_links root' = tb_links root \<and> sb_refs root' = sb_refs root - {(r, b)} \<and> tb_refs root' = tb_refs root \<and>
    rt_mblk_refs root' = rt_mblk_refs root \<and> rt_con_refs root' = rt_con_refs root"
proof -
  obtain con sb where con: "rt_con root c = Some con" "(r, sb) \<in> set (con_sbufs con)" "sb_mblk sb = b" using l by (auto simp: sb_links_def)
  have co: "con_ok_links (set (rt_mblk_refs root)) c con" using ok con(1) by (simp add: links_ok_def)
  have sm: "sbuf_mblk con r = Some b" using sbuf_mblk_iff [OF co] con by blast
  have ag: "agree_on (sb_links root) (sb_refs root)" using ok by (simp add: links_ok_def)
  then have "(r, b) \<in> sb_refs root" using l by (auto simp: agree_on_def)
  then obtain mblk where mb: "rt_mblk root b = Some mblk" "r \<in> set (mb_sbufs mblk)" by (auto simp: sb_refs_def)
  define con' where "con' = fst (ioc_release_source_buffer r con mblk)"
  define mblk' where "mblk' = snd (ioc_release_source_buffer r con mblk)"
  note cf = release_source_fields [of r con mblk, folded con'_def mblk'_def]
  let ?root = "set_con c con' (set_mblk b mblk' root)"
  have rel: "release_sbuf c r root = Some ?root"
    using con(1) sm mb(1) by (simp add: release_sbuf_def con'_def mblk'_def split_def Let_def)
  have u: "(r, c', b') \<in> sb_links root \<Longrightarrow> c' = c \<and> b' = b" for c' b' using agree_on_unique [OF ag l] by blast
  have sl: "sb_links ?root = sb_links root - {(r, c, b)}"
    using con u by (auto simp: sb_links_def set_con_def set_mblk_def cf split: if_splits; blast)
  have tl: "tb_links ?root = tb_links root" using con by (auto simp: tb_links_def set_con_def set_mblk_def cf split: if_splits; blast)
  have sr: "sb_refs ?root = sb_refs root - {(r, b)}" using mb by (auto simp: sb_refs_def set_con_def set_mblk_def cf split: if_splits)
  have tr: "tb_refs ?root = tb_refs root" using mb by (auto simp: tb_refs_def set_con_def set_mblk_def cf split: if_splits)
  have refs: "rt_mblk_refs ?root = rt_mblk_refs root" "rt_con_refs ?root = rt_con_refs root" by (simp_all add: set_con_def set_mblk_def)
  have "con_ok_links (set (rt_mblk_refs root)) c con'" unfolding con'_def by (rule release_sbuf_con_ok [OF co])
  then have "\<forall>x y. rt_con ?root x = Some y \<longrightarrow> con_ok_links (set (rt_mblk_refs ?root)) x y"
    using ok by (auto simp: links_ok_def set_con_def set_mblk_def)
  moreover have "\<forall>x m. rt_mblk ?root x = Some m \<longrightarrow> distinct (mb_sbufs m) \<and> distinct (mb_tbufs m)"
    using ok mb by (auto simp: links_ok_def set_con_def set_mblk_def cf)
  moreover have "dom (rt_mblk ?root) = set (rt_mblk_refs root)" "dom (rt_con ?root) = set (rt_con_refs root)"
    using ok con mb by (auto simp: links_ok_def set_con_def set_mblk_def)
  ultimately have "links_ok ?root" using ok agree_on_remove [OF ag l] unfolding links_ok_def sl tl sr tr refs by blast
  then show ?thesis using rel sl tl sr tr refs by blast
qed

lemma release_tbuf_ok:
  assumes ok: "links_ok root" and l: "(r, c, b) \<in> tb_links root"
  shows "\<exists>root'. release_tbuf c r root = Some root' \<and> links_ok root' \<and> tb_links root' = tb_links root - {(r, c, b)} \<and>
    sb_links root' = sb_links root \<and> tb_refs root' = tb_refs root - {(r, b)} \<and> sb_refs root' = sb_refs root \<and>
    rt_mblk_refs root' = rt_mblk_refs root \<and> rt_con_refs root' = rt_con_refs root"
proof -
  obtain con tb where con: "rt_con root c = Some con" "(r, tb) \<in> set (con_tbufs con)" "tb_mblk tb = b" using l by (auto simp: tb_links_def)
  have co: "con_ok_links (set (rt_mblk_refs root)) c con" using ok con(1) by (simp add: links_ok_def)
  have sm: "tbuf_mblk con r = Some b" using tbuf_mblk_iff [OF co] con by blast
  have ag: "agree_on (tb_links root) (tb_refs root)" using ok by (simp add: links_ok_def)
  then have "(r, b) \<in> tb_refs root" using l by (auto simp: agree_on_def)
  then obtain mblk where mb: "rt_mblk root b = Some mblk" "r \<in> set (mb_tbufs mblk)" by (auto simp: tb_refs_def)
  define con' where "con' = fst (ioc_release_target_buffer r con mblk)"
  define mblk' where "mblk' = snd (ioc_release_target_buffer r con mblk)"
  note cf = release_target_fields [of r con mblk, folded con'_def mblk'_def]
  let ?root = "set_con c con' (set_mblk b mblk' root)"
  have rel: "release_tbuf c r root = Some ?root"
    using con(1) sm mb(1) by (simp add: release_tbuf_def con'_def mblk'_def split_def Let_def)
  have u: "(r, c', b') \<in> tb_links root \<Longrightarrow> c' = c \<and> b' = b" for c' b' using agree_on_unique [OF ag l] by blast
  have sl: "tb_links ?root = tb_links root - {(r, c, b)}"
    using con u by (auto simp: tb_links_def set_con_def set_mblk_def cf split: if_splits; blast)
  have tl: "sb_links ?root = sb_links root" using con by (auto simp: sb_links_def set_con_def set_mblk_def cf split: if_splits; blast)
  have sr: "tb_refs ?root = tb_refs root - {(r, b)}" using mb by (auto simp: tb_refs_def set_con_def set_mblk_def cf split: if_splits)
  have tr: "sb_refs ?root = sb_refs root" using mb by (auto simp: sb_refs_def set_con_def set_mblk_def cf split: if_splits)
  have refs: "rt_mblk_refs ?root = rt_mblk_refs root" "rt_con_refs ?root = rt_con_refs root" by (simp_all add: set_con_def set_mblk_def)
  have "con_ok_links (set (rt_mblk_refs root)) c con'" unfolding con'_def by (rule release_tbuf_con_ok [OF co])
  then have "\<forall>x y. rt_con ?root x = Some y \<longrightarrow> con_ok_links (set (rt_mblk_refs ?root)) x y"
    using ok by (auto simp: links_ok_def set_con_def set_mblk_def)
  moreover have "\<forall>x m. rt_mblk ?root x = Some m \<longrightarrow> distinct (mb_sbufs m) \<and> distinct (mb_tbufs m)"
    using ok mb by (auto simp: links_ok_def set_con_def set_mblk_def cf)
  moreover have "dom (rt_mblk ?root) = set (rt_mblk_refs root)" "dom (rt_con ?root) = set (rt_con_refs root)"
    using ok con mb by (auto simp: links_ok_def set_con_def set_mblk_def)
  ultimately have "links_ok ?root" using ok agree_on_remove [OF ag l] unfolding links_ok_def sl tl sr tr refs by blast
  then show ?thesis using rel sl tl sr tr refs by blast
qed

section \<open>Deleting a memory block\<close>

lemma sbuf_owner_ok:
  assumes ok: "links_ok root" and r: "(r, b) \<in> sb_refs root"
  shows "\<exists>c. sbuf_owner root r = Some c \<and> (r, c, b) \<in> sb_links root"
proof -
  have ag: "agree_on (sb_links root) (sb_refs root)" using ok by (simp add: links_ok_def)
  obtain c where c: "(r, c, b) \<in> sb_links root" using agree_on_owner [OF ag r] by blast
  then have "c \<in> set (rt_con_refs root)" using ok by (auto simp: links_ok_def sb_links_def)
  then obtain c' where f: "sbuf_owner root r = Some c'"
    using c unfolding sbuf_owner_def by (cases "find (\<lambda>c. case rt_con root c of None \<Rightarrow> False | Some con \<Rightarrow> r \<in> fst ` set (con_sbufs con)) (rt_con_refs root)")
      (force simp: find_None_iff sb_links_def)+
  then obtain con where "rt_con root c' = Some con" "r \<in> fst ` set (con_sbufs con)"
    by (auto simp: sbuf_owner_def find_Some_iff split: option.splits)
  then obtain b' where "(r, c', b') \<in> sb_links root" by (force simp: sb_links_def)
  with agree_on_unique [OF ag c] f show ?thesis using c by blast
qed

lemma tbuf_owner_ok:
  assumes ok: "links_ok root" and r: "(r, b) \<in> tb_refs root"
  shows "\<exists>c. tbuf_owner root r = Some c \<and> (r, c, b) \<in> tb_links root"
proof -
  have ag: "agree_on (tb_links root) (tb_refs root)" using ok by (simp add: links_ok_def)
  obtain c where c: "(r, c, b) \<in> tb_links root" using agree_on_owner [OF ag r] by blast
  then have "c \<in> set (rt_con_refs root)" using ok by (auto simp: links_ok_def tb_links_def)
  then obtain c' where f: "tbuf_owner root r = Some c'"
    using c unfolding tbuf_owner_def by (cases "find (\<lambda>c. case rt_con root c of None \<Rightarrow> False | Some con \<Rightarrow> r \<in> fst ` set (con_tbufs con)) (rt_con_refs root)")
      (force simp: find_None_iff tb_links_def)+
  then obtain con where "rt_con root c' = Some con" "r \<in> fst ` set (con_tbufs con)"
    by (auto simp: tbuf_owner_def find_Some_iff split: option.splits)
  then obtain b' where "(r, c', b') \<in> tb_links root" by (force simp: tb_links_def)
  with agree_on_unique [OF ag c] f show ?thesis using c by blast
qed

text \<open>No connection is about to send information on block \<open>b\<close> from the list of all blocks.\<close>

definition no_cursor :: "nat \<Rightarrow> iocRoot \<Rightarrow> bool" where
  "no_cursor b root \<longleftrightarrow> (\<forall>c con. rt_con root c = Some con \<longrightarrow> con_current_mblk con \<noteq> Some b \<and> con_current_cloud_mblk con \<noteq> Some b)"

lemma release_sbuf_no_cursor: "release_sbuf c r root = Some root' \<Longrightarrow> no_cursor b root \<Longrightarrow> no_cursor b root'"
  by (auto simp: release_sbuf_def no_cursor_def bind_eq_Some_conv set_con_def set_mblk_def ioc_release_source_buffer_def Let_def split: if_splits)

lemma release_tbuf_no_cursor: "release_tbuf c r root = Some root' \<Longrightarrow> no_cursor b root \<Longrightarrow> no_cursor b root'"
  by (auto simp: release_tbuf_def no_cursor_def bind_eq_Some_conv set_con_def set_mblk_def ioc_release_target_buffer_def Let_def split: if_splits)

lemma release_sbufs_ok:
  assumes "links_ok root" and "no_cursor b root" and "distinct rs" and "\<forall>r \<in> set rs. (r, b) \<in> sb_refs root"
  shows "\<exists>root'. release_sbufs rs root = Some root' \<and> links_ok root' \<and> no_cursor b root' \<and>
    sb_refs root' = sb_refs root - {(r, b) |r. r \<in> set rs} \<and> tb_refs root' = tb_refs root \<and> tb_links root' = tb_links root \<and>
    sb_links root' \<subseteq> sb_links root \<and> rt_mblk_refs root' = rt_mblk_refs root \<and> rt_con_refs root' = rt_con_refs root"
  using assms
proof (induction rs arbitrary: root)
  case (Cons r rs)
  have "(r, b) \<in> sb_refs root" using Cons(5) by simp
  then obtain c where c: "sbuf_owner root r = Some c" "(r, c, b) \<in> sb_links root" using sbuf_owner_ok [OF Cons(2)] by blast
  obtain root1 where r1: "release_sbuf c r root = Some root1" "links_ok root1" "sb_links root1 = sb_links root - {(r, c, b)}"
    "tb_links root1 = tb_links root" "sb_refs root1 = sb_refs root - {(r, b)}" "tb_refs root1 = tb_refs root"
    "rt_mblk_refs root1 = rt_mblk_refs root" "rt_con_refs root1 = rt_con_refs root"
    using release_sbuf_ok [OF Cons(2) c(2)] by blast
  have "no_cursor b root1" by (rule release_sbuf_no_cursor [OF r1(1) Cons(3)])
  moreover have "\<forall>x \<in> set rs. (x, b) \<in> sb_refs root1" using Cons(4,5) r1(5) by auto
  ultimately obtain root' where r': "release_sbufs rs root1 = Some root'" "links_ok root'" "no_cursor b root'"
    "sb_refs root' = sb_refs root1 - {(r, b) |r. r \<in> set rs}" "tb_refs root' = tb_refs root1" "tb_links root' = tb_links root1"
    "sb_links root' \<subseteq> sb_links root1" "rt_mblk_refs root' = rt_mblk_refs root1" "rt_con_refs root' = rt_con_refs root1"
    using Cons(1) [OF r1(2)] Cons(4) by auto
  have "sb_refs root' = sb_refs root - {(x, b) |x. x \<in> set (r # rs)}" using r'(4) r1(5) by auto
  then show ?case using c r1 r' by auto
qed auto

lemma release_tbufs_ok:
  assumes "links_ok root" and "no_cursor b root" and "distinct rs" and "\<forall>r \<in> set rs. (r, b) \<in> tb_refs root"
  shows "\<exists>root'. release_tbufs rs root = Some root' \<and> links_ok root' \<and> no_cursor b root' \<and>
    tb_refs root' = tb_refs root - {(r, b) |r. r \<in> set rs} \<and> sb_refs root' = sb_refs root \<and> sb_links root' = sb_links root \<and>
    tb_links root' \<subseteq> tb_links root \<and> rt_mblk_refs root' = rt_mblk_refs root \<and> rt_con_refs root' = rt_con_refs root"
  using assms
proof (induction rs arbitrary: root)
  case (Cons r rs)
  have "(r, b) \<in> tb_refs root" using Cons(5) by simp
  then obtain c where c: "tbuf_owner root r = Some c" "(r, c, b) \<in> tb_links root" using tbuf_owner_ok [OF Cons(2)] by blast
  obtain root1 where r1: "release_tbuf c r root = Some root1" "links_ok root1" "tb_links root1 = tb_links root - {(r, c, b)}"
    "sb_links root1 = sb_links root" "tb_refs root1 = tb_refs root - {(r, b)}" "sb_refs root1 = sb_refs root"
    "rt_mblk_refs root1 = rt_mblk_refs root" "rt_con_refs root1 = rt_con_refs root"
    using release_tbuf_ok [OF Cons(2) c(2)] by blast
  have "no_cursor b root1" by (rule release_tbuf_no_cursor [OF r1(1) Cons(3)])
  moreover have "\<forall>x \<in> set rs. (x, b) \<in> tb_refs root1" using Cons(4,5) r1(5) by auto
  ultimately obtain root' where r': "release_tbufs rs root1 = Some root'" "links_ok root'" "no_cursor b root'"
    "tb_refs root' = tb_refs root1 - {(r, b) |r. r \<in> set rs}" "sb_refs root' = sb_refs root1" "sb_links root' = sb_links root1"
    "tb_links root' \<subseteq> tb_links root1" "rt_mblk_refs root' = rt_mblk_refs root1" "rt_con_refs root' = rt_con_refs root1"
    using Cons(1) [OF r1(2)] Cons(4) by auto
  have "tb_refs root' = tb_refs root - {(x, b) |x. x \<in> set (r # rs)}" using r'(4) r1(5) by auto
  then show ?case using c r1 r' by auto
qed auto

lemma mblk_is_deleted_ok:
  assumes ok: "links_ok root"
  shows "links_ok (ioc_mbinfo_mblk_is_deleted b root)" and "no_cursor b (ioc_mbinfo_mblk_is_deleted b root)"
    and "sb_links (ioc_mbinfo_mblk_is_deleted b root) = sb_links root" "tb_links (ioc_mbinfo_mblk_is_deleted b root) = tb_links root"
    and "rt_mblk (ioc_mbinfo_mblk_is_deleted b root) = rt_mblk root" "rt_mblk_refs (ioc_mbinfo_mblk_is_deleted b root) = rt_mblk_refs root"
    and "rt_con_refs (ioc_mbinfo_mblk_is_deleted b root) = rt_con_refs root"
proof -
  let ?root = "ioc_mbinfo_mblk_is_deleted b root"
  define leave where "leave = (\<lambda>con :: iocConnection.
       let con1 = (if con_current_mblk con = Some b then con\<lparr>con_current_mblk := next_mblk root b\<rparr> else con)
       in if con_current_cloud_mblk con1 = Some b then con1\<lparr>con_current_cloud_mblk := next_mblk root b\<rparr> else con1)"
  have rc: "rt_con ?root c = map_option leave (rt_con root c)" for c
    using ok by (cases "rt_con root c") (auto simp: ioc_mbinfo_mblk_is_deleted_def leave_def links_ok_def)
  have lv: "con_sbufs (leave con) = con_sbufs con" "con_tbufs (leave con) = con_tbufs con" for con by (simp_all add: leave_def Let_def)
  show m: "rt_mblk ?root = rt_mblk root" "rt_mblk_refs ?root = rt_mblk_refs root" "rt_con_refs ?root = rt_con_refs root"
    by (simp_all add: ioc_mbinfo_mblk_is_deleted_def Let_def)
  show l: "sb_links ?root = sb_links root" "tb_links ?root = tb_links root" by (auto simp: sb_links_def tb_links_def rc lv; blast)+
  have d: "distinct (rt_mblk_refs root)" using ok by (simp add: links_ok_def)
  have nx: "points_into (next_mblk root b) (set (rt_mblk_refs root))" "next_mblk root b \<noteq> Some b"
    using next_ref_in [OF d, of b] by (auto simp: next_mblk_def points_into_def split: option.splits)
  have cl: "con_ok_links (set (rt_mblk_refs root)) c (leave con)" if "con_ok_links (set (rt_mblk_refs root)) c con" for c con
    using that nx by (auto simp: con_ok_links_def leave_def Let_def)
  have "sb_refs ?root = sb_refs root" "tb_refs ?root = tb_refs root" "dom (rt_con ?root) = dom (rt_con root)"
    by (simp_all add: sb_refs_def tb_refs_def m dom_def rc)
  moreover have "\<forall>c con. rt_con ?root c = Some con \<longrightarrow> con_ok_links (set (rt_mblk_refs root)) c con"
  proof (intro allI impI)
    fix c con assume "rt_con ?root c = Some con"
    then obtain con0 where "rt_con root c = Some con0" "con = leave con0" unfolding rc by auto
    then show "con_ok_links (set (rt_mblk_refs root)) c con" using ok cl by (simp add: links_ok_def)
  qed
  moreover have "\<forall>x m. rt_mblk root x = Some m \<longrightarrow> distinct (mb_sbufs m) \<and> distinct (mb_tbufs m)"
    "dom (rt_mblk root) = set (rt_mblk_refs root)" "dom (rt_con root) = set (rt_con_refs root)"
    "agree_on (sb_links root) (sb_refs root)" "agree_on (tb_links root) (tb_refs root)"
    using ok by (simp_all add: links_ok_def)
  ultimately show "links_ok ?root" using d unfolding links_ok_def l m by metis
  have "con_current_mblk (leave con) \<noteq> Some b \<and> con_current_cloud_mblk (leave con) \<noteq> Some b" for con
    using nx(2) by (simp add: leave_def Let_def)
  then show "no_cursor b ?root" unfolding no_cursor_def rc by (metis map_option_eq_Some)
qed

lemma release_memory_block_ok:
  assumes ok: "links_ok root" and b: "rt_mblk root b = Some mblk"
  shows "\<exists>root' ev. ioc_release_memory_block b root = Some (root', ev) \<and> links_ok root' \<and> rt_mblk root' b = None \<and>
    sb_links root' \<subseteq> sb_links root \<and> tb_links root' \<subseteq> tb_links root \<and> rt_con_refs root' = rt_con_refs root \<and>
    rt_mblk_refs root' = filter (\<lambda>x. x \<noteq> b) (rt_mblk_refs root)"
proof -
  let ?r1 = "ioc_mbinfo_mblk_is_deleted b root"
  note d = mblk_is_deleted_ok [OF ok, of b]
  have ds: "distinct (mb_sbufs mblk)" "distinct (mb_tbufs mblk)" using ok b by (auto simp: links_ok_def)
  have "\<forall>r \<in> set (mb_sbufs mblk). (r, b) \<in> sb_refs ?r1" using b d(5) by (simp add: sb_refs_def)
  then obtain r2 where r2: "release_sbufs (mb_sbufs mblk) ?r1 = Some r2" "links_ok r2" "no_cursor b r2"
    "sb_refs r2 = sb_refs ?r1 - {(r, b) |r. r \<in> set (mb_sbufs mblk)}" "tb_refs r2 = tb_refs ?r1" "tb_links r2 = tb_links ?r1"
    "sb_links r2 \<subseteq> sb_links ?r1" "rt_mblk_refs r2 = rt_mblk_refs ?r1" "rt_con_refs r2 = rt_con_refs ?r1"
    using release_sbufs_ok [OF d(1,2) ds(1)] by blast
  have "\<forall>r \<in> set (mb_tbufs mblk). (r, b) \<in> tb_refs r2" using b d(5) r2(5) by (simp add: tb_refs_def)
  then obtain r3 where r3: "release_tbufs (mb_tbufs mblk) r2 = Some r3" "links_ok r3" "no_cursor b r3"
    "tb_refs r3 = tb_refs r2 - {(r, b) |r. r \<in> set (mb_tbufs mblk)}" "sb_refs r3 = sb_refs r2" "sb_links r3 = sb_links r2"
    "tb_links r3 \<subseteq> tb_links r2" "rt_mblk_refs r3 = rt_mblk_refs r2" "rt_con_refs r3 = rt_con_refs r2"
    using release_tbufs_ok [OF r2(2,3) ds(2)] by blast
  let ?root = "r3\<lparr>rt_mblk_refs := filter (\<lambda>x. x \<noteq> b) (rt_mblk_refs r3), rt_mblk := (rt_mblk r3)(b := None)\<rparr>"
  have e: "(r, b) \<notin> sb_refs r3" "(r, b) \<notin> tb_refs r3" for r using r2 r3 b d(5) by (auto simp: sb_refs_def tb_refs_def)
  have refs: "sb_refs ?root = sb_refs r3" "tb_refs ?root = tb_refs r3" using e by (auto simp: sb_refs_def tb_refs_def)
  have links: "sb_links ?root = sb_links r3" "tb_links ?root = tb_links r3" by (simp_all add: sb_links_def tb_links_def)
  have "con_ok_links (set (filter (\<lambda>x. x \<noteq> b) (rt_mblk_refs r3))) c con" if "rt_con r3 c = Some con" for c con
  proof -
    have "con_ok_links (set (rt_mblk_refs r3)) c con" "con_current_mblk con \<noteq> Some b" "con_current_cloud_mblk con \<noteq> Some b"
      using r3(2,3) that by (auto simp: links_ok_def no_cursor_def)
    then show ?thesis by (auto simp: con_ok_links_def points_into_def split: option.splits)
  qed
  then have "links_ok ?root" using r3(2) refs links by (auto simp: links_ok_def)
  moreover have "ioc_release_memory_block b root = Some (?root, [RootEvent IOC_MEMORY_BLOCK_DELETED b])"
    unfolding ioc_release_memory_block_def using b r2(1) r3(1) by simp
  ultimately show ?thesis using links r2 r3 d by auto
qed

section \<open>Updates that leave the bindings alone\<close>

definition same_binding :: "iocRoot \<Rightarrow> iocRoot \<Rightarrow> bool" where
  "same_binding root root' \<longleftrightarrow> links_ok root' \<and> sb_links root' = sb_links root \<and> tb_links root' = tb_links root \<and>
     sb_refs root' = sb_refs root \<and> tb_refs root' = tb_refs root \<and> rt_mblk_refs root' = rt_mblk_refs root \<and> rt_con_refs root' = rt_con_refs root"

lemma same_binding_refl: "links_ok root \<Longrightarrow> same_binding root root"
  by (simp add: same_binding_def)

lemma same_binding_trans: "same_binding a b \<Longrightarrow> same_binding b c \<Longrightarrow> same_binding a c"
  by (simp add: same_binding_def)

lemma set_mblk_same:
  assumes ok: "links_ok root" and b: "rt_mblk root b = Some mblk" and s: "mb_sbufs mblk' = mb_sbufs mblk" "mb_tbufs mblk' = mb_tbufs mblk"
  shows "same_binding root (set_mblk b mblk' root)"
proof -
  let ?r = "set_mblk b mblk' root"
  have "sb_links ?r = sb_links root" "tb_links ?r = tb_links root" by (simp_all add: sb_links_def tb_links_def set_mblk_def)
  moreover have "sb_refs ?r = sb_refs root" "tb_refs ?r = tb_refs root"
    using b s by (auto simp: sb_refs_def tb_refs_def set_mblk_def split: if_splits)
  moreover have "dom (rt_mblk ?r) = dom (rt_mblk root)" using b by (auto simp: set_mblk_def)
  moreover have "\<forall>x m. rt_mblk ?r x = Some m \<longrightarrow> distinct (mb_sbufs m) \<and> distinct (mb_tbufs m)"
    using ok b s by (auto simp: set_mblk_def links_ok_def)
  moreover have "rt_con ?r = rt_con root" "rt_mblk_refs ?r = rt_mblk_refs root" "rt_con_refs ?r = rt_con_refs root" by (simp_all add: set_mblk_def)
  ultimately show ?thesis using ok unfolding same_binding_def links_ok_def by metis
qed

lemma set_con_same:
  assumes ok: "links_ok root" and c: "rt_con root c = Some con" and s: "con_sbufs con' = con_sbufs con" "con_tbufs con' = con_tbufs con"
    and l: "con_ok_links (set (rt_mblk_refs root)) c con'"
  shows "same_binding root (set_con c con' root)"
proof -
  let ?r = "set_con c con' root"
  have "sb_links ?r = sb_links root" "tb_links ?r = tb_links root"
    using c s by (auto simp: sb_links_def tb_links_def set_con_def split: if_splits; blast)+
  moreover have "sb_refs ?r = sb_refs root" "tb_refs ?r = tb_refs root" by (simp_all add: sb_refs_def tb_refs_def set_con_def)
  moreover have "dom (rt_con ?r) = dom (rt_con root)" using c by (auto simp: set_con_def)
  moreover have "\<forall>x y. rt_con ?r x = Some y \<longrightarrow> con_ok_links (set (rt_mblk_refs root)) x y"
    using ok l by (auto simp: set_con_def links_ok_def)
  moreover have "rt_mblk ?r = rt_mblk root" "rt_mblk_refs ?r = rt_mblk_refs root" "rt_con_refs ?r = rt_con_refs root" by (simp_all add: set_con_def)
  ultimately show ?thesis using ok unfolding same_binding_def links_ok_def by metis
qed

section \<open>Closing a connection\<close>

lemma links_con: "links_ok root \<Longrightarrow> rt_con root c = Some con \<Longrightarrow> con_ok_links (set (rt_mblk_refs root)) c con"
  by (simp add: links_ok_def)

lemma links_mblk: "links_ok root \<Longrightarrow> b \<in> set (rt_mblk_refs root) \<Longrightarrow> \<exists>m. rt_mblk root b = Some m"
  unfolding links_ok_def by (metis domD)

lemma ref_mblk: "(r, b) \<in> sb_refs root \<or> (r, b) \<in> tb_refs root \<Longrightarrow> \<exists>m. rt_mblk root b = Some m"
  by (auto simp: sb_refs_def tb_refs_def)

lemma link_mblk:
  assumes "links_ok root" and "(r, c, b) \<in> sb_links root \<or> (r, c, b) \<in> tb_links root"
  shows "\<exists>m. rt_mblk root b = Some m"
  using assms ref_mblk [of r b root] unfolding links_ok_def agree_on_def by blast

lemma release_dynamic_ok:
  assumes ok: "links_ok root" and b: "rt_mblk root b = Some mblk"
  shows "\<exists>root' ev. ioc_release_dynamic_mblk_if_not_attached b c really root = Some (root', ev) \<and> links_ok root' \<and>
    sb_links root' \<subseteq> sb_links root \<and> tb_links root' \<subseteq> tb_links root \<and> rt_con_refs root' = rt_con_refs root \<and>
    (\<not> really \<longrightarrow> same_binding root root')"
proof -
  obtain root1 ev1 where r1: "ioc_release_memory_block b root = Some (root1, ev1)" "links_ok root1"
    "sb_links root1 \<subseteq> sb_links root" "tb_links root1 \<subseteq> tb_links root" "rt_con_refs root1 = rt_con_refs root"
    using release_memory_block_ok [OF ok b] by blast
  have m: "same_binding root (set_mblk b (mblk\<lparr>mb_to_be_deleted := True\<rparr>) root)" by (rule set_mblk_same [OF ok b]) simp_all
  show ?thesis using r1 m same_binding_refl [OF ok] b
    by (cases really) (auto simp: ioc_release_dynamic_mblk_if_not_attached_def same_binding_def)
qed

lemma mark_ok:
  assumes ok: "links_ok root" and b: "b \<in> set (rt_mblk_refs root)"
  shows "\<exists>root'. map_option fst (ioc_release_dynamic_mblk_if_not_attached b c False root) = Some root' \<and> same_binding root root'"
proof -
  obtain mblk where "rt_mblk root b = Some mblk" using links_mblk [OF ok b] by blast
  then show ?thesis using release_dynamic_ok [OF ok, of b mblk c False] by auto
qed

lemma request_removal_ok:
  assumes ok: "links_ok root" and c: "rt_con root c = Some con" and r: "f con \<noteq> None"
  shows "\<exists>root'. request_removal got deleting c f root = Some root' \<and> same_binding root root'"
proof -
  obtain rid where rid: "f con = Some rid" using r by auto
  let ?con = "ioc_add_request_to_remove_mblk got (scast rid) con"
  have "same_binding root (set_con c ?con root)"
    by (rule set_con_same [OF ok c]) (use links_con [OF ok c] in \<open>simp_all add: con_ok_links_def ioc_add_request_to_remove_mblk_def Let_def\<close>)
  then show ?thesis using c rid same_binding_refl [OF ok] by (simp add: request_removal_def)
qed

lemma request_sbufs_ok:
  "links_ok root \<Longrightarrow> \<forall>r \<in> set rs. (r, b) \<in> sb_refs root \<Longrightarrow> \<exists>root'. request_sbufs got deleting rs root = Some root' \<and> same_binding root root'"
proof (induction rs arbitrary: root)
  case (Cons r rs)
  then have "(r, b) \<in> sb_refs root" by simp
  then obtain c where c: "sbuf_owner root r = Some c" "(r, c, b) \<in> sb_links root" using sbuf_owner_ok [OF Cons(2)] by blast
  then obtain con sb where con: "rt_con root c = Some con" "(r, sb) \<in> set (con_sbufs con)" by (auto simp: sb_links_def)
  have m: "map_option sb_remote_mblk_id (map_of (con_sbufs con) r) \<noteq> None"
    using con(2) by (metis map_of_eq_None_iff fst_conv image_eqI option.map_disc_iff)
  obtain root1 where r1: "request_removal got deleting c (\<lambda>con. map_option sb_remote_mblk_id (map_of (con_sbufs con) r)) root = Some root1"
    "same_binding root root1"
    using request_removal_ok [where f = "\<lambda>con. map_option sb_remote_mblk_id (map_of (con_sbufs con) r)", OF Cons(2) con(1) m] by blast
  then have "links_ok root1" "\<forall>r \<in> set rs. (r, b) \<in> sb_refs root1" using Cons(3) by (simp_all add: same_binding_def)
  then obtain root2 where r2: "request_sbufs got deleting rs root1 = Some root2" "same_binding root1 root2" using Cons(1) by blast
  then show ?case using c(1) con(1) r1(1) same_binding_trans [OF r1(2) r2(2)] by simp
qed (simp add: same_binding_refl)

lemma request_tbufs_ok:
  "links_ok root \<Longrightarrow> \<forall>r \<in> set rs. (r, b) \<in> tb_refs root \<Longrightarrow> \<exists>root'. request_tbufs got deleting rs root = Some root' \<and> same_binding root root'"
proof (induction rs arbitrary: root)
  case (Cons r rs)
  then have "(r, b) \<in> tb_refs root" by simp
  then obtain c where c: "tbuf_owner root r = Some c" "(r, c, b) \<in> tb_links root" using tbuf_owner_ok [OF Cons(2)] by blast
  then obtain con tb where con: "rt_con root c = Some con" "(r, tb) \<in> set (con_tbufs con)" by (auto simp: tb_links_def)
  have m: "map_option tb_remote_mblk_id (map_of (con_tbufs con) r) \<noteq> None"
    using con(2) by (metis map_of_eq_None_iff fst_conv image_eqI option.map_disc_iff)
  obtain root1 where r1: "request_removal got deleting c (\<lambda>con. map_option tb_remote_mblk_id (map_of (con_tbufs con) r)) root = Some root1"
    "same_binding root root1"
    using request_removal_ok [where f = "\<lambda>con. map_option tb_remote_mblk_id (map_of (con_tbufs con) r)", OF Cons(2) con(1) m] by blast
  then have "links_ok root1" "\<forall>r \<in> set rs. (r, b) \<in> tb_refs root1" using Cons(3) by (simp_all add: same_binding_def)
  then obtain root2 where r2: "request_tbufs got deleting rs root1 = Some root2" "same_binding root1 root2" using Cons(1) by blast
  then show ?case using c(1) con(1) r1(1) same_binding_trans [OF r1(2) r2(2)] by simp
qed (simp add: same_binding_refl)

lemma generate_del_ok:
  assumes ok: "links_ok root" and b: "b \<in> set (rt_mblk_refs root)"
  shows "\<exists>root'. ioc_generate_del_mblk_request got b deleting root = Some root' \<and> same_binding root root'"
proof -
  obtain mblk where m: "rt_mblk root b = Some mblk" using links_mblk [OF ok b] by blast
  let ?r1 = "set_mblk b (mblk\<lparr>mb_to_be_deleted := False\<rparr>) root"
  have s1: "same_binding root ?r1" by (rule set_mblk_same [OF ok m]) simp_all
  have "\<forall>r \<in> set (mb_sbufs mblk). (r, b) \<in> sb_refs ?r1" using s1 m by (auto simp: same_binding_def sb_refs_def)
  then obtain r2 where r2: "request_sbufs got deleting (mb_sbufs mblk) ?r1 = Some r2" "same_binding ?r1 r2"
    using request_sbufs_ok s1 unfolding same_binding_def by metis
  have "tb_refs r2 = tb_refs root" using s1 r2(2) by (simp add: same_binding_def)
  then have "\<forall>r \<in> set (mb_tbufs mblk). (r, b) \<in> tb_refs r2" using m by (auto simp: tb_refs_def)
  then obtain r3 where r3: "request_tbufs got deleting (mb_tbufs mblk) r2 = Some r3" "same_binding r2 r3"
    using request_tbufs_ok r2(2) unfolding same_binding_def by metis
  show ?thesis
    using m r2(1) r3(1) same_binding_trans [OF s1 same_binding_trans [OF r2(2) r3(2)]] same_binding_refl [OF ok]
    by (auto simp: ioc_generate_del_mblk_request_def)
qed

lemma for_mblks_ok:
  assumes "links_ok root" and "set bs \<subseteq> set (rt_mblk_refs root)"
    and "\<And>root b. links_ok root \<Longrightarrow> b \<in> set (rt_mblk_refs root) \<Longrightarrow> \<exists>root'. f b root = Some root' \<and> same_binding root root'"
  shows "\<exists>root'. for_mblks f bs root = Some root' \<and> same_binding root root'"
  using assms(1,2)
proof (induction bs arbitrary: root)
  case (Cons b bs)
  then obtain r1 where r1: "f b root = Some r1" "same_binding root r1" using assms(3) by (metis insert_subset list.simps(15))
  then have "links_ok r1" "set bs \<subseteq> set (rt_mblk_refs r1)" using Cons(3) by (simp_all add: same_binding_def)
  then obtain r2 where "for_mblks f bs r1 = Some r2" "same_binding r1 r2" using Cons(1) by blast
  then show ?case using r1 same_binding_trans by auto
qed (simp add: same_binding_refl)

lemma con_sbufs_links:
  assumes "links_ok root" and "rt_con root c = Some con"
  shows "finite {l \<in> sb_links root. fst (snd l) = c}" and "con_sbufs con = [] \<longleftrightarrow> {l \<in> sb_links root. fst (snd l) = c} = {}"
proof -
  have e: "{l \<in> sb_links root. fst (snd l) = c} = (\<lambda>x. (fst x, c, sb_mblk (snd x))) ` set (con_sbufs con)"
    using assms(2) by (force simp: sb_links_def)
  show "finite {l \<in> sb_links root. fst (snd l) = c}" "con_sbufs con = [] \<longleftrightarrow> {l \<in> sb_links root. fst (snd l) = c} = {}"
    unfolding e by simp_all
qed

lemma con_tbufs_links:
  assumes "links_ok root" and "rt_con root c = Some con"
  shows "finite {l \<in> tb_links root. fst (snd l) = c}" and "con_tbufs con = [] \<longleftrightarrow> {l \<in> tb_links root. fst (snd l) = c} = {}"
proof -
  have e: "{l \<in> tb_links root. fst (snd l) = c} = (\<lambda>x. (fst x, c, tb_mblk (snd x))) ` set (con_tbufs con)"
    using assms(2) by (force simp: tb_links_def)
  show "finite {l \<in> tb_links root. fst (snd l) = c}" "con_tbufs con = [] \<longleftrightarrow> {l \<in> tb_links root. fst (snd l) = c} = {}"
    unfolding e by simp_all
qed

lemma links_con_some: "links_ok root \<Longrightarrow> c \<in> set (rt_con_refs root) \<Longrightarrow> \<exists>con. rt_con root c = Some con"
  unfolding links_ok_def by (metis domD)

lemma links_con_refs: "links_ok root \<Longrightarrow> rt_con root c = Some con \<Longrightarrow> c \<in> set (rt_con_refs root)"
  unfolding links_ok_def by (metis domI)

abbreviation of_con :: "nat \<Rightarrow> (nat \<times> nat \<times> nat) set \<Rightarrow> (nat \<times> nat \<times> nat) set" where
  "of_con c L \<equiv> {l \<in> L. fst (snd l) = c}"

lemma of_con_less:
  assumes "(r, c, b) \<in> L" and "L' \<subseteq> L - {(r, c, b)}"
  shows "of_con c L' \<subset> of_con c L"
proof
  show "of_con c L' \<subseteq> of_con c L" using assms(2) by auto
  have "(r, c, b) \<in> of_con c L" "(r, c, b) \<notin> of_con c L'" using assms by auto
  then show "of_con c L' \<noteq> of_con c L" by blast
qed

lemma free_sbuf_step:
  assumes ok: "links_ok root" and con: "rt_con root c = Some con" and ne: "con_sbufs con \<noteq> []"
  obtains root1 root2 ev where "release_sbuf c (fst (hd (con_sbufs con))) root = Some root1"
    "ioc_release_dynamic_mblk_if_not_attached (sb_mblk (snd (hd (con_sbufs con)))) c True root1 = Some (root2, ev)"
    "links_ok root2" "of_con c (sb_links root2) \<subset> of_con c (sb_links root)" "tb_links root2 \<subseteq> tb_links root"
    "rt_con_refs root2 = rt_con_refs root"
proof -
  obtain r sb rest where x: "con_sbufs con = (r, sb) # rest" using ne by (metis neq_Nil_conv prod.exhaust)
  have l: "(r, c, sb_mblk sb) \<in> sb_links root" using con x by (auto simp: sb_links_def)
  obtain root1 where r1: "release_sbuf c r root = Some root1" "links_ok root1" "sb_links root1 = sb_links root - {(r, c, sb_mblk sb)}"
    "tb_links root1 = tb_links root" "rt_mblk_refs root1 = rt_mblk_refs root" "rt_con_refs root1 = rt_con_refs root"
    using release_sbuf_ok [OF ok l] by blast
  obtain m where m: "rt_mblk root (sb_mblk sb) = Some m" using link_mblk [OF ok] l by blast
  then have "sb_mblk sb \<in> set (rt_mblk_refs root1)" using ok r1(5) unfolding links_ok_def by (metis domI)
  then obtain m1 where m1: "rt_mblk root1 (sb_mblk sb) = Some m1" using links_mblk [OF r1(2)] by blast
  obtain root2 ev where r2: "ioc_release_dynamic_mblk_if_not_attached (sb_mblk sb) c True root1 = Some (root2, ev)" "links_ok root2"
    "sb_links root2 \<subseteq> sb_links root1" "tb_links root2 \<subseteq> tb_links root1" "rt_con_refs root2 = rt_con_refs root1"
    using release_dynamic_ok [OF r1(2) m1, of c True] by blast
  have "of_con c (sb_links root2) \<subset> of_con c (sb_links root)" by (rule of_con_less [OF l]) (use r1(3) r2(3) in simp)
  then show thesis using that r1 r2 x by simp
qed

lemma free_tbuf_step:
  assumes ok: "links_ok root" and con: "rt_con root c = Some con" and ne: "con_tbufs con \<noteq> []"
  obtains root1 root2 ev where "release_tbuf c (fst (hd (con_tbufs con))) root = Some root1"
    "ioc_release_dynamic_mblk_if_not_attached (tb_mblk (snd (hd (con_tbufs con)))) c True root1 = Some (root2, ev)"
    "links_ok root2" "of_con c (tb_links root2) \<subset> of_con c (tb_links root)" "sb_links root2 \<subseteq> sb_links root"
    "rt_con_refs root2 = rt_con_refs root"
proof -
  obtain r tb rest where x: "con_tbufs con = (r, tb) # rest" using ne by (metis neq_Nil_conv prod.exhaust)
  have l: "(r, c, tb_mblk tb) \<in> tb_links root" using con x by (auto simp: tb_links_def)
  obtain root1 where r1: "release_tbuf c r root = Some root1" "links_ok root1" "tb_links root1 = tb_links root - {(r, c, tb_mblk tb)}"
    "sb_links root1 = sb_links root" "rt_mblk_refs root1 = rt_mblk_refs root" "rt_con_refs root1 = rt_con_refs root"
    using release_tbuf_ok [OF ok l] by blast
  obtain m where m: "rt_mblk root (tb_mblk tb) = Some m" using link_mblk [OF ok] l by blast
  then have "tb_mblk tb \<in> set (rt_mblk_refs root1)" using ok r1(5) unfolding links_ok_def by (metis domI)
  then obtain m1 where m1: "rt_mblk root1 (tb_mblk tb) = Some m1" using links_mblk [OF r1(2)] by blast
  obtain root2 ev where r2: "ioc_release_dynamic_mblk_if_not_attached (tb_mblk tb) c True root1 = Some (root2, ev)" "links_ok root2"
    "sb_links root2 \<subseteq> sb_links root1" "tb_links root2 \<subseteq> tb_links root1" "rt_con_refs root2 = rt_con_refs root1"
    using release_dynamic_ok [OF r1(2) m1, of c True] by blast
  have "of_con c (tb_links root2) \<subset> of_con c (tb_links root)" by (rule of_con_less [OF l]) (use r1(3) r2(4) in simp)
  then show thesis using that r1 r2 x by simp
qed

lemma free_sbufs_ok:
  "links_ok root \<Longrightarrow> c \<in> set (rt_con_refs root) \<Longrightarrow> \<exists>root' ev. free_sbufs c root = Some (root', ev) \<and> links_ok root' \<and>
     of_con c (sb_links root') = {} \<and> tb_links root' \<subseteq> tb_links root \<and> rt_con_refs root' = rt_con_refs root"
proof (induction "card (of_con c (sb_links root))" arbitrary: root rule: less_induct)
  case less
  obtain con where con: "rt_con root c = Some con" using links_con_some [OF less(2,3)] by blast
  show ?case
  proof (cases "con_sbufs con = []")
    case True
    then show ?thesis using con less(2) con_sbufs_links(2) [OF less(2) con] by (subst free_sbufs.simps) simp
  next
    case False
    obtain root1 root2 ev where s: "release_sbuf c (fst (hd (con_sbufs con))) root = Some root1"
      "ioc_release_dynamic_mblk_if_not_attached (sb_mblk (snd (hd (con_sbufs con)))) c True root1 = Some (root2, ev)"
      "links_ok root2" "of_con c (sb_links root2) \<subset> of_con c (sb_links root)" "tb_links root2 \<subseteq> tb_links root"
      "rt_con_refs root2 = rt_con_refs root" by (rule free_sbuf_step [OF less(2) con False])
    have "card (of_con c (sb_links root2)) < card (of_con c (sb_links root))"
      by (rule psubset_card_mono [OF con_sbufs_links(1) [OF less(2) con] s(4)])
    moreover have "c \<in> set (rt_con_refs root2)" using less(3) s(6) by simp
    ultimately obtain root3 ev2 where r3: "free_sbufs c root2 = Some (root3, ev2)" "links_ok root3" "of_con c (sb_links root3) = {}"
      "tb_links root3 \<subseteq> tb_links root2" "rt_con_refs root3 = rt_con_refs root2" using less(1) s(3) by blast
    have "free_sbufs c root = Some (root3, ev @ ev2)" using con False s(1,2) r3(1) by (subst free_sbufs.simps) simp
    moreover have "tb_links root3 \<subseteq> tb_links root" "rt_con_refs root3 = rt_con_refs root" using r3(4,5) s(5,6) by simp_all
    ultimately show ?thesis using r3(2,3) by blast
  qed
qed

lemma free_tbufs_ok:
  "links_ok root \<Longrightarrow> c \<in> set (rt_con_refs root) \<Longrightarrow> \<exists>root' ev. free_tbufs c root = Some (root', ev) \<and> links_ok root' \<and>
     of_con c (tb_links root') = {} \<and> sb_links root' \<subseteq> sb_links root \<and> rt_con_refs root' = rt_con_refs root"
proof (induction "card (of_con c (tb_links root))" arbitrary: root rule: less_induct)
  case less
  obtain con where con: "rt_con root c = Some con" using links_con_some [OF less(2,3)] by blast
  show ?case
  proof (cases "con_tbufs con = []")
    case True
    then show ?thesis using con less(2) con_tbufs_links(2) [OF less(2) con] by (subst free_tbufs.simps) simp
  next
    case False
    obtain root1 root2 ev where s: "release_tbuf c (fst (hd (con_tbufs con))) root = Some root1"
      "ioc_release_dynamic_mblk_if_not_attached (tb_mblk (snd (hd (con_tbufs con)))) c True root1 = Some (root2, ev)"
      "links_ok root2" "of_con c (tb_links root2) \<subset> of_con c (tb_links root)" "sb_links root2 \<subseteq> sb_links root"
      "rt_con_refs root2 = rt_con_refs root" by (rule free_tbuf_step [OF less(2) con False])
    have "card (of_con c (tb_links root2)) < card (of_con c (tb_links root))"
      by (rule psubset_card_mono [OF con_tbufs_links(1) [OF less(2) con] s(4)])
    moreover have "c \<in> set (rt_con_refs root2)" using less(3) s(6) by simp
    ultimately obtain root3 ev2 where r3: "free_tbufs c root2 = Some (root3, ev2)" "links_ok root3" "of_con c (tb_links root3) = {}"
      "sb_links root3 \<subseteq> sb_links root2" "rt_con_refs root3 = rt_con_refs root2" using less(1) s(3) by blast
    have "free_tbufs c root = Some (root3, ev @ ev2)" using con False s(1,2) r3(1) by (subst free_tbufs.simps) simp
    moreover have "sb_links root3 \<subseteq> sb_links root" "rt_con_refs root3 = rt_con_refs root" using r3(4,5) s(5,6) by simp_all
    ultimately show ?thesis using r3(2,3) by blast
  qed
qed

lemma free_source_and_target_bufs_ok:
  assumes ok: "links_ok root" and c: "rt_con root c = Some con"
  obtains root' ev con' where "ioc_free_source_and_target_bufs got c root = Some (root', ev)" "links_ok root'"
    "rt_con root' c = Some con'" "con_sbufs con' = []" "con_tbufs con' = []" "rt_con_refs root' = rt_con_refs root"
proof -
  let ?bs = "map (sb_mblk \<circ> snd) (con_sbufs con) @ map (tb_mblk \<circ> snd) (con_tbufs con)"
  let ?mark = "\<lambda>b root. map_option fst (ioc_release_dynamic_mblk_if_not_attached b c False root)"
  have "\<exists>m. rt_mblk root b = Some m" if "b \<in> set ?bs" for b
  proof -
    have "\<exists>r. (r, c, b) \<in> sb_links root \<or> (r, c, b) \<in> tb_links root" using that c by (auto simp: sb_links_def tb_links_def; blast)
    then show ?thesis using link_mblk [OF ok] by blast
  qed
  then have bs: "set ?bs \<subseteq> set (rt_mblk_refs root)" using ok unfolding links_ok_def by (metis domI subsetI)
  obtain root1 where r1: "for_mblks ?mark ?bs root = Some root1" "same_binding root root1"
    using for_mblks_ok [OF ok bs, of ?mark] mark_ok by blast
  have o1: "links_ok root1" "set ?bs \<subseteq> set (rt_mblk_refs root1)" "rt_con_refs root1 = rt_con_refs root"
    using r1(2) bs by (simp_all add: same_binding_def)
  obtain root2 where r2: "for_mblks (\<lambda>b. ioc_generate_del_mblk_request got b (Some c)) ?bs root1 = Some root2" "same_binding root1 root2"
    using for_mblks_ok [OF o1(1,2), of "\<lambda>b. ioc_generate_del_mblk_request got b (Some c)"] generate_del_ok by blast
  have o2: "links_ok root2" "rt_con_refs root2 = rt_con_refs root" using r2(2) o1(3) by (simp_all add: same_binding_def)
  have "c \<in> set (rt_con_refs root2)" using links_con_refs [OF ok c] o2(2) by simp
  then obtain root3 e1 where r3: "free_sbufs c root2 = Some (root3, e1)" "links_ok root3" "of_con c (sb_links root3) = {}"
    "rt_con_refs root3 = rt_con_refs root2" using free_sbufs_ok [OF o2(1)] by blast
  have "c \<in> set (rt_con_refs root3)" using links_con_refs [OF ok c] o2(2) r3(4) by simp
  then obtain root4 e2 where r4: "free_tbufs c root3 = Some (root4, e2)" "links_ok root4" "of_con c (tb_links root4) = {}"
    "sb_links root4 \<subseteq> sb_links root3" "rt_con_refs root4 = rt_con_refs root3" using free_tbufs_ok [OF r3(2)] by blast
  have rc: "rt_con_refs root4 = rt_con_refs root" using r4(5) r3(4) o2(2) by simp
  have "c \<in> set (rt_con_refs root4)" using links_con_refs [OF ok c] rc by simp
  then obtain con' where con': "rt_con root4 c = Some con'" using links_con_some [OF r4(2)] by blast
  have "of_con c (sb_links root4) = {}" using r3(3) r4(4) by blast
  then have e: "con_sbufs con' = []" "con_tbufs con' = []"
    using con_sbufs_links(2) [OF r4(2) con'] con_tbufs_links(2) [OF r4(2) con'] r4(3) by blast+
  have "ioc_free_source_and_target_bufs got c root = Some (root4, e1 @ e2)"
    using c r1(1) r2(1) r3(1) r4(1) by (simp add: ioc_free_source_and_target_bufs_def Let_def)
  then show thesis using that r4(2) con' e rc by blast
qed

text \<open>
  \<^bold>\<open>C28\<close> Closing a connection ends and leaves nothing behind: \<open>ioc_free_source_and_target_bufs\<close> marks the
  dynamic blocks, queues the removal requests for the other connections and releases buffer after
  buffer, together with the blocks that became unattached; its two while loops end, the connection has no
  buffers afterwards and every remaining pointer between connections, buffers and blocks is valid.
\<close>

theorem close_connection_frees_all:
  assumes "links_ok root" and "rt_con root c = Some con"
  shows "\<exists>root' ev con'. ioc_free_source_and_target_bufs got c root = Some (root', ev) \<and> links_ok root' \<and>
    rt_con root' c = Some con' \<and> con_sbufs con' = [] \<and> con_tbufs con' = []"
  using free_source_and_target_bufs_ok [OF assms] by blast

section \<open>New bindings and blocks\<close>

lemma bind_sbuf_ok:
  assumes ok: "links_ok root" and c: "rt_con root c = Some con" and b: "rt_mblk root b = Some mblk" and r: "r \<notin> fst ` sb_links root"
    and s: "con_sbufs con' = con_sbufs con @ [(r, sb)]" "con_tbufs con' = con_tbufs con"
    and l: "con_ok_links (set (rt_mblk_refs root)) c con'"
    and m: "mb_sbufs mblk' = mb_sbufs mblk @ [r]" "mb_tbufs mblk' = mb_tbufs mblk" and sb: "sb_mblk sb = b"
  shows "links_ok (set_con c con' (set_mblk b mblk' root))"
proof -
  let ?r = "set_con c con' (set_mblk b mblk' root)"
  have ag: "agree_on (sb_links root) (sb_refs root)" using ok by (simp add: links_ok_def)
  have nr: "(r, b') \<notin> sb_refs root" for b' using agree_on_owner [OF ag] r by force
  have "sb_links ?r = insert (r, c, b) (sb_links root)"
    using c sb by (auto simp: sb_links_def set_con_def set_mblk_def s split: if_splits; blast)
  moreover have "sb_refs ?r = insert (r, b) (sb_refs root)"
    using b by (auto simp: sb_refs_def set_con_def set_mblk_def m split: if_splits; blast)
  ultimately have "agree_on (sb_links ?r) (sb_refs ?r)" using agree_on_insert [OF ag r] by simp
  moreover have "tb_links ?r = tb_links root" using c by (auto simp: tb_links_def set_con_def set_mblk_def s split: if_splits; blast)
  moreover have "tb_refs ?r = tb_refs root" using b by (auto simp: tb_refs_def set_con_def set_mblk_def m split: if_splits; blast)
  moreover have "r \<notin> set (mb_sbufs mblk)" using nr [of b] b by (auto simp: sb_refs_def)
  then have "\<forall>x m. rt_mblk ?r x = Some m \<longrightarrow> distinct (mb_sbufs m) \<and> distinct (mb_tbufs m)"
    using ok b by (auto simp: set_con_def set_mblk_def links_ok_def m)
  moreover have "\<forall>x y. rt_con ?r x = Some y \<longrightarrow> con_ok_links (set (rt_mblk_refs root)) x y"
    using ok l by (auto simp: set_con_def set_mblk_def links_ok_def)
  moreover have "dom (rt_con ?r) = dom (rt_con root)" "dom (rt_mblk ?r) = dom (rt_mblk root)"
    using c b by (auto simp: set_con_def set_mblk_def)
  moreover have "rt_mblk_refs ?r = rt_mblk_refs root" "rt_con_refs ?r = rt_con_refs root" by (simp_all add: set_con_def set_mblk_def)
  ultimately show ?thesis using ok unfolding links_ok_def by metis
qed

lemma bind_tbuf_ok:
  assumes ok: "links_ok root" and c: "rt_con root c = Some con" and b: "rt_mblk root b = Some mblk" and r: "r \<notin> fst ` tb_links root"
    and s: "con_tbufs con' = con_tbufs con @ [(r, tb)]" "con_sbufs con' = con_sbufs con"
    and l: "con_ok_links (set (rt_mblk_refs root)) c con'"
    and m: "mb_tbufs mblk' = mb_tbufs mblk @ [r]" "mb_sbufs mblk' = mb_sbufs mblk" and tb: "tb_mblk tb = b"
  shows "links_ok (set_con c con' (set_mblk b mblk' root))"
proof -
  let ?r = "set_con c con' (set_mblk b mblk' root)"
  have ag: "agree_on (tb_links root) (tb_refs root)" using ok by (simp add: links_ok_def)
  have nr: "(r, b') \<notin> tb_refs root" for b' using agree_on_owner [OF ag] r by force
  have "tb_links ?r = insert (r, c, b) (tb_links root)"
    using c tb by (auto simp: tb_links_def set_con_def set_mblk_def s split: if_splits; blast)
  moreover have "tb_refs ?r = insert (r, b) (tb_refs root)"
    using b by (auto simp: tb_refs_def set_con_def set_mblk_def m split: if_splits; blast)
  ultimately have "agree_on (tb_links ?r) (tb_refs ?r)" using agree_on_insert [OF ag r] by simp
  moreover have "sb_links ?r = sb_links root" using c by (auto simp: sb_links_def set_con_def set_mblk_def s split: if_splits; blast)
  moreover have "sb_refs ?r = sb_refs root" using b by (auto simp: sb_refs_def set_con_def set_mblk_def m split: if_splits; blast)
  moreover have "r \<notin> set (mb_tbufs mblk)" using nr [of b] b by (auto simp: tb_refs_def)
  then have "\<forall>x m. rt_mblk ?r x = Some m \<longrightarrow> distinct (mb_sbufs m) \<and> distinct (mb_tbufs m)"
    using ok b by (auto simp: set_con_def set_mblk_def links_ok_def m)
  moreover have "\<forall>x y. rt_con ?r x = Some y \<longrightarrow> con_ok_links (set (rt_mblk_refs root)) x y"
    using ok l by (auto simp: set_con_def set_mblk_def links_ok_def)
  moreover have "dom (rt_con ?r) = dom (rt_con root)" "dom (rt_mblk ?r) = dom (rt_mblk root)"
    using c b by (auto simp: set_con_def set_mblk_def)
  moreover have "rt_mblk_refs ?r = rt_mblk_refs root" "rt_con_refs ?r = rt_con_refs root" by (simp_all add: set_con_def set_mblk_def)
  ultimately show ?thesis using ok unfolding links_ok_def by metis
qed

lemma next_mblk_in: "links_ok root \<Longrightarrow> points_into (next_mblk root b) (set (rt_mblk_refs root))"
  using points_into_next [of "rt_mblk_refs root" b]
  by (cases "next_mblk root b") (auto simp: next_mblk_def links_ok_def)

lemma pass_cursor_ok:
  assumes "pass_cursor f refs b cur = Some cur'" and "distinct refs" and "points_into cur (set refs)"
  shows "points_into cur' (set refs)"
proof (cases cur)
  case (Some r)
  then have "cur' = next_ref r refs \<or> cur' = cur" using assms(1) by (auto simp: pass_cursor_def split: Option.bind_splits if_splits)
  then show ?thesis using assms(3) next_ref_in [OF assms(2), of r] by (cases cur') (simp, metis points_into_simps(2))
qed (use assms(1) in \<open>simp add: pass_cursor_def\<close>)

lemma mbinfo_sent_ok:
  assumes ok: "links_ok root" and l: "con_ok_links (set (rt_mblk_refs root)) c con" and s: "ioc_mbinfo_sent root b con = Some con'"
  shows "con_ok_links (set (rt_mblk_refs root)) c con' \<and> con_sbufs con' = con_sbufs con \<and> con_tbufs con' = con_tbufs con \<and>
    con_flags con' = con_flags con"
proof (cases "has_flag (con_flags con) IOC_CONNECT_UP")
  case True
  then show ?thesis using l s next_mblk_in [OF ok, of b] by (auto simp: ioc_mbinfo_sent_def con_ok_links_def)
next
  case False
  define con1 where "con1 = (if con_current_cloud_mblk con = Some b then con\<lparr>con_current_cloud_mblk := next_mblk root b\<rparr> else con)"
  have l1: "con_ok_links (set (rt_mblk_refs root)) c con1" using l next_mblk_in [OF ok, of b] by (auto simp: con1_def con_ok_links_def)
  have e1: "con_sbufs con1 = con_sbufs con" "con_tbufs con1 = con_tbufs con" "con_flags con1 = con_flags con" by (simp_all add: con1_def)
  obtain t s' where ts: "pass_cursor (tbuf_mblk con1) (map fst (con_tbufs con1)) b (con_tbuf_mbinfo_down con1) = Some t"
    "pass_cursor (sbuf_mblk (con1\<lparr>con_tbuf_mbinfo_down := t\<rparr>)) (map fst (con_sbufs con1)) b (con_sbuf_mbinfo_down con1) = Some s'"
    "con' = con1\<lparr>con_tbuf_mbinfo_down := t, con_sbuf_mbinfo_down := s'\<rparr>"
    using s False by (auto simp: ioc_mbinfo_sent_def Let_def con1_def [symmetric] split: Option.bind_splits)
  have "points_into t (fst ` set (con_tbufs con1))" "points_into s' (fst ` set (con_sbufs con1))"
    using pass_cursor_ok [OF ts(1)] pass_cursor_ok [OF ts(2)] l1 by (auto simp: con_ok_links_def)
  then show ?thesis using l1 e1 ts(3) by (simp add: con_ok_links_def)
qed

lemma add_mblk_to_con_ok:
  "con_ok_links B c con \<Longrightarrow> b \<in> B \<Longrightarrow> con_ok_links B c (add_mblk_to_con b mblk con) \<and>
     con_sbufs (add_mblk_to_con b mblk con) = con_sbufs con \<and> con_tbufs (add_mblk_to_con b mblk con) = con_tbufs con"
  by (auto simp: add_mblk_to_con_def con_ok_links_def)

lemma mblk_added_ok:
  assumes ok: "links_ok root" and b: "b \<notin> set (rt_mblk_refs root)" and m: "mb_sbufs mblk = []" "mb_tbufs mblk = []"
  shows "links_ok ((set_mblk b mblk root)\<lparr>rt_mblk_refs := rt_mblk_refs root @ [b], rt_next_unique_mblk_id := i\<rparr>)" (is "links_ok ?r")
proof -
  have n: "rt_mblk root b = None" using ok b unfolding links_ok_def by blast
  have "sb_links ?r = sb_links root" "tb_links ?r = tb_links root" by (simp_all add: sb_links_def tb_links_def set_mblk_def)
  moreover have "sb_refs ?r = sb_refs root" "tb_refs ?r = tb_refs root"
    using n m by (auto simp: sb_refs_def tb_refs_def set_mblk_def split: if_splits; force)+
  moreover have "points_into p (set (rt_mblk_refs root)) \<Longrightarrow> points_into p (set (rt_mblk_refs ?r))" for p by (cases p) auto
  then have "\<forall>x y. rt_con ?r x = Some y \<longrightarrow> con_ok_links (set (rt_mblk_refs ?r)) x y"
    using ok by (simp add: set_mblk_def links_ok_def con_ok_links_def)
  moreover have "\<forall>x m. rt_mblk ?r x = Some m \<longrightarrow> distinct (mb_sbufs m) \<and> distinct (mb_tbufs m)"
    using ok m by (auto simp: set_mblk_def links_ok_def)
  moreover have "dom (rt_mblk ?r) = insert b (dom (rt_mblk root))" by (auto simp: set_mblk_def)
  moreover have "rt_con ?r = rt_con root" "rt_con_refs ?r = rt_con_refs root" "rt_mblk_refs ?r = rt_mblk_refs root @ [b]"
    by (simp_all add: set_mblk_def)
  ultimately show ?thesis using ok b unfolding links_ok_def by (simp add: insert_commute)
qed

lemma map_cons_ok:
  assumes ok: "links_ok root"
    and f: "\<And>c con. rt_con root c = Some con \<Longrightarrow> con_ok_links (set (rt_mblk_refs root)) c (f con) \<and> con_sbufs (f con) = con_sbufs con \<and> con_tbufs (f con) = con_tbufs con"
  shows "same_binding root (root\<lparr>rt_con := (\<lambda>c. if c \<in> set (rt_con_refs root) then map_option f (rt_con root c) else rt_con root c)\<rparr>)"
    (is "same_binding root ?x")
proof -
  define r where "r = ?x"
  have k: "rt_con r c = map_option f (rt_con root c)" for c
    using links_con_refs [OF ok, of c] by (cases "rt_con root c") (auto simp: r_def)
  have "sb_links r = sb_links root" "tb_links r = tb_links root"
    unfolding sb_links_def tb_links_def k using f by (auto; metis)+
  moreover have "sb_refs r = sb_refs root" "tb_refs r = tb_refs root" by (simp_all add: sb_refs_def tb_refs_def r_def)
  moreover have "\<forall>x y. rt_con r x = Some y \<longrightarrow> con_ok_links (set (rt_mblk_refs root)) x y" unfolding k using f by auto
  moreover have "dom (rt_con r) = dom (rt_con root)" using k by (auto simp: dom_def)
  moreover have "rt_mblk r = rt_mblk root" "rt_mblk_refs r = rt_mblk_refs root" "rt_con_refs r = rt_con_refs root" by (simp_all add: r_def)
  ultimately have "same_binding root r" using ok unfolding same_binding_def links_ok_def by metis
  then show ?thesis by (simp add: r_def)
qed

lemma add_mblk_global_ok:
  assumes ok: "links_ok root" and b: "b \<in> set (rt_mblk_refs root)"
  shows "\<exists>root'. ioc_add_mblk_to_global_mbinfo b root = Some root' \<and> same_binding root root'"
proof -
  obtain mblk where m: "rt_mblk root b = Some mblk" using links_mblk [OF ok b] by blast
  show ?thesis using m map_cons_ok [OF ok, of "add_mblk_to_con b mblk"] add_mblk_to_con_ok [OF links_con [OF ok] b]
    by (simp add: ioc_add_mblk_to_global_mbinfo_def)
qed

lemma initialize_memory_block_ok:
  assumes ok: "links_ok root" and b: "b \<notin> set (rt_mblk_refs root)"
    and i: "ioc_initialize_memory_block rand is_static got_obj got_buf b prm root = Some (st, root')"
  shows "links_ok root' \<and> sb_links root' = sb_links root \<and> tb_links root' = tb_links root \<and>
    (root' = root \<and> st \<noteq> OSAL_SUCCESS \<or> b \<in> set (rt_mblk_refs root')) \<and> dom (rt_con root') = dom (rt_con root)"
proof (cases "\<not> is_static \<and> \<not> got_obj")
  case True
  then show ?thesis using i ok by (auto simp: ioc_initialize_memory_block_def)
next
  case False
  obtain mblk i' where m: "mb_sbufs mblk = []" "mb_tbufs mblk = []"
    and a: "ioc_add_mblk_to_global_mbinfo b ((set_mblk b mblk root)\<lparr>rt_mblk_refs := rt_mblk_refs root @ [b], rt_next_unique_mblk_id := i'\<rparr>) = Some root'"
    using i False unfolding ioc_initialize_memory_block_def Let_def
    by (fastforce split: Option.bind_splits if_splits prod.splits simp del: ioc_add_mblk_to_global_mbinfo_def)
  define root1 where "root1 = (set_mblk b mblk root)\<lparr>rt_mblk_refs := rt_mblk_refs root @ [b], rt_next_unique_mblk_id := i'\<rparr>"
  have o1: "links_ok root1" unfolding root1_def by (rule mblk_added_ok [OF ok b m])
  have r1: "b \<in> set (rt_mblk_refs root1)" "sb_links root1 = sb_links root" "tb_links root1 = tb_links root" "dom (rt_con root1) = dom (rt_con root)"
    by (simp_all add: root1_def sb_links_def tb_links_def set_mblk_def)
  have "same_binding root1 root'" using add_mblk_global_ok [OF o1 r1(1)] a by (auto simp: root1_def)
  then show ?thesis using r1 o1 unfolding same_binding_def links_ok_def by metis
qed

lemma synchronize_keeps:
  assumes "ioc_sbuf_synchronize t buf n sbuf = Some (st, sbuf', ev)"
  shows "sb_mblk sbuf' = sb_mblk sbuf \<and> sb_con sbuf' = sb_con sbuf"
proof -
  have sel: "sync_select buf n s = Some (Some (a, e, s')) \<Longrightarrow> sb_mblk s' = sb_mblk s \<and> sb_con s' = sb_con s" for s a e s'
    by (auto simp: sync_select_def split: Option.bind_splits if_splits option.splits prod.splits)
  have bits: "sync_bidir_bits s a e = Some s' \<Longrightarrow> sb_mblk s' = sb_mblk s \<and> sb_con s' = sb_con s" for s a e s'
    by (auto simp: sync_bidir_bits_def Let_def split: Option.bind_splits if_splits option.splits prod.splits)
  have cap: "sync_capture buf a e s = Some s' \<Longrightarrow> sb_mblk s' = sb_mblk s \<and> sb_con s' = sb_con s" for s a e s'
    by (auto simp: sync_capture_def Let_def dest!: bits split: Option.bind_splits if_splits option.splits)
  show ?thesis using assms
    by (auto simp: ioc_sbuf_synchronize_def dest!: sel cap split: Option.bind_splits if_splits option.splits)
qed

lemma after_new_fields [simp]:
  "con_sbufs (after_new_sbuf x b mblk con) = con_sbufs con" "con_tbufs (after_new_sbuf x b mblk con) = con_tbufs con"
  "con_sbufs (after_new_tbuf x b mblk con) = con_sbufs con" "con_tbufs (after_new_tbuf x b mblk con) = con_tbufs con"
  by (simp_all add: after_new_sbuf_def after_new_tbuf_def)

lemma after_new_null:
  assumes l: "con_ok_links B c con" and b: "b \<in> B"
  shows "con_ok_links B c (after_new_sbuf None b mblk con)" "con_ok_links B c (after_new_tbuf None b mblk con)"
  using assms by (auto simp: after_new_sbuf_def after_new_tbuf_def con_ok_links_def points_into_def split: option.splits)

lemma new_sbuf_ok:
  assumes ok: "links_ok root" and r: "r \<notin> fst ` sb_links root" and n: "ioc_mbinfo_new_sbuf got r c b info bd root = Some (root', ev)"
  shows "links_ok root' \<and> sb_links root' \<subseteq> insert (r, c, b) (sb_links root) \<and> tb_links root' = tb_links root"
proof -
  obtain con mblk where con: "rt_con root c = Some con" and mb: "rt_mblk root b = Some mblk"
    using n by (auto simp: ioc_mbinfo_new_sbuf_def split: Option.bind_splits)
  have bin: "b \<in> set (rt_mblk_refs root)" using ok mb unfolding links_ok_def by (metis domI)
  show ?thesis
  proof (cases "\<exists>x \<in> set (con_sbufs con). sb_mblk (snd x) = b")
    case True
    then show ?thesis using n con mb ok by (auto simp: ioc_mbinfo_new_sbuf_def)
  next
    case False
    note new = this
    define init where "init = ioc_initialize_source_buffer got got r (c, con) (b, mblk) (ucast (mi_mblk_id info)) (bd AND IOC_BIDIRECTIONAL)"
    show ?thesis
    proof (cases init)
      case None
      then have "root' = set_con c (after_new_sbuf None b mblk con) root"
        using n con mb new by (simp add: ioc_mbinfo_new_sbuf_def init_def)
      then show ?thesis using set_con_same [OF ok con _ _ after_new_null(1) [OF links_con [OF ok con] bin]] by (auto simp: same_binding_def)
    next
      case (Some p)
      obtain con1 mblk1 where p: "p = (con1, mblk1)" by (cases p)
      obtain sbuf buf st sbuf' ev' where s: "map_of (con_sbufs con1) r = Some sbuf"
        "ioc_sbuf_synchronize (con_has_trig con1) buf (mb_nbytes mblk1) sbuf = Some (st, sbuf', ev')"
        "root' = set_con c (after_new_sbuf (Some r) b mblk1 (con1\<lparr>con_sbufs := map (\<lambda>(k, x). (k, if k = r then sbuf' else x)) (con_sbufs con1)\<rparr>)) (set_mblk b mblk1 root)"
        using n unfolding ioc_mbinfo_new_sbuf_def con mb bind.bind_lunit if_not_P [OF new] init_def [symmetric] Some p option.case prod.case Let_def
        by (elim bind_SomeE) (auto split: prod.splits)
      obtain sb where sb: "con1 = con\<lparr>con_sbufs := con_sbufs con @ [(r, sb)]\<rparr>" "mblk1 = mblk\<lparr>mb_sbufs := mb_sbufs mblk @ [r]\<rparr>" "sb_mblk sb = b" "sb_con sb = c"
        using Some p by (auto simp: init_def ioc_initialize_source_buffer_def Let_def split: if_splits)
      have nr: "r \<notin> fst ` set (con_sbufs con)"
      proof
        assume "r \<in> fst ` set (con_sbufs con)"
        then obtain x where "(r, x) \<in> set (con_sbufs con)" by auto
        then have "(r, c, sb_mblk x) \<in> sb_links root" using con by (auto simp: sb_links_def)
        then show False using r by force
      qed
      then have "map_of (con_sbufs con) r = None" by (simp add: map_of_eq_None_iff)
      then have "sbuf = sb" using s(1) sb(1) by (simp add: map_add_def)
      then have k: "sb_mblk sbuf' = b" "sb_con sbuf' = c" using synchronize_keeps [OF s(2)] sb(3,4) by simp_all
      have "map (\<lambda>(k, x). (k, if k = r then sbuf' else x)) (con_sbufs con) = con_sbufs con" using nr by (intro map_idI) force
      then have e: "con1\<lparr>con_sbufs := map (\<lambda>(k, x). (k, if k = r then sbuf' else x)) (con_sbufs con1)\<rparr> = con\<lparr>con_sbufs := con_sbufs con @ [(r, sbuf')]\<rparr>"
        using sb(1) by simp
      define con3 where "con3 = after_new_sbuf (Some r) b mblk1 (con\<lparr>con_sbufs := con_sbufs con @ [(r, sbuf')]\<rparr>)"
      have root': "root' = set_con c con3 (set_mblk b mblk1 root)" using s(3) unfolding e con3_def .
      have f: "con_sbufs con3 = con_sbufs con @ [(r, sbuf')]" "con_tbufs con3 = con_tbufs con" by (simp_all add: con3_def)
      have l: "con_ok_links (set (rt_mblk_refs root)) c con3"
        using links_con [OF ok con] nr k bin by (auto simp: con3_def after_new_sbuf_def con_ok_links_def points_into_def split: option.splits)
      have "links_ok root'" unfolding root' by (rule bind_sbuf_ok [OF ok con mb r f l]) (simp_all add: sb k)
      moreover have "sb_links root' \<subseteq> insert (r, c, b) (sb_links root)" "tb_links root' = tb_links root"
        using con k unfolding root' by (auto simp: sb_links_def tb_links_def set_con_def set_mblk_def f split: if_splits; blast)+
      ultimately show ?thesis by blast
    qed
  qed
qed

lemma drop_plain_tbufs_ok:
  "links_ok root \<Longrightarrow> drop_plain_tbufs rs root = Some root' \<Longrightarrow> links_ok root' \<and> sb_links root' = sb_links root \<and> tb_links root' \<subseteq> tb_links root"
proof (induction rs arbitrary: root)
  case (Cons r rs)
  obtain c con tbuf root1 where s: "rt_con root c = Some con" "map_of (con_tbufs con) r = Some tbuf"
    "(if \<not> has_flag (tb_flags tbuf) IOC_BIDIRECTIONAL then release_tbuf c r root else Some root) = Some root1" "drop_plain_tbufs rs root1 = Some root'"
    using Cons(3) by (auto split: Option.bind_splits)
  have "(r, c, tb_mblk tbuf) \<in> tb_links root" using s(1) map_of_SomeD [OF s(2)] by (auto simp: tb_links_def)
  then obtain root2 where "release_tbuf c r root = Some root2" "links_ok root2" "sb_links root2 = sb_links root"
    "tb_links root2 = tb_links root - {(r, c, tb_mblk tbuf)}" using release_tbuf_ok [OF Cons(2)] by blast
  then have "links_ok root1 \<and> sb_links root1 = sb_links root \<and> tb_links root1 \<subseteq> tb_links root"
    using s(3) Cons(2) by (auto split: if_splits)
  then show ?case using Cons(1) s(4) by blast
qed simp

lemma new_tbuf_ok:
  assumes ok: "links_ok root" and r: "r \<in> fst ` tb_links root \<Longrightarrow> \<exists>r'. (r', c, b) \<in> tb_links root"
    and n: "ioc_mbinfo_new_tbuf got r c b info bd root = Some (root', ev)"
  shows "links_ok root' \<and> (r \<in> fst ` tb_links root' \<longrightarrow> (\<exists>r'. (r', c, b) \<in> tb_links root')) \<and> sb_links root' = sb_links root"
proof -
  obtain con0 mblk0 where con0: "rt_con root c = Some con0" and mb0: "rt_mblk root b = Some mblk0"
    using n by (auto simp: ioc_mbinfo_new_tbuf_def split: Option.bind_splits)
  show ?thesis
  proof (cases "\<exists>x \<in> set (con_tbufs con0). tb_mblk (snd x) = b")
    case True
    then have "\<exists>r'. (r', c, b) \<in> tb_links root" using con0 by (auto simp: tb_links_def; blast)
    then show ?thesis using True n con0 mb0 ok by (simp add: ioc_mbinfo_new_tbuf_def)
  next
    case False
    have "\<not> (\<exists>r'. (r', c, b) \<in> tb_links root)" using con0 False by (force simp: tb_links_def)
    then have r: "r \<notin> fst ` tb_links root" using r by blast
    obtain root1 con mblk where s:
      "(if bd = 0 then drop_plain_tbufs (mb_tbufs mblk0) root else Some root) = Some root1" "rt_con root1 c = Some con" "rt_mblk root1 b = Some mblk"
      using n con0 mb0 False unfolding ioc_mbinfo_new_tbuf_def Let_def by (fastforce split: Option.bind_splits prod.splits)
    define init where "init = ioc_initialize_target_buffer got got r (c, con) (b, mblk) (ucast (mi_mblk_id info)) (bd AND IOC_BIDIRECTIONAL)"
    have e: "Some (root', ev) = Some (case init of
         None \<Rightarrow> (set_con c (after_new_tbuf None b mblk con) root1, [RootEvent IOC_MBLK_CONNECTED_AS_TARGET b])
       | Some (con1, mblk1) \<Rightarrow>
         (set_con c (after_new_tbuf (Some r) b mblk1 con1) (set_mblk b mblk1 root1), [RootEvent IOC_MBLK_CONNECTED_AS_TARGET b]))"
      using n [symmetric] unfolding ioc_mbinfo_new_tbuf_def con0 mb0 bind.bind_lunit if_not_P [OF False] s init_def [symmetric] .
    have o1: "links_ok root1" "sb_links root1 = sb_links root" "tb_links root1 \<subseteq> tb_links root"
      using drop_plain_tbufs_ok [OF ok] s(1) ok by (auto split: if_splits)
    have r1: "r \<notin> fst ` tb_links root1" using r o1(3) by blast
    have bin: "b \<in> set (rt_mblk_refs root1)" using o1(1) s(3) unfolding links_ok_def by (metis domI)
    show ?thesis
    proof (cases init)
      case None
      then have "root' = set_con c (after_new_tbuf None b mblk con) root1" using e by simp
      then show ?thesis using set_con_same [OF o1(1) s(2) _ _ after_new_null(2) [OF links_con [OF o1(1) s(2)] bin]] o1(2) r1
        by (simp add: same_binding_def)
    next
      case (Some p)
      obtain con1 mblk1 where p: "p = (con1, mblk1)" by (cases p)
      obtain tb where tb: "con1 = con\<lparr>con_tbufs := con_tbufs con @ [(r, tb)]\<rparr>" "mblk1 = mblk\<lparr>mb_tbufs := mb_tbufs mblk @ [r]\<rparr>" "tb_mblk tb = b" "tb_con tb = c"
        using Some p by (auto simp: init_def ioc_initialize_target_buffer_def Let_def split: if_splits)
      have nr: "r \<notin> fst ` set (con_tbufs con)"
      proof
        assume "r \<in> fst ` set (con_tbufs con)"
        then obtain x where "(r, x) \<in> set (con_tbufs con)" by auto
        then have "(r, c, tb_mblk x) \<in> tb_links root1" using s(2) by (auto simp: tb_links_def)
        then show False using r1 by force
      qed
      define con3 where "con3 = after_new_tbuf (Some r) b mblk1 con1"
      have root': "root' = set_con c con3 (set_mblk b mblk1 root1)" using e Some p unfolding con3_def by simp
      have f: "con_tbufs con3 = con_tbufs con @ [(r, tb)]" "con_sbufs con3 = con_sbufs con" by (simp_all add: con3_def tb(1))
      have l: "con_ok_links (set (rt_mblk_refs root1)) c con3"
        using links_con [OF o1(1) s(2)] nr tb(3,4) bin by (auto simp: con3_def after_new_tbuf_def tb(1) con_ok_links_def points_into_def split: option.splits)
      have "links_ok root'" unfolding root' by (rule bind_tbuf_ok [OF o1(1) s(2,3) r1 f l]) (simp_all add: tb)
      moreover have "(r, c, b) \<in> tb_links root'"
        using tb(3) unfolding root' by (auto simp: tb_links_def set_con_def set_mblk_def f)
      moreover have "sb_links root' = sb_links root1"
        using s(2) unfolding root' by (auto simp: sb_links_def set_con_def set_mblk_def f split: if_splits; blast)
      ultimately show ?thesis using o1 by blast
    qed
  qed
qed

lemma bind_as_source_ok:
  assumes ok: "links_ok root" and r: "rs \<notin> fst ` sb_links root" "rt \<notin> fst ` tb_links root"
    and n: "bind_as_source got rs rt c b info up mflags bdflag root = Some (bd', root', ev)"
  shows "links_ok root' \<and> (rt \<in> fst ` tb_links root' \<longrightarrow> (\<exists>r'. (r', c, b) \<in> tb_links root')) \<and> (up \<longrightarrow> bd' \<noteq> 0 \<longrightarrow> root' = root)"
proof (cases "has_flag mflags (if up then IOC_MBLK_UP else IOC_MBLK_DOWN) \<and> has_flag (mi_flags info) (if up then IOC_MBLK_UP else IOC_MBLK_DOWN)")
  case True
  define bd where "bd = (if up then 0 else bdflag)"
  obtain r1 e1 e2 where s: "ioc_mbinfo_new_sbuf got rs c b info bd root = Some (r1, e1)"
    "(if bd \<noteq> 0 then ioc_mbinfo_new_tbuf got rt c b info bd r1 else Some (r1, [])) = Some (root', e2)" "bd' = bd"
    using n True unfolding bind_as_source_def Let_def bd_def [symmetric] by (auto split: Option.bind_splits)
  have o1: "links_ok r1" "tb_links r1 = tb_links root" using new_sbuf_ok [OF ok r(1) s(1)] by auto
  show ?thesis
  proof (cases "bd = 0")
    case True
    then show ?thesis using s o1 r by auto
  next
    case False
    have "links_ok root' \<and> (rt \<in> fst ` tb_links root' \<longrightarrow> (\<exists>r'. (r', c, b) \<in> tb_links root')) \<and> sb_links root' = sb_links r1"
      by (rule new_tbuf_ok [OF o1(1), of rt c b got info bd root' e2]) (use s False o1 r in auto)
    then show ?thesis using False by (auto simp: bd_def split: if_splits)
  qed
next
  case False
  then show ?thesis using n ok r by (auto simp: bind_as_source_def)
qed

lemma bind_as_target_ok:
  assumes ok: "links_ok root" and rs: "up \<Longrightarrow> bdflag \<noteq> 0 \<Longrightarrow> rs \<notin> fst ` sb_links root"
    and rt: "rt \<in> fst ` tb_links root \<Longrightarrow> \<exists>r'. (r', c, b) \<in> tb_links root"
    and n: "bind_as_target got rs rt c b info up mflags bdflag root = Some (root', ev)"
  shows "links_ok root'"
proof (cases "has_flag mflags (if up then IOC_MBLK_DOWN else IOC_MBLK_UP) \<and> has_flag (mi_flags info) (if up then IOC_MBLK_DOWN else IOC_MBLK_UP)")
  case True
  define bd where "bd = (if \<not> up then 0 else bdflag)"
  obtain r1 e1 e2 where s: "(if bd \<noteq> 0 then ioc_mbinfo_new_sbuf got rs c b info bd root else Some (root, [])) = Some (r1, e1)"
    "ioc_mbinfo_new_tbuf got rt c b info bd r1 = Some (root', e2)"
    using n True unfolding bind_as_target_def Let_def bd_def [symmetric] by (auto split: Option.bind_splits)
  have o1: "links_ok r1 \<and> tb_links r1 = tb_links root"
  proof (cases "bd = 0")
    case False
    then have "rs \<notin> fst ` sb_links root" using rs by (auto simp: bd_def split: if_splits)
    then show ?thesis using new_sbuf_ok [OF ok, of rs] s(1) False by auto
  qed (use s ok in simp)
  then have "rt \<in> fst ` tb_links r1 \<Longrightarrow> \<exists>r'. (r', c, b) \<in> tb_links r1" using rt by simp
  then show ?thesis using new_tbuf_ok [OF _ _ s(2)] o1 by blast
qed (use n ok in \<open>auto simp: bind_as_target_def Let_def\<close>)

lemma bind_mblk_ok:
  assumes ok: "links_ok root" and r: "rs \<notin> fst ` sb_links root" "rt \<notin> fst ` tb_links root"
    and n: "bind_mblk got rs rt c b info root = Some (root', ev)"
  shows "links_ok root'"
proof -
  obtain up mf bdflag bd1 root1 ev1 ev2 where
    s1: "bind_as_source got rs rt c b info up mf bdflag root = Some (bd1, root1, ev1)" and
    s2: "bind_as_target got rs rt c b info up mf bd1 root1 = Some (root', ev2)"
    using n unfolding bind_mblk_def Let_def by (auto split: Option.bind_splits)
  note f = bind_as_source_ok [OF ok r s1]
  show ?thesis by (rule bind_as_target_ok [OF _ _ _ s2]) (use f r in auto)
qed

lemma resize_keeps:
  "ioc_resize_mblk nb mblk n 0 = Some (st, mblk') \<Longrightarrow> mb_sbufs mblk' = mb_sbufs mblk \<and> mb_tbufs mblk' = mb_tbufs mblk"
  by (auto simp: ioc_resize_mblk_def Let_def has_flag_def split: if_splits option.splits Option.bind_splits)

lemma same_binding_links: "same_binding root root' \<Longrightarrow> links_ok root' \<and> sb_links root' = sb_links root \<and> tb_links root' = tb_links root"
  by (simp add: same_binding_def)

lemma mbinfo_received_ok:
  assumes ok: "links_ok root" and r: "rm \<notin> set (rt_mblk_refs root)" "rs \<notin> fst ` sb_links root" "rt \<notin> fst ` tb_links root"
    and n: "ioc_mbinfo_received rand newbuf got rm rs rt c info root = Some (root', ev)"
  shows "links_ok root'"
proof -
  obtain con where con: "rt_con root c = Some con" using n by (auto simp: ioc_mbinfo_received_def split: Option.bind_splits)
  show ?thesis
  proof (cases "ioc_is_network_authorized (rt_authorization root) con (mi_network_name info) 0")
    case False
    then show ?thesis using n con ok by (simp add: ioc_mbinfo_received_def)
  next
    case True
    define prm where "prm = \<lparr>mp_network_name = mi_network_name info, mp_device_name = mi_device_name info, mp_device_nr = mi_device_nr info,
       mp_mblk_name = mi_mblk_name info, mp_buf = None, mp_nbytes = sint (mi_nbytes info),
       mp_flags = (mi_flags info AND (IOC_MBLK_DOWN OR IOC_MBLK_UP)) OR (IOC_ALLOW_RESIZE OR IOC_DYNAMIC), mp_local_flags = mi_local_flags info\<rparr>"
    obtain found root1 ev1 where s1: "(case find_mblk root info of Some b \<Rightarrow> Some (Some b, root, [])
         | None \<Rightarrow> if has_flag (con_flags con) IOC_DYNAMIC_MBLKS then do {
               (st, root1) \<leftarrow> ioc_initialize_memory_block rand False got got rm prm root;
               Some (if st = OSAL_SUCCESS then (Some rm, root1, [RootEvent IOC_NEW_MEMORY_BLOCK rm]) else (None, root1, []))
             } else Some (None, root, [])) = Some (found, root1, ev1)"
      and s2: "(case found of None \<Rightarrow> Some (root1, ev1)
       | Some b \<Rightarrow> do {
           mblk \<leftarrow> rt_mblk root1 b;
           (st, mblk') \<leftarrow> ioc_resize_mblk newbuf mblk (sint (mi_nbytes info)) 0;
           (root2, ev2) \<leftarrow> bind_mblk got rs rt c b info (set_mblk b mblk' root1);
           Some (root2, ev1 @ ev2) }) = Some (root', ev)"
      using n con True unfolding ioc_mbinfo_received_def Let_def prm_def [symmetric] by (auto split: Option.bind_splits)
    have o1: "links_ok root1 \<and> sb_links root1 = sb_links root \<and> tb_links root1 = tb_links root"
      using s1 ok initialize_memory_block_ok [OF ok r(1)] by (auto split: option.splits if_splits Option.bind_splits)
    show ?thesis
    proof (cases found)
      case None
      then show ?thesis using s2 o1 by simp
    next
      case (Some b)
      then obtain mblk st mblk' ev2 where s3: "rt_mblk root1 b = Some mblk" "ioc_resize_mblk newbuf mblk (sint (mi_nbytes info)) 0 = Some (st, mblk')"
        "bind_mblk got rs rt c b info (set_mblk b mblk' root1) = Some (root', ev2)" using s2 by (auto split: Option.bind_splits)
      have "same_binding root1 (set_mblk b mblk' root1)"
        by (rule set_mblk_same) (use o1 s3(1) resize_keeps [OF s3(2)] in simp_all)
      note o2 = same_binding_links [OF this]
      show ?thesis by (rule bind_mblk_ok [OF _ _ _ s3(3)]) (use o1 o2 r in simp_all)
    qed
  qed
qed

text \<open>
  Whatever a memory block information frame says, valid or not, connections and blocks still agree on their
  buffers: the frame may create a dynamic block, resize a block, replace plain target buffers and bind up to
  one source and one target buffer.
\<close>

lemma received_info_keeps_links:
  assumes ok: "links_ok root" and r: "rm \<notin> set (rt_mblk_refs root)" "rs \<notin> fst ` sb_links root" "rt \<notin> fst ` tb_links root"
    and n: "ioc_process_received_mbinfo_frame rand newbuf got rm rs rt auto_nr c mblk_id data root = Some (st, root', ev)"
  shows "links_ok root'"
proof -
  obtain con parsed where con: "rt_con root c = Some con" "parse_mbinfo mblk_id data = Some parsed"
    using n by (auto simp: ioc_process_received_mbinfo_frame_def split: Option.bind_splits)
  show ?thesis
  proof (cases parsed)
    case None
    then show ?thesis using n con ok by (simp add: ioc_process_received_mbinfo_frame_def)
  next
    case (Some info0)
    obtain con1 info where d: "receive_device_nr auto_nr (rt_device_nr root) con info0 = (con1, info)" by fastforce
    obtain ev1 where m: "ioc_mbinfo_received rand newbuf got rm rs rt c info (set_con c con1 root) = Some (root', ev1)"
      using n con d Some by (auto simp: ioc_process_received_mbinfo_frame_def split: Option.bind_splits)
    have "con1 = con \<or> con1 = con\<lparr>con_auto_device_nr := auto_nr\<rparr>" using d by (auto simp: receive_device_nr_def Let_def split: if_splits)
    then have "con_sbufs con1 = con_sbufs con" "con_tbufs con1 = con_tbufs con" "con_ok_links (set (rt_mblk_refs root)) c con1"
      using links_con [OF ok con(1)] by (auto simp: con_ok_links_def)
    note s = set_con_same [OF ok con(1) this]
    show ?thesis
      by (rule mbinfo_received_ok [OF _ _ _ _ m])
        (use s r in \<open>simp_all add: same_binding_def\<close>)
  qed
qed

section \<open>Announcing the blocks\<close>

lemma next_ref_at: "distinct (pre @ x # bs) \<Longrightarrow> next_ref x (pre @ x # bs) = (case bs of [] \<Rightarrow> None | y # ys \<Rightarrow> Some y)"
  by (induction pre) (auto split: list.splits)

text \<open>
  What goes out when the connection always has room: \<open>ioc_get_mbinfo_to_send\<close>, the frame, then
  \<open>ioc_mbinfo_sent\<close>, as \<open>ioc_connection_send\<close> does call by call; at most \<open>k\<close> frames.
\<close>

primrec announced :: "nat \<Rightarrow> iocRoot \<Rightarrow> iocConnection \<Rightarrow> nat list option" where
  "announced 0 root con = Some []"
| "announced (Suc k) root con = do {
     (m, con1) \<leftarrow> ioc_get_mbinfo_to_send root con;
     case m of None \<Rightarrow> Some []
     | Some b \<Rightarrow> do { con2 \<leftarrow> ioc_mbinfo_sent root b con1; bs \<leftarrow> announced k root con2; Some (b # bs) } }"

definition cursor_at :: "nat list \<Rightarrow> iocConnection \<Rightarrow> bool" where
  "cursor_at bs con \<longleftrightarrow> has_flag (con_flags con) IOC_CONNECT_UP \<and> con_current_mblk con = (case bs of [] \<Rightarrow> None | b # _ \<Rightarrow> Some b)"

definition announces :: "iocRoot \<Rightarrow> iocConnection \<Rightarrow> nat \<Rightarrow> bool" where
  "announces root con b \<longleftrightarrow> (\<exists>mblk. rt_mblk root b = Some mblk \<and> wants_info (rt_authorization root) con mblk)"

lemma wants_info_cursor: "wants_info a (con\<lparr>con_current_mblk := p\<rparr>) m \<longleftrightarrow> wants_info a con m"
  by (simp add: wants_info_def cloud_skips_def ioc_is_network_authorized_def)

lemma announces_cursor: "announces root (con\<lparr>con_current_mblk := p\<rparr>) = announces root con"
  by (simp add: announces_def wants_info_cursor fun_eq_iff)

lemma mbinfo_sent_up:
  assumes "links_ok root" and "rt_mblk_refs root = pre @ b # bs" and "cursor_at (b # bs) con"
  obtains p where "ioc_mbinfo_sent root b con = Some (con\<lparr>con_current_mblk := p\<rparr>)" "cursor_at bs (con\<lparr>con_current_mblk := p\<rparr>)"
  using assms next_ref_at [of pre b bs] by (simp add: ioc_mbinfo_sent_def cursor_at_def next_mblk_def links_ok_def)

lemma get_mbinfo_up:
  assumes ok: "links_ok root"
  shows "rt_mblk_refs root = pre @ bs \<Longrightarrow> cursor_at bs con \<Longrightarrow>
    \<exists>skipped rest p. bs = skipped @ rest \<and> filter (announces root con) skipped = [] \<and> (\<forall>b r. rest = b # r \<longrightarrow> announces root con b) \<and>
      ioc_get_mbinfo_to_send root con = Some (case rest of [] \<Rightarrow> None | b # _ \<Rightarrow> Some b, con\<lparr>con_current_mblk := p\<rparr>) \<and>
      cursor_at rest (con\<lparr>con_current_mblk := p\<rparr>)"
proof (induction bs arbitrary: pre con)
  case Nil
  have "ioc_get_mbinfo_to_send root con = Some (None, con\<lparr>con_current_mblk := None\<rparr>)"
    using Nil(2) by (subst ioc_get_mbinfo_to_send.simps) (simp add: cursor_at_def ioc_get_mbinfo_to_send2_def)
  then show ?case using Nil(2) by (intro exI [of _ "[]"] exI [of _ None]) (simp add: cursor_at_def)
next
  case (Cons b bs)
  have g2: "ioc_get_mbinfo_to_send2 con = Some (Some b)" "con_current_mblk con = Some b"
    using Cons(3) by (simp_all add: cursor_at_def ioc_get_mbinfo_to_send2_def)
  obtain mblk where m: "rt_mblk root b = Some mblk" using links_mblk [OF ok, of b] Cons(2) by auto
  show ?case
  proof (cases "announces root con b")
    case True
    then have "ioc_get_mbinfo_to_send root con = Some (Some b, con\<lparr>con_current_mblk := Some b\<rparr>)"
      using g2 m by (subst ioc_get_mbinfo_to_send.simps) (simp add: announces_def)
    then show ?thesis using True Cons(3) by (intro exI [of _ "[]"] exI [of _ "b # bs"] exI [of _ "Some b"]) (simp add: cursor_at_def)
  next
    case False
    obtain p where p: "ioc_mbinfo_sent root b con = Some (con\<lparr>con_current_mblk := p\<rparr>)" "cursor_at bs (con\<lparr>con_current_mblk := p\<rparr>)"
      by (rule mbinfo_sent_up [OF ok Cons(2,3)])
    have g: "ioc_get_mbinfo_to_send root con = ioc_get_mbinfo_to_send root (con\<lparr>con_current_mblk := p\<rparr>)"
      using g2 m p(1) False by (subst ioc_get_mbinfo_to_send.simps) (simp add: announces_def)
    have "rt_mblk_refs root = (pre @ [b]) @ bs" using Cons(2) by simp
    from Cons(1) [OF this p(2)] obtain skipped rest q where
      "bs = skipped @ rest" "filter (announces root con) skipped = []" "\<forall>b r. rest = b # r \<longrightarrow> announces root con b"
      "ioc_get_mbinfo_to_send root (con\<lparr>con_current_mblk := p\<rparr>) = Some (case rest of [] \<Rightarrow> None | b # _ \<Rightarrow> Some b, con\<lparr>con_current_mblk := q\<rparr>)"
      "cursor_at rest (con\<lparr>con_current_mblk := q\<rparr>)" by (auto simp: announces_cursor)
    then show ?thesis using g False by (intro exI [of _ "b # skipped"] exI [of _ rest] exI [of _ q]) simp
  qed
qed

lemma announced_up:
  assumes ok: "links_ok root"
  shows "rt_mblk_refs root = pre @ bs \<Longrightarrow> cursor_at bs con \<Longrightarrow> length bs < k \<Longrightarrow> announced k root con = Some (filter (announces root con) bs)"
proof (induction k arbitrary: pre bs con)
  case (Suc k)
  obtain skipped rest p where g: "bs = skipped @ rest" "filter (announces root con) skipped = []" "\<forall>b r. rest = b # r \<longrightarrow> announces root con b"
    "ioc_get_mbinfo_to_send root con = Some (case rest of [] \<Rightarrow> None | b # _ \<Rightarrow> Some b, con\<lparr>con_current_mblk := p\<rparr>)"
    "cursor_at rest (con\<lparr>con_current_mblk := p\<rparr>)" using get_mbinfo_up [OF ok Suc(2,3)] by blast
  show ?case
  proof (cases rest)
    case Nil
    then show ?thesis using g by simp
  next
    case (Cons b r)
    have e: "rt_mblk_refs root = (pre @ skipped) @ b # r" using Suc(2) g(1) Cons by simp
    obtain q where q: "ioc_mbinfo_sent root b (con\<lparr>con_current_mblk := p\<rparr>) = Some (con\<lparr>con_current_mblk := p\<rparr>\<lparr>con_current_mblk := q\<rparr>)"
      "cursor_at r (con\<lparr>con_current_mblk := p\<rparr>\<lparr>con_current_mblk := q\<rparr>)" by (rule mbinfo_sent_up [OF ok e]) (use g(5) Cons in simp)
    have "rt_mblk_refs root = (pre @ skipped @ [b]) @ r" using e by simp
    from Suc(1) [OF this q(2)] have "announced k root (con\<lparr>con_current_mblk := q\<rparr>) = Some (filter (announces root con) r)"
      using Suc(4) g(1) Cons by (simp add: announces_cursor)
    then show ?thesis using g Cons q(1) by simp
  qed
qed simp

text \<open>
  \<^bold>\<open>C30\<close> A connection upwards announces every block exactly once and in order: starting with the
  cursor at the first block, getting the next block to announce and passing it on until nothing is left
  gives the blocks of the root that the connection wants (network authorized, cloud settings), each loop of
  \<open>ioc_get_mbinfo_to_send\<close> over blocks to skip ends, and after \<open>n\<close> blocks the announcing ends.
\<close>

theorem announces_every_block_once:
  assumes "links_ok root" and "has_flag (con_flags con) IOC_CONNECT_UP"
    and "con_current_mblk con = (case rt_mblk_refs root of [] \<Rightarrow> None | b # _ \<Rightarrow> Some b)" and "length (rt_mblk_refs root) < k"
  shows "announced k root con = Some (filter (announces root con) (rt_mblk_refs root))"
  using announced_up [OF assms(1), of "[]"] assms(2-4) by (simp add: cursor_at_def)

section \<open>A root with a bound block\<close>

definition root_start :: "u16 \<Rightarrow> iocRoot" where
  "root_start flags = \<lparr>rt_mblk_refs = [1, 2],
     rt_mblk = [1 \<mapsto> mblk_sample [1, 2, 3], 2 \<mapsto> (mblk_sample [4, 5])\<lparr>mb_flags := IOC_CLOUD_ONLY, mb_mblk_id := 11\<rparr>],
     rt_con_refs = [5], rt_con = [5 \<mapsto> con_sample flags], rt_device_nr = 0, rt_next_unique_mblk_id = 12, rt_authorization = False,
     rt_network_name = [110], rt_device_name = [100], rt_password = []\<rparr>"

definition root_sample :: "u16 \<Rightarrow> iocRoot" where
  "root_sample flags = set_con 5 ((con_sample flags)\<lparr>con_sbufs := con_sbufs (con_sample flags) @ [(7, (sbuf_sample 0 [1, 2, 3] [0, 0, 0])\<lparr>sb_mblk := 1, sb_con := 5\<rparr>)],
       con_sbuf_mbinfo_down := Some 7\<rparr>)
     (set_mblk 1 ((mblk_sample [1, 2, 3])\<lparr>mb_sbufs := mb_sbufs (mblk_sample [1, 2, 3]) @ [7]\<rparr>) (root_start flags))"

lemma root_start_ok: "links_ok (root_start flags)" "fst ` sb_links (root_start flags) = {}" "fst ` tb_links (root_start flags) = {}"
proof -
  have e: "sb_links (root_start flags) = {}" "tb_links (root_start flags) = {}" "sb_refs (root_start flags) = {}" "tb_refs (root_start flags) = {}"
    by (auto simp: sb_links_def tb_links_def sb_refs_def tb_refs_def root_start_def con_sample_simps mblk_sample_def split: if_splits)
  have "con_ok_links {1, 2} 5 (con_sample flags)" by (simp add: con_ok_links_def con_sample_simps)
  then show "links_ok (root_start flags)" unfolding links_ok_def e by (auto simp: agree_on_def root_start_def mblk_sample_def)
  show "fst ` sb_links (root_start flags) = {}" "fst ` tb_links (root_start flags) = {}" by (simp_all add: e)
qed

lemma root_sample_ok: "links_ok (root_sample flags)"
  unfolding root_sample_def
  by (rule bind_sbuf_ok [OF root_start_ok(1)])
    (simp_all add: root_start_ok, simp_all add: root_start_def con_ok_links_def con_sample_simps)

lemma root_sample_simps:
  "rt_mblk (root_sample flags) 1 = Some ((mblk_sample [1, 2, 3])\<lparr>mb_sbufs := mb_sbufs (mblk_sample [1, 2, 3]) @ [7]\<rparr>)"
  "rt_mblk_refs (root_sample flags) = [1, 2]" "\<exists>con. rt_con (root_sample flags) 5 = Some con \<and> con_sbufs con \<noteq> []"
  by (simp_all add: root_sample_def root_start_def set_con_def set_mblk_def)

theorem close_connection_frees_all_witness:
  "\<exists>root' ev con'. ioc_free_source_and_target_bufs True 5 (root_sample 1) = Some (root', ev) \<and> links_ok root' \<and>
    rt_con root' 5 = Some con' \<and> con_sbufs con' = [] \<and> con_tbufs con' = []"
  using close_connection_frees_all [OF root_sample_ok] root_sample_simps(3) by blast

text \<open>
  \<^bold>\<open>C29\<close> Deleting a memory block leaves no pointer to it: \<open>ioc_release_memory_block\<close> releases the
  block's source and target buffers at whichever connections have them, moves the cursors of the
  connections on and unlinks the block; afterwards no connection has a buffer for the block and every
  remaining cursor and buffer is valid.
\<close>

theorem delete_block_no_dangling:
  assumes "links_ok root" and "rt_mblk root b = Some mblk"
  shows "\<exists>root' ev. ioc_release_memory_block b root = Some (root', ev) \<and> links_ok root' \<and>
    rt_mblk_refs root' = filter (\<lambda>x. x \<noteq> b) (rt_mblk_refs root) \<and> (\<forall>r c. (r, c, b) \<notin> sb_links root' \<and> (r, c, b) \<notin> tb_links root')"
proof -
  obtain root' ev where r: "ioc_release_memory_block b root = Some (root', ev)" "links_ok root'" "rt_mblk root' b = None"
    "rt_mblk_refs root' = filter (\<lambda>x. x \<noteq> b) (rt_mblk_refs root)" using release_memory_block_ok [OF assms] by blast
  have "\<forall>r c. (r, c, b) \<notin> sb_links root' \<and> (r, c, b) \<notin> tb_links root'" using link_mblk [OF r(2)] r(3) by fastforce
  then show ?thesis using r by blast
qed

theorem delete_block_no_dangling_witness:
  "\<exists>root' ev. ioc_release_memory_block 1 (root_sample 1) = Some (root', ev) \<and> links_ok root' \<and> rt_mblk_refs root' = [2] \<and>
    (\<forall>r c. (r, c, 1) \<notin> sb_links root' \<and> (r, c, 1) \<notin> tb_links root')"
  using delete_block_no_dangling [OF root_sample_ok root_sample_simps(1)] by (simp add: root_sample_simps(2))

theorem announces_every_block_once_witness:
  "announced 3 (root_start IOC_CONNECT_UP) ((con_sample IOC_CONNECT_UP)\<lparr>con_current_mblk := Some 1\<rparr>) = Some [1]"
proof -
  have "announces (root_start IOC_CONNECT_UP) ((con_sample IOC_CONNECT_UP)\<lparr>con_current_mblk := Some 1\<rparr>) 1"
    "\<not> announces (root_start IOC_CONNECT_UP) ((con_sample IOC_CONNECT_UP)\<lparr>con_current_mblk := Some 1\<rparr>) 2"
    by (simp_all add: announces_def root_start_def wants_info_def cloud_skips_def mblk_sample_def con_sample_simps ioc_is_network_authorized_def mblk_flag_defs)
  then show ?thesis
    using announces_every_block_once [OF root_start_ok(1), of "(con_sample IOC_CONNECT_UP)\<lparr>con_current_mblk := Some 1\<rparr>" IOC_CONNECT_UP 3]
    by (simp add: root_start_def con_sample_simps)
qed

lemma info_received_sample:
  "map_option (\<lambda>(st, root', ev). (st, map_option (length \<circ> con_tbufs) (rt_con root' 5), ev))
     (ioc_process_received_mbinfo_frame (\<lambda>_. 0) None True 3 7 8 0 5 20 (mblk_info_content 1 (mblk_sample [1, 2, 3])) (root_start 1)) =
   Some (OSAL_SUCCESS, Some 1, [RootEvent IOC_MBLK_CONNECTED_AS_SOURCE 1, RootEvent IOC_MBLK_CONNECTED_AS_TARGET 1])"
  by code_simp

end
