(* ===== verification/Ioc_Remove_Mblk.thy ===== *)
theory Ioc_Remove_Mblk
  imports Ioc_Root_Inv
begin

text \<open>
  Requests to remove memory blocks, \<open>extensions/dynamicio/ioc_remove_mblk_list.c\<close>. When a dynamic block
  disappears, the connections upwards queue a request (\<open>ioc_add_request_to_remove_mblk\<close>, see the root);
  a pack of requests is sent as one frame, and the other end deletes the blocks and forwards the request
  further up.

  The packed integers of the frame are written and read by \<open>osal_intser_writer\<close> and
  \<open>osal_intser_reader\<close> of the operating system layer, which are parameters: \<open>put\<close> gives the bytes of a
  number, \<open>get\<close> the number at the start of some bytes and how many bytes it took.
\<close>

definition IOC_REMOVE_MBLK_REQUEST :: byte where "IOC_REMOVE_MBLK_REQUEST = 3"
definition IOC_PACK_ABS_MAX_REQUESTS :: u32 where "IOC_PACK_ABS_MAX_REQUESTS = 16"

text \<open>
  What the code relies on: a written 32 bit number is read back, whatever follows it, and takes at most six
  bytes (a pack of twelve has to fit a serial frame).
\<close>

definition intser_contract :: "(int \<Rightarrow> byte list) \<Rightarrow> (byte list \<Rightarrow> int \<times> nat) \<Rightarrow> bool" where
  "intser_contract put get \<longleftrightarrow> (\<forall>v rest. - (2 ^ 31) \<le> v \<longrightarrow> v < 2 ^ 31 \<longrightarrow> get (put v @ rest) = (v, length (put v)) \<and> length (put v) \<le> 6)"

section \<open>Sending\<close>

definition ioc_remove_mblk_req_processed :: "iocConnection \<Rightarrow> iocConnection" where
  "ioc_remove_mblk_req_processed con = con\<lparr>con_remove_mblk_req := tl (con_remove_mblk_req con)\<rparr>"

definition remove_request_content :: "(int \<Rightarrow> byte list) \<Rightarrow> u32 list \<Rightarrow> byte list" where
  "remove_request_content put ids = IOC_REMOVE_MBLK_REQUEST # concat (map (\<lambda>i. put (sint i)) ids)"

definition ioc_make_remove_mblk_req_frame ::
  "(int \<Rightarrow> byte list) \<Rightarrow> (byte list \<Rightarrow> u16) \<Rightarrow> iocConnection \<Rightarrow> (osalStatus \<times> iocConnection) option" where
  "ioc_make_remove_mblk_req_frame put checksum con =
    (case con_remove_mblk_req con of [] \<Rightarrow> Some (OSAL_COMPLETED, con)
     | r # _ \<Rightarrow> do {
         (st, con1) \<leftarrow> make_system_frame checksum con (of_nat (length r)) (remove_request_content put r);
         Some (if st \<noteq> OSAL_SUCCESS then (OSAL_PENDING, con1) else (OSAL_SUCCESS, ioc_remove_mblk_req_processed con1)) })"

section \<open>Receiving\<close>

definition ioc_remove_mblk_by_request :: "bool \<Rightarrow> nat \<Rightarrow> nat \<Rightarrow> iocRoot \<Rightarrow> (iocRoot \<times> ioc_event list) option" where
  "ioc_remove_mblk_by_request got c b root = do {
     con \<leftarrow> rt_con root c;
     mblk \<leftarrow> rt_mblk root b;
     if \<not> ioc_is_network_authorized (rt_authorization root) con (mb_network_name mblk) 0 then Some (root, [])
     else do {
       root1 \<leftarrow> ioc_generate_del_mblk_request got b None (set_mblk b (mblk\<lparr>mb_to_be_deleted := True\<rparr>) root);
       ioc_release_memory_block b root1 } }"

text \<open>The block with the identifier among those a connection has buffers for, target buffers first.\<close>

definition has_id :: "iocRoot \<Rightarrow> int \<Rightarrow> nat \<Rightarrow> bool" where
  "has_id root i b = (case rt_mblk root b of None \<Rightarrow> False | Some mblk \<Rightarrow> i = uint (mb_mblk_id mblk))"

definition find_bound_mblk :: "iocRoot \<Rightarrow> iocConnection \<Rightarrow> int \<Rightarrow> nat option" where
  "find_bound_mblk root con i =
    (case find (\<lambda>x. has_id root i (tb_mblk (snd x))) (con_tbufs con) of
       Some x \<Rightarrow> Some (tb_mblk (snd x))
     | None \<Rightarrow> map_option (\<lambda>x. sb_mblk (snd x)) (find (\<lambda>x. has_id root i (sb_mblk (snd x))) (con_sbufs con)))"

primrec process_requests ::
  "(byte list \<Rightarrow> int \<times> nat) \<Rightarrow> bool \<Rightarrow> nat \<Rightarrow> nat \<Rightarrow> byte list \<Rightarrow> iocRoot \<Rightarrow> (iocRoot \<times> ioc_event list) option" where
  "process_requests get got c 0 p root = Some (root, [])"
| "process_requests get got c (Suc k) p root = do {
     let (i, bytes) = get p;
     con \<leftarrow> rt_con root c;
     (root1, e1) \<leftarrow> (case find_bound_mblk root con i of None \<Rightarrow> Some (root, [])
        | Some b \<Rightarrow> ioc_remove_mblk_by_request got c b root);
     (root2, e2) \<leftarrow> process_requests get got c k (drop bytes p) root1;
     Some (root2, e1 @ e2) }"

definition ioc_process_remove_mblk_req_frame ::
  "(byte list \<Rightarrow> int \<times> nat) \<Rightarrow> bool \<Rightarrow> nat \<Rightarrow> u32 \<Rightarrow> byte list \<Rightarrow> iocRoot \<Rightarrow> (osalStatus \<times> iocRoot \<times> ioc_event list) option" where
  "ioc_process_remove_mblk_req_frame get got c n_requests data root =
    (if n_requests < 1 \<or> n_requests > IOC_PACK_ABS_MAX_REQUESTS then Some (OSAL_STATUS_FAILED, root, [])
     else do {
       (root', ev) \<leftarrow> process_requests get got c (unat n_requests) (drop 1 data) root;
       Some (OSAL_SUCCESS, root', ev) })"

section \<open>The queue\<close>

text \<open>The requests in the order they were made; no pack is empty or exceeds the limit.\<close>

definition queue_ok :: "iocConnection \<Rightarrow> bool" where
  "queue_ok con \<longleftrightarrow> (\<forall>p \<in> set (con_remove_mblk_req con). p \<noteq> [] \<and> length p \<le> IOC_PACK_N_REQUESTS)"

lemma add_request_spec:
  assumes "queue_ok con"
  shows "queue_ok (ioc_add_request_to_remove_mblk True i con) \<and>
    concat (con_remove_mblk_req (ioc_add_request_to_remove_mblk True i con)) = concat (con_remove_mblk_req con) @ [i]"
proof (cases "con_remove_mblk_req con" rule: rev_cases)
  case Nil
  then show ?thesis by (simp add: ioc_add_request_to_remove_mblk_def queue_ok_def IOC_PACK_N_REQUESTS_def)
next
  case (snoc ps p)
  then show ?thesis using assms by (auto simp: ioc_add_request_to_remove_mblk_def queue_ok_def IOC_PACK_N_REQUESTS_def Let_def)
qed

section \<open>Identity of blocks and rights of connections stay\<close>

definition block_key :: "iocMemoryBlock \<Rightarrow> u32 \<times> byte list" where
  "block_key m = (mb_mblk_id m, mb_network_name m)"

definition con_key :: "iocConnection \<Rightarrow> u16 \<times> (byte list \<times> u16) list" where
  "con_key con = (con_flags con, con_allowed_networks con)"

definition keys_kept :: "iocRoot \<Rightarrow> iocRoot \<Rightarrow> bool" where
  "keys_kept root root' \<longleftrightarrow> (\<forall>b m'. rt_mblk root' b = Some m' \<longrightarrow> (\<exists>m. rt_mblk root b = Some m \<and> block_key m' = block_key m)) \<and>
     (\<forall>c. map_option con_key (rt_con root' c) = map_option con_key (rt_con root c)) \<and> rt_authorization root' = rt_authorization root"

lemma keys_kept_refl [simp]: "keys_kept root root"
  by (simp add: keys_kept_def)

lemma keys_kept_trans: "keys_kept a b \<Longrightarrow> keys_kept b c \<Longrightarrow> keys_kept a c"
  unfolding keys_kept_def by metis

lemma set_mblk_keys: "rt_mblk root b = Some m \<Longrightarrow> block_key m' = block_key m \<Longrightarrow> keys_kept root (set_mblk b m' root)"
  by (simp add: keys_kept_def set_mblk_def)

lemma set_con_keys: "rt_con root c = Some con \<Longrightarrow> con_key con' = con_key con \<Longrightarrow> keys_kept root (set_con c con' root)"
  by (simp add: keys_kept_def set_con_def)

lemma release_sbuf_keys:
  assumes "release_sbuf c r root = Some root'"
  shows "keys_kept root root'"
proof -
  obtain con b mblk where s: "rt_con root c = Some con" "rt_mblk root b = Some mblk"
    "root' = set_con c (fst (ioc_release_source_buffer r con mblk)) (set_mblk b (snd (ioc_release_source_buffer r con mblk)) root)"
    using assms by (auto simp: release_sbuf_def split: Option.bind_splits prod.splits)
  have "keys_kept root (set_mblk b (snd (ioc_release_source_buffer r con mblk)) root)"
    by (rule set_mblk_keys [OF s(2)]) (simp add: block_key_def ioc_release_source_buffer_def Let_def)
  moreover have "keys_kept (set_mblk b (snd (ioc_release_source_buffer r con mblk)) root) root'"
    unfolding s(3) by (rule set_con_keys [where con = con]) (use s(1) in \<open>simp_all add: con_key_def ioc_release_source_buffer_def Let_def set_mblk_def\<close>)
  ultimately show ?thesis by (rule keys_kept_trans)
qed

lemma release_tbuf_keys:
  assumes "release_tbuf c r root = Some root'"
  shows "keys_kept root root'"
proof -
  obtain con b mblk where s: "rt_con root c = Some con" "rt_mblk root b = Some mblk"
    "root' = set_con c (fst (ioc_release_target_buffer r con mblk)) (set_mblk b (snd (ioc_release_target_buffer r con mblk)) root)"
    using assms by (auto simp: release_tbuf_def split: Option.bind_splits prod.splits)
  have "keys_kept root (set_mblk b (snd (ioc_release_target_buffer r con mblk)) root)"
    by (rule set_mblk_keys [OF s(2)]) (simp add: block_key_def ioc_release_target_buffer_def Let_def)
  moreover have "keys_kept (set_mblk b (snd (ioc_release_target_buffer r con mblk)) root) root'"
    unfolding s(3) by (rule set_con_keys [where con = con]) (use s(1) in \<open>simp_all add: con_key_def ioc_release_target_buffer_def Let_def set_mblk_def\<close>)
  ultimately show ?thesis by (rule keys_kept_trans)
qed

lemma release_sbufs_keys: "release_sbufs rs root = Some root' \<Longrightarrow> keys_kept root root'"
  by (induction rs arbitrary: root) (auto split: Option.bind_splits intro: keys_kept_trans release_sbuf_keys)

lemma release_tbufs_keys: "release_tbufs rs root = Some root' \<Longrightarrow> keys_kept root root'"
  by (induction rs arbitrary: root) (auto split: Option.bind_splits intro: keys_kept_trans release_tbuf_keys)

lemma mblk_is_deleted_keys: "keys_kept root (ioc_mbinfo_mblk_is_deleted b root)"
proof -
  have "map_option con_key (rt_con (ioc_mbinfo_mblk_is_deleted b root) c) = map_option con_key (rt_con root c)" for c
    by (cases "rt_con root c") (simp_all add: ioc_mbinfo_mblk_is_deleted_def Let_def con_key_def)
  then show ?thesis by (simp add: keys_kept_def ioc_mbinfo_mblk_is_deleted_def Let_def)
qed

lemma release_memory_block_keys:
  assumes "ioc_release_memory_block b root = Some (root', ev)"
  shows "keys_kept root root'"
proof -
  obtain mblk where m: "rt_mblk root b = Some mblk"
    using assms by (auto simp: ioc_release_memory_block_def split: Option.bind_splits)
  obtain r2 where r2: "release_sbufs (mb_sbufs mblk) (ioc_mbinfo_mblk_is_deleted b root) = Some r2"
    using assms m by (auto simp: ioc_release_memory_block_def Let_def split: Option.bind_splits)
  obtain r3 where r3: "release_tbufs (mb_tbufs mblk) r2 = Some r3"
    using assms m r2 by (auto simp: ioc_release_memory_block_def Let_def split: Option.bind_splits)
  have s: "root' = r3\<lparr>rt_mblk_refs := filter (\<lambda>x. x \<noteq> b) (rt_mblk_refs r3), rt_mblk := (rt_mblk r3)(b := None)\<rparr>"
    using assms m r2 r3 by (simp add: ioc_release_memory_block_def)
  have "keys_kept r3 root'" by (simp add: s keys_kept_def)
  then show ?thesis using mblk_is_deleted_keys release_sbufs_keys [OF r2] release_tbufs_keys [OF r3] keys_kept_trans by metis
qed

lemma request_removal_keys: "request_removal got deleting c f root = Some root' \<Longrightarrow> keys_kept root root'"
  by (auto simp: request_removal_def ioc_add_request_to_remove_mblk_def Let_def con_key_def intro!: set_con_keys split: Option.bind_splits if_splits)

lemma request_sbufs_keys: "request_sbufs got deleting rs root = Some root' \<Longrightarrow> keys_kept root root'"
  by (induction rs arbitrary: root) (auto split: Option.bind_splits intro: keys_kept_trans request_removal_keys)

lemma request_tbufs_keys: "request_tbufs got deleting rs root = Some root' \<Longrightarrow> keys_kept root root'"
  by (induction rs arbitrary: root) (auto split: Option.bind_splits intro: keys_kept_trans request_removal_keys)

lemma generate_del_keys:
  assumes "ioc_generate_del_mblk_request got b deleting root = Some root'"
  shows "keys_kept root root'"
proof -
  obtain mblk where m: "rt_mblk root b = Some mblk"
    using assms by (auto simp: ioc_generate_del_mblk_request_def split: Option.bind_splits)
  let ?r = "set_mblk b (mblk\<lparr>mb_to_be_deleted := False\<rparr>) root"
  have k: "keys_kept root ?r" by (rule set_mblk_keys [OF m]) (simp add: block_key_def)
  show ?thesis
  proof (cases "mb_to_be_deleted mblk")
    case True
    then obtain r1 where "request_sbufs got deleting (mb_sbufs mblk) ?r = Some r1" "request_tbufs got deleting (mb_tbufs mblk) r1 = Some root'"
      using assms m by (auto simp: ioc_generate_del_mblk_request_def split: Option.bind_splits)
    then show ?thesis using k request_sbufs_keys request_tbufs_keys keys_kept_trans by metis
  next
    case False
    then show ?thesis using assms m by (simp add: ioc_generate_del_mblk_request_def)
  qed
qed

section \<open>Carrying out requests\<close>

definition bound_to :: "iocRoot \<Rightarrow> nat \<Rightarrow> nat \<Rightarrow> bool" where
  "bound_to root c b \<longleftrightarrow> (\<exists>r. (r, c, b) \<in> sb_links root \<or> (r, c, b) \<in> tb_links root)"

lemma find_SomeD: "find P xs = Some x \<Longrightarrow> x \<in> set xs \<and> P x"
  by (induction xs) (auto split: if_splits)

lemma bound_to_iff:
  "rt_con root c = Some con \<Longrightarrow> bound_to root c b \<longleftrightarrow>
     (\<exists>x \<in> set (con_tbufs con). tb_mblk (snd x) = b) \<or> (\<exists>x \<in> set (con_sbufs con). sb_mblk (snd x) = b)"
  by (auto simp: bound_to_def sb_links_def tb_links_def Bex_def)

lemma find_bound_some:
  assumes "rt_con root c = Some con" and "find_bound_mblk root con i = Some b"
  shows "bound_to root c b \<and> has_id root i b"
  using assms(2) unfolding bound_to_iff [OF assms(1)] find_bound_mblk_def
  by (auto split: option.splits dest!: find_SomeD; force)

lemma find_bound_none:
  assumes "rt_con root c = Some con" and "find_bound_mblk root con i = None" and "bound_to root c b"
  shows "\<not> has_id root i b"
  using assms(2,3) unfolding bound_to_iff [OF assms(1)] find_bound_mblk_def
  by (auto simp: find_None_iff split: option.splits)

lemma remove_by_request_ok:
  assumes ok: "links_ok root" and c: "rt_con root c = Some con" and b: "rt_mblk root b = Some mblk"
  shows "\<exists>root' ev. ioc_remove_mblk_by_request got c b root = Some (root', ev) \<and> links_ok root' \<and> keys_kept root root' \<and>
    sb_links root' \<subseteq> sb_links root \<and> tb_links root' \<subseteq> tb_links root \<and> rt_con_refs root' = rt_con_refs root \<and>
    rt_mblk_refs root' = (if ioc_is_network_authorized (rt_authorization root) con (mb_network_name mblk) 0
      then filter (\<lambda>x. x \<noteq> b) (rt_mblk_refs root) else rt_mblk_refs root)"
proof (cases "ioc_is_network_authorized (rt_authorization root) con (mb_network_name mblk) 0")
  case False
  then show ?thesis using ok c b by (simp add: ioc_remove_mblk_by_request_def)
next
  case True
  let ?r = "set_mblk b (mblk\<lparr>mb_to_be_deleted := True\<rparr>) root"
  have s0: "same_binding root ?r" by (rule set_mblk_same [OF ok b]) simp_all
  have k0: "keys_kept root ?r" by (rule set_mblk_keys [OF b]) (simp add: block_key_def)
  have "b \<in> set (rt_mblk_refs ?r)" using ok b unfolding links_ok_def by (simp add: set_mblk_def) (metis domI)
  then obtain r1 where r1: "ioc_generate_del_mblk_request got b None ?r = Some r1" "same_binding ?r r1"
    using generate_del_ok s0 same_binding_links by metis
  note s1 = same_binding_trans [OF s0 r1(2)]
  have "b \<in> set (rt_mblk_refs r1)" using ok b s1 unfolding links_ok_def same_binding_def by (metis domI)
  then obtain m1 where m1: "rt_mblk r1 b = Some m1" using links_mblk same_binding_links [OF s1] by blast
  obtain r2 ev where r2: "ioc_release_memory_block b r1 = Some (r2, ev)" "links_ok r2" "sb_links r2 \<subseteq> sb_links r1" "tb_links r2 \<subseteq> tb_links r1"
    "rt_con_refs r2 = rt_con_refs r1" "rt_mblk_refs r2 = filter (\<lambda>x. x \<noteq> b) (rt_mblk_refs r1)"
    using release_memory_block_ok [OF _ m1] same_binding_links [OF s1] by blast
  have "keys_kept root r2" using k0 generate_del_keys [OF r1(1)] release_memory_block_keys [OF r2(1)] keys_kept_trans by metis
  moreover have "ioc_remove_mblk_by_request got c b root = Some (r2, ev)"
    using True c b r1(1) r2(1) by (simp add: ioc_remove_mblk_by_request_def)
  ultimately show ?thesis using r2 s1 True by (simp add: same_binding_def)
qed

definition unique_ids :: "iocRoot \<Rightarrow> bool" where
  "unique_ids root \<longleftrightarrow> (\<forall>b b' m m'. rt_mblk root b = Some m \<longrightarrow> rt_mblk root b' = Some m' \<longrightarrow> mb_mblk_id m = mb_mblk_id m' \<longrightarrow> b = b')"

definition may_remove :: "iocRoot \<Rightarrow> nat \<Rightarrow> nat \<Rightarrow> bool" where
  "may_remove root c b \<longleftrightarrow> (\<forall>con mblk. rt_con root c = Some con \<longrightarrow> rt_mblk root b = Some mblk \<longrightarrow>
     ioc_is_network_authorized (rt_authorization root) con (mb_network_name mblk) 0)"

lemma authorized_keys:
  "con_key con' = con_key con \<Longrightarrow> ioc_is_network_authorized a con' n f = ioc_is_network_authorized a con n f"
  by (simp add: ioc_is_network_authorized_def con_key_def)

lemma unique_ids_keys: "unique_ids root \<Longrightarrow> keys_kept root root' \<Longrightarrow> unique_ids root'"
  unfolding unique_ids_def keys_kept_def block_key_def by (metis prod.inject)

lemma has_id_keys: "keys_kept root root' \<Longrightarrow> has_id root' i b \<Longrightarrow> has_id root i b"
  unfolding keys_kept_def block_key_def has_id_def by (fastforce split: option.splits)

lemma may_remove_keys:
  assumes "keys_kept root root'" and "may_remove root c b"
  shows "may_remove root' c b"
  unfolding may_remove_def
proof (intro allI impI)
  fix con' m' assume a: "rt_con root' c = Some con'" "rt_mblk root' b = Some m'"
  obtain m where m: "rt_mblk root b = Some m" "mb_network_name m' = mb_network_name m"
    using assms(1) a(2) unfolding keys_kept_def block_key_def by (metis prod.inject)
  have "map_option con_key (rt_con root c) = Some (con_key con')" using assms(1) a(1) unfolding keys_kept_def by (metis option.simps(9))
  then obtain con where con: "rt_con root c = Some con" "con_key con' = con_key con" by auto
  show "ioc_is_network_authorized (rt_authorization root') con' (mb_network_name m') 0"
    using assms(2) m con authorized_keys [OF con(2)] assms(1) unfolding may_remove_def keys_kept_def by simp
qed

lemma has_id_unique:
  assumes "unique_ids root" and "has_id root i b" "has_id root i b'"
  shows "b = b'"
proof -
  obtain m m' where m: "rt_mblk root b = Some m" "i = uint (mb_mblk_id m)" "rt_mblk root b' = Some m'" "i = uint (mb_mblk_id m')"
    using assms(2,3) by (auto simp: has_id_def split: option.splits)
  have "mb_mblk_id m = mb_mblk_id m'" using m(2,4) by (simp add: word_uint_eq_iff)
  then show ?thesis using assms(1) m(1,3) unfolding unique_ids_def by blast
qed

lemma bound_to_mblk: "links_ok root \<Longrightarrow> bound_to root c b \<Longrightarrow> b \<in> set (rt_mblk_refs root)"
  using link_mblk unfolding bound_to_def links_ok_def by (metis domI)

text \<open>\<open>is\<close> are the identifiers requested so far, of blocks that may be removed.\<close>

definition carried_out :: "iocRoot \<Rightarrow> nat \<Rightarrow> int list \<Rightarrow> iocRoot \<Rightarrow> bool" where
  "carried_out root c is root' \<longleftrightarrow> links_ok root' \<and> keys_kept root root' \<and> rt_con_refs root' = rt_con_refs root \<and>
     sb_links root' \<subseteq> sb_links root \<and> tb_links root' \<subseteq> tb_links root \<and>
     (\<forall>b. b \<in> set (rt_mblk_refs root) - set (rt_mblk_refs root') \<longrightarrow> bound_to root c b \<and> (\<exists>i \<in> set is. has_id root i b)) \<and>
     (\<forall>b i. i \<in> set is \<longrightarrow> has_id root i b \<longrightarrow> bound_to root c b \<longrightarrow> may_remove root c b \<longrightarrow> \<not> bound_to root' c b)"

lemma one_request:
  assumes ok: "links_ok root" and u: "unique_ids root" and c: "rt_con root c = Some con"
  shows "\<exists>root1 ev. (case find_bound_mblk root con i of None \<Rightarrow> Some (root, []) | Some b \<Rightarrow> ioc_remove_mblk_by_request got c b root) = Some (root1, ev) \<and>
    carried_out root c [i] root1"
proof (cases "find_bound_mblk root con i")
  case None
  then show ?thesis using ok find_bound_none [OF c None] by (auto simp: carried_out_def)
next
  case (Some b)
  note f = find_bound_some [OF c Some]
  obtain mblk where m: "rt_mblk root b = Some mblk" using f by (auto simp: has_id_def split: option.splits)
  obtain root1 ev where r: "ioc_remove_mblk_by_request got c b root = Some (root1, ev)" "links_ok root1" "keys_kept root root1"
    "sb_links root1 \<subseteq> sb_links root" "tb_links root1 \<subseteq> tb_links root" "rt_con_refs root1 = rt_con_refs root"
    "rt_mblk_refs root1 = (if ioc_is_network_authorized (rt_authorization root) con (mb_network_name mblk) 0
      then filter (\<lambda>x. x \<noteq> b) (rt_mblk_refs root) else rt_mblk_refs root)"
    using remove_by_request_ok [OF ok c m] by blast
  have "\<not> bound_to root1 c b'" if "has_id root i b'" "may_remove root c b'" for b'
  proof -
    have "b' = b" using has_id_unique [OF u] that(1) f by blast
    then have "b' \<notin> set (rt_mblk_refs root1)" using that(2) c m r(7) by (auto simp: may_remove_def)
    then show ?thesis using bound_to_mblk [OF r(2)] by blast
  qed
  then have "carried_out root c [i] root1" using r f by (auto simp: carried_out_def split: if_splits)
  then show ?thesis using Some r(1) by auto
qed

lemma carried_out_append:
  assumes a: "carried_out root c is root1" and b: "carried_out root1 c js root2"
  shows "carried_out root c (is @ js) root2"
proof -
  have bound: "bound_to root2 c b \<Longrightarrow> bound_to root1 c b" "bound_to root1 c b \<Longrightarrow> bound_to root c b" for b
    using a b unfolding carried_out_def bound_to_def by blast+
  have k: "keys_kept root root1" using a by (simp add: carried_out_def)
  have "bound_to root c x \<and> (\<exists>i \<in> set (is @ js). has_id root i x)" if x: "x \<in> set (rt_mblk_refs root) - set (rt_mblk_refs root2)" for x
  proof (cases "x \<in> set (rt_mblk_refs root1)")
    case True
    then have "bound_to root1 c x \<and> (\<exists>i \<in> set js. has_id root1 i x)" using b x by (auto simp: carried_out_def)
    then show ?thesis using bound has_id_keys [OF k] by fastforce
  next
    case False
    then show ?thesis using a x by (auto simp: carried_out_def)
  qed
  moreover have "\<not> bound_to root2 c x" if x: "i \<in> set (is @ js)" "has_id root i x" "bound_to root c x" "may_remove root c x" for i x
  proof (cases "bound_to root1 c x")
    case True
    then have i: "i \<in> set js" using a x by (auto simp: carried_out_def)
    have "x \<in> set (rt_mblk_refs root1)" using bound_to_mblk [OF _ True] a by (simp add: carried_out_def)
    then obtain m1 where m1: "rt_mblk root1 x = Some m1" using links_mblk a unfolding carried_out_def by blast
    then obtain m where "rt_mblk root x = Some m" "mb_mblk_id m1 = mb_mblk_id m" using k unfolding keys_kept_def block_key_def by (metis prod.inject)
    then have "has_id root1 i x" using x(2) m1 by (simp add: has_id_def)
    then show ?thesis using b i True may_remove_keys [OF k x(4)] by (auto simp: carried_out_def)
  next
    case False
    then show ?thesis using bound by blast
  qed
  moreover have "links_ok root2" "rt_con_refs root2 = rt_con_refs root" "sb_links root2 \<subseteq> sb_links root" "tb_links root2 \<subseteq> tb_links root"
    using a b by (auto simp: carried_out_def)
  moreover have "keys_kept root root2" using k b keys_kept_trans unfolding carried_out_def by blast
  ultimately show ?thesis unfolding carried_out_def by blast
qed

lemma process_requests_ok:
  assumes ct: "intser_contract put get"
  shows "links_ok root \<Longrightarrow> unique_ids root \<Longrightarrow> c \<in> set (rt_con_refs root) \<Longrightarrow>
    \<exists>root' ev. process_requests get got c (length ids) (concat (map (\<lambda>i. put (sint i)) (ids :: u32 list))) root = Some (root', ev) \<and>
      carried_out root c (map sint ids) root'"
proof (induction ids arbitrary: root)
  case Nil
  then show ?case by (simp add: carried_out_def)
next
  case (Cons i ids)
  obtain con where con: "rt_con root c = Some con" using links_con_some [OF Cons(2,4)] by blast
  have v: "- (2 ^ 31) \<le> sint (i :: u32)" "sint i < 2 ^ 31" using sint_greater_eq [of i] sint_less [of i] by simp_all
  define rest where "rest = concat (map (\<lambda>i. put (sint i)) ids)"
  have g: "get (put (sint i) @ rest) = (sint i, length (put (sint i)))" using ct v unfolding intser_contract_def by blast
  obtain root1 e1 where r1: "(case find_bound_mblk root con (sint i) of None \<Rightarrow> Some (root, [])
      | Some b \<Rightarrow> ioc_remove_mblk_by_request got c b root) = Some (root1, e1)" "carried_out root c [sint i] root1"
    using one_request [OF Cons(2,3) con] by blast
  have o1: "links_ok root1" "unique_ids root1" "c \<in> set (rt_con_refs root1)"
    using r1(2) unique_ids_keys [OF Cons(3)] Cons(4) by (auto simp: carried_out_def)
  obtain root2 e2 where r2: "process_requests get got c (length ids) rest root1 = Some (root2, e2)" "carried_out root1 c (map sint ids) root2"
    using Cons(1) [OF o1] unfolding rest_def by blast
  have "process_requests get got c (length (i # ids)) (put (sint i) @ rest) root = Some (root2, e1 @ e2)"
    using con r1(1) r2(1) by (simp add: g)
  moreover have "carried_out root c (map sint (i # ids)) root2" using carried_out_append [OF r1(2) r2(2)] by simp
  ultimately show ?case unfolding rest_def by auto
qed

lemma remove_content_length:
  assumes "intser_contract put get" and "length ids \<le> IOC_PACK_N_REQUESTS"
  shows "length (remove_request_content put ids) \<le> 73"
proof -
  have "length (put (sint i)) \<le> 6" for i :: u32
    using assms(1) sint_greater_eq [of i] sint_less [of i] unfolding intser_contract_def by simp
  then have l: "length (concat (map (\<lambda>i. put (sint i)) ids)) \<le> 6 * length ids" for ids :: "u32 list"
    by (induction ids) (simp_all add: add_mono)
  show ?thesis using l [of ids] assms(2) by (simp add: remove_request_content_def IOC_PACK_N_REQUESTS_def)
qed

section \<open>Property\<close>

text \<open>
  \<^bold>\<open>C34\<close> A removal request does what it says, all the way: once the sender has put its first pack of
  requests in the frame buffer, the pack is off its queue and the frame holds it; when the other end
  processes the content, this succeeds, blocks and connections stay in agreement, no block disappears but
  those bound to this connection whose identifier was requested, and of the requested ones, if the
  connection is authorized for the network, none stays bound to it.
\<close>

theorem remove_requests_carried_out:
  assumes "intser_contract put get" and "queue_ok con0" and "con_remove_mblk_req con0 = ids # waiting" and "87 \<le> length (fo_buf con0)"
    and "ioc_make_remove_mblk_req_frame put checksum con0 = Some (OSAL_SUCCESS, con0')"
    and "links_ok root" and "unique_ids root" and "rt_con root c = Some con"
  shows "con_remove_mblk_req con0' = waiting \<and> (\<exists>content root' ev.
    take (nat (fo_used con0')) (fo_buf con0') = data_frame checksum con0 IOC_SYSTEM_FRAME (of_nat (length ids)) 0 content \<and>
    ioc_process_remove_mblk_req_frame get got c (of_nat (length ids)) content root = Some (OSAL_SUCCESS, root', ev) \<and>
    carried_out root c (map sint ids) root')"
proof -
  let ?c = "remove_request_content put ids"
  have q: "1 \<le> length ids" "length ids \<le> 12" "length ids \<le> IOC_PACK_N_REQUESTS"
    using assms(2,3) by (auto simp: queue_ok_def IOC_PACK_N_REQUESTS_def Suc_le_eq)
  have "14 + length ?c \<le> length (fo_buf con0)" using remove_content_length [OF assms(1) q(3)] assms(4) by simp
  then obtain st con1 where s: "make_system_frame checksum con0 (of_nat (length ids)) ?c = Some (st, con1)"
    "system_frame_made checksum con0 (of_nat (length ids)) ?c st con1" using make_system_frame_spec by blast
  have e: "st = OSAL_SUCCESS" "con0' = ioc_remove_mblk_req_processed con1"
    using assms(3,5) s(1) by (auto simp: ioc_make_remove_mblk_req_frame_def split: if_splits)
  have "con_remove_mblk_req con1 = ids # waiting" using s(2) assms(3) unfolding system_frame_made_def by auto
  then have m: "con_remove_mblk_req con0' = waiting" using e by (simp add: ioc_remove_mblk_req_processed_def)
  have t: "take (nat (fo_used con0')) (fo_buf con0') = data_frame checksum con0 IOC_SYSTEM_FRAME (of_nat (length ids)) 0 ?c"
    using s(2) e by (simp add: system_frame_made_def ioc_remove_mblk_req_processed_def)
  obtain root' ev where p: "process_requests get got c (length ids) (concat (map (\<lambda>i. put (sint i)) ids)) root = Some (root', ev)"
    "carried_out root c (map sint ids) root'"
    using process_requests_ok [OF assms(1,6,7) links_con_refs [OF assms(6,8)]] by blast
  have u: "unat (of_nat (length ids) :: u32) = length ids" using q by (simp add: unat_of_nat)
  then have n: "\<not> (of_nat (length ids) :: u32) < 1" "\<not> (of_nat (length ids) :: u32) > 16"
    using q by (auto simp: word_less_nat_alt)
  have "ioc_process_remove_mblk_req_frame get got c (of_nat (length ids)) ?c root = Some (OSAL_SUCCESS, root', ev)"
    using p(1) n by (simp add: ioc_process_remove_mblk_req_frame_def IOC_PACK_ABS_MAX_REQUESTS_def u remove_request_content_def)
  then show ?thesis using m t p(2) by blast
qed

text \<open>Numbers as four bytes, an instance of the contract.\<close>

definition put4 :: "int \<Rightarrow> byte list" where
  "put4 v = map (\<lambda>k. ucast (drop_bit (8 * k) (word_of_int v :: u32))) [0, 1, 2, 3]"

definition get4 :: "byte list \<Rightarrow> int \<times> nat" where
  "get4 bs = (sint (ucast (bs ! 0) OR push_bit 8 (ucast (bs ! 1)) OR push_bit 16 (ucast (bs ! 2)) OR push_bit 24 (ucast (bs ! 3)) :: u32), 4)"

lemma bytes_of_u32:
  "(ucast (ucast (w :: u32) :: byte) OR push_bit 8 (ucast (ucast (drop_bit 8 w) :: byte)) OR
    push_bit 16 (ucast (ucast (drop_bit 16 w) :: byte)) OR push_bit 24 (ucast (ucast (drop_bit 24 w) :: byte)) :: u32) = w"
proof (rule bit_word_eqI)
  fix n assume "n < LENGTH(32)"
  then have "n < 8 \<or> 8 \<le> n \<and> n < 16 \<or> 16 \<le> n \<and> n < 24 \<or> 24 \<le> n \<and> n < 32" by auto
  then show "bit (ucast (ucast w :: byte) OR push_bit 8 (ucast (ucast (drop_bit 8 w) :: byte)) OR
    push_bit 16 (ucast (ucast (drop_bit 16 w) :: byte)) OR push_bit 24 (ucast (ucast (drop_bit 24 w) :: byte)) :: u32) n = bit w n"
    by (auto simp: bit_or_iff bit_push_bit_iff bit_ucast_iff bit_drop_bit_eq)
qed

lemma put4_contract: "intser_contract put4 get4"
proof -
  have "get4 (put4 v @ rest) = (v, length (put4 v))" if "- (2 ^ 31) \<le> v" "v < 2 ^ 31" for v rest
  proof -
    have "sint (word_of_int v :: u32) = v" using that by (simp add: sint_sbintrunc' signed_take_bit_int_eq_self)
    then show ?thesis using bytes_of_u32 [of "word_of_int v"] by (simp add: get4_def put4_def)
  qed
  then show ?thesis by (simp add: intser_contract_def put4_def)
qed

theorem remove_requests_carried_out_witness:
  "\<exists>(con0' :: iocConnection) content root' ev. con_remove_mblk_req con0' = [[9]] \<and>
    take (nat (fo_used con0')) (fo_buf con0') = data_frame (\<lambda>_. 0) ((con_sample 1)\<lparr>con_remove_mblk_req := [[8], [9]]\<rparr>) IOC_SYSTEM_FRAME 1 0 content \<and>
    ioc_process_remove_mblk_req_frame get4 True 5 1 content (root_sample 1) = Some (OSAL_SUCCESS, root', ev) \<and>
    carried_out (root_sample 1) 5 [8] root'"
proof -
  let ?con = "(con_sample 1)\<lparr>con_remove_mblk_req := [[8], [9]]\<rparr>"
  have len: "14 + length (remove_request_content put4 [8]) \<le> length (fo_buf ?con)" by (simp add: remove_request_content_def put4_def con_sample_simps)
  obtain st con1 where s: "make_system_frame (\<lambda>_. 0) ?con 1 (remove_request_content put4 [8]) = Some (st, con1)"
    "system_frame_made (\<lambda>_. 0) ?con 1 (remove_request_content put4 [8]) st con1" using make_system_frame_spec [OF len] by blast
  have "st = OSAL_SUCCESS" using s(2) by (auto simp: system_frame_made_def remove_request_content_def put4_def con_sample_simps split: if_splits)
  then have m: "ioc_make_remove_mblk_req_frame put4 (\<lambda>_. 0) ?con = Some (OSAL_SUCCESS, ioc_remove_mblk_req_processed con1)"
    using s(1) by (simp add: ioc_make_remove_mblk_req_frame_def)
  have q: "queue_ok ?con" "87 \<le> length (fo_buf ?con)" by (simp_all add: queue_ok_def IOC_PACK_N_REQUESTS_def con_sample_simps)
  have u: "unique_ids (root_sample 1)"
    by (auto simp: unique_ids_def root_sample_def root_start_def set_con_def set_mblk_def mblk_sample_def split: if_splits)
  obtain con where con: "rt_con (root_sample 1) 5 = Some con" using root_sample_simps(3) by blast
  have "con_remove_mblk_req ?con = [8] # [[9]]" by simp
  from remove_requests_carried_out [OF put4_contract q(1) this q(2) m root_sample_ok u con, of True] show ?thesis
    by simp (rule exI, assumption)
qed

end
