(* ===== verification/Ioc_Authentication.thy ===== *)
theory Ioc_Authentication
  imports Ioc_Root_Inv
begin

text \<open>
  Authentication messages, \<open>code/ioc_authentication.c\<close>: each end of a connection tells who it is before
  anything else is sent, the listening end checks it and learns which networks the other end may use, and
  both learn direction, abilities and frame size of the other.

  The build has \<open>IOC_FULL_AUTHENTICATION\<close>, secrets, bidirectional blocks and automatic device numbers.
  From outside come, as parameters: the unique identifier of the device \<open>uid\<close>, whether the device has no
  certificate chain \<open>no_chain\<close>, the size of password buffers \<open>pw_sz\<close>, \<open>osal_hash_password\<close> as
  \<open>hash\<close>, \<open>osal_int_to_str\<close> as \<open>int_str\<close>, and the authorization function of the root, which
  for a user gives a status and the allowed networks.
\<close>

section \<open>Constants\<close>

definition IOC_AUTHENTICATION_DATA :: byte where "IOC_AUTHENTICATION_DATA = 2"
definition IOC_AUTH_UNIQUE_ID :: byte where "IOC_AUTH_UNIQUE_ID = 2"
definition IOC_AUTH_CERTIFICATE_REQUEST :: byte where "IOC_AUTH_CERTIFICATE_REQUEST = 4"
definition IOC_AUTH_CLOUD_CON :: byte where "IOC_AUTH_CLOUD_CON = 8"
definition IOC_AUTH_CONNECT_UP :: byte where "IOC_AUTH_CONNECT_UP = 16"
definition IOC_AUTH_DEVICE_NR_2_BYTES :: byte where "IOC_AUTH_DEVICE_NR_2_BYTES = 32"
definition IOC_AUTH_DEVICE_NR_4_BYTES :: byte where "IOC_AUTH_DEVICE_NR_4_BYTES = 64"
definition IOC_AUTH_BIDIRECTIONAL_COM :: byte where "IOC_AUTH_BIDIRECTIONAL_COM = 128"
definition IOC_NO_CERT_CHAIN :: u16 where "IOC_NO_CERT_CHAIN = 1024"
definition IOC_DEVICE_ID_SZ :: nat where "IOC_DEVICE_ID_SZ = IOC_NAME_SZ + 10"
definition IOC_MIN_FRAME_SZ :: u32 where "IOC_MIN_FRAME_SZ = 96"
definition IOC_MAX_FRAME_SZ :: u32 where "IOC_MAX_FRAME_SZ = 0x4000"

lemmas auth_flag_defs = IOC_AUTH_UNIQUE_ID_def IOC_AUTH_CERTIFICATE_REQUEST_def IOC_AUTH_CLOUD_CON_def
  IOC_AUTH_CONNECT_UP_def IOC_AUTH_DEVICE_NR_2_BYTES_def IOC_AUTH_DEVICE_NR_4_BYTES_def IOC_AUTH_BIDIRECTIONAL_COM_def

record iocUser =
  us_user_name :: "byte list"
  us_network_name :: "byte list"
  us_password :: "byte list"
  us_flags :: u16

section \<open>Making the message\<close>

text \<open>
  User name, device number and network name that are sent: those of the root, or what the user override
  \<open>user.network\<close> of the connection says (46 is the dot).
\<close>

definition auth_names :: "iocRoot \<Rightarrow> iocConnection \<Rightarrow> byte list \<times> u32 \<times> byte list" where
  "auth_names root con =
    (if con_user_override con = [] then (rt_device_name root, rt_device_nr root, rt_network_name root)
     else (takeWhile (\<lambda>b. b \<noteq> 46) (os_strncpy (IOC_NAME_SZ + IOC_NETWORK_NAME_SZ) (con_user_override con)), 0,
       case dropWhile (\<lambda>b. b \<noteq> 46) (con_user_override con) of [] \<Rightarrow> rt_network_name root | _ # network \<Rightarrow> network))"

definition auth_device_nr :: "u32 \<Rightarrow> u32" where
  "auth_device_nr nr = (if sint nr < uint IOC_AUTO_DEVICE_NR then nr else 0)"

text \<open>Client end of a secure connection?\<close>

definition sends_password :: "iocConnection \<Rightarrow> bool" where
  "sends_password con \<longleftrightarrow> con_flags con AND (IOC_LISTENER OR IOC_SECURE_CONNECTION) = IOC_SECURE_CONNECTION"

definition sends_unique_id :: "iocConnection \<Rightarrow> u32 \<Rightarrow> bool" where
  "sends_unique_id con nr \<longleftrightarrow> nr = 0 \<and> con_flags con AND (IOC_SOCKET OR IOC_CONNECT_UP) = IOC_SOCKET OR IOC_CONNECT_UP"

definition auth_content :: "byte list \<Rightarrow> bool \<Rightarrow> iocRoot \<Rightarrow> iocConnection \<Rightarrow> byte list" where
  "auth_content uid no_chain root con =
    (let (user_name, device_nr, network_name) = auth_names root con;
         nr = auth_device_nr device_nr;
         (d, d2, d4) = ioc_msg_set_uint nr IOC_AUTH_DEVICE_NR_2_BYTES IOC_AUTH_DEVICE_NR_4_BYTES;
         (u, ufl) = (if sends_unique_id con nr then (uid, IOC_AUTH_UNIQUE_ID) else ([], 0));
         (password, pfl) = (if sends_password con
            then (if con_password_override con \<noteq> [] then con_password_override con else rt_password root,
                  if no_chain then IOC_AUTH_CERTIFICATE_REQUEST else 0)
            else ([], 0));
         auth_flags = d2 OR d4 OR ufl OR pfl OR
           (if has_flag (con_flags con) IOC_CONNECT_UP then IOC_AUTH_CONNECT_UP else 0) OR
           (if has_flag (con_flags con) IOC_BIDIRECTIONAL_MBLKS then IOC_AUTH_BIDIRECTIONAL_COM else 0) OR
           (if has_flag (con_flags con) IOC_CLOUD_CONNECTION then IOC_AUTH_CLOUD_CON else 0)
     in IOC_AUTHENTICATION_DATA # auth_flags # ioc_msg_setstr user_name @ d @ u @ ioc_msg_setstr network_name @ ioc_msg_setstr password)"

definition ioc_make_authentication_message ::
  "byte list \<Rightarrow> bool \<Rightarrow> (byte list \<Rightarrow> u16) \<Rightarrow> iocRoot \<Rightarrow> iocConnection \<Rightarrow> iocConnection option" where
  "ioc_make_authentication_message uid no_chain checksum root con = do {
     (st, con1) \<leftarrow> make_system_frame checksum con (word_of_int (con_frame_sz con)) (auth_content uid no_chain root con);
     Some (if st \<noteq> OSAL_SUCCESS then con1 else con1\<lparr>con_authentication_sent := True\<rparr>) }"

section \<open>Processing a message\<close>

definition is_any_network :: "byte list \<Rightarrow> bool" where
  "is_any_network name \<longleftrightarrow> name = [42] \<or> name = []"

text \<open>\<open>ioc_set_network_name\<close> of \<open>code/ioc_root.c\<close>.\<close>

definition ioc_set_network_name :: "iocRoot \<Rightarrow> iocRoot" where
  "ioc_set_network_name root = root\<lparr>rt_mblk := (\<lambda>b. if b \<in> set (rt_mblk_refs root)
     then map_option (\<lambda>m. if is_any_network (mb_network_name m)
       then m\<lparr>mb_network_name := os_strncpy IOC_NETWORK_NAME_SZ (rt_network_name root)\<rparr> else m) (rt_mblk root b)
     else rt_mblk root b)\<rparr>"

text \<open>What the flags of the message change, before anything else of the message is read.\<close>

definition auth_set_flags :: "iocRoot \<Rightarrow> byte \<Rightarrow> iocConnection \<Rightarrow> iocConnection" where
  "auth_set_flags root auth_flags con =
    (let con1 = (if has_flag (con_flags con) IOC_LISTENER then
           let c1 = (if has_flag auth_flags IOC_AUTH_CONNECT_UP then con\<lparr>con_flags := con_flags con AND NOT IOC_CONNECT_UP\<rparr>
              else if \<not> has_flag (con_flags con) IOC_CONNECT_UP
              then ioc_add_con_to_global_mbinfo (case rt_mblk_refs root of [] \<Rightarrow> None | b # _ \<Rightarrow> Some b)
                     (con\<lparr>con_flags := con_flags con OR IOC_CONNECT_UP\<rparr>)
              else con)
           in if has_flag auth_flags IOC_AUTH_BIDIRECTIONAL_COM
              then c1\<lparr>con_flags := con_flags c1 OR IOC_BIDIRECTIONAL_MBLKS\<rparr>
              else c1\<lparr>con_flags := con_flags c1 AND NOT IOC_BIDIRECTIONAL_MBLKS\<rparr>
         else con);
         con2 = (if has_flag auth_flags IOC_AUTH_CLOUD_CON then con1\<lparr>con_flags := con_flags con1 OR IOC_CLOUD_CONNECTION\<rparr> else con1)
     in if has_flag auth_flags IOC_AUTH_CERTIFICATE_REQUEST then con2\<lparr>con_flags := con_flags con2 OR IOC_NO_CERT_CHAIN\<rparr> else con2)"

text \<open>User, unique identifier (zeros if not told) and the position behind, or the status of a string that does not fit.\<close>

definition auth_parse ::
  "(byte list \<Rightarrow> byte list) \<Rightarrow> (u32 \<Rightarrow> byte list) \<Rightarrow> nat \<Rightarrow> nat \<Rightarrow> byte list \<Rightarrow> byte \<Rightarrow> (osalStatus \<times> byte list \<times> iocUser) option" where
  "auth_parse hash int_str pw_sz uid_sz data auth_flags = do {
     (s1, name, p1) \<leftarrow> ioc_msg_getstr data IOC_DEVICE_ID_SZ 2;
     let user = \<lparr>us_user_name = name, us_network_name = [], us_password = [], us_flags = ucast auth_flags\<rparr>;
     if s1 \<noteq> OSAL_SUCCESS then Some (s1, [], user) else do {
     (nr, p2) \<leftarrow> ioc_msg_get_uint data p1 (has_flag auth_flags IOC_AUTH_DEVICE_NR_2_BYTES) (has_flag auth_flags IOC_AUTH_DEVICE_NR_4_BYTES);
     let user1 = (if nr \<noteq> 0 then user\<lparr>us_user_name := os_strncpy IOC_DEVICE_ID_SZ (name @ int_str nr)\<rparr> else user);
     uid \<leftarrow> (if has_flag auth_flags IOC_AUTH_UNIQUE_ID then rds data (int p2) (int uid_sz) else Some (replicate uid_sz 0));
     let p3 = (if has_flag auth_flags IOC_AUTH_UNIQUE_ID then p2 + uid_sz else p2);
     (s2, network, p4) \<leftarrow> ioc_msg_getstr data IOC_NETWORK_NAME_SZ p3;
     if s2 \<noteq> OSAL_SUCCESS then Some (s2, uid, user1) else do {
     (s3, password, p5) \<leftarrow> ioc_msg_getstr data pw_sz p4;
     if s3 \<noteq> OSAL_SUCCESS then Some (s3, uid, user1)
     else Some (OSAL_SUCCESS, uid, user1\<lparr>us_network_name := network, us_password := (if password \<noteq> [] then hash password else [])\<rparr>) }}}"

definition auth_frame_limit :: "u32 \<Rightarrow> iocConnection \<Rightarrow> iocConnection" where
  "auth_frame_limit mblk_id con =
    (if IOC_MIN_FRAME_SZ \<le> mblk_id \<and> mblk_id \<le> IOC_MAX_FRAME_SZ \<and> uint mblk_id < con_dst_frame_sz con
     then con\<lparr>con_dst_frame_sz := uint mblk_id, con_max_in_air := IOC_SOCKET_MAX_IN_AIR (uint mblk_id),
       con_max_ack_in_air := IOC_SOCKET_MAX_ACK_IN_AIR (uint mblk_id)\<rparr>
     else con)"

text \<open>Is the other end to be authorized by this end?\<close>

definition needs_authorization :: "iocRoot \<Rightarrow> iocConnection \<Rightarrow> bool" where
  "needs_authorization root con \<longleftrightarrow> rt_authorization root \<and>
     con_flags con AND (IOC_LISTENER OR IOC_SECURE_CONNECTION) = IOC_LISTENER OR IOC_SECURE_CONNECTION"

definition ioc_process_received_authentication_message ::
  "(byte list \<Rightarrow> byte list) \<Rightarrow> (u32 \<Rightarrow> byte list) \<Rightarrow> nat \<Rightarrow> nat \<Rightarrow> (iocUser \<Rightarrow> osalStatus \<times> (byte list \<times> u16) list) \<Rightarrow>
   nat \<Rightarrow> u32 \<Rightarrow> byte list \<Rightarrow> iocRoot \<Rightarrow> (osalStatus \<times> iocRoot) option" where
  "ioc_process_received_authentication_message hash int_str pw_sz uid_sz authorize c mblk_id data root = do {
     con \<leftarrow> rt_con root c;
     auth_flags \<leftarrow> rd data 1;
     let con1 = auth_set_flags root auth_flags con;
     (s, uid, user) \<leftarrow> auth_parse hash int_str pw_sz uid_sz data auth_flags;
     let con2 = (if uid = [] then con1 else con1\<lparr>con_unique_id_bin := uid\<rparr>);
     if s \<noteq> OSAL_SUCCESS then Some (s, set_con c con2 root)
     else do {
       let con3 = auth_frame_limit mblk_id con2;
       let (s', con4) = (if needs_authorization root con3
          then (fst (authorize user), con3\<lparr>con_allowed_networks := snd (authorize user)\<rparr>) else (OSAL_SUCCESS, con3));
       if s' \<noteq> OSAL_SUCCESS then Some (s', set_con c con4 root)
       else
         let root1 = (if is_any_network (rt_network_name root)
                then ioc_set_network_name (root\<lparr>rt_network_name := os_strncpy IOC_NETWORK_NAME_SZ (us_network_name user)\<rparr>) else root)
         in Some (OSAL_SUCCESS, set_con c (con4\<lparr>con_authentication_received := True\<rparr>) root1)
     } }"

section \<open>What the other end reads\<close>

definition sent_password :: "iocRoot \<Rightarrow> iocConnection \<Rightarrow> byte list" where
  "sent_password root con = (if \<not> sends_password con then []
     else if con_password_override con \<noteq> [] then con_password_override con else rt_password root)"

definition auth_flags_of :: "bool \<Rightarrow> iocRoot \<Rightarrow> iocConnection \<Rightarrow> byte" where
  "auth_flags_of no_chain root con =
    (let nr = auth_device_nr (fst (snd (auth_names root con)));
         (d, d2, d4) = ioc_msg_set_uint nr IOC_AUTH_DEVICE_NR_2_BYTES IOC_AUTH_DEVICE_NR_4_BYTES
     in d2 OR d4 OR (if sends_unique_id con nr then IOC_AUTH_UNIQUE_ID else 0) OR
        (if sends_password con \<and> no_chain then IOC_AUTH_CERTIFICATE_REQUEST else 0) OR
        (if has_flag (con_flags con) IOC_CONNECT_UP then IOC_AUTH_CONNECT_UP else 0) OR
        (if has_flag (con_flags con) IOC_BIDIRECTIONAL_MBLKS then IOC_AUTH_BIDIRECTIONAL_COM else 0) OR
        (if has_flag (con_flags con) IOC_CLOUD_CONNECTION then IOC_AUTH_CLOUD_CON else 0))"

text \<open>The user as the other end knows it.\<close>

definition auth_user :: "(byte list \<Rightarrow> byte list) \<Rightarrow> (u32 \<Rightarrow> byte list) \<Rightarrow> bool \<Rightarrow> iocRoot \<Rightarrow> iocConnection \<Rightarrow> iocUser" where
  "auth_user hash int_str no_chain root con =
    (let (name, device_nr, network) = auth_names root con; nr = auth_device_nr device_nr; pw = sent_password root con
     in \<lparr>us_user_name = (if nr \<noteq> 0 then os_strncpy IOC_DEVICE_ID_SZ (name @ int_str nr) else name), us_network_name = network,
         us_password = (if pw \<noteq> [] then hash pw else []), us_flags = ucast (auth_flags_of no_chain root con)\<rparr>)"

text \<open>The strings fit the buffers of the other end.\<close>

definition auth_fits :: "nat \<Rightarrow> iocRoot \<Rightarrow> iocConnection \<Rightarrow> bool" where
  "auth_fits pw_sz root con \<longleftrightarrow> name_ok IOC_DEVICE_ID_SZ (fst (auth_names root con)) \<and>
     name_ok IOC_NETWORK_NAME_SZ (snd (snd (auth_names root con))) \<and> name_ok pw_sz (sent_password root con) \<and> pw_sz \<le> 256"

lemma auth_flag_bits:
  fixes no_chain root con
  defines "fl \<equiv> auth_flags_of no_chain root con" and "nr \<equiv> auth_device_nr (fst (snd (auth_names root con)))"
  assumes d: "ioc_msg_set_uint nr IOC_AUTH_DEVICE_NR_2_BYTES IOC_AUTH_DEVICE_NR_4_BYTES = (d, d2, d4)"
  shows "has_flag fl IOC_AUTH_DEVICE_NR_2_BYTES = (d2 \<noteq> 0)" "has_flag fl IOC_AUTH_DEVICE_NR_4_BYTES = (d4 \<noteq> 0)"
    and "has_flag fl IOC_AUTH_UNIQUE_ID = sends_unique_id con nr"
    and "has_flag fl IOC_AUTH_CERTIFICATE_REQUEST = (sends_password con \<and> no_chain)"
    and "has_flag fl IOC_AUTH_CONNECT_UP = has_flag (con_flags con) IOC_CONNECT_UP"
    and "has_flag fl IOC_AUTH_BIDIRECTIONAL_COM = has_flag (con_flags con) IOC_BIDIRECTIONAL_MBLKS"
    and "has_flag fl IOC_AUTH_CLOUD_CON = has_flag (con_flags con) IOC_CLOUD_CONNECTION"
proof -
  note fd = set_uint_flags(1,2) [OF d]
  have fl: "fl = d2 OR d4 OR (if sends_unique_id con nr then IOC_AUTH_UNIQUE_ID else 0) OR
        (if sends_password con \<and> no_chain then IOC_AUTH_CERTIFICATE_REQUEST else 0) OR
        (if has_flag (con_flags con) IOC_CONNECT_UP then IOC_AUTH_CONNECT_UP else 0) OR
        (if has_flag (con_flags con) IOC_BIDIRECTIONAL_MBLKS then IOC_AUTH_BIDIRECTIONAL_COM else 0) OR
        (if has_flag (con_flags con) IOC_CLOUD_CONNECTION then IOC_AUTH_CLOUD_CON else 0)"
    by (simp add: fl_def auth_flags_of_def nr_def [symmetric] d Let_def)
  show "has_flag fl IOC_AUTH_DEVICE_NR_2_BYTES = (d2 \<noteq> 0)" "has_flag fl IOC_AUTH_DEVICE_NR_4_BYTES = (d4 \<noteq> 0)"
    "has_flag fl IOC_AUTH_UNIQUE_ID = sends_unique_id con nr"
    "has_flag fl IOC_AUTH_CERTIFICATE_REQUEST = (sends_password con \<and> no_chain)"
    "has_flag fl IOC_AUTH_CONNECT_UP = has_flag (con_flags con) IOC_CONNECT_UP"
    "has_flag fl IOC_AUTH_BIDIRECTIONAL_COM = has_flag (con_flags con) IOC_BIDIRECTIONAL_MBLKS"
    "has_flag fl IOC_AUTH_CLOUD_CON = has_flag (con_flags con) IOC_CLOUD_CONNECTION"
    unfolding fl has_flag_OR has_flag_if has_flag_part [OF fd(1)] has_flag_part [OF fd(2)]
    by (simp_all add: auth_flag_defs has_flag_def [where 'a = 8])
qed

lemma auth_content_parts:
  assumes n: "auth_names root con = (name, device_nr, network)" and nr: "nr = auth_device_nr device_nr"
    and d: "ioc_msg_set_uint nr IOC_AUTH_DEVICE_NR_2_BYTES IOC_AUTH_DEVICE_NR_4_BYTES = (d, d2, d4)"
  shows "auth_content uid no_chain root con = IOC_AUTHENTICATION_DATA # auth_flags_of no_chain root con # ioc_msg_setstr name @ d @
     (if sends_unique_id con nr then uid else []) @ ioc_msg_setstr network @ ioc_msg_setstr (sent_password root con)"
  using n nr d by (auto simp: auth_content_def auth_flags_of_def sent_password_def Let_def)

lemma parse_auth_content:
  assumes ok: "auth_fits pw_sz root con" and nr: "nr = auth_device_nr (fst (snd (auth_names root con)))"
  shows "rd (auth_content uid no_chain root con) 1 = Some (auth_flags_of no_chain root con)"
    and "auth_parse hash int_str pw_sz (length uid) (auth_content uid no_chain root con) (auth_flags_of no_chain root con) =
      Some (OSAL_SUCCESS, if sends_unique_id con nr then uid else replicate (length uid) 0, auth_user hash int_str no_chain root con)"
proof -
  obtain name device_nr network where n: "auth_names root con = (name, device_nr, network)" by (metis prod_cases3)
  obtain d d2 d4 where d: "ioc_msg_set_uint nr IOC_AUTH_DEVICE_NR_2_BYTES IOC_AUTH_DEVICE_NR_4_BYTES = (d, d2, d4)" by (metis prod_cases3)
  define fl where "fl = auth_flags_of no_chain root con"
  define u where "u = (if sends_unique_id con nr then uid else [])"
  define pw where "pw = sent_password root con"
  define data where "data = auth_content uid no_chain root con"
  have nr': "nr = auth_device_nr device_nr" using nr n by simp
  have data: "data = IOC_AUTHENTICATION_DATA # fl # ioc_msg_setstr name @ d @ u @ ioc_msg_setstr network @ ioc_msg_setstr pw"
    using auth_content_parts [OF n nr' d] by (simp add: data_def fl_def u_def pw_def)
  note bits = auth_flag_bits [of root con d d2 d4 no_chain, folded nr, OF d, folded fl_def]
  have nm: "name_ok IOC_DEVICE_ID_SZ name" "name_ok IOC_NETWORK_NAME_SZ network" "name_ok pw_sz pw" "pw_sz \<le> 256"
    using ok n by (simp_all add: auth_fits_def pw_def)
  have sz: "IOC_DEVICE_ID_SZ \<le> 256" "IOC_NETWORK_NAME_SZ \<le> 256" by (simp_all add: IOC_DEVICE_ID_SZ_def IOC_NAME_SZ_def IOC_NETWORK_NAME_SZ_def)
  have nz: "IOC_AUTH_DEVICE_NR_2_BYTES \<noteq> 0" "IOC_AUTH_DEVICE_NR_4_BYTES \<noteq> 0" by (simp_all add: auth_flag_defs)
  let ?p1 = "2 + length (ioc_msg_setstr name)"
  let ?p2 = "?p1 + length d"
  let ?p3 = "?p2 + length u"
  let ?p4 = "?p3 + length (ioc_msg_setstr network)"
  show "rd (auth_content uid no_chain root con) 1 = Some (auth_flags_of no_chain root con)"
    using data by (simp add: data_def fl_def rd_Cons)
  have g1: "ioc_msg_getstr data IOC_DEVICE_ID_SZ 2 = Some (OSAL_SUCCESS, name, ?p1)"
    by (rule getstr_at [OF nm(1) sz(1), where pre = "[IOC_AUTHENTICATION_DATA, fl]"]) (simp_all add: data)
  have g2: "ioc_msg_get_uint data ?p1 (d2 \<noteq> 0) (d4 \<noteq> 0) = Some (nr, ?p2)"
    by (rule get_uint_at [OF d nz, where pre = "[IOC_AUTHENTICATION_DATA, fl] @ ioc_msg_setstr name"]) (simp_all add: data)
  have g3: "(if sends_unique_id con nr then rds data (int ?p2) (int (length uid)) else Some (replicate (length uid) 0)) =
      Some (if sends_unique_id con nr then uid else replicate (length uid) 0)"
  proof (cases "sends_unique_id con nr")
    case True
    have t: "take (length uid) (drop ?p2 data) = uid" using True by (simp add: data u_def)
    have l: "?p2 + length uid \<le> length data" using True by (simp add: data u_def)
    have "rds data (int q) (int (length uid)) = Some (take (length uid) (drop q data))" if "q + length uid \<le> length data" for q
      using that by (simp add: rds_in)
    from this [OF l] have "rds data (int ?p2) (int (length uid)) = Some uid" unfolding t .
    then show ?thesis using True by (simp only: if_True)
  qed simp
  have g4: "ioc_msg_getstr data IOC_NETWORK_NAME_SZ ?p3 = Some (OSAL_SUCCESS, network, ?p4)"
    by (rule getstr_at [OF nm(2) sz(2), where pre = "[IOC_AUTHENTICATION_DATA, fl] @ ioc_msg_setstr name @ d @ u"]) (simp_all add: data)
  have g5: "ioc_msg_getstr data pw_sz ?p4 = Some (OSAL_SUCCESS, pw, ?p4 + length (ioc_msg_setstr pw))"
    by (rule getstr_at [OF nm(3,4), where pre = "[IOC_AUTHENTICATION_DATA, fl] @ ioc_msg_setstr name @ d @ u @ ioc_msg_setstr network"]) (simp_all add: data)
  have p3: "(if sends_unique_id con nr then ?p2 + length uid else ?p2) = ?p3" by (simp add: u_def)
  have user: "auth_user hash int_str no_chain root con = \<lparr>us_user_name = (if nr \<noteq> 0 then os_strncpy IOC_DEVICE_ID_SZ (name @ int_str nr) else name),
      us_network_name = network, us_password = (if pw \<noteq> [] then hash pw else []), us_flags = ucast fl\<rparr>"
    by (simp add: auth_user_def n nr' [symmetric] fl_def pw_def Let_def)
  show "auth_parse hash int_str pw_sz (length uid) (auth_content uid no_chain root con) (auth_flags_of no_chain root con) =
      Some (OSAL_SUCCESS, if sends_unique_id con nr then uid else replicate (length uid) 0, auth_user hash int_str no_chain root con)"
    unfolding data_def [symmetric] fl_def [symmetric] auth_parse_def g1 bind.bind_lunit prod.case Let_def bits(1-3) g2 g3 p3 g4 g5 user
    by simp
qed

section \<open>What the message changes\<close>

lemma add_con_flags [simp]: "con_flags (ioc_add_con_to_global_mbinfo f con) = con_flags con"
  "con_dst_frame_sz (ioc_add_con_to_global_mbinfo f con) = con_dst_frame_sz con"
  "con_authentication_received (ioc_add_con_to_global_mbinfo f con) = con_authentication_received con"
  "con_sbufs (ioc_add_con_to_global_mbinfo f con) = con_sbufs con" "con_tbufs (ioc_add_con_to_global_mbinfo f con) = con_tbufs con"
  by (simp_all add: ioc_add_con_to_global_mbinfo_def)

text \<open>The flags as bits.\<close>

lemma has_flag_exp: "has_flag (x :: u16) (2 ^ n) \<longleftrightarrow> bit x n"
  by (simp add: has_flag_def and_exp_eq_0_iff_not_bit)

lemma con_flag_bits:
  "has_flag x IOC_CONNECT_UP = bit x 7" "has_flag x IOC_BIDIRECTIONAL_MBLKS = bit x 3" "has_flag x IOC_LISTENER = bit x 5"
  "has_flag x IOC_SECURE_CONNECTION = bit x 8"
  using has_flag_exp [of x 7] has_flag_exp [of x 3] has_flag_exp [of x 5] has_flag_exp [of x 8] by (simp_all add: con_flag_defs)

lemma bit_set_exp: "k < 16 \<Longrightarrow> bit (x OR 2 ^ k) n \<longleftrightarrow> bit x n \<or> n = k" for x :: u16
  by (auto simp: bit_or_iff bit_exp_iff)

lemma bit_clear_exp: "bit (x AND NOT (2 ^ k)) n \<longleftrightarrow> bit x n \<and> n \<noteq> k" for x :: u16
  using bit_imp_le_length [of x n] by (auto simp: bit_and_iff bit_not_iff bit_exp_iff)

lemma con_flag_updates:
  "bit (x OR IOC_CONNECT_UP) n \<longleftrightarrow> bit x n \<or> n = 7" "bit (x AND NOT IOC_CONNECT_UP) n \<longleftrightarrow> bit x n \<and> n \<noteq> 7"
  "bit (x OR IOC_BIDIRECTIONAL_MBLKS) n \<longleftrightarrow> bit x n \<or> n = 3" "bit (x AND NOT IOC_BIDIRECTIONAL_MBLKS) n \<longleftrightarrow> bit x n \<and> n \<noteq> 3"
  "bit (x OR IOC_CLOUD_CONNECTION) n \<longleftrightarrow> bit x n \<or> n = 9" "bit (x OR IOC_NO_CERT_CHAIN) n \<longleftrightarrow> bit x n \<or> n = 10"
  using bit_set_exp [of 7 x n] bit_clear_exp [of x 7 n] bit_set_exp [of 3 x n] bit_clear_exp [of x 3 n] bit_set_exp [of 9 x n] bit_set_exp [of 10 x n]
  by (simp_all add: con_flag_defs IOC_NO_CERT_CHAIN_def)

lemma and_two_bits:
  fixes x y :: u16
  assumes "i < 16" "j < 16"
  shows "x AND (2 ^ i OR 2 ^ j) = y AND (2 ^ i OR 2 ^ j) \<longleftrightarrow> bit x i = bit y i \<and> bit x j = bit y j"
proof
  assume e: "x AND (2 ^ i OR 2 ^ j) = y AND (2 ^ i OR 2 ^ j)"
  have "bit (x AND (2 ^ i OR 2 ^ j)) k = bit (y AND (2 ^ i OR 2 ^ j)) k" for k using e by simp
  from this [of i] this [of j] show "bit x i = bit y i \<and> bit x j = bit y j" using assms by (simp add: bit_and_iff bit_or_iff bit_exp_iff)
next
  assume "bit x i = bit y i \<and> bit x j = bit y j"
  then show "x AND (2 ^ i OR 2 ^ j) = y AND (2 ^ i OR 2 ^ j)"
    by (intro bit_word_eqI) (auto simp: bit_and_iff bit_or_iff bit_exp_iff)
qed

lemma role_bits:
  "x AND (IOC_LISTENER OR IOC_SECURE_CONNECTION) = y AND (IOC_LISTENER OR IOC_SECURE_CONNECTION) \<longleftrightarrow> bit x 5 = bit y 5 \<and> bit x 8 = bit y 8"
  using and_two_bits [of 5 8 x y] by (simp add: con_flag_defs)

lemma con_flags_auth_set_flags:
  "con_flags (auth_set_flags root fl con) =
    (let f0 = con_flags con;
         f1 = (if has_flag f0 IOC_LISTENER then
           let g = (if has_flag fl IOC_AUTH_CONNECT_UP then f0 AND NOT IOC_CONNECT_UP
                    else if \<not> has_flag f0 IOC_CONNECT_UP then f0 OR IOC_CONNECT_UP else f0)
           in if has_flag fl IOC_AUTH_BIDIRECTIONAL_COM then g OR IOC_BIDIRECTIONAL_MBLKS else g AND NOT IOC_BIDIRECTIONAL_MBLKS
           else f0);
         f2 = (if has_flag fl IOC_AUTH_CLOUD_CON then f1 OR IOC_CLOUD_CONNECTION else f1)
     in if has_flag fl IOC_AUTH_CERTIFICATE_REQUEST then f2 OR IOC_NO_CERT_CHAIN else f2)"
  by (simp add: auth_set_flags_def Let_def)

lemma auth_set_flags_bits:
  assumes "has_flag (con_flags con) IOC_LISTENER"
  shows "has_flag (con_flags (auth_set_flags root fl con)) IOC_CONNECT_UP \<longleftrightarrow> \<not> has_flag fl IOC_AUTH_CONNECT_UP"
    and "has_flag (con_flags (auth_set_flags root fl con)) IOC_BIDIRECTIONAL_MBLKS \<longleftrightarrow> has_flag fl IOC_AUTH_BIDIRECTIONAL_COM"
  using assms by (simp_all add: con_flags_auth_set_flags Let_def con_flag_bits con_flag_updates)

lemma auth_set_flags_keeps:
  "con_flags (auth_set_flags root fl con) AND (IOC_LISTENER OR IOC_SECURE_CONNECTION) = con_flags con AND (IOC_LISTENER OR IOC_SECURE_CONNECTION)"
  unfolding role_bits by (simp add: con_flags_auth_set_flags Let_def con_flag_bits con_flag_updates)

lemma auth_frame_limit_keeps [simp]:
  "con_flags (auth_frame_limit i con) = con_flags con"
  "con_sbufs (auth_frame_limit i con) = con_sbufs con" "con_tbufs (auth_frame_limit i con) = con_tbufs con"
  "con_allowed_networks (auth_frame_limit i con) = con_allowed_networks con"
  by (simp_all add: auth_frame_limit_def)

lemma auth_set_flags_fields [simp]:
  "con_dst_frame_sz (auth_set_flags root fl con) = con_dst_frame_sz con"
  "con_sbufs (auth_set_flags root fl con) = con_sbufs con" "con_tbufs (auth_set_flags root fl con) = con_tbufs con"
  "con_authentication_received (auth_set_flags root fl con) = con_authentication_received con"
  "con_allowed_networks (auth_set_flags root fl con) = con_allowed_networks con"
  by (simp_all add: auth_set_flags_def ioc_add_con_to_global_mbinfo_def Let_def)

lemma needs_authorization_cong:
  "con_flags con' AND (IOC_LISTENER OR IOC_SECURE_CONNECTION) = con_flags con AND (IOC_LISTENER OR IOC_SECURE_CONNECTION) \<Longrightarrow>
    needs_authorization root con' = needs_authorization root con"
  by (simp add: needs_authorization_def)

lemma set_network_name_con [simp]: "rt_con (ioc_set_network_name root) = rt_con root"
  by (simp add: ioc_set_network_name_def)

text \<open>The connection after a message that is understood, before it is authorized.\<close>

definition auth_con :: "u32 \<Rightarrow> byte list \<Rightarrow> byte \<Rightarrow> iocRoot \<Rightarrow> iocConnection \<Rightarrow> iocConnection" where
  "auth_con mblk_id uid fl root con =
    (let con1 = auth_set_flags root fl con in auth_frame_limit mblk_id (if uid = [] then con1 else con1\<lparr>con_unique_id_bin := uid\<rparr>))"

lemma auth_con_role: "needs_authorization root (auth_con i uid fl root con) = needs_authorization root con"
  by (rule needs_authorization_cong) (simp add: auth_con_def Let_def auth_set_flags_keeps)

lemma process_auth_message:
  assumes con: "rt_con root c = Some con" and fits: "auth_fits pw_sz root0 con0"
  shows "\<exists>uid'. ioc_process_received_authentication_message hash int_str pw_sz (length uid) authorize c mblk_id (auth_content uid no_chain root0 con0) root =
    (let fl = auth_flags_of no_chain root0 con0; user = auth_user hash int_str no_chain root0 con0;
         con3 = auth_con mblk_id uid' fl root con;
         (s', con4) = (if needs_authorization root con then (fst (authorize user), con3\<lparr>con_allowed_networks := snd (authorize user)\<rparr>) else (OSAL_SUCCESS, con3))
     in if s' \<noteq> OSAL_SUCCESS then Some (s', set_con c con4 root)
        else Some (OSAL_SUCCESS, set_con c (con4\<lparr>con_authentication_received := True\<rparr>)
          (if is_any_network (rt_network_name root)
           then ioc_set_network_name (root\<lparr>rt_network_name := os_strncpy IOC_NETWORK_NAME_SZ (us_network_name user)\<rparr>) else root)))"
proof -
  let ?nr = "auth_device_nr (fst (snd (auth_names root0 con0)))"
  let ?uid = "if sends_unique_id con0 ?nr then uid else replicate (length uid) 0"
  note p = parse_auth_content [OF fits refl]
  show ?thesis
    by (rule exI [of _ ?uid])
      (simp add: ioc_process_received_authentication_message_def con p Let_def auth_con_def [unfolded Let_def, symmetric] auth_con_role)
qed

section \<open>Properties\<close>

text \<open>
  \<^bold>\<open>C7\<close> Two ends understand each other's authentication. When the strings of a sender fit the
  buffers of the receiver and the receiver's authorization, where one is needed, accepts the user as
  announced (name with device number, network, hashed password), then the message made by
  \<open>ioc_make_authentication_message\<close> is accepted: the listening end takes the opposite direction and the
  same bidirectional setting, no frame larger than the sender can take will be sent, and the allowed networks
  are exactly those the authorization gave.
\<close>

theorem authentication_understood:
  assumes "rt_con root c = Some con" and "auth_fits pw_sz root0 con0"
    and "needs_authorization root con \<Longrightarrow> fst (authorize (auth_user hash int_str no_chain root0 con0)) = OSAL_SUCCESS"
  shows "\<exists>root' con'. ioc_process_received_authentication_message hash int_str pw_sz (length uid) authorize c mblk_id
      (auth_content uid no_chain root0 con0) root = Some (OSAL_SUCCESS, root') \<and>
    rt_con root' c = Some con' \<and> con_authentication_received con' \<and>
    (has_flag (con_flags con) IOC_LISTENER \<longrightarrow>
       has_flag (con_flags con') IOC_CONNECT_UP = (\<not> has_flag (con_flags con0) IOC_CONNECT_UP) \<and>
       has_flag (con_flags con') IOC_BIDIRECTIONAL_MBLKS = has_flag (con_flags con0) IOC_BIDIRECTIONAL_MBLKS) \<and>
    con_dst_frame_sz con' = (if 96 \<le> mblk_id \<and> mblk_id \<le> 0x4000 then min (uint mblk_id) (con_dst_frame_sz con) else con_dst_frame_sz con) \<and>
    con_allowed_networks con' = (if needs_authorization root con
      then snd (authorize (auth_user hash int_str no_chain root0 con0)) else con_allowed_networks con)"
proof -
  obtain d d2 d4 where d: "ioc_msg_set_uint (auth_device_nr (fst (snd (auth_names root0 con0)))) IOC_AUTH_DEVICE_NR_2_BYTES IOC_AUTH_DEVICE_NR_4_BYTES = (d, d2, d4)"
    by (metis prod_cases3)
  let ?fl = "auth_flags_of no_chain root0 con0" and ?user = "auth_user hash int_str no_chain root0 con0"
  note bits = auth_flag_bits(5,6) [OF d, of no_chain]
  obtain uid' where p: "ioc_process_received_authentication_message hash int_str pw_sz (length uid) authorize c mblk_id (auth_content uid no_chain root0 con0) root =
    (let con3 = auth_con mblk_id uid' ?fl root con;
         (s', con4) = (if needs_authorization root con then (fst (authorize ?user), con3\<lparr>con_allowed_networks := snd (authorize ?user)\<rparr>) else (OSAL_SUCCESS, con3))
     in if s' \<noteq> OSAL_SUCCESS then Some (s', set_con c con4 root)
        else Some (OSAL_SUCCESS, set_con c (con4\<lparr>con_authentication_received := True\<rparr>)
          (if is_any_network (rt_network_name root)
           then ioc_set_network_name (root\<lparr>rt_network_name := os_strncpy IOC_NETWORK_NAME_SZ (us_network_name ?user)\<rparr>) else root)))"
    using process_auth_message [OF assms(1,2), of hash int_str uid authorize mblk_id no_chain] unfolding Let_def by blast
  define con4 where "con4 = (if needs_authorization root con
    then (auth_con mblk_id uid' ?fl root con)\<lparr>con_allowed_networks := snd (authorize ?user)\<rparr> else auth_con mblk_id uid' ?fl root con)"
  define root1 where "root1 = (if is_any_network (rt_network_name root)
    then ioc_set_network_name (root\<lparr>rt_network_name := os_strncpy IOC_NETWORK_NAME_SZ (us_network_name ?user)\<rparr>) else root)"
  have r: "ioc_process_received_authentication_message hash int_str pw_sz (length uid) authorize c mblk_id (auth_content uid no_chain root0 con0) root =
      Some (OSAL_SUCCESS, set_con c (con4\<lparr>con_authentication_received := True\<rparr>) root1)"
    using p assms(3) by (simp add: con4_def root1_def Let_def)
  have f: "con_flags con4 = con_flags (auth_set_flags root ?fl con)" by (simp add: con4_def auth_con_def Let_def)
  have sz: "con_dst_frame_sz con4 = (if 96 \<le> mblk_id \<and> mblk_id \<le> 0x4000 then min (uint mblk_id) (con_dst_frame_sz con) else con_dst_frame_sz con)"
    by (auto simp: con4_def auth_con_def Let_def auth_frame_limit_def IOC_MIN_FRAME_SZ_def IOC_MAX_FRAME_SZ_def min_def)
  have al: "con_allowed_networks con4 = (if needs_authorization root con then snd (authorize ?user) else con_allowed_networks con)"
    by (simp add: con4_def auth_con_def Let_def)
  have k: "has_flag (con_flags con) IOC_LISTENER \<Longrightarrow> has_flag (con_flags con4) IOC_CONNECT_UP = (\<not> has_flag (con_flags con0) IOC_CONNECT_UP) \<and>
       has_flag (con_flags con4) IOC_BIDIRECTIONAL_MBLKS = has_flag (con_flags con0) IOC_BIDIRECTIONAL_MBLKS"
    unfolding f using auth_set_flags_bits [of con root ?fl] bits by simp
  show ?thesis
    by (rule exI [of _ "set_con c (con4\<lparr>con_authentication_received := True\<rparr>) root1"], rule exI [of _ "con4\<lparr>con_authentication_received := True\<rparr>"])
      (use r k sz al in \<open>simp add: set_con_def\<close>)
qed

text \<open>
  \<^bold>\<open>C8\<close> No authorization, no access. On a listening secure connection of a root with an authorization
  function, whatever the bytes of the message: if the user they name (the name with the device number, the network,
  the hashed password and the flags that \<open>auth_parse\<close> reads from them) is not accepted by \<open>authorize\<close>, or they
  name none because a string does not fit, then the message is rejected, whatever \<open>authorize\<close> says of any other
  user. The authentication stays not received, the connection is still one that needs authorization, and all else
  under the root, its network name, the blocks with their networks and the other connections, is as it was.
\<close>

theorem authentication_refused:
  assumes "rt_con root c = Some con" and "needs_authorization root con" and "\<not> con_authentication_received con"
    and refused: "\<And>fl uid user. rd data 1 = Some fl \<Longrightarrow>
      auth_parse hash int_str pw_sz uid_sz data fl = Some (OSAL_SUCCESS, uid, user) \<Longrightarrow> fst (authorize user) \<noteq> OSAL_SUCCESS"
    and "ioc_process_received_authentication_message hash int_str pw_sz uid_sz authorize c mblk_id data root = Some (st, root')"
  shows "st \<noteq> OSAL_SUCCESS \<and>
    (\<exists>con'. root' = set_con c con' root \<and> \<not> con_authentication_received con' \<and> needs_authorization root' con')"
proof -
  obtain fl s uid user where p: "rd data 1 = Some fl" "auth_parse hash int_str pw_sz uid_sz data fl = Some (s, uid, user)"
    using assms(1,5) by (auto simp: ioc_process_received_authentication_message_def Let_def split: Option.bind_splits)
  define con2 where "con2 = (if uid = [] then auth_set_flags root fl con else (auth_set_flags root fl con)\<lparr>con_unique_id_bin := uid\<rparr>)"
  have a: "auth_frame_limit mblk_id con2 = auth_con mblk_id uid fl root con" by (simp add: con2_def auth_con_def Let_def)
  have n2: "needs_authorization root con2"
    using assms(2) needs_authorization_cong [of con2 con root] by (simp add: con2_def auth_set_flags_keeps)
  have r2: "\<not> con_authentication_received con2" "\<not> con_authentication_received (auth_con mblk_id uid fl root con)"
    using assms(3) by (simp_all add: con2_def auth_con_def Let_def auth_frame_limit_def)
  have n3: "needs_authorization root (auth_con mblk_id uid fl root con)" using assms(2) by (simp add: auth_con_role)
  show ?thesis
  proof (cases "s = OSAL_SUCCESS")
    case True
    then have no: "fst (authorize user) \<noteq> OSAL_SUCCESS" using refused [OF p(1)] p(2) by simp
    have "Some (st, root') = Some (fst (authorize user), set_con c ((auth_con mblk_id uid fl root con)\<lparr>con_allowed_networks := snd (authorize user)\<rparr>) root)"
      using assms(1,5) no p True n3 a by (simp add: ioc_process_received_authentication_message_def Let_def con2_def [symmetric])
    then show ?thesis using no r2 n3 by (auto simp: set_con_def needs_authorization_def intro!: exI [of _ "(auth_con mblk_id uid fl root con)\<lparr>con_allowed_networks := snd (authorize user)\<rparr>"])
  next
    case False
    have "Some (st, root') = Some (s, set_con c con2 root)"
      using assms(1,5) p False by (simp add: ioc_process_received_authentication_message_def Let_def con2_def [symmetric])
    then show ?thesis using False r2 n2 by (auto simp: set_con_def needs_authorization_def intro!: exI [of _ con2])
  qed
qed

section \<open>Links stay\<close>

lemma set_network_name_ok:
  assumes ok: "links_ok root"
  shows "same_binding root (ioc_set_network_name root)"
proof -
  define r where "r = ioc_set_network_name root"
  have k: "\<exists>m. rt_mblk root b = Some m \<and> mb_sbufs m' = mb_sbufs m \<and> mb_tbufs m' = mb_tbufs m" if "rt_mblk r b = Some m'" for b m'
    using that by (auto simp: r_def ioc_set_network_name_def split: if_splits)
  have k': "\<exists>m'. rt_mblk r b = Some m' \<and> mb_sbufs m' = mb_sbufs m \<and> mb_tbufs m' = mb_tbufs m" if "rt_mblk root b = Some m" for b m
    using that by (auto simp: r_def ioc_set_network_name_def)
  have "sb_refs r = sb_refs root" unfolding sb_refs_def using k k' by (auto; metis)
  moreover have "tb_refs r = tb_refs root" unfolding tb_refs_def using k k' by (auto; metis)
  moreover have e: "rt_con r = rt_con root" "rt_mblk_refs r = rt_mblk_refs root" "rt_con_refs r = rt_con_refs root"
    by (simp_all add: r_def ioc_set_network_name_def)
  then have "sb_links r = sb_links root" "tb_links r = tb_links root" by (simp_all add: sb_links_def tb_links_def)
  moreover have "dom (rt_mblk r) = dom (rt_mblk root)" using k k' by (auto simp: dom_def) (metis, metis)
  moreover have "\<forall>b m. rt_mblk r b = Some m \<longrightarrow> distinct (mb_sbufs m) \<and> distinct (mb_tbufs m)"
  proof (intro allI impI)
    fix b m assume "rt_mblk r b = Some m"
    then obtain m0 where "rt_mblk root b = Some m0" "mb_sbufs m = mb_sbufs m0" "mb_tbufs m = mb_tbufs m0" using k by blast
    then show "distinct (mb_sbufs m) \<and> distinct (mb_tbufs m)" using ok by (simp add: links_ok_def)
  qed
  ultimately have "same_binding root r" using ok e unfolding same_binding_def links_ok_def by metis
  then show ?thesis by (simp add: r_def)
qed

lemma first_mblk_in: "points_into (case xs of [] \<Rightarrow> None | b # _ \<Rightarrow> Some b) (set xs)"
  by (cases xs) auto

lemma auth_con_links: "con_ok_links (set (rt_mblk_refs root)) c con \<Longrightarrow> con_ok_links (set (rt_mblk_refs root)) c (auth_set_flags root fl con)"
  using first_mblk_in [of "rt_mblk_refs root"]
  by (simp add: auth_set_flags_def ioc_add_con_to_global_mbinfo_def Let_def con_ok_links_def)

lemma process_auth_keeps_links:
  assumes ok: "links_ok root"
    and n: "ioc_process_received_authentication_message hash int_str pw_sz uid_sz authorize c mblk_id data root = Some (st, root')"
  shows "same_binding root root'"
proof -
  obtain con fl s uid user where p: "rt_con root c = Some con" "rd data 1 = Some fl" "auth_parse hash int_str pw_sz uid_sz data fl = Some (s, uid, user)"
    using n by (auto simp: ioc_process_received_authentication_message_def Let_def split: Option.bind_splits)
  define con2 where "con2 = (if uid = [] then auth_set_flags root fl con else (auth_set_flags root fl con)\<lparr>con_unique_id_bin := uid\<rparr>)"
  have "con_ok_links (set (rt_mblk_refs root)) c (auth_set_flags root fl con)" by (rule auth_con_links [OF links_con [OF ok p(1)]])
  then have l: "con_ok_links (set (rt_mblk_refs root)) c x" if "con_sbufs x = con_sbufs con" "con_tbufs x = con_tbufs con"
    "con_current x = con_current (auth_set_flags root fl con)" "con_sbuf_mbinfo_down x = con_sbuf_mbinfo_down (auth_set_flags root fl con)"
    "con_tbuf_mbinfo_down x = con_tbuf_mbinfo_down (auth_set_flags root fl con)" "con_current_mblk x = con_current_mblk (auth_set_flags root fl con)"
    "con_current_cloud_mblk x = con_current_cloud_mblk (auth_set_flags root fl con)" for x
    using that by (simp add: con_ok_links_def)
  define root0 where "root0 = (if is_any_network (rt_network_name root)
    then ioc_set_network_name (root\<lparr>rt_network_name := os_strncpy IOC_NETWORK_NAME_SZ (us_network_name user)\<rparr>) else root)"
  have "same_binding root (root\<lparr>rt_network_name := x\<rparr>)" for x
  proof -
    have e: "rt_con (root\<lparr>rt_network_name := x\<rparr>) = rt_con root" "rt_mblk (root\<lparr>rt_network_name := x\<rparr>) = rt_mblk root" by simp_all
    show ?thesis using ok unfolding same_binding_def links_ok_def sb_links_def tb_links_def sb_refs_def tb_refs_def e by simp
  qed
  note rename = this
  have s0: "same_binding root root0"
  proof (cases "is_any_network (rt_network_name root)")
    case True
    then show ?thesis unfolding root0_def
      using same_binding_trans [OF rename set_network_name_ok] same_binding_links [OF rename] by simp
  qed (simp add: root0_def same_binding_refl [OF ok])
  have c0: "rt_con root0 c = Some con" "rt_mblk_refs root0 = rt_mblk_refs root" using p(1) s0 by (simp_all add: root0_def same_binding_def)
  obtain con4 where r: "(root' = set_con c con4 root \<or> root' = set_con c con4 root0)" "con_sbufs con4 = con_sbufs con" "con_tbufs con4 = con_tbufs con"
    "con_ok_links (set (rt_mblk_refs root)) c con4"
  proof (cases "s = OSAL_SUCCESS")
    case False
    then have "root' = set_con c con2 root"
      using n p by (simp add: ioc_process_received_authentication_message_def Let_def con2_def)
    then show thesis using that [of con2] l [of con2] by (simp add: con2_def)
  next
    case True
    define con3 where "con3 = auth_frame_limit mblk_id con2"
    have l3: "con_ok_links (set (rt_mblk_refs root)) c con3" by (rule l) (simp_all add: con3_def con2_def auth_frame_limit_def)
    have b3: "con_sbufs con3 = con_sbufs con" "con_tbufs con3 = con_tbufs con" by (simp_all add: con3_def con2_def)
    obtain con4 where q: "root' = set_con c con4 root \<or> root' = set_con c con4 root0"
        "con4 = con3 \<or> (\<exists>x. con4 = con3\<lparr>con_allowed_networks := x\<rparr>) \<or> (\<exists>x. con4 = con3\<lparr>con_allowed_networks := x, con_authentication_received := True\<rparr>) \<or>
          con4 = con3\<lparr>con_authentication_received := True\<rparr>"
      using n p True by (auto simp: ioc_process_received_authentication_message_def Let_def con2_def [symmetric] con3_def [symmetric] root0_def split: if_splits)
    have "con_ok_links (set (rt_mblk_refs root)) c con4" "con_sbufs con4 = con_sbufs con" "con_tbufs con4 = con_tbufs con"
      using q(2) l3 b3 by (auto simp: con_ok_links_def)
    then show thesis using that q(1) by blast
  qed
  show ?thesis
  proof (cases "root' = set_con c con4 root")
    case True
    then show ?thesis using set_con_same [OF ok p(1) r(2,3,4)] by simp
  next
    case False
    have "same_binding root0 (set_con c con4 root0)"
      by (rule set_con_same) (use s0 c0 r in \<open>simp_all add: same_binding_def\<close>)
    then show ?thesis using False r(1) same_binding_trans [OF s0] by blast
  qed
qed

section \<open>Instances\<close>

definition server_sample :: iocRoot where
  "server_sample = (root_start 289)\<lparr>rt_authorization := True\<rparr>"

definition device_sample :: iocRoot where
  "device_sample = (root_start 385)\<lparr>rt_device_nr := 7, rt_password := [112, 119]\<rparr>"

lemma auth_sample:
  "rt_con server_sample 5 = Some (con_sample 289)" "auth_fits 46 device_sample (con_sample 385)"
  "needs_authorization server_sample (con_sample 289)" "\<not> con_authentication_received (con_sample 289)"
  "has_flag (con_flags (con_sample 289)) IOC_LISTENER" "has_flag (con_flags (con_sample 385)) IOC_CONNECT_UP"
  by (simp_all add: server_sample_def device_sample_def root_start_def auth_fits_def auth_names_def sent_password_def sends_password_def
      name_ok_def IOC_DEVICE_ID_SZ_def IOC_NAME_SZ_def IOC_NETWORK_NAME_SZ_def needs_authorization_def con_sample_simps)

theorem authentication_understood_witness:
  "\<exists>root' con'. ioc_process_received_authentication_message rev (\<lambda>_. [55]) 46 (length [1, 2, 3 :: byte]) (\<lambda>u. (OSAL_SUCCESS, [(us_network_name u, 0)])) 5 464
      (auth_content [1, 2, 3] False device_sample (con_sample 385)) server_sample = Some (OSAL_SUCCESS, root') \<and>
    rt_con root' 5 = Some con' \<and> con_authentication_received con' \<and> \<not> has_flag (con_flags con') IOC_CONNECT_UP \<and>
    con_dst_frame_sz con' = 464 \<and> con_allowed_networks con' = [([110], 0)]"
proof -
  have n: "us_network_name (auth_user rev (\<lambda>_. [55]) False device_sample (con_sample 385)) = [110]"
    by (simp add: auth_user_def auth_names_def device_sample_def root_start_def con_sample_simps)
  have s: "con_dst_frame_sz (con_sample 289) = 1392" by (simp add: con_sample_simps)
  show ?thesis
    using authentication_understood [OF auth_sample(1,2), of "\<lambda>u. (OSAL_SUCCESS, [(us_network_name u, 0)])" rev "\<lambda>_. [55]" False "[1, 2, 3]" 464]
      auth_sample(3,5,6) by (auto simp: n s)
qed

text \<open>An authorization function that accepts everybody but the device \<open>d7\<close> of the message.\<close>

definition all_but :: "byte list \<Rightarrow> iocUser \<Rightarrow> osalStatus \<times> (byte list \<times> u16) list" where
  "all_but name u = (if us_user_name u = name then OSAL_STATUS_FAILED else OSAL_SUCCESS, [])"

theorem authentication_refused_witness:
  "\<exists>st root' con'. ioc_process_received_authentication_message rev (\<lambda>_. [55]) 46 (length [1, 2, 3 :: byte]) (all_but [100, 55]) 5 464
      (auth_content [1, 2, 3] False device_sample (con_sample 385)) server_sample = Some (st, root') \<and>
    st \<noteq> OSAL_SUCCESS \<and> root' = set_con 5 con' server_sample \<and> \<not> con_authentication_received con'"
proof -
  let ?data = "auth_content [1, 2, 3] False device_sample (con_sample 385)"
  obtain st root' where p: "ioc_process_received_authentication_message rev (\<lambda>_. [55]) 46 (length [1, 2, 3 :: byte]) (all_but [100, 55]) 5 464
      ?data server_sample = Some (st, root')"
    using process_auth_message [OF auth_sample(1,2), of rev "\<lambda>_. [55]" "[1, 2, 3]" "all_but [100, 55]" 464 False] auth_sample(3)
    by (auto simp: Let_def split: if_splits)
  have u: "us_user_name (auth_user rev (\<lambda>_. [55]) False device_sample (con_sample 385)) = [100, 55]" by code_simp
  have q: "fst (all_but [100, 55] user) \<noteq> OSAL_SUCCESS"
    if "rd ?data 1 = Some fl" "auth_parse rev (\<lambda>_. [55]) 46 (length [1, 2, 3 :: byte]) ?data fl = Some (OSAL_SUCCESS, uid, user)" for fl uid user
    using that parse_auth_content(1) [OF auth_sample(2) refl, of "[1, 2, 3]" False] u
      parse_auth_content(2) [OF auth_sample(2) refl, of rev "\<lambda>_. [55]" "[1, 2, 3]" False] by (simp add: all_but_def)
  have "st \<noteq> OSAL_SUCCESS \<and> (\<exists>con'. root' = set_con 5 con' server_sample \<and> \<not> con_authentication_received con' \<and>
      needs_authorization root' con')"
    by (rule authentication_refused [OF auth_sample(1,3,4) _ p]) (rule q)
  then show ?thesis using p by blast
qed

end
