(* ===== verification/Ioc_Connection_Run.thy ===== *)
theory Ioc_Connection_Run
  imports Ioc_Remove_Mblk Ioc_Authentication
begin

text \<open>
  A connection at work under its root: \<open>ioc_connection_send\<close> of \<open>code/ioc_connection_send.c\<close>, which
  decides what is sent next, \<open>ioc_process_received_system_frame\<close> of \<open>code/ioc_connection_receive.c\<close>, which
  hands system frames to their handlers, and both put together with \<open>ioc_connection_receive\<close>.

  What comes from outside of the code is collected in a record: functions of the operating system layer,
  the authorization function, random numbers, the addresses of new objects (\<open>en_rm\<close>, \<open>en_rs\<close>,
  \<open>en_rt\<close> of a memory block, a source buffer and a target buffer), whether memory is left.
\<close>

record env =
  en_checksum :: "byte list \<Rightarrow> u16"
  en_past :: byte
  en_put :: "int \<Rightarrow> byte list"
  en_get :: "byte list \<Rightarrow> int \<times> nat"
  en_hash :: "byte list \<Rightarrow> byte list"
  en_int_str :: "u32 \<Rightarrow> byte list"
  en_pw_sz :: nat
  en_uid :: "byte list"
  en_no_chain :: bool
  en_authorize :: "iocUser \<Rightarrow> osalStatus \<times> (byte list \<times> u16) list"
  en_rand :: "nat \<Rightarrow> u32"
  en_newbuf :: "byte list option"
  en_got :: bool
  en_rm :: nat
  en_rs :: nat
  en_rt :: nat
  en_auto_nr :: u32

section \<open>Sending\<close>

text \<open>The references of the source buffers in the order in which the loop visits them.\<close>

definition visit_order :: "iocConnection \<Rightarrow> nat list" where
  "visit_order con = (let refs = map fst (con_sbufs con) in
     case con_current con of None \<Rightarrow> refs
     | Some r \<Rightarrow> dropWhile (\<lambda>x. x \<noteq> r) refs @ takeWhile (\<lambda>x. x \<noteq> r) refs)"

definition set_sbuf :: "nat \<Rightarrow> iocSourceBuffer \<Rightarrow> iocConnection \<Rightarrow> iocConnection" where
  "set_sbuf r sbuf con = con\<lparr>con_sbufs := map (\<lambda>(k, x). (k, if k = r then sbuf else x)) (con_sbufs con)\<rparr>"

text \<open>The loop that looks for a source buffer with modified data; \<open>None\<close> inside when there is none.\<close>

fun select_sbuf :: "iocRoot \<Rightarrow> nat list \<Rightarrow> iocConnection \<Rightarrow> (nat option \<times> iocConnection \<times> ioc_event list) option" where
  "select_sbuf root [] con = Some (None, con, [])"
| "select_sbuf root (r # rs) con = do {
     sbuf \<leftarrow> map_of (con_sbufs con) r;
     if sb_used sbuf \<and> sb_remote_mblk_id sbuf \<noteq> 0 then Some (Some r, con, [])
     else if sb_remote_mblk_id sbuf \<noteq> 0 \<and> sb_immediate_sync_needed sbuf then do {
       mblk \<leftarrow> rt_mblk root (sb_mblk sbuf);
       buf \<leftarrow> mb_buf mblk;
       (st, sbuf', e1) \<leftarrow> ioc_sbuf_synchronize (con_has_trig con) buf (mb_nbytes mblk) sbuf;
       if st \<noteq> OSAL_SUCCESS then Some (Some r, set_sbuf r (sbuf'\<lparr>sb_immediate_sync_needed := False\<rparr>) con, e1)
       else do {
         (found, con', e2) \<leftarrow> select_sbuf root rs (set_sbuf r sbuf' con);
         Some (found, con', e1 @ (if con_has_trig con then [WorkerTrig] else []) @ e2) }
     }
     else select_sbuf root rs con }"

text \<open>A data frame for the next source buffer, or nothing.\<close>

definition send_data :: "env \<Rightarrow> iocRoot \<Rightarrow> iocConnection \<Rightarrow> (iocConnection \<times> ioc_event list) option" where
  "send_data env root con = do {
     (found, con1, e1) \<leftarrow> select_sbuf root (visit_order con) con;
     case found of None \<Rightarrow> Some (con1, e1)
     | Some r \<Rightarrow> do {
         sbuf \<leftarrow> map_of (con_sbufs con1) r;
         mblk \<leftarrow> rt_mblk root (sb_mblk sbuf);
         buf \<leftarrow> mb_buf mblk;
         let con2 = con1\<lparr>con_current := next_ref r (map fst (con_sbufs con1))\<rparr>;
         (con3, sbuf', e2) \<leftarrow> ioc_make_data_frame (en_checksum env) (en_past env) (mb_cbs mblk) buf con2 sbuf;
         Some (set_sbuf r sbuf' con3, e1 @ e2) } }"

text \<open>What to put into an empty frame buffer once acknowledgement is dealt with.\<close>

definition make_frame :: "env \<Rightarrow> iocRoot \<Rightarrow> iocConnection \<Rightarrow> (iocConnection \<times> ioc_event list) option" where
  "make_frame env root con =
    (if has_flag (con_flags con) IOC_CONNECT_UP \<and> \<not> con_authentication_received con then Some (con, [])
     else if \<not> con_authentication_sent con then
       map_option (\<lambda>con'. (con', [])) (ioc_make_authentication_message (en_uid env) (en_no_chain env) (en_checksum env) root con)
     else if \<not> con_authentication_received con then Some (con, [])
     else do {
       (st, con1) \<leftarrow> ioc_make_remove_mblk_req_frame (en_put env) (en_checksum env) con;
       if st \<noteq> OSAL_COMPLETED then Some (con1, [])
       else do {
         (m, con2) \<leftarrow> ioc_get_mbinfo_to_send root con1;
         case m of
           Some b \<Rightarrow> do {
             mblk \<leftarrow> rt_mblk root b;
             (st', con3) \<leftarrow> ioc_make_mblk_info_frame (en_checksum env) con2 mblk;
             con4 \<leftarrow> (if st' \<noteq> OSAL_SUCCESS then Some con3 else ioc_mbinfo_sent root b con3);
             Some (con4, []) }
         | None \<Rightarrow> send_data env root con2 } })"

definition ioc_connection_send ::
  "env \<Rightarrow> stream_write \<Rightarrow> nat \<Rightarrow> nat \<Rightarrow> iocRoot \<Rightarrow> (osalStatus \<times> iocRoot \<times> ioc_event list) option" where
  "ioc_connection_send env stream_write tnow c root = do {
     con \<leftarrow> rt_con root c;
     let just_move_data = (\<lambda>con ev. do {
        (status, con') \<leftarrow> ioc_write_to_stream stream_write tnow con;
        Some (status, set_con c con' root, ev) });
     if fo_used con \<noteq> 0 then just_move_data con []
     else do {
       (status, con1) \<leftarrow> ioc_acknowledge_as_needed stream_write tnow con;
       if status = OSAL_PENDING then just_move_data con1 []
       else if status \<noteq> OSAL_SUCCESS then Some (OSAL_STATUS_FAILED, set_con c con1 root, [])
       else if fo_used con1 \<noteq> 0 then Some (OSAL_PENDING, set_con c con1 root, [])
       else do {
         (con2, ev) \<leftarrow> make_frame env root con1;
         just_move_data con2 ev } } }"

section \<open>Receiving\<close>

definition ioc_process_received_system_frame ::
  "env \<Rightarrow> nat \<Rightarrow> u32 \<Rightarrow> byte list \<Rightarrow> iocRoot \<Rightarrow> (osalStatus \<times> iocRoot \<times> ioc_event list) option" where
  "ioc_process_received_system_frame env c mblk_id data root = do {
     b0 \<leftarrow> rd data 0;
     if b0 = IOC_SYSFRAME_MBLK_INFO then
       ioc_process_received_mbinfo_frame (en_rand env) (en_newbuf env) (en_got env) (en_rm env) (en_rs env) (en_rt env) (en_auto_nr env)
         c mblk_id data root
     else if b0 = IOC_AUTHENTICATION_DATA then
       map_option (\<lambda>(st, root'). (st, root', []))
         (ioc_process_received_authentication_message (en_hash env) (en_int_str env) (en_pw_sz env) (length (en_uid env)) (en_authorize env)
            c mblk_id data root)
     else if b0 = IOC_REMOVE_MBLK_REQUEST then
       ioc_process_remove_mblk_req_frame (en_get env) (en_got env) c mblk_id data root
     else Some (OSAL_SUCCESS, root, []) }"

text \<open>The handler as \<open>ioc_connection_receive\<close> calls it, with the connection apart from its root.\<close>

definition system_frame :: "env \<Rightarrow> nat \<Rightarrow> iocRoot \<Rightarrow> iocConnection \<Rightarrow> u32 \<Rightarrow> byte list \<Rightarrow> (osalStatus \<times> iocConnection \<times> iocRoot \<times> ioc_event list) option" where
  "system_frame env c root con mblk_id data = do {
     (st, root', ev) \<leftarrow> ioc_process_received_system_frame env c mblk_id data (set_con c con root);
     con' \<leftarrow> rt_con root' c;
     Some (st, con', root', ev) }"

definition first_mblk :: "iocRoot \<Rightarrow> nat option" where
  "first_mblk root = (case rt_mblk_refs root of [] \<Rightarrow> None | b # _ \<Rightarrow> Some b)"

text \<open>A connection of a root receives: \<open>ioc_connection_receive\<close> on the objects of the root.\<close>

definition root_receive :: "env \<Rightarrow> 's stream_read \<Rightarrow> nat \<Rightarrow> nat \<Rightarrow> 's \<Rightarrow> iocRoot \<Rightarrow> (osalStatus \<times> iocRoot \<times> 's \<times> ioc_event list) option" where
  "root_receive env stream_read tnow c s root = do {
     con \<leftarrow> rt_con root c;
     (st, con', root', s', ev) \<leftarrow> ioc_connection_receive (en_checksum env) (\<lambda>b. the (rt_mblk root b))
        first_mblk (rt_authorization root) (system_frame env c) stream_read tnow root s con;
     Some (st, set_con c con' root', s', ev) }"

section \<open>What does not change bindings\<close>

text \<open>The bindings of a connection, as its buffers tell, and its cursors.\<close>

definition con_shape :: "iocConnection \<Rightarrow> (nat \<times> nat \<times> nat) list \<times> (nat \<times> nat \<times> nat) list" where
  "con_shape con = (map (\<lambda>x. (fst x, sb_con (snd x), sb_mblk (snd x))) (con_sbufs con),
     map (\<lambda>x. (fst x, tb_con (snd x), tb_mblk (snd x))) (con_tbufs con))"

definition con_cursors :: "iocConnection \<Rightarrow> nat option \<times> nat option \<times> nat option \<times> nat option \<times> nat option" where
  "con_cursors con = (con_current con, con_sbuf_mbinfo_down con, con_tbuf_mbinfo_down con, con_current_mblk con, con_current_cloud_mblk con)"

definition same_shape :: "iocConnection \<Rightarrow> iocConnection \<Rightarrow> bool" where
  "same_shape con con' \<longleftrightarrow> con_shape con' = con_shape con \<and> con_cursors con' = con_cursors con"

lemma same_shape_refl [simp]: "same_shape con con"
  by (simp add: same_shape_def)

lemma same_shape_trans: "same_shape a b \<Longrightarrow> same_shape b c \<Longrightarrow> same_shape a c"
  by (simp add: same_shape_def)

lemma shape_sets:
  assumes "con_shape con' = con_shape con"
  shows "(\<exists>sb. (r, sb) \<in> set (con_sbufs con') \<and> sb_mblk sb = b) = (\<exists>sb. (r, sb) \<in> set (con_sbufs con) \<and> sb_mblk sb = b)"
    and "(\<exists>tb. (r, tb) \<in> set (con_tbufs con') \<and> tb_mblk tb = b) = (\<exists>tb. (r, tb) \<in> set (con_tbufs con) \<and> tb_mblk tb = b)"
    and "map fst (con_sbufs con') = map fst (con_sbufs con)" "map fst (con_tbufs con') = map fst (con_tbufs con)"
    and "(\<forall>x \<in> set (con_sbufs con'). sb_con (snd x) = c) = (\<forall>x \<in> set (con_sbufs con). sb_con (snd x) = c)"
    and "(\<forall>x \<in> set (con_tbufs con'). tb_con (snd x) = c) = (\<forall>x \<in> set (con_tbufs con). tb_con (snd x) = c)"
proof -
  have s: "map (\<lambda>x. (fst x, sb_con (snd x), sb_mblk (snd x))) (con_sbufs con') = map (\<lambda>x. (fst x, sb_con (snd x), sb_mblk (snd x))) (con_sbufs con)"
    and t: "map (\<lambda>x. (fst x, tb_con (snd x), tb_mblk (snd x))) (con_tbufs con') = map (\<lambda>x. (fst x, tb_con (snd x), tb_mblk (snd x))) (con_tbufs con)"
    using assms by (simp_all add: con_shape_def)
  have "(\<lambda>x. (fst x, sb_con (snd x), sb_mblk (snd x))) ` set (con_sbufs con') = (\<lambda>x. (fst x, sb_con (snd x), sb_mblk (snd x))) ` set (con_sbufs con)"
    using arg_cong [OF s, of set] by simp
  note s' = this [unfolded set_eq_iff image_iff, rule_format]
  have "(\<lambda>x. (fst x, tb_con (snd x), tb_mblk (snd x))) ` set (con_tbufs con') = (\<lambda>x. (fst x, tb_con (snd x), tb_mblk (snd x))) ` set (con_tbufs con)"
    using arg_cong [OF t, of set] by simp
  note t' = this [unfolded set_eq_iff image_iff, rule_format]
  show "(\<exists>sb. (r, sb) \<in> set (con_sbufs con') \<and> sb_mblk sb = b) = (\<exists>sb. (r, sb) \<in> set (con_sbufs con) \<and> sb_mblk sb = b)"
    using s' [of "(r, _, b)"] by (metis fst_conv snd_conv surj_pair)
  show "(\<exists>tb. (r, tb) \<in> set (con_tbufs con') \<and> tb_mblk tb = b) = (\<exists>tb. (r, tb) \<in> set (con_tbufs con) \<and> tb_mblk tb = b)"
    using t' [of "(r, _, b)"] by (metis fst_conv snd_conv surj_pair)
  show "map fst (con_sbufs con') = map fst (con_sbufs con)" using arg_cong [OF s, of "map fst"] by (simp add: o_def)
  show "map fst (con_tbufs con') = map fst (con_tbufs con)" using arg_cong [OF t, of "map fst"] by (simp add: o_def)
  show "(\<forall>x \<in> set (con_sbufs con'). sb_con (snd x) = c) = (\<forall>x \<in> set (con_sbufs con). sb_con (snd x) = c)"
    using arg_cong [OF s, of "\<lambda>l. \<forall>y \<in> set l. fst (snd y) = c"] by simp
  show "(\<forall>x \<in> set (con_tbufs con'). tb_con (snd x) = c) = (\<forall>x \<in> set (con_tbufs con). tb_con (snd x) = c)"
    using arg_cong [OF t, of "\<lambda>l. \<forall>y \<in> set l. fst (snd y) = c"] by simp
qed

lemma shape_con_ok:
  assumes "con_shape con' = con_shape con" and "con_ok_links B c con"
    and "points_into (con_current con') (fst ` set (con_sbufs con))" "points_into (con_sbuf_mbinfo_down con') (fst ` set (con_sbufs con))"
    and "points_into (con_tbuf_mbinfo_down con') (fst ` set (con_tbufs con))"
    and "points_into (con_current_mblk con') B" "points_into (con_current_cloud_mblk con') B"
  shows "con_ok_links B c con'"
proof -
  note s = shape_sets(3-6) [OF assms(1)]
  have "fst ` set (con_sbufs con') = fst ` set (con_sbufs con)" "fst ` set (con_tbufs con') = fst ` set (con_tbufs con)"
    using arg_cong [OF s(1), of set] arg_cong [OF s(2), of set] by simp_all
  then show ?thesis using assms(2-) s by (simp add: con_ok_links_def)
qed

lemma same_shape_con_ok:
  assumes a: "same_shape con con'" and b: "con_ok_links B c con"
  shows "con_ok_links B c con'"
  by (rule shape_con_ok [OF _ b]) (use a b in \<open>auto simp: same_shape_def con_cursors_def con_ok_links_def\<close>)

lemma set_con_shape:
  assumes ok: "links_ok root" and c: "rt_con root c = Some con" and s: "con_shape con' = con_shape con"
    and l: "con_ok_links (set (rt_mblk_refs root)) c con'"
  shows "same_binding root (set_con c con' root)"
proof -
  define r where "r = set_con c con' root"
  have "(x, y, b) \<in> sb_links r \<longleftrightarrow> (x, y, b) \<in> sb_links root" "(x, y, b) \<in> tb_links r \<longleftrightarrow> (x, y, b) \<in> tb_links root" for x y b
    by (cases "y = c"; use c shape_sets(1) [OF s, of x b] shape_sets(2) [OF s, of x b] in \<open>simp add: sb_links_def tb_links_def set_con_def r_def\<close>)+
  then have "sb_links r = sb_links root" "tb_links r = tb_links root" by auto
  moreover have "sb_refs r = sb_refs root" "tb_refs r = tb_refs root" by (simp_all add: sb_refs_def tb_refs_def set_con_def r_def)
  moreover have "dom (rt_con r) = dom (rt_con root)" using c by (auto simp: set_con_def r_def)
  moreover have "\<forall>x y. rt_con r x = Some y \<longrightarrow> con_ok_links (set (rt_mblk_refs root)) x y"
    using ok l by (auto simp: set_con_def links_ok_def r_def)
  moreover have "rt_mblk r = rt_mblk root" "rt_mblk_refs r = rt_mblk_refs root" "rt_con_refs r = rt_con_refs root" by (simp_all add: set_con_def r_def)
  ultimately have "same_binding root r" using ok unfolding same_binding_def links_ok_def by metis
  then show ?thesis by (simp add: r_def)
qed

lemma write_to_stream_shape: "ioc_write_to_stream sw tnow con = Some (st, con') \<Longrightarrow> same_shape con con'"
  by (auto simp: ioc_write_to_stream_def Let_def same_shape_def con_shape_def con_cursors_def split: Option.bind_splits if_splits prod.splits)

lemma send_acknowledge_shape: "ioc_send_acknowledge sw tnow con = Some (st, con') \<Longrightarrow> same_shape con con'"
  by (auto simp: ioc_send_acknowledge_def Let_def same_shape_def con_shape_def con_cursors_def
      dest!: write_to_stream_shape split: Option.bind_splits if_splits)

lemma acknowledge_as_needed_shape: "ioc_acknowledge_as_needed sw tnow con = Some (st, con') \<Longrightarrow> same_shape con con'"
  by (auto simp: ioc_acknowledge_as_needed_def Let_def dest!: send_acknowledge_shape split: Option.bind_splits if_splits)

lemma finish_frame_shape: "ioc_finish_frame cs con ptrs n = Some (st, con') \<Longrightarrow> same_shape con con'"
  by (auto simp: ioc_finish_frame_def Let_def same_shape_def con_shape_def con_cursors_def split: Option.bind_splits if_splits)

lemma make_system_frame_shape: "make_system_frame cs con mb content = Some (st, con') \<Longrightarrow> same_shape con con'"
  by (auto simp: make_system_frame_def same_shape_def con_shape_def con_cursors_def dest!: finish_frame_shape split: Option.bind_splits)

lemma make_authentication_shape: "ioc_make_authentication_message uid nc cs root con = Some con' \<Longrightarrow> same_shape con con'"
  by (auto simp: ioc_make_authentication_message_def same_shape_def con_shape_def con_cursors_def
      dest!: make_system_frame_shape split: Option.bind_splits if_splits)

lemma make_remove_frame_shape: "ioc_make_remove_mblk_req_frame p cs con = Some (st, con') \<Longrightarrow> same_shape con con'"
  by (auto simp: ioc_make_remove_mblk_req_frame_def ioc_remove_mblk_req_processed_def same_shape_def con_shape_def con_cursors_def
      dest!: make_system_frame_shape split: Option.bind_splits if_splits list.splits)

lemma make_mblk_info_shape: "ioc_make_mblk_info_frame cs con mblk = Some (st, con') \<Longrightarrow> same_shape con con'"
  by (auto simp: ioc_make_mblk_info_frame_def dest: make_system_frame_shape)

lemma set_sbuf_shape:
  assumes "\<And>sb. (r, sb) \<in> set (con_sbufs con) \<Longrightarrow> sb_mblk sbuf = sb_mblk sb \<and> sb_con sbuf = sb_con sb"
  shows "same_shape con (set_sbuf r sbuf con)"
  using assms by (auto simp: same_shape_def con_shape_def con_cursors_def set_sbuf_def)

lemma set_sbuf_sync_shape:
  assumes "distinct (map fst (con_sbufs con))" and "map_of (con_sbufs con) r = Some sbuf" and "sb_mblk sbuf' = sb_mblk sbuf" "sb_con sbuf' = sb_con sbuf"
  shows "same_shape con (set_sbuf r sbuf' con)"
  by (rule set_sbuf_shape) (use assms in \<open>auto simp: map_of_is_SomeI\<close>)

lemma same_shape_refs: "same_shape con con' \<Longrightarrow> map fst (con_sbufs con') = map fst (con_sbufs con)"
  by (rule shape_sets(3)) (simp add: same_shape_def)

lemma select_sbuf_step:
  assumes "select_sbuf root (r # rs) con = Some (found, con', ev)"
  obtains (pick) sbuf where "map_of (con_sbufs con) r = Some sbuf" "sb_used sbuf" "sb_remote_mblk_id sbuf \<noteq> 0" "found = Some r" "con' = con"
  | (skip) sbuf where "map_of (con_sbufs con) r = Some sbuf" "\<not> (sb_used sbuf \<and> sb_remote_mblk_id sbuf \<noteq> 0)"
      "select_sbuf root rs con = Some (found, con', ev)"
  | (kept) sbuf sbuf' where "map_of (con_sbufs con) r = Some sbuf" "\<not> (sb_used sbuf \<and> sb_remote_mblk_id sbuf \<noteq> 0)" "sb_mblk sbuf' = sb_mblk sbuf"
      "sb_con sbuf' = sb_con sbuf" "found = Some r" "con' = set_sbuf r sbuf' con"
  | (synced) sbuf sbuf' ev' where "map_of (con_sbufs con) r = Some sbuf" "\<not> (sb_used sbuf \<and> sb_remote_mblk_id sbuf \<noteq> 0)"
      "sb_mblk sbuf' = sb_mblk sbuf" "sb_con sbuf' = sb_con sbuf" "select_sbuf root rs (set_sbuf r sbuf' con) = Some (found, con', ev')"
proof -
  obtain sbuf where sb: "map_of (con_sbufs con) r = Some sbuf"
    using assms unfolding select_sbuf.simps by (elim bind_SomeE)
  show thesis
  proof (cases "sb_used sbuf \<and> sb_remote_mblk_id sbuf \<noteq> 0")
    case True
    have "found = Some r" "con' = con"
      using assms unfolding select_sbuf.simps sb bind.bind_lunit if_P [OF True] by simp_all
    then show ?thesis using sb pick True by blast
  next
    case False
    note u = this
    show ?thesis
    proof (cases "sb_remote_mblk_id sbuf \<noteq> 0 \<and> sb_immediate_sync_needed sbuf")
      case False
      have "select_sbuf root rs con = Some (found, con', ev)"
        using assms unfolding select_sbuf.simps sb bind.bind_lunit if_not_P [OF u] if_not_P [OF False] .
      then show ?thesis using skip sb u by blast
    next
      case True
      obtain mblk buf st sbuf' e1 where s: "rt_mblk root (sb_mblk sbuf) = Some mblk" "mb_buf mblk = Some buf"
        "ioc_sbuf_synchronize (con_has_trig con) buf (mb_nbytes mblk) sbuf = Some (st, sbuf', e1)"
        and n: "(if st \<noteq> OSAL_SUCCESS then Some (Some r, set_sbuf r (sbuf'\<lparr>sb_immediate_sync_needed := False\<rparr>) con, e1)
          else do { (found, con', e2) \<leftarrow> select_sbuf root rs (set_sbuf r sbuf' con);
            Some (found, con', e1 @ (if con_has_trig con then [WorkerTrig] else []) @ e2) }) = Some (found, con', ev)"
        using assms unfolding select_sbuf.simps sb bind.bind_lunit if_not_P [OF u] if_P [OF True]
        by (elim bind_SomeE) (simp only: split_paired_all prod.case)
      note k = synchronize_keeps [OF s(3)]
      show ?thesis
      proof (cases "st = OSAL_SUCCESS")
        case True
        then obtain e2 where "select_sbuf root rs (set_sbuf r sbuf' con) = Some (found, con', e2)" using n by (auto split: Option.bind_splits)
        then show ?thesis using synced sb u k by blast
      next
        case False
        then show ?thesis using kept [OF sb u, of "sbuf'\<lparr>sb_immediate_sync_needed := False\<rparr>"] n k by simp
      qed
    qed
  qed
qed

lemma select_sbuf_shape:
  "select_sbuf root rs con = Some (found, con', ev) \<Longrightarrow> distinct (map fst (con_sbufs con)) \<Longrightarrow> same_shape con con'"
proof (induction rs arbitrary: con ev)
  case (Cons r rs)
  from Cons.prems(1) show ?case
  proof (cases rule: select_sbuf_step)
    case (pick sbuf)
    then show ?thesis by simp
  next
    case (skip sbuf)
    then show ?thesis using Cons by blast
  next
    case (kept sbuf sbuf')
    then show ?thesis using set_sbuf_sync_shape [OF Cons.prems(2)] by simp
  next
    case (synced sbuf sbuf' ev')
    have sh: "same_shape con (set_sbuf r sbuf' con)" by (rule set_sbuf_sync_shape [OF Cons.prems(2) synced(1,3,4)])
    have "distinct (map fst (con_sbufs (set_sbuf r sbuf' con)))" using same_shape_refs [OF sh] Cons.prems(2) by simp
    then show ?thesis using Cons.IH [OF synced(5)] same_shape_trans [OF sh] by blast
  qed
qed simp

lemma make_data_frame_shape:
  assumes "ioc_make_data_frame cs past cbs buf con sbuf = Some (con', sbuf', ev)"
  shows "same_shape con con' \<and> con_sbufs con' = con_sbufs con \<and> sb_mblk sbuf' = sb_mblk sbuf \<and> sb_con sbuf' = sb_con sbuf"
  using assms unfolding ioc_make_data_frame_def Let_def
  by (elim bind_eq_Some_conv [THEN iffD1, elim_format] exE conjE; clarsimp simp: same_shape_def con_shape_def con_cursors_def split: if_splits Option.bind_splits)

lemma send_data_frame:
  assumes s: "send_data env root con = Some (con', ev)" and f: "select_sbuf root (visit_order con) con = Some (Some r, con1, e1)"
  obtains sbuf sbuf' con3 where "map_of (con_sbufs con1) r = Some sbuf"
    "same_shape (con1\<lparr>con_current := next_ref r (map fst (con_sbufs con1))\<rparr>) con3" "con_sbufs con3 = con_sbufs con1"
    "sb_mblk sbuf' = sb_mblk sbuf" "sb_con sbuf' = sb_con sbuf" "con' = set_sbuf r sbuf' con3"
proof -
  define con2 where "con2 = con1\<lparr>con_current := next_ref r (map fst (con_sbufs con1))\<rparr>"
  obtain sbuf p buf and mblk :: iocMemoryBlock where m: "map_of (con_sbufs con1) r = Some sbuf"
    "ioc_make_data_frame (en_checksum env) (en_past env) (mb_cbs mblk) buf con2 sbuf = Some p"
    "(case p of (con3, sbuf', e2) \<Rightarrow> Some (set_sbuf r sbuf' con3, e1 @ e2)) = Some (con', ev)"
    using s unfolding send_data_def f Let_def bind.bind_lunit prod.case option.case con2_def [symmetric]
    by (elim bind_SomeE) blast
  obtain con3 sbuf' e2 where p: "p = (con3, sbuf', e2)" by (cases p) auto
  show thesis
    using that [OF m(1), of con3 sbuf'] make_data_frame_shape [OF m(2) [unfolded p]] m(3) by (simp add: p con2_def)
qed

lemma send_data_ok:
  assumes l: "con_ok_links B c con" and s: "send_data env root con = Some (con', ev)"
  shows "con_shape con' = con_shape con \<and> con_ok_links B c con'"
proof -
  have d: "distinct (map fst (con_sbufs con))" using l by (simp add: con_ok_links_def)
  obtain found con1 e1 where f: "select_sbuf root (visit_order con) con = Some (found, con1, e1)"
    using s by (auto simp: send_data_def split: Option.bind_splits)
  have sh: "same_shape con con1" by (rule select_sbuf_shape [OF f d])
  have l1: "con_ok_links B c con1" by (rule same_shape_con_ok [OF sh l])
  have s1: "con_shape con1 = con_shape con" using sh by (simp add: same_shape_def)
  show ?thesis
  proof (cases found)
    case None
    then show ?thesis using s f l1 s1 by (simp add: send_data_def)
  next
    case (Some r)
    define con2 where "con2 = con1\<lparr>con_current := next_ref r (map fst (con_sbufs con1))\<rparr>"
    obtain sbuf sbuf' con3 where m: "map_of (con_sbufs con1) r = Some sbuf" "same_shape con2 con3" "con_sbufs con3 = con_sbufs con1"
      "sb_mblk sbuf' = sb_mblk sbuf" "sb_con sbuf' = sb_con sbuf" "con' = set_sbuf r sbuf' con3"
      using send_data_frame [OF s f [unfolded Some]] unfolding con2_def by blast
    have d1: "distinct (map fst (con_sbufs con1))" using l1 by (simp add: con_ok_links_def)
    have n: "points_into (next_ref r (map fst (con_sbufs con1))) (fst ` set (con_sbufs con1))"
      using next_ref_in [OF d1, of r] by (cases "next_ref r (map fst (con_sbufs con1))") auto
    have l2: "con_ok_links B c con2" using l1 n by (simp add: con2_def con_ok_links_def)
    have s2: "con_shape con2 = con_shape con1" by (simp add: con2_def con_shape_def)
    note sh3 = m(2)
    have l3: "con_ok_links B c con3" by (rule same_shape_con_ok [OF sh3 l2])
    have sh4: "same_shape con3 con'" unfolding m(6) by (rule set_sbuf_sync_shape [of _ r sbuf]) (use d1 m in simp_all)
    have "con_ok_links B c con'" by (rule same_shape_con_ok [OF sh4 l3])
    then show ?thesis using s1 s2 sh3 sh4 by (simp add: same_shape_def)
  qed
qed

lemma mbinfo_sent_shape:
  assumes "links_ok root" and "con_ok_links (set (rt_mblk_refs root)) c con" and "ioc_mbinfo_sent root b con = Some con'"
  shows "con_shape con' = con_shape con" and "con_ok_links (set (rt_mblk_refs root)) c con'"
  using mbinfo_sent_ok [OF assms] by (simp_all add: con_shape_def)

lemma get_mbinfo_ok:
  "ioc_get_mbinfo_to_send root con = Some y \<Longrightarrow> links_ok root \<Longrightarrow> con_ok_links (set (rt_mblk_refs root)) c con \<Longrightarrow>
    con_shape (snd y) = con_shape con \<and> con_ok_links (set (rt_mblk_refs root)) c (snd y)"
proof (induction rule: ioc_get_mbinfo_to_send.raw_induct [rotated, consumes 1])
  case (1 f root con y)
  obtain m where m: "ioc_get_mbinfo_to_send2 con = Some m"
    "(if m = None then Some (None, con)
     else Option.bind (rt_mblk root (the m)) (\<lambda>mblk.
       if wants_info (rt_authorization root) con mblk then Some (m, con)
       else Option.bind (ioc_mbinfo_sent root (the m) con) (\<lambda>con'. f root con'))) = Some y"
    using "1.hyps" by (elim bind_SomeE)
  show ?case
  proof (cases "m = None")
    case True
    then have "y = (None, con)" using m(2) by simp
    then show ?thesis using "1.prems"(2) by simp
  next
    case False
    obtain mblk where k: "(if wants_info (rt_authorization root) con mblk then Some (m, con)
       else Option.bind (ioc_mbinfo_sent root (the m) con) (\<lambda>con'. f root con')) = Some y"
      using m(2) unfolding if_not_P [OF False] by (elim bind_SomeE)
    show ?thesis
    proof (cases "wants_info (rt_authorization root) con mblk")
      case True
      then have "y = (m, con)" using k by simp
      then show ?thesis using "1.prems"(2) by simp
    next
      case False
      obtain con1 where c1: "ioc_mbinfo_sent root (the m) con = Some con1" "f root con1 = Some y"
        using k unfolding if_not_P [OF False] by (elim bind_SomeE)
      note s = mbinfo_sent_shape [OF "1.prems" c1(1)]
      show ?thesis using "1.IH" [OF c1(2) "1.prems"(1) s(2)] s(1) by simp
    qed
  qed
qed

lemma make_frame_ok:
  assumes ok: "links_ok root" and l: "con_ok_links (set (rt_mblk_refs root)) c con" and m: "make_frame env root con = Some (con', ev)"
  shows "con_shape con' = con_shape con \<and> con_ok_links (set (rt_mblk_refs root)) c con'"
proof -
  have same: "same_shape con x \<Longrightarrow> con_shape x = con_shape con \<and> con_ok_links (set (rt_mblk_refs root)) c x" for x
    using same_shape_con_ok [OF _ l] by (simp add: same_shape_def)
  consider "con' = con" | "ioc_make_authentication_message (en_uid env) (en_no_chain env) (en_checksum env) root con = Some con'"
    | (sends) "\<not> (has_flag (con_flags con) IOC_CONNECT_UP \<and> \<not> con_authentication_received con)" "con_authentication_sent con" "con_authentication_received con"
    using m by (auto simp: make_frame_def split: if_splits Option.bind_splits)
  then show ?thesis
  proof cases
    case 1
    then show ?thesis using l by simp
  next
    case 2
    then show ?thesis using same [OF make_authentication_shape] by blast
  next
    case sends
    obtain st con1 where r: "ioc_make_remove_mblk_req_frame (en_put env) (en_checksum env) con = Some (st, con1)"
      and n: "(if st \<noteq> OSAL_COMPLETED then Some (con1, [])
       else do { (m, con2) \<leftarrow> ioc_get_mbinfo_to_send root con1;
         case m of Some b \<Rightarrow> do {
             mblk \<leftarrow> rt_mblk root b;
             (st', con3) \<leftarrow> ioc_make_mblk_info_frame (en_checksum env) con2 mblk;
             con4 \<leftarrow> (if st' \<noteq> OSAL_SUCCESS then Some con3 else ioc_mbinfo_sent root b con3);
             Some (con4, []) }
         | None \<Rightarrow> send_data env root con2 }) = Some (con', ev)"
      using m sends unfolding make_frame_def by (simp only: if_False if_True not_True_eq_False) (elim bind_SomeE, simp only: split_paired_all prod.case)
    have s1: "same_shape con con1" by (rule make_remove_frame_shape [OF r])
    have l1: "con_ok_links (set (rt_mblk_refs root)) c con1" by (rule same_shape_con_ok [OF s1 l])
    show ?thesis
    proof (cases "st = OSAL_COMPLETED")
      case False
      then show ?thesis using n same [OF s1] by simp
    next
      case True
      obtain q con2 where g: "ioc_get_mbinfo_to_send root con1 = Some (q, con2)"
        and n2: "(case q of Some b \<Rightarrow> do {
             mblk \<leftarrow> rt_mblk root b;
             (st', con3) \<leftarrow> ioc_make_mblk_info_frame (en_checksum env) con2 mblk;
             con4 \<leftarrow> (if st' \<noteq> OSAL_SUCCESS then Some con3 else ioc_mbinfo_sent root b con3);
             Some (con4, []) }
         | None \<Rightarrow> send_data env root con2) = Some (con', ev)"
        using n True by (simp only: simp_thms if_False) (elim bind_SomeE, simp only: split_paired_all prod.case)
      have s2: "con_shape con2 = con_shape con" "con_ok_links (set (rt_mblk_refs root)) c con2"
        using get_mbinfo_ok [OF g ok l1] s1 by (simp_all add: same_shape_def)
      show ?thesis
      proof (cases q)
        case None
        then show ?thesis using send_data_ok [OF s2(2)] n2 s2(1) by simp
      next
        case (Some b)
        obtain mblk st' con3 where i: "ioc_make_mblk_info_frame (en_checksum env) con2 mblk = Some (st', con3)"
          "(if st' \<noteq> OSAL_SUCCESS then Some con3 else ioc_mbinfo_sent root b con3) = Some con'"
          using n2 Some by (auto split: Option.bind_splits)
        have s3: "same_shape con2 con3" by (rule make_mblk_info_shape [OF i(1)])
        have l3: "con_ok_links (set (rt_mblk_refs root)) c con3" by (rule same_shape_con_ok [OF s3 s2(2)])
        show ?thesis using mbinfo_sent_shape [OF ok l3, of b con'] i(2) s2 s3 l3 by (auto simp: same_shape_def split: if_splits)
      qed
    qed
  qed
qed

section \<open>Sending keeps the bindings\<close>

text \<open>The state of a connection apart from its root, while the connection works on it.\<close>

definition in_step :: "nat \<Rightarrow> iocRoot \<Rightarrow> iocConnection \<Rightarrow> bool" where
  "in_step c root con \<longleftrightarrow> links_ok root \<and> con_ok_links (set (rt_mblk_refs root)) c con \<and>
     (\<exists>con0. rt_con root c = Some con0 \<and> con_shape con = con_shape con0)"

lemma in_step_start: "links_ok root \<Longrightarrow> rt_con root c = Some con \<Longrightarrow> in_step c root con"
  by (simp add: in_step_def links_con)

lemma in_step_shape: "in_step c root con \<Longrightarrow> con_shape con' = con_shape con \<Longrightarrow> con_ok_links (set (rt_mblk_refs root)) c con' \<Longrightarrow> in_step c root con'"
  by (auto simp: in_step_def)

lemma in_step_same: "in_step c root con \<Longrightarrow> same_shape con con' \<Longrightarrow> in_step c root con'"
  using same_shape_con_ok [of con con' "set (rt_mblk_refs root)" c] by (auto simp: in_step_def same_shape_def)

lemma in_step_end: "in_step c root con \<Longrightarrow> same_binding root (set_con c con root)"
  unfolding in_step_def using set_con_shape by blast

lemma send_keeps_binding:
  assumes ok: "links_ok root" and s: "ioc_connection_send env sw tnow c root = Some (st, root', ev)"
  shows "same_binding root root'"
proof -
  obtain con where c: "rt_con root c = Some con" using s unfolding ioc_connection_send_def by (elim bind_SomeE)
  note i0 = in_step_start [OF ok c]
  have move: "same_binding root root'" if i: "in_step c root x"
    and w: "(do { (status, con') \<leftarrow> ioc_write_to_stream sw tnow x; Some (status, set_con c con' root, e) }) = Some (st, root', ev)" for x e
  proof -
    obtain y where y: "ioc_write_to_stream sw tnow x = Some (st, y)" "root' = set_con c y root" using w by (auto split: Option.bind_splits)
    show ?thesis unfolding y(2) by (rule in_step_end [OF in_step_same [OF i write_to_stream_shape [OF y(1)]]])
  qed
  show ?thesis
  proof (cases "fo_used con \<noteq> 0")
    case True
    then show ?thesis using s c move [OF i0] unfolding ioc_connection_send_def by simp
  next
    case False
    obtain a con1 where a: "ioc_acknowledge_as_needed sw tnow con = Some (a, con1)"
      and n: "(if a = OSAL_PENDING then (do { (status, con') \<leftarrow> ioc_write_to_stream sw tnow con1; Some (status, set_con c con' root, []) })
       else if a \<noteq> OSAL_SUCCESS then Some (OSAL_STATUS_FAILED, set_con c con1 root, [])
       else if fo_used con1 \<noteq> 0 then Some (OSAL_PENDING, set_con c con1 root, [])
       else do { (con2, ev) \<leftarrow> make_frame env root con1;
         (status, con') \<leftarrow> ioc_write_to_stream sw tnow con2; Some (status, set_con c con' root, ev) }) = Some (st, root', ev)"
      using s c False unfolding ioc_connection_send_def by (auto split: Option.bind_splits)
    have i1: "in_step c root con1" by (rule in_step_same [OF i0 acknowledge_as_needed_shape [OF a]])
    show ?thesis
    proof (cases "a = OSAL_SUCCESS \<and> fo_used con1 = 0")
      case True
      then obtain con2 e where m: "make_frame env root con1 = Some (con2, e)"
        "(do { (status, con') \<leftarrow> ioc_write_to_stream sw tnow con2; Some (status, set_con c con' root, e) }) = Some (st, root', ev)"
        using n by (auto split: Option.bind_splits)
      have "con_shape con2 = con_shape con1 \<and> con_ok_links (set (rt_mblk_refs root)) c con2"
        by (rule make_frame_ok [OF ok _ m(1)]) (use i1 in \<open>simp add: in_step_def\<close>)
      then show ?thesis using move [OF in_step_shape [OF i1] m(2)] by blast
    next
      case False
      then show ?thesis using n move [OF i1] in_step_end [OF i1] by (auto split: if_splits)
    qed
  qed
qed

section \<open>Receiving keeps the links\<close>

text \<open>The references for new objects are not in use.\<close>

definition fresh_refs :: "env \<Rightarrow> iocRoot \<Rightarrow> bool" where
  "fresh_refs env root \<longleftrightarrow> en_rm env \<notin> set (rt_mblk_refs root) \<and> en_rs env \<notin> fst ` sb_links root \<and> en_rt env \<notin> fst ` tb_links root"

lemma remove_frame_keeps_links:
  assumes "links_ok root" and "c \<in> set (rt_con_refs root)"
  shows "process_requests get got c k p root = Some (root', ev) \<Longrightarrow> links_ok root'"
  using assms
proof (induction k arbitrary: p root ev)
  case (Suc k)
  obtain i n where g: "get p = (i, n)" by fastforce
  obtain con root1 e1 e2 where s: "rt_con root c = Some con"
    "(case find_bound_mblk root con i of None \<Rightarrow> Some (root, []) | Some b \<Rightarrow> ioc_remove_mblk_by_request got c b root) = Some (root1, e1)"
    "process_requests get got c k (drop n p) root1 = Some (root', e2)"
    using Suc.prems(1) g by (auto split: Option.bind_splits)
  have "links_ok root1 \<and> c \<in> set (rt_con_refs root1)"
  proof (cases "find_bound_mblk root con i")
    case (Some b)
    then obtain mblk where "rt_mblk root b = Some mblk"
      using find_bound_some [OF s(1)] links_mblk [OF Suc.prems(2)] bound_to_mblk [OF Suc.prems(2)] by blast
    from remove_by_request_ok [OF Suc.prems(2) s(1) this, of got] show ?thesis using s(2) Some Suc.prems(3) by auto
  qed (use s Suc.prems in simp)
  then show ?case using Suc.IH [OF s(3)] by blast
qed simp

lemma system_frame_keeps_links:
  assumes ok: "links_ok root" and f: "fresh_refs env root"
    and s: "ioc_process_received_system_frame env c mblk_id data root = Some (st, root', ev)"
  shows "links_ok root'"
proof -
  obtain b0 where b0: "rd data 0 = Some b0" using s unfolding ioc_process_received_system_frame_def by (elim bind_SomeE)
  consider (info) "ioc_process_received_mbinfo_frame (en_rand env) (en_newbuf env) (en_got env) (en_rm env) (en_rs env) (en_rt env) (en_auto_nr env)
         c mblk_id data root = Some (st, root', ev)"
    | (auth) "ioc_process_received_authentication_message (en_hash env) (en_int_str env) (en_pw_sz env) (length (en_uid env)) (en_authorize env)
            c mblk_id data root = Some (st, root')"
    | (remove) "ioc_process_remove_mblk_req_frame (en_get env) (en_got env) c mblk_id data root = Some (st, root', ev)"
    | (other) "root' = root"
    using s b0 unfolding ioc_process_received_system_frame_def by (auto split: if_splits)
  then show ?thesis
  proof cases
    case info
    show ?thesis by (rule received_info_keeps_links [OF ok _ _ _ info]) (use f in \<open>simp_all add: fresh_refs_def\<close>)
  next
    case auth
    show ?thesis using process_auth_keeps_links [OF ok auth] by (simp add: same_binding_def)
  next
    case remove
    show ?thesis
    proof (cases "mblk_id < 1 \<or> mblk_id > IOC_PACK_ABS_MAX_REQUESTS")
      case True
      then show ?thesis using remove ok by (auto simp: ioc_process_remove_mblk_req_frame_def)
    next
      case False
      then obtain e where p: "process_requests (en_get env) (en_got env) c (unat mblk_id) (drop 1 data) root = Some (root', e)"
        using remove by (auto simp: ioc_process_remove_mblk_req_frame_def split: Option.bind_splits)
      have "0 < unat mblk_id" using False by (simp add: word_less_nat_alt)
      then obtain k where "unat mblk_id = Suc k" using gr0_conv_Suc by auto
      then obtain con where "rt_con root c = Some con" using p by (auto split: Option.bind_splits prod.splits)
      then show ?thesis using remove_frame_keeps_links [OF ok links_con_refs [OF ok] p] by blast
    qed
  qed (use ok in simp)
qed

lemma system_frame_in_step:
  assumes i: "in_step c root con" and f: "fresh_refs env root"
    and s: "system_frame env c root con mblk_id data = Some (st, con', root', ev)"
  shows "in_step c root' con'"
proof -
  have b: "same_binding root (set_con c con root)" by (rule in_step_end [OF i])
  then have ok: "links_ok (set_con c con root)" and f': "fresh_refs env (set_con c con root)"
    using f by (simp_all add: same_binding_def fresh_refs_def)
  have r: "ioc_process_received_system_frame env c mblk_id data (set_con c con root) = Some (st, root', ev)" "rt_con root' c = Some con'"
    using s unfolding system_frame_def by (auto split: Option.bind_splits)
  have "links_ok root'" by (rule system_frame_keeps_links [OF ok f' r(1)])
  then show ?thesis using r(2) by (simp add: in_step_start)
qed

lemma store_keeps:
  assumes "ioc_store_data_frame cbs tbuf addr data n fl = Some (st, tbuf', ev)"
  shows "tb_mblk tbuf' = tb_mblk tbuf \<and> tb_con tbuf' = tb_con tbuf"
proof -
  have u: "uncompress_at data n t addr m fl = Some (k, t') \<Longrightarrow> tb_mblk t' = tb_mblk t \<and> tb_con t' = tb_con t" for t m k t'
    by (auto simp: uncompress_at_def Let_def split: Option.bind_splits if_splits)
  have i: "ioc_tbuf_invalidate cbs t a e = (t', ev') \<Longrightarrow> tb_mblk t' = tb_mblk t \<and> tb_con t' = tb_con t" for t a e t' ev'
    by (auto simp: ioc_tbuf_invalidate_def split: if_splits)
  have y: "ioc_tbuf_synchronize t = Some t' \<Longrightarrow> tb_mblk t' = tb_mblk t \<and> tb_con t' = tb_con t" for t t'
    by (auto simp: ioc_tbuf_synchronize_def Let_def split: option.splits Option.bind_splits if_splits)
  show ?thesis using assms unfolding ioc_store_data_frame_def Let_def
    by (auto dest!: u i y split: Option.bind_splits if_splits prod.splits)
qed

lemma find_tbuf_in: "find_tbuf mo i ts = Some (r, tbuf) \<Longrightarrow> (r, tbuf) \<in> set ts"
  by (induction mo i ts rule: find_tbuf.induct) (auto split: if_splits)

lemma data_frame_shape:
  assumes "distinct (map fst (con_tbufs con))"
    and d: "ioc_process_received_data_frame mo au con mblk_id addr data fl = Some (st, con', ev)"
  shows "same_shape con con'"
proof (cases "find_tbuf mo mblk_id (con_tbufs con)")
  case None
  then show ?thesis using d by (simp add: ioc_process_received_data_frame_def)
next
  case (Some x)
  obtain r tbuf where x: "x = (r, tbuf)" by fastforce
  show ?thesis
  proof (cases "ioc_is_network_authorized au con (mb_network_name (mo (tb_mblk tbuf))) 0")
    case False
    then show ?thesis using d Some x by (simp add: ioc_process_received_data_frame_def)
  next
    case True
    then obtain st' tbuf' ev' where s: "ioc_store_data_frame (mb_cbs (mo (tb_mblk tbuf))) tbuf addr data (length data) fl = Some (st', tbuf', ev')"
      "con' = set_tbuf r tbuf' con"
      using d Some x by (auto simp: ioc_process_received_data_frame_def split: Option.bind_splits)
    have "t = tbuf" if "(r, t) \<in> set (con_tbufs con)" for t
      using assms(1) that find_tbuf_in [of mo mblk_id "con_tbufs con" r tbuf] Some x by (metis eq_key_imp_eq_value)
    then show ?thesis using store_keeps [OF s(1)] by (auto simp: s(2) set_tbuf_def same_shape_def con_shape_def con_cursors_def)
  qed
qed

lemma receive_done_in_step:
  assumes i: "in_step c root con" and r: "receive_done (first_mblk root) con = (con', ev)"
  shows "in_step c root con'"
proof (rule in_step_shape [OF i])
  show "con_shape con' = con_shape con"
    using r by (auto simp: receive_done_def ioc_add_con_to_global_mbinfo_def con_shape_def Let_def split: if_splits)
  show "con_ok_links (set (rt_mblk_refs root)) c con'"
    using r i first_mblk_in [of "rt_mblk_refs root"]
    by (auto simp: in_step_def receive_done_def ioc_add_con_to_global_mbinfo_def con_ok_links_def first_mblk_def Let_def split: if_splits)
qed

lemma process_frame_in_step:
  assumes i: "in_step c root con" and f: "fresh_refs env root"
    and p: "process_frame cs mo au (system_frame env c) root con rfs = Some (ok, st, con', root', ev)"
  shows "in_step c root' con'"
proof -
  obtain good buf where g: "(if rfs_is_serial rfs then check_frame_sum cs (rfs_needed rfs) (rfs_buf rfs) else Some (True, rfs_buf rfs)) = Some (good, buf)"
    using p unfolding process_frame_def by (elim bind_SomeE) (metis surj_pair)
  define con1 where "con1 = con\<lparr>fi_buf := buf\<rparr>"
  have i1: "in_step c root con1" by (rule in_step_same [OF i]) (simp add: con1_def same_shape_def con_shape_def con_cursors_def)
  show ?thesis
  proof (cases good)
    case False
    then have "con' = con1" "root' = root" using p g by (simp_all add: process_frame_def con1_def)
    then show ?thesis using i1 by simp
  next
    case True
    obtain mblk_id addr p0 b0 where h: "parse_frame_header (rfs_is_serial rfs) (rfs_flags rfs) (rfs_extra_flags rfs) buf = Some (mblk_id, addr, p0)"
      "rd buf 0 = Some b0"
      using p g True by (auto simp: process_frame_def split: Option.bind_splits)
    define con2 where "con2 = con1\<lparr>fi_frame_nr := next_frame_in_nr b0\<rparr>"
    have i2: "in_step c root con2" by (rule in_step_same [OF i1]) (simp add: con2_def same_shape_def con_shape_def con_cursors_def)
    show ?thesis
    proof (cases "has_flag (rfs_flags rfs) IOC_SYSTEM_FRAME")
      case True
      then obtain st' ev' where s: "system_frame env c root con2 mblk_id (drop p0 buf) = Some (st', con', root', ev')"
        using p g \<open>good\<close> h by (auto simp: process_frame_def con1_def con2_def split: Option.bind_splits)
      show ?thesis by (rule system_frame_in_step [OF i2 f s])
    next
      case False
      then obtain data st' ev' where s: "ioc_process_received_data_frame mo au con2 mblk_id (sint addr) data (rfs_flags rfs) = Some (st', con', ev')"
        "root' = root"
        using p g True h by (auto simp: process_frame_def con1_def con2_def split: Option.bind_splits)
      have "distinct (map fst (con_tbufs con2))" using i2 by (simp add: in_step_def con_ok_links_def)
      then show ?thesis using in_step_same [OF i2 data_frame_shape [OF _ s(1)]] s(2) by simp
    qed
  qed
qed

lemma bookkeeping_in_step: "in_step c root con \<Longrightarrow> in_step c root (receive_bookkeeping tnow rfs con)"
  by (erule in_step_same) (simp add: receive_bookkeeping_def Let_def same_shape_def con_shape_def con_cursors_def)

lemma receive_in_step:
  assumes i: "in_step c root con" and f: "fresh_refs env root"
    and r: "ioc_connection_receive cs mo first_mblk au (system_frame env c) sr tnow root s con = Some (st, con', root', s', ev)"
  shows "in_step c root' con'"
proof -
  obtain status rfs s1 where a: "ioc_read_frame sr s (rfs_start con) = Some (status, rfs, s1)"
    using r unfolding ioc_connection_receive_def by (elim bind_SomeE) (metis surj_pair)
  define con1 where "con1 = receive_bookkeeping tnow rfs con"
  have i1: "in_step c root con1" unfolding con1_def by (rule bookkeeping_in_step [OF i])
  consider "status \<noteq> OSAL_SUCCESS" | "status = OSAL_SUCCESS" "rfs_n rfs < rfs_needed rfs" | (full) "status = OSAL_SUCCESS" "\<not> rfs_n rfs < rfs_needed rfs" by blast
  then show ?thesis
  proof cases
    case 1
    then have "same_shape con con'" "root' = root"
      using r a by (auto simp: ioc_connection_receive_def same_shape_def con_shape_def con_cursors_def)
    then show ?thesis using in_step_same [OF i] by blast
  next
    case 2
    then have "con' = con1" "root' = root" using r a by (simp_all add: ioc_connection_receive_def con1_def)
    then show ?thesis using i1 by simp
  next
    case full
    obtain b0 where b0: "rd (rfs_buf rfs) 0 = Some b0" using r a full by (auto simp: ioc_connection_receive_def Let_def split: Option.bind_splits)
    have n: "(if b0 = IOC_ACKNOWLEDGE then Option.bind (parse_ack (has_flag (con_flags con) IOC_SOCKET) (rfs_buf rfs)) (\<lambda>pr.
         let (con2, ev) = receive_done (first_mblk root) (con1\<lparr>con_processed_bytes := pr\<rparr>) in Some (OSAL_SUCCESS, con2, root, s1, ev))
       else Option.bind (process_frame cs mo au (system_frame env c) root con1 rfs) (\<lambda>(ok, st, con2, w', ev).
         if \<not> ok then Some (st, con2, w', s1, ev)
         else let (con3, ev') = receive_done (first_mblk w') con2 in Some (st, con3, w', s1, ev @ ev'))) = Some (st, con', root', s', ev)"
      using r a full b0 by (simp add: ioc_connection_receive_def con1_def Let_def split: if_splits)
    show ?thesis
    proof (cases "b0 = IOC_ACKNOWLEDGE")
      case True
      obtain pr where "(let (con2, ev) = receive_done (first_mblk root) (con1\<lparr>con_processed_bytes := pr\<rparr>) in
          Some (OSAL_SUCCESS, con2, root, s1, ev)) = Some (st, con', root', s', ev)"
        using n unfolding if_P [OF True] by (elim bind_SomeE)
      then have p: "receive_done (first_mblk root) (con1\<lparr>con_processed_bytes := pr\<rparr>) = (con', ev)" "root' = root" by (auto simp: Let_def split: prod.splits)
      have "in_step c root (con1\<lparr>con_processed_bytes := pr\<rparr>)"
        by (rule in_step_same [OF i1]) (simp add: same_shape_def con_shape_def con_cursors_def)
      then show ?thesis using receive_done_in_step p by blast
    next
      case False
      obtain y where y: "process_frame cs mo au (system_frame env c) root con1 rfs = Some y"
        "(case y of (ok, st, con2, w', ev) \<Rightarrow> if \<not> ok then Some (st, con2, w', s1, ev)
         else let (con3, ev') = receive_done (first_mblk w') con2 in Some (st, con3, w', s1, ev @ ev')) = Some (st, con', root', s', ev)"
        using n unfolding if_not_P [OF False] by (elim bind_SomeE)
      obtain ok st2 con2 w2 ev2 where p: "y = (ok, st2, con2, w2, ev2)" by (cases y) auto
      have d: "w2 = root'" "con' = con2 \<or> (\<exists>e. receive_done (first_mblk root') con2 = (con', e))"
        using y(2) unfolding p by (auto simp: Let_def split: if_splits prod.splits)
      have "in_step c root' con2" by (rule process_frame_in_step [OF i1 f]) (use y(1) p d(1) in simp)
      then show ?thesis using d(2) receive_done_in_step by blast
    qed
  qed
qed

lemma root_receive_keeps_links:
  assumes ok: "links_ok root" and f: "fresh_refs env root" and r: "root_receive env sr tnow c s root = Some (st, root', s', ev)"
  shows "links_ok root'"
proof -
  obtain con where c: "rt_con root c = Some con" using r unfolding root_receive_def by (elim bind_SomeE)
  then obtain con' root1 s1 ev1 st1 where p: "ioc_connection_receive (en_checksum env) (\<lambda>b. the (rt_mblk root b)) first_mblk (rt_authorization root)
      (system_frame env c) sr tnow root s con = Some (st1, con', root1, s1, ev1)" "root' = set_con c con' root1"
    using r unfolding root_receive_def by (auto split: Option.bind_splits)
  show ?thesis using in_step_end [OF receive_in_step [OF in_step_start [OF ok c] f p(1)]] p(2) by (simp add: same_binding_def)
qed

section \<open>Losing and releasing a connection\<close>

text \<open>
  The label \<open>failed\<close> of \<open>ioc_run_connection\<close>: the object stays and connects again later, but its buffers
  and its place in the memory block information are gone.
\<close>

definition connection_dropped :: "nat \<Rightarrow> bool \<Rightarrow> nat \<Rightarrow> iocRoot \<Rightarrow> (iocRoot \<times> ioc_event list) option" where
  "connection_dropped tnow got c root = do {
     con \<leftarrow> rt_con root c;
     if \<not> con_connected con then Some (set_con c (ioc_close_stream con) root, [])
     else do {
       (root1, ev) \<leftarrow> ioc_free_source_and_target_bufs got c
         (set_con c ((ioc_reset_connection_state tnow con)\<lparr>con_connected := False\<rparr>) root);
       con1 \<leftarrow> rt_con root1 c;
       Some (set_con c (ioc_close_stream (ioc_mbinfo_con_is_closed con1)) root1,
             ioc_do_connection_callback con IOC_CONNECTION_DROPPED @ ev) } }"

text \<open>The application releases the object: it leaves the list of the root.\<close>

definition ioc_release_connection :: "bool \<Rightarrow> nat \<Rightarrow> iocRoot \<Rightarrow> (iocRoot \<times> ioc_event list) option" where
  "ioc_release_connection got c root = do {
     con \<leftarrow> rt_con root c;
     (root1, ev) \<leftarrow> ioc_free_source_and_target_bufs got c
       (set_con c (ioc_mbinfo_con_is_closed (ioc_close_stream con)) root);
     Some (root1\<lparr>rt_con := (rt_con root1)(c := None), rt_con_refs := filter (\<lambda>x. x \<noteq> c) (rt_con_refs root1)\<rparr>, ev) }"

lemma close_stream_ok [simp]: "con_ok_links B c (ioc_close_stream con) = con_ok_links B c con"
  "con_shape (ioc_close_stream con) = con_shape con"
  by (auto simp: ioc_close_stream_def con_ok_links_def con_shape_def)

lemma mbinfo_closed_ok: "con_shape (ioc_mbinfo_con_is_closed con) = con_shape con"
  "con_ok_links B c con \<Longrightarrow> con_ok_links B c (ioc_mbinfo_con_is_closed con)"
  by (auto simp: ioc_mbinfo_con_is_closed_def con_ok_links_def con_shape_def)

lemma reset_state_shape: "same_shape con ((ioc_reset_connection_state tnow con)\<lparr>con_connected := b\<rparr>)"
  by (auto simp: ioc_reset_connection_state_def same_shape_def con_shape_def con_cursors_def reset_sbuf_def reset_tbuf_def)

lemma set_con_keeps_links:
  assumes "links_ok root" and "rt_con root c = Some con" and "con_shape con' = con_shape con" and "con_ok_links (set (rt_mblk_refs root)) c con'"
  shows "links_ok (set_con c con' root)"
  using set_con_shape [OF assms] by (simp add: same_binding_def)

lemma connection_dropped_ok:
  assumes ok: "links_ok root" and d: "connection_dropped tnow got c root = Some (root', ev)"
  shows "links_ok root'"
proof -
  obtain con where c: "rt_con root c = Some con" using d unfolding connection_dropped_def by (elim bind_SomeE)
  note l = links_con [OF ok c]
  show ?thesis
  proof (cases "con_connected con")
    case False
    then show ?thesis using d c set_con_keeps_links [OF ok c, of "ioc_close_stream con"] l by (simp add: connection_dropped_def)
  next
    case True
    define con0 where "con0 = (ioc_reset_connection_state tnow con)\<lparr>con_connected := False\<rparr>"
    have s0: "same_shape con con0" unfolding con0_def by (rule reset_state_shape)
    have ok0: "links_ok (set_con c con0 root)"
      by (rule set_con_keeps_links [OF ok c _ same_shape_con_ok [OF s0 l]]) (use s0 in \<open>simp add: same_shape_def\<close>)
    have "rt_con (set_con c con0 root) c = Some con0" by (simp add: set_con_def)
    then obtain root1 ev1 con1 where f: "ioc_free_source_and_target_bufs got c (set_con c con0 root) = Some (root1, ev1)"
      "links_ok root1" "rt_con root1 c = Some con1" using free_source_and_target_bufs_ok [OF ok0] by metis
    have "root' = set_con c (ioc_close_stream (ioc_mbinfo_con_is_closed con1)) root1"
      using d c True f(1,3) by (simp add: connection_dropped_def con0_def)
    then show ?thesis
      using set_con_keeps_links [OF f(2,3)] links_con [OF f(2,3)] by (simp add: mbinfo_closed_ok)
  qed
qed

lemma remove_connection_ok:
  assumes ok: "links_ok root" and c: "rt_con root c = Some con" and e: "con_sbufs con = []" "con_tbufs con = []"
  shows "links_ok (root\<lparr>rt_con := (rt_con root)(c := None), rt_con_refs := filter (\<lambda>x. x \<noteq> c) (rt_con_refs root)\<rparr>)"
proof -
  define r where "r = root\<lparr>rt_con := (rt_con root)(c := None), rt_con_refs := filter (\<lambda>x. x \<noteq> c) (rt_con_refs root)\<rparr>"
  have "(x, y, b) \<in> sb_links r \<longleftrightarrow> (x, y, b) \<in> sb_links root" "(x, y, b) \<in> tb_links r \<longleftrightarrow> (x, y, b) \<in> tb_links root" for x y b
    using c e by (cases "y = c"; simp add: sb_links_def tb_links_def r_def)+
  then have "sb_links r = sb_links root" "tb_links r = tb_links root" by auto
  moreover have "sb_refs r = sb_refs root" "tb_refs r = tb_refs root" by (simp_all add: sb_refs_def tb_refs_def r_def)
  moreover have "dom (rt_con r) = set (rt_con_refs r)" using ok by (auto simp: links_ok_def r_def)
  moreover have "\<forall>x y. rt_con r x = Some y \<longrightarrow> con_ok_links (set (rt_mblk_refs root)) x y"
    using ok by (auto simp: links_ok_def r_def)
  moreover have "rt_mblk r = rt_mblk root" "rt_mblk_refs r = rt_mblk_refs root" by (simp_all add: r_def)
  ultimately have "links_ok r" using ok unfolding links_ok_def by metis
  then show ?thesis by (simp add: r_def)
qed

lemma release_connection_ok:
  assumes ok: "links_ok root" and d: "ioc_release_connection got c root = Some (root', ev)"
  shows "links_ok root'"
proof -
  obtain con where c: "rt_con root c = Some con" using d unfolding ioc_release_connection_def by (elim bind_SomeE)
  define con0 where "con0 = ioc_mbinfo_con_is_closed (ioc_close_stream con)"
  have ok0: "links_ok (set_con c con0 root)"
    by (rule set_con_keeps_links [OF ok c]) (use links_con [OF ok c] in \<open>simp_all add: con0_def mbinfo_closed_ok\<close>)
  have "rt_con (set_con c con0 root) c = Some con0" by (simp add: set_con_def)
  then obtain root1 ev1 con1 where f: "ioc_free_source_and_target_bufs got c (set_con c con0 root) = Some (root1, ev1)"
    "links_ok root1" "rt_con root1 c = Some con1" "con_sbufs con1 = []" "con_tbufs con1 = []"
    using free_source_and_target_bufs_ok [OF ok0] by metis
  then show ?thesis using d c remove_connection_ok [OF f(2-5)] by (simp add: ioc_release_connection_def con0_def)
qed

section \<open>Reachable states\<close>

text \<open>
  What can happen to the objects of a root, in any order: a connection sends or receives, the application
  adds a connection or a memory block, deletes a block, a connection is lost or closed, and the
  application releases a connection.
\<close>

inductive root_step :: "iocRoot \<Rightarrow> iocRoot \<Rightarrow> bool" where
  sends: "ioc_connection_send env stream_write tnow c root = Some (st, root', ev) \<Longrightarrow> root_step root root'"
| receives: "fresh_refs env root \<Longrightarrow> root_receive env (stream_read :: byte list stream_read) tnow c s root = Some (st, root', s', ev) \<Longrightarrow> root_step root root'"
| new_block: "b \<notin> set (rt_mblk_refs root) \<Longrightarrow> ioc_initialize_memory_block rand is_static got_obj got_buf b prm root = Some (st, root') \<Longrightarrow> root_step root root'"
| deletes_block: "ioc_release_memory_block b root = Some (root', ev) \<Longrightarrow> root_step root root'"
| new_connection: "c \<notin> set (rt_con_refs root) \<Longrightarrow> con_sbufs con = [] \<Longrightarrow> con_tbufs con = [] \<Longrightarrow>
    con_cursors con = (None, None, None, None, None) \<Longrightarrow> root_step root ((set_con c con root)\<lparr>rt_con_refs := rt_con_refs root @ [c]\<rparr>)"
| closes: "ioc_free_source_and_target_bufs got c root = Some (root', ev) \<Longrightarrow> root_step root root'"
| drops: "connection_dropped tnow got c root = Some (root', ev) \<Longrightarrow> root_step root root'"
| releases: "ioc_release_connection got c root = Some (root', ev) \<Longrightarrow> root_step root root'"

definition empty_root :: "iocRoot \<Rightarrow> bool" where
  "empty_root root \<longleftrightarrow> rt_mblk_refs root = [] \<and> rt_con_refs root = [] \<and> rt_mblk root = Map.empty \<and> rt_con root = Map.empty"

lemma new_connection_ok:
  assumes ok: "links_ok root" and c: "c \<notin> set (rt_con_refs root)" and e: "con_sbufs con = []" "con_tbufs con = []"
    "con_cursors con = (None, None, None, None, None)"
  shows "links_ok ((set_con c con root)\<lparr>rt_con_refs := rt_con_refs root @ [c]\<rparr>)"
proof -
  define r where "r = (set_con c con root)\<lparr>rt_con_refs := rt_con_refs root @ [c]\<rparr>"
  have n: "rt_con root c = None" using ok c unfolding links_ok_def by blast
  have "(x, y, b) \<in> sb_links r \<longleftrightarrow> (x, y, b) \<in> sb_links root" "(x, y, b) \<in> tb_links r \<longleftrightarrow> (x, y, b) \<in> tb_links root" for x y b
    using n e by (cases "y = c"; simp add: sb_links_def tb_links_def set_con_def r_def)+
  then have "sb_links r = sb_links root" "tb_links r = tb_links root" by auto
  moreover have "sb_refs r = sb_refs root" "tb_refs r = tb_refs root" by (simp_all add: sb_refs_def tb_refs_def set_con_def r_def)
  moreover have "dom (rt_con r) = set (rt_con_refs r)" using ok by (simp add: links_ok_def set_con_def r_def)
  moreover have "con_ok_links (set (rt_mblk_refs root)) c con" using e by (simp add: con_ok_links_def con_cursors_def)
  then have "\<forall>x y. rt_con r x = Some y \<longrightarrow> con_ok_links (set (rt_mblk_refs root)) x y"
    using ok by (auto simp: set_con_def links_ok_def r_def)
  moreover have "rt_mblk r = rt_mblk root" "rt_mblk_refs r = rt_mblk_refs root" by (simp_all add: set_con_def r_def)
  ultimately have "links_ok r" using ok unfolding links_ok_def by metis
  then show ?thesis by (simp add: r_def)
qed

lemma root_step_ok: "root_step root root' \<Longrightarrow> links_ok root \<Longrightarrow> links_ok root'"
proof (induction rule: root_step.induct)
  case (sends env stream_write tnow c root st root' ev)
  then show ?case using send_keeps_binding by (simp add: same_binding_def)
next
  case (receives env root stream_read tnow c s st root' s' ev)
  show ?case by (rule root_receive_keeps_links [OF receives(3,1,2)])
next
  case (new_block b root rand is_static got_obj got_buf prm st root')
  then show ?case using initialize_memory_block_ok by blast
next
  case (deletes_block b root root' ev)
  then obtain mblk where "rt_mblk root b = Some mblk" unfolding ioc_release_memory_block_def by (elim bind_SomeE)
  then show ?case using release_memory_block_ok [OF deletes_block(2)] deletes_block(1) by fastforce
next
  case (new_connection c root con)
  then show ?case using new_connection_ok by blast
next
  case (closes got c root root' ev)
  then obtain con where "rt_con root c = Some con" unfolding ioc_free_source_and_target_bufs_def by (elim bind_SomeE)
  then show ?case using free_source_and_target_bufs_ok [OF closes(2), of c con got] closes(1) by (metis option.inject prod.inject)
next
  case (drops tnow got c root root' ev)
  then show ?case using connection_dropped_ok by blast
next
  case (releases got c root root' ev)
  then show ?case using release_connection_ok by blast
qed

lemma empty_root_ok: "empty_root root \<Longrightarrow> links_ok root"
  by (simp add: empty_root_def links_ok_def sb_links_def tb_links_def sb_refs_def tb_refs_def agree_on_def)

interpretation root_run: step_invariant empty_root root_step links_ok
  by unfold_locales (auto intro: empty_root_ok root_step_ok)

text \<open>
  \<^bold>\<open>C4\<close> The pointers under a root are valid at all times: whatever sequence of sends, receptions of
  arbitrary bytes, block creations and deletions, new, lost, closed and released connections follows on an empty root, connections
  and blocks agree on their source and target buffers, and every cursor of a connection is at an object that
  exists.
\<close>

theorem root_pointers_valid:
  assumes "empty_root root" and "root_step\<^sup>*\<^sup>* root root'"
  shows "links_ok root'"
  by (rule root_run.inv_reachable [OF assms])

section \<open>Taking turns\<close>

definition sb_pending :: "iocConnection \<Rightarrow> nat \<Rightarrow> bool" where
  "sb_pending con r \<longleftrightarrow> (case map_of (con_sbufs con) r of None \<Rightarrow> False | Some sbuf \<Rightarrow> sb_used sbuf \<and> sb_remote_mblk_id sbuf \<noteq> 0)"

text \<open>How many buffers are looked at before this one.\<close>

definition distance :: "iocConnection \<Rightarrow> nat \<Rightarrow> nat" where
  "distance con r = length (takeWhile (\<lambda>x. x \<noteq> r) (visit_order con))"

lemma map_of_set_sbuf: "y \<noteq> r \<Longrightarrow> map_of (con_sbufs (set_sbuf y s con)) r = map_of (con_sbufs con) r"
proof -
  assume "y \<noteq> r"
  then have "map_of (map (\<lambda>(k, x). (k, if k = y then s else x)) xs) r = map_of xs r" for xs :: "(nat \<times> iocSourceBuffer) list"
    by (induction xs) auto
  then show ?thesis by (simp add: set_sbuf_def)
qed

lemma set_sbuf_self: "distinct (map fst (con_sbufs con)) \<Longrightarrow> map_of (con_sbufs con) r = Some s \<Longrightarrow> set_sbuf r s con = con"
proof -
  assume d: "distinct (map fst (con_sbufs con))" and m: "map_of (con_sbufs con) r = Some s"
  have "(k, if k = r then s else x) = (k, x)" if "(k, x) \<in> set (con_sbufs con)" for k x
    using map_of_is_SomeI [OF d that] m by auto
  then have "map (\<lambda>(k, x). (k, if k = r then s else x)) (con_sbufs con) = con_sbufs con" by (intro map_idI) auto
  then show ?thesis by (simp add: set_sbuf_def)
qed

text \<open>The search only changes source buffers other than the one that is pending.\<close>

definition searched :: "nat \<Rightarrow> iocConnection \<Rightarrow> iocConnection \<Rightarrow> bool" where
  "searched r con con' \<longleftrightarrow> (\<exists>ss. con' = con\<lparr>con_sbufs := ss\<rparr> \<and> map fst ss = map fst (con_sbufs con) \<and>
     map_of ss r = map_of (con_sbufs con) r)"

lemma searched_refl: "searched r con con"
  unfolding searched_def by (rule exI [of _ "con_sbufs con"]) simp

lemma searched_set_sbuf: "y \<noteq> r \<Longrightarrow> searched r con (set_sbuf y s con)"
  unfolding searched_def using map_of_set_sbuf [of y r s con]
  by (intro exI [of _ "con_sbufs (set_sbuf y s con)"]) (auto simp: set_sbuf_def)

lemma searched_trans: "searched r con con1 \<Longrightarrow> searched r con1 con2 \<Longrightarrow> searched r con con2"
  unfolding searched_def by auto

lemma select_first_pending:
  "select_sbuf root rs con = Some (found, con', ev) \<Longrightarrow> r \<in> set rs \<Longrightarrow> sb_pending con r \<Longrightarrow>
    searched r con con' \<and> (\<exists>x pre post. found = Some x \<and> rs = pre @ x # post \<and> r \<notin> set pre)"
proof (induction rs arbitrary: con ev)
  case (Cons y rs)
  have split: "\<exists>x pre post. found = Some x \<and> y # rs = pre @ x # post \<and> r \<notin> set pre"
    if "\<exists>x pre post. found = Some x \<and> rs = pre @ x # post \<and> r \<notin> set pre" and "y \<noteq> r"
  proof -
    obtain x pre post where "found = Some x" "rs = pre @ x # post" "r \<notin> set pre" using \<open>\<exists>x pre post. _ x pre post\<close> by blast
    then have "found = Some x \<and> y # rs = (y # pre) @ x # post \<and> r \<notin> set (y # pre)" using \<open>y \<noteq> r\<close> by simp
    then show ?thesis by blast
  qed
  have front: "\<exists>x pre post. found = Some x \<and> y # rs = pre @ x # post \<and> r \<notin> set pre" if "found = Some y"
    by (rule exI [of _ y], rule exI [of _ "[]"], rule exI [of _ rs]) (use that in simp)
  from Cons.prems(1) show ?case
  proof (cases rule: select_sbuf_step)
    case (pick sbuf)
    then show ?thesis using front searched_refl by simp
  next
    case (skip sbuf)
    then have "y \<noteq> r" using Cons.prems(3) by (auto simp: sb_pending_def)
    then show ?thesis using split Cons.IH [OF skip(3) _ Cons.prems(3)] Cons.prems(2) by simp
  next
    case (kept sbuf sbuf')
    then have "y \<noteq> r" using Cons.prems(3) by (auto simp: sb_pending_def)
    then show ?thesis using front [OF kept(5)] searched_set_sbuf kept(6) by simp
  next
    case (synced sbuf sbuf' ev')
    then have n: "y \<noteq> r" using Cons.prems(3) by (auto simp: sb_pending_def)
    have "sb_pending (set_sbuf y sbuf' con) r" using Cons.prems(3) map_of_set_sbuf [OF n] by (simp add: sb_pending_def)
    then have "searched r (set_sbuf y sbuf' con) con'" "\<exists>x pre post. found = Some x \<and> rs = pre @ x # post \<and> r \<notin> set pre"
      using Cons.IH [OF synced(5)] Cons.prems(2) n by simp_all
    then show ?thesis using split n searched_trans [OF searched_set_sbuf [OF n]] by blast
  qed
qed simp

definition order_from :: "nat list \<Rightarrow> nat option \<Rightarrow> nat list" where
  "order_from refs cur = (case cur of None \<Rightarrow> refs | Some r \<Rightarrow> dropWhile (\<lambda>x. x \<noteq> r) refs @ takeWhile (\<lambda>x. x \<noteq> r) refs)"

lemma visit_order_from: "visit_order con = order_from (map fst (con_sbufs con)) (con_current con)"
  by (simp add: visit_order_def order_from_def Let_def split: option.splits)

lemma order_from_members: "set (order_from refs cur) = set refs" "length (order_from refs cur) = length refs"
proof -
  have "set (takeWhile P refs) \<union> set (dropWhile P refs) = set refs" for P by (metis set_append takeWhile_dropWhile_id)
  then show "set (order_from refs cur) = set refs" by (auto simp: order_from_def split: option.splits)
  have "length (takeWhile P refs) + length (dropWhile P refs) = length refs" for P by (metis length_append takeWhile_dropWhile_id)
  then show "length (order_from refs cur) = length refs" by (simp add: order_from_def add.commute split: option.splits)
qed

lemma order_from_next:
  assumes "distinct (u @ x # v)"
  shows "order_from (u @ x # v) (next_ref x (u @ x # v)) = v @ u @ [x]"
proof (cases v)
  case Nil
  then show ?thesis using next_ref_at [OF assms] by (simp add: order_from_def)
next
  case (Cons z w)
  have "takeWhile (\<lambda>y. y \<noteq> z) (u @ x # z # w) = u @ [x]" "dropWhile (\<lambda>y. y \<noteq> z) (u @ x # z # w) = z # w"
    using assms Cons by (auto simp: takeWhile_append dropWhile_append)
  then show ?thesis using next_ref_at [OF assms] Cons by (simp add: order_from_def)
qed

lemma order_from_turn:
  assumes d: "distinct refs" and c: "points_into cur (set refs)" and o: "order_from refs cur = pre @ x # post"
  shows "order_from refs (next_ref x refs) = post @ pre @ [x]"
proof -
  obtain a b where ab: "refs = a @ b" "b @ a = pre @ x # post"
  proof (cases cur)
    case None
    then show thesis using that [of "[]" refs] o by (simp add: order_from_def)
  next
    case (Some r)
    then show thesis using that [of "takeWhile (\<lambda>x. x \<noteq> r) refs" "dropWhile (\<lambda>x. x \<noteq> r) refs"] o by (simp add: order_from_def)
  qed
  from ab(2) obtain w where "b = pre @ w \<and> w @ a = x # post \<or> b @ w = pre \<and> a = w @ x # post"
    by (auto simp: append_eq_append_conv2)
  then consider q where "b = pre @ x # q" "post = q @ a" | p where "a = p @ x # post" "pre = b @ p"
    by (cases w) auto
  then show ?thesis
  proof cases
    case 1
    then show ?thesis using order_from_next [of "a @ pre" x q] d ab(1) by simp
  next
    case 2
    then show ?thesis using order_from_next [of p x "post @ b"] d ab(1) by simp
  qed
qed

text \<open>
  The connection when buffer \<open>r\<close> has been chosen: \<open>sbuf.current\<close> has moved on to the next buffer, the
  buffer itself is as it was.
\<close>

definition chosen :: "nat \<Rightarrow> iocConnection \<Rightarrow> iocConnection \<Rightarrow> bool" where
  "chosen r con con2 \<longleftrightarrow> (\<exists>ss. con2 = con\<lparr>con_sbufs := ss, con_current := next_ref r (map fst (con_sbufs con))\<rparr> \<and>
     map fst ss = map fst (con_sbufs con) \<and> map_of ss r = map_of (con_sbufs con) r)"

lemma distance_at: "distinct (visit_order con) \<Longrightarrow> visit_order con = p @ r # q \<Longrightarrow> distance con r = length p"
  by (auto simp: distance_def takeWhile_append)

lemma order_from_distinct:
  assumes "distinct refs" shows "distinct (order_from refs cur)"
proof -
  have "set refs = set (order_from refs cur)" "length refs = length (order_from refs cur)" by (simp_all add: order_from_members)
  then show ?thesis using assms distinct_card [OF assms] by (simp add: card_distinct)
qed

text \<open>What a turn of the buffer \<open>x\<close> does: cursor, order, and what becomes of the others.\<close>

lemma send_data_turn:
  assumes l: "con_ok_links B c con" and p: "sb_pending con r" and s: "send_data env root con = Some (con', ev)"
    and f: "select_sbuf root (visit_order con) con = Some (Some x, con1, e1)"
    and o: "visit_order con = pre @ x # post" and sr: "searched r con con1"
  shows "visit_order con' = post @ pre @ [x]"
    and "x \<noteq> r \<Longrightarrow> map_of (con_sbufs con') r = map_of (con_sbufs con) r"
proof -
  have d: "distinct (map fst (con_sbufs con))" and cur: "points_into (con_current con) (set (map fst (con_sbufs con)))"
    using l by (simp_all add: con_ok_links_def)
  obtain sbuf sbuf' con3 where m: "same_shape (con1\<lparr>con_current := next_ref x (map fst (con_sbufs con1))\<rparr>) con3"
    "con_sbufs con3 = con_sbufs con1" "con' = set_sbuf x sbuf' con3"
    using send_data_frame [OF s f] by blast
  have refs1: "map fst (con_sbufs con1) = map fst (con_sbufs con)" by (rule same_shape_refs [OF select_sbuf_shape [OF f d]])
  have refs: "map fst (con_sbufs con') = map fst (con_sbufs con)"
    using m(2) refs1 by (simp add: m(3) set_sbuf_def split_def o_def)
  have "con_current con' = next_ref x (map fst (con_sbufs con))"
    using m(1) refs1 by (simp add: m(3) set_sbuf_def same_shape_def con_cursors_def)
  then show "visit_order con' = post @ pre @ [x]"
    using order_from_turn [OF d cur] o unfolding visit_order_from refs by simp
  show "map_of (con_sbufs con') r = map_of (con_sbufs con) r" if "x \<noteq> r"
    using map_of_set_sbuf [OF that] sr m(2,3) by (auto simp: searched_def)
qed

text \<open>The frame of a chosen buffer with captured changes, or its cancellation.\<close>

lemma send_data_chosen:
  assumes d: "distinct (map fst (con_sbufs con))" and ok: "con_ok con" and m: "map_of (con_sbufs con) r = Some sbuf"
    and wf: "sbuf_wf n sbuf" and u: "sb_used sbuf" and s: "send_data env root con = Some (con', ev)"
    and f: "select_sbuf root (visit_order con) con = Some (Some r, con1, e1)" and sr: "searched r con con1"
  shows "\<exists>con2. chosen r con con2 \<and>
    ((\<exists>con3 sbuf' fl content xs. data_frame_made (en_checksum env) con2 sbuf con3 sbuf' fl content xs \<and> con' = set_sbuf r sbuf' con3) \<or>
     (\<exists>b. con' = con2\<lparr>fo_buf := b, fo_pos := 0\<rparr> \<and> length b = length (fo_buf con) \<and>
        con_max_in_air con - bytes_in_air con < con_dst_frame_sz con))"
proof -
  obtain ss where ss: "con1 = con\<lparr>con_sbufs := ss\<rparr>" "map fst ss = map fst (con_sbufs con)" "map_of ss r = Some sbuf"
    using sr m by (auto simp: searched_def)
  define con2 where "con2 = con1\<lparr>con_current := next_ref r (map fst (con_sbufs con1))\<rparr>"
  have ch: "chosen r con con2" using ss m by (auto simp: chosen_def con2_def)
  have m1: "map_of (con_sbufs con1) r = Some sbuf" using ss by simp
  obtain p buf and mblk :: iocMemoryBlock where p:
    "ioc_make_data_frame (en_checksum env) (en_past env) (mb_cbs mblk) buf con2 sbuf = Some p"
    "(case p of (con3, sbuf', e2) \<Rightarrow> Some (set_sbuf r sbuf' con3, e1 @ e2)) = Some (con', ev)"
    using s unfolding send_data_def f Let_def bind.bind_lunit prod.case option.case con2_def [symmetric] m1
    by (elim bind_SomeE) blast
  have ok2: "con_ok con2" using ok ss by (simp add: con2_def con_ok_def con_is_serial_def)
  obtain con3 sbuf' e2 where mk: "p = (con3, sbuf', e2)" by (cases p) auto
  have c': "con' = set_sbuf r sbuf' con3" using p(2) mk by simp
  have self: "set_sbuf r sbuf (con2\<lparr>fo_buf := b, fo_pos := 0\<rparr>) = con2\<lparr>fo_buf := b, fo_pos := 0\<rparr>" for b
    by (rule set_sbuf_self) (use ss d in \<open>simp_all add: con2_def\<close>)
  have same: "fo_buf con2 = fo_buf con" "con_max_in_air con2 = con_max_in_air con" "bytes_in_air con2 = bytes_in_air con"
    "con_dst_frame_sz con2 = con_dst_frame_sz con" using ss by (simp_all add: con2_def bytes_in_air_def ack_mask_def)
  have "(\<exists>b. con3 = con2\<lparr>fo_buf := b, fo_pos := 0\<rparr> \<and> length b = length (fo_buf con2) \<and> sbuf' = sbuf \<and>
        con_max_in_air con2 - bytes_in_air con2 < con_dst_frame_sz con2) \<or>
     (\<exists>fl content xs. data_frame_made (en_checksum env) con2 sbuf con3 sbuf' fl content xs)"
    using make_data_frame_spec [OF ok2 wf u, of "en_checksum env" "en_past env" "mb_cbs mblk" buf] p(1) mk by auto
  then show ?thesis
  proof
    assume "\<exists>b. con3 = con2\<lparr>fo_buf := b, fo_pos := 0\<rparr> \<and> length b = length (fo_buf con2) \<and> sbuf' = sbuf \<and>
        con_max_in_air con2 - bytes_in_air con2 < con_dst_frame_sz con2"
    then obtain b where "con' = con2\<lparr>fo_buf := b, fo_pos := 0\<rparr>" "length b = length (fo_buf con)"
        "con_max_in_air con - bytes_in_air con < con_dst_frame_sz con" using c' self same by auto
    then show ?thesis using ch by blast
  next
    assume "\<exists>fl content xs. data_frame_made (en_checksum env) con2 sbuf con3 sbuf' fl content xs"
    then show ?thesis using ch c' by blast
  qed
qed

text \<open>
  \<^bold>\<open>C5\<close> Source buffers take turns. Take a buffer with captured changes and a call of
  \<open>ioc_connection_send\<close> that comes to the data frames. Either it is this buffer's turn: then the frame buffer gets a
  frame with exactly its next pending bytes for its memory block and the buffer is advanced past them, or flow control
  cancels the frame, because less than one full frame of air space is left, and the buffer keeps its changes; in both
  cases all other buffers come before it next time (a cancelled frame costs the buffer its turn, since
  \<open>sbuf.current\<close> moves on before the frame is made). Or it is another buffer's turn: then this one is as it was and
  strictly closer to its turn, which comes after fewer calls than the connection has source buffers.
\<close>

theorem source_buffers_take_turns:
  assumes l: "con_ok_links B c con" and ok: "con_ok con" and m: "map_of (con_sbufs con) r = Some sbuf"
    and wf: "sbuf_wf n sbuf" and u: "sb_used sbuf" and i: "sb_remote_mblk_id sbuf \<noteq> 0"
    and s: "send_data env root con = Some (con', ev)"
  shows "(\<exists>con2. chosen r con con2 \<and> distance con' r + 1 = length (con_sbufs con) \<and>
      ((\<exists>con3 sbuf' fl content xs. data_frame_made (en_checksum env) con2 sbuf con3 sbuf' fl content xs \<and> con' = set_sbuf r sbuf' con3) \<or>
       (\<exists>b. con' = con2\<lparr>fo_buf := b, fo_pos := 0\<rparr> \<and> length b = length (fo_buf con) \<and>
          con_max_in_air con - bytes_in_air con < con_dst_frame_sz con))) \<or>
    map_of (con_sbufs con') r = Some sbuf \<and> distance con' r < distance con r \<and> distance con r < length (con_sbufs con)"
proof -
  have p: "sb_pending con r" using m u i by (simp add: sb_pending_def)
  have d: "distinct (map fst (con_sbufs con))" using l by (simp add: con_ok_links_def)
  have dv: "distinct (visit_order con)" unfolding visit_order_from by (rule order_from_distinct [OF d])
  have mem: "r \<in> set (visit_order con)"
    using map_of_SomeD [OF m] unfolding visit_order_from order_from_members by (force simp: image_iff)
  have len: "length (visit_order con) = length (con_sbufs con)" unfolding visit_order_from order_from_members by simp
  obtain found con1 e1 where f0: "select_sbuf root (visit_order con) con = Some (found, con1, e1)"
    using s unfolding send_data_def by (elim bind_SomeE) (metis surj_pair)
  obtain x pre post where f: "select_sbuf root (visit_order con) con = Some (Some x, con1, e1)" "searched r con con1"
    "visit_order con = pre @ x # post" "r \<notin> set pre"
    using select_first_pending [OF f0 mem p] f0 by blast
  note t = send_data_turn [OF l p s f(1,3,2)]
  have dv': "distinct (visit_order con')" using dv unfolding t(1) f(3) by auto
  show ?thesis
  proof (cases "x = r")
    case True
    have "distance con' r + 1 = length (con_sbufs con)"
      using distance_at [OF dv', of "post @ pre" r "[]"] t(1) True len f(3) by simp
    then show ?thesis using send_data_chosen [OF d ok m wf u s f(1) [unfolded True] f(2)] by blast
  next
    case False
    then have "r \<in> set post" using mem f(3,4) by auto
    then obtain q w where pq: "post = q @ r # w" "r \<notin> set q" by (meson split_list_first)
    have "distance con r = length pre + 1 + length q" using distance_at [OF dv, of "pre @ x # q" r w] f(3) pq by simp
    moreover have "distance con' r = length q" using distance_at [OF dv', of q r "w @ pre @ [x]"] t(1) pq by simp
    ultimately show ?thesis using t(2) [OF False] m len f(3) pq by simp
  qed
qed

section \<open>Authentication comes first\<close>

text \<open>What an unauthenticated connection must not touch.\<close>

definition untouched :: "iocConnection \<Rightarrow> iocConnection \<Rightarrow> bool" where
  "untouched con con' \<longleftrightarrow> con_sbufs con' = con_sbufs con \<and> con_tbufs con' = con_tbufs con \<and>
     con_remove_mblk_req con' = con_remove_mblk_req con \<and> con_cursors con' = con_cursors con \<and> con_flags con' = con_flags con \<and>
     con_authentication_received con' = con_authentication_received con"

lemma untouched_refl [simp]: "untouched con con"
  by (simp add: untouched_def)

lemma untouched_trans: "untouched a b \<Longrightarrow> untouched b c \<Longrightarrow> untouched a c"
  by (simp add: untouched_def)

lemma write_to_stream_untouched:
  "ioc_write_to_stream sw tnow con = Some (st, con') \<Longrightarrow> untouched con con' \<and> con_authentication_sent con' = con_authentication_sent con"
  by (auto simp: ioc_write_to_stream_def Let_def untouched_def con_cursors_def split: Option.bind_splits if_splits prod.splits)

lemma send_acknowledge_untouched:
  "ioc_send_acknowledge sw tnow con = Some (st, con') \<Longrightarrow> untouched con con' \<and> con_authentication_sent con' = con_authentication_sent con"
  by (auto simp: ioc_send_acknowledge_def Let_def untouched_def con_cursors_def
      dest!: write_to_stream_untouched split: Option.bind_splits if_splits)

lemma acknowledge_as_needed_untouched:
  "ioc_acknowledge_as_needed sw tnow con = Some (st, con') \<Longrightarrow> untouched con con' \<and> con_authentication_sent con' = con_authentication_sent con"
  by (auto simp: ioc_acknowledge_as_needed_def Let_def dest!: send_acknowledge_untouched split: Option.bind_splits if_splits)

lemma make_authentication_untouched:
  "ioc_make_authentication_message uid nc cs root con = Some con' \<Longrightarrow> untouched con con'"
proof -
  have f: "ioc_finish_frame cs con ptrs n = Some (st, con') \<Longrightarrow> untouched con con'" for con con' ptrs n st
    by (auto simp: ioc_finish_frame_def Let_def untouched_def con_cursors_def split: Option.bind_splits if_splits)
  have m: "make_system_frame cs con mb content = Some (st, con') \<Longrightarrow> untouched con con'" for con con' mb content st
    by (auto simp: make_system_frame_def untouched_def con_cursors_def dest!: f split: Option.bind_splits)
  show "ioc_make_authentication_message uid nc cs root con = Some con' \<Longrightarrow> untouched con con'"
    by (auto simp: ioc_make_authentication_message_def untouched_def con_cursors_def dest!: m split: Option.bind_splits if_splits)
qed

definition authenticated :: "iocConnection \<Rightarrow> bool" where
  "authenticated con \<longleftrightarrow> con_authentication_sent con \<and> con_authentication_received con"

text \<open>May this end send its authentication now? The end below waits for the one above.\<close>

definition may_authenticate :: "iocConnection \<Rightarrow> bool" where
  "may_authenticate con \<longleftrightarrow> con_authentication_received con \<or> \<not> has_flag (con_flags con) IOC_CONNECT_UP"

lemma make_frame_unauthenticated:
  assumes "\<not> authenticated con" and "make_frame env root con = Some (con', ev)"
  shows "untouched con con' \<and> ev = [] \<and> (con_authentication_sent con' \<longrightarrow> con_authentication_sent con \<or> may_authenticate con)"
  using assms make_authentication_untouched
  by (auto simp: make_frame_def authenticated_def may_authenticate_def split: if_splits)

text \<open>
  \<^bold>\<open>C6\<close> Nothing but acknowledgements and the authentication itself is sent before both ends have
  authenticated: \<open>ioc_connection_send\<close> then changes neither source buffers nor removal requests nor the
  cursors of block information, and the end that connects upwards keeps its authentication back until the
  other end's has arrived.
\<close>

theorem authentication_comes_first:
  assumes c: "rt_con root c = Some con" and n: "\<not> authenticated con"
    and s: "ioc_connection_send env stream_write tnow c root = Some (st, root', ev)"
  shows "\<exists>con'. root' = set_con c con' root \<and> untouched con con' \<and> ev = [] \<and>
    (con_authentication_sent con' \<longrightarrow> con_authentication_sent con \<or> may_authenticate con)"
proof -
  define good where "good = (\<lambda>con'. untouched con con' \<and> (con_authentication_sent con' \<longrightarrow> con_authentication_sent con \<or> may_authenticate con))"
  have move: "\<exists>con'. root' = set_con c con' root \<and> good con' \<and> ev = e" if g: "good x"
    and w: "(do { (status, con') \<leftarrow> ioc_write_to_stream stream_write tnow x; Some (status, set_con c con' root, e) }) = Some (st, root', ev)" for x e
  proof -
    obtain y where y: "ioc_write_to_stream stream_write tnow x = Some (st, y)" "root' = set_con c y root" "ev = e" using w by (auto split: Option.bind_splits)
    then show ?thesis using write_to_stream_untouched [OF y(1)] g untouched_trans by (auto simp: good_def)
  qed
  have "\<exists>con'. root' = set_con c con' root \<and> good con' \<and> ev = []"
  proof (cases "fo_used con \<noteq> 0")
    case True
    then show ?thesis using s c move [of con "[]"] unfolding ioc_connection_send_def by (simp add: good_def)
  next
    case False
    obtain a con1 where a: "ioc_acknowledge_as_needed stream_write tnow con = Some (a, con1)"
      and m: "(if a = OSAL_PENDING then (do { (status, con') \<leftarrow> ioc_write_to_stream stream_write tnow con1; Some (status, set_con c con' root, []) })
       else if a \<noteq> OSAL_SUCCESS then Some (OSAL_STATUS_FAILED, set_con c con1 root, [])
       else if fo_used con1 \<noteq> 0 then Some (OSAL_PENDING, set_con c con1 root, [])
       else do { (con2, ev) \<leftarrow> make_frame env root con1;
         (status, con') \<leftarrow> ioc_write_to_stream stream_write tnow con2; Some (status, set_con c con' root, ev) }) = Some (st, root', ev)"
      using s c False unfolding ioc_connection_send_def by (auto split: Option.bind_splits)
    note u = acknowledge_as_needed_untouched [OF a]
    have g1: "good con1" using u by (simp add: good_def)
    show ?thesis
    proof (cases "a = OSAL_SUCCESS \<and> fo_used con1 = 0")
      case True
      then obtain con2 e where k: "make_frame env root con1 = Some (con2, e)"
        "(do { (status, con') \<leftarrow> ioc_write_to_stream stream_write tnow con2; Some (status, set_con c con' root, e) }) = Some (st, root', ev)"
        using m by (auto split: Option.bind_splits)
      have n1: "\<not> authenticated con1" and q: "may_authenticate con1 = may_authenticate con"
        using n u by (simp_all add: authenticated_def untouched_def may_authenticate_def)
      have "good con2" "e = []" using make_frame_unauthenticated [OF n1 k(1)] u q untouched_trans by (auto simp: good_def)
      then show ?thesis using move [OF _ k(2)] by simp
    next
      case False
      then show ?thesis using m move [OF g1] g1 by (auto split: if_splits)
    qed
  qed
  then show ?thesis by (auto simp: good_def)
qed

section \<open>Instances\<close>

definition env_sample :: env where
  "env_sample = \<lparr>en_checksum = (\<lambda>bs. of_nat (length bs)), en_past = 0, en_put = put4, en_get = get4, en_hash = rev, en_int_str = (\<lambda>_. [55]),
     en_pw_sz = 46, en_uid = [1, 2, 3], en_no_chain = False, en_authorize = (\<lambda>u. (OSAL_SUCCESS, [])), en_rand = (\<lambda>_. 0),
     en_newbuf = None, en_got = True, en_rm = 3, en_rs = 8, en_rt = 9, en_auto_nr = 0\<rparr>"

definition root_blank :: iocRoot where
  "root_blank = \<lparr>rt_mblk_refs = [], rt_mblk = Map.empty, rt_con_refs = [], rt_con = Map.empty, rt_device_nr = 0, rt_next_unique_mblk_id = 1,
     rt_authorization = False, rt_network_name = [110], rt_device_name = [100], rt_password = []\<rparr>"

definition params_sample :: iocMemoryBlockParams where
  "params_sample = \<lparr>mp_network_name = [110], mp_device_name = [100], mp_device_nr = 1, mp_mblk_name = [109], mp_buf = None, mp_nbytes = 8,
     mp_flags = IOC_MBLK_UP, mp_local_flags = 0\<rparr>"

theorem root_pointers_valid_witness:
  "\<exists>root root'. root_step\<^sup>*\<^sup>* root_blank root' \<and> root_step root root' \<and> rt_con_refs root = [5] \<and> rt_mblk_refs root' = [1] \<and> links_ok root'"
proof -
  define root where "root = (set_con 5 (con_sample 1) root_blank)\<lparr>rt_con_refs := rt_con_refs root_blank @ [5]\<rparr>"
  have s1: "root_step root_blank root" unfolding root_def
    by (rule new_connection) (simp_all add: root_blank_def con_sample_simps con_cursors_def)
  have "map_option (\<lambda>(st, r). rt_mblk_refs r) (ioc_initialize_memory_block (\<lambda>_. 0) True True True 1 params_sample root) = Some [1]"
    unfolding root_def by code_simp
  then obtain st root' where i: "ioc_initialize_memory_block (\<lambda>_. 0) True True True 1 params_sample root = Some (st, root')" "rt_mblk_refs root' = [1]"
    by auto
  have s2: "root_step root root'" by (rule new_block [OF _ i(1)]) (simp add: root_def root_blank_def set_con_def)
  have "root_step\<^sup>*\<^sup>* root_blank root'" using s1 s2 by simp
  moreover have "links_ok root'" by (rule root_pointers_valid [OF _ calculation]) (simp add: root_blank_def empty_root_def)
  moreover have "rt_con_refs root = [5]" by (simp add: root_def root_blank_def)
  ultimately show ?thesis using s2 i(2) by blast
qed

definition turns_sample :: iocConnection where
  "turns_sample = (con_sample 1)\<lparr>con_sbufs :=
     [(7, (sbuf_sample 0 [1, 2, 3] [0, 9, 0])\<lparr>sb_mblk := 1, sb_con := 5, sb_used := True, sb_start_addr := 0, sb_end_addr := 2\<rparr>),
      (8, (sbuf_sample 0 [4, 5] [1, 1])\<lparr>sb_mblk := 2, sb_con := 5, sb_used := True, sb_start_addr := 0, sb_end_addr := 1\<rparr>)]\<rparr>"

theorem source_buffers_take_turns_witness:
  "\<exists>con' ev con2 con3 sbuf' fl content xs. send_data env_sample (root_start 1) turns_sample = Some (con', ev) \<and>
    con' = set_sbuf 7 sbuf' con3 \<and> distance con' 7 = 1 \<and>
    data_frame_made (en_checksum env_sample) con2 (the (map_of (con_sbufs turns_sample) 7)) con3 sbuf' fl content xs"
proof -
  let ?s = "the (map_of (con_sbufs turns_sample) 7)"
  have "send_data env_sample (root_start 1) turns_sample \<noteq> None" by code_simp
  then obtain con' ev where s: "send_data env_sample (root_start 1) turns_sample = Some (con', ev)" by auto
  have l: "con_ok_links {1, 2} 5 turns_sample" by (simp add: con_ok_links_def turns_sample_def con_sample_simps)
  have ok: "con_ok turns_sample" by (simp add: turns_sample_def con_sample_simps)
  have m: "map_of (con_sbufs turns_sample) 7 = Some ?s" "sb_used ?s" "sb_remote_mblk_id ?s \<noteq> 0"
    by (simp add: turns_sample_def) code_simp+
  have wf: "sbuf_wf 3 ?s" by (simp add: turns_sample_def sample_simps)
  have "distance turns_sample 7 = 0" by (simp add: distance_def visit_order_def turns_sample_def con_sample_simps)
  moreover have "\<not> con_max_in_air turns_sample - bytes_in_air turns_sample < con_dst_frame_sz turns_sample"
    "length (con_sbufs turns_sample) = 2" by (simp_all add: turns_sample_def con_sample_simps)
  ultimately have "(\<exists>con2 con3 sbuf' fl content xs. data_frame_made (en_checksum env_sample) con2 ?s con3 sbuf' fl content xs \<and>
      con' = set_sbuf 7 sbuf' con3) \<and> distance con' 7 = 1"
    using source_buffers_take_turns [OF l ok m(1) wf m(2,3) s] by simp blast
  then show ?thesis using s by blast
qed

theorem authentication_comes_first_witness:
  "\<exists>st root' ev con'. ioc_connection_send env_sample (\<lambda>bs. (OSAL_SUCCESS, length bs)) 9 5 (root_sample 1) = Some (st, root', ev) \<and>
    rt_con root' 5 = Some con' \<and> con_authentication_sent con' \<and> ev = [] \<and> length (con_sbufs con') = 1"
proof -
  have v: "map_option (\<lambda>(st, root', ev). map_option con_authentication_sent (rt_con root' 5))
      (ioc_connection_send env_sample (\<lambda>bs. (OSAL_SUCCESS, length bs)) 9 5 (root_sample 1)) = Some (Some True)" by code_simp
  then obtain st root' ev where s: "ioc_connection_send env_sample (\<lambda>bs. (OSAL_SUCCESS, length bs)) 9 5 (root_sample 1) = Some (st, root', ev)"
    "map_option con_authentication_sent (rt_con root' 5) = Some True" by auto
  obtain con where c: "rt_con (root_sample 1) 5 = Some con" "length (con_sbufs con) = 1" "\<not> authenticated con"
    by (simp add: root_sample_def set_con_def con_sample_simps authenticated_def)
  show ?thesis using authentication_comes_first [OF c(1,3) s(1)] s c(2) by (auto simp: set_con_def untouched_def)
qed

end
