(* ===== verification/Ioc_Flow_Control.thy ===== *)
theory Ioc_Flow_Control
  imports Ioc_Connection_Run
begin

text \<open>
  Flow control of \<open>code/ioc_connection_send.c\<close> over whole runs: how many bytes a connection may have
  in the air, that is sent or placed into the frame buffer and not yet acknowledged by the other end.
  Frames check \<open>max_in_air\<close> before they are made (\<open>ioc_make_data_frame\<close>, \<open>ioc_finish_frame\<close>),
  acknowledgements check \<open>max_ack_in_air\<close> (\<open>ioc_acknowledge_as_needed\<close>), timed keep alives
  check nothing.
\<close>

section \<open>Bytes in the air\<close>

definition air :: "iocConnection \<Rightarrow> int" where
  "air con = bytes_in_air con + max 0 (fo_used con - fo_pos con)"

definition ack_size :: "iocConnection \<Rightarrow> int" where
  "ack_size con = int (if has_flag (con_flags con) IOC_SOCKET then IOC_SOCKET_ACK_SIZE else IOC_SERIAL_ACK_SIZE)"

definition limits :: "iocConnection \<Rightarrow> bool \<times> int \<times> int" where
  "limits con = (has_flag (con_flags con) IOC_SOCKET, con_max_in_air con, con_max_ack_in_air con)"

text \<open>All that flow control depends on.\<close>

definition flow :: "iocConnection \<Rightarrow> (bool \<times> int \<times> int) \<times> u32 \<times> u32 \<times> int \<times> int" where
  "flow con = (limits con, con_bytes_sent con, con_processed_bytes con, fo_used con, fo_pos con)"

lemma limits_eq:
  assumes "limits con' = limits con"
  shows "ack_size con' = ack_size con" "ack_bits con' = ack_bits con" "con_max_in_air con' = con_max_in_air con"
    "con_max_ack_in_air con' = con_max_ack_in_air con"
  using assms by (simp_all add: limits_def ack_size_def ack_bits_def)

lemma in_air_cong:
  "limits con' = limits con \<Longrightarrow> con_bytes_sent con' = con_bytes_sent con \<Longrightarrow> con_processed_bytes con' = con_processed_bytes con \<Longrightarrow>
    bytes_in_air con' = bytes_in_air con"
  by (simp add: limits_def bytes_in_air_def ack_mask_def)

lemma flow_eq:
  assumes "flow con' = flow con"
  shows "limits con' = limits con" "air con' = air con" "fo_pos con' = fo_pos con" "fo_used con' = fo_used con"
    "bytes_in_air con' = bytes_in_air con"
  using assms in_air_cong [of con' con] by (simp_all add: flow_def air_def)

section \<open>Writing\<close>

lemma write_air:
  assumes w: "ioc_write_to_stream sw tnow con = Some (st, con')" and sw: "stream_contract sw"
    and p: "0 \<le> fo_pos con" and fit: "air con < 2 ^ ack_bits con"
  shows "limits con' = limits con \<and> 0 \<le> fo_pos con' \<and> air con' = air con"
proof (cases "fo_used con - fo_pos con \<le> 0")
  case True
  then show ?thesis using w p by (simp add: ioc_write_to_stream_def)
next
  case False
  let ?n = "fo_used con - fo_pos con"
  obtain bs where bs: "rds (fo_buf con) (fo_pos con) ?n = Some bs"
    using w False by (auto simp: ioc_write_to_stream_def Let_def split: Option.bind_splits)
  have "length bs = nat ?n" using bs by (auto simp: rds_def split: if_splits)
  moreover obtain s k where k: "sw bs = (s, k)" by (cases "sw bs")
  ultimately have kn: "int k \<le> ?n" using sw False by (auto simp: stream_contract_def dest: spec [of _ bs])
  let ?c1 = "if k \<noteq> 0 then con\<lparr>con_last_send := tnow, con_bytes_sent := con_bytes_sent con + of_nat k\<rparr> else con"
  let ?c2 = "if s = OSAL_STATUS_CONNECTION_REFUSED then ?c1\<lparr>con_open_fail_timer := tnow, con_open_fail_timer_set := True\<rparr> else ?c1"
  let ?c3 = "if fo_pos con + int k \<ge> fo_used con then ?c2\<lparr>fo_used := 0, fo_pos := 0\<rparr> else ?c2\<lparr>fo_pos := fo_pos con + int k\<rparr>"
  have r: "ioc_write_to_stream sw tnow con = Some (if s = OSAL_SUCCESS \<and> ?n \<noteq> int k then OSAL_PENDING else s, ?c3)"
    using False bs k by (simp add: ioc_write_to_stream_def Let_def)
  have c': "con' = ?c3" using trans [OF sym [OF r] w] by (simp only: option.inject prod.inject)
  have "bytes_in_air con' = bytes_in_air con + int k"
    unfolding c' by (rule bytes_in_air_add) (use fit kn False in \<open>auto simp: air_def\<close>)
  moreover have "limits con' = limits con" "0 \<le> fo_pos con'"
    "max 0 (fo_used con' - fo_pos con') = ?n - int k" using p kn False unfolding c' by (auto simp: limits_def)
  ultimately show ?thesis using False by (simp add: air_def)
qed

lemma ack_sizes: "int (length (ack_message con)) = ack_size con" "0 < ack_size con"
  by (simp_all add: ack_message_def ack_size_def ack_size_defs Let_def)

lemma send_acknowledge_air:
  assumes a: "ioc_send_acknowledge sw tnow con = Some (st, con')" and sw: "stream_contract sw"
    and p: "0 \<le> fo_pos con" and fit: "air con + ack_size con < 2 ^ ack_bits con"
  shows "limits con' = limits con \<and> 0 \<le> fo_pos con' \<and> air con' \<le> air con + ack_size con \<and>
    (fo_used con \<noteq> 0 \<longrightarrow> con' = con)"
proof (cases "fo_used con = 0")
  case False
  then show ?thesis using a p ack_sizes(2) [of con] by (simp add: ioc_send_acknowledge_def)
next
  case True
  obtain buf where w: "wrs (fo_buf con) 0 (ack_message con) = Some buf"
    using a True by (auto simp: ioc_send_acknowledge_def split: Option.bind_splits)
  define con1 where "con1 = con\<lparr>fo_buf := buf,
          fo_used := int (if has_flag (con_flags con) IOC_SOCKET then IOC_SOCKET_ACK_SIZE else IOC_SERIAL_ACK_SIZE),
          con_bytes_acknowledged := con_bytes_received con\<rparr>"
  obtain s con2 where s: "ioc_write_to_stream sw tnow con1 = Some (s, con2)" "con' = con2\<lparr>con_last_send := tnow\<rparr>"
    using a True w by (auto simp: ioc_send_acknowledge_def Let_def con1_def split: Option.bind_splits)
  have l: "limits con1 = limits con" "bytes_in_air con1 = bytes_in_air con" "fo_pos con1 = fo_pos con" "fo_used con1 = ack_size con"
    using in_air_cong [of con1 con] by (simp_all add: con1_def limits_def ack_size_def)
  have a1: "air con1 \<le> air con + ack_size con" using l p ack_sizes(2) [of con] by (simp add: air_def)
  have "limits con2 = limits con1 \<and> 0 \<le> fo_pos con2 \<and> air con2 = air con1"
    by (rule write_air [OF s(1) sw]) (use p l(3) a1 fit limits_eq(2) [OF l(1)] in simp_all)
  moreover have "limits con' = limits con2" "fo_pos con' = fo_pos con2" "air con' = air con2"
    using flow_eq [of con' con2] by (simp_all add: s(2) flow_def limits_def)
  ultimately show ?thesis using l(1) a1 True by simp
qed

lemma acknowledge_air:
  assumes a: "ioc_acknowledge_as_needed sw tnow con = Some (st, con')" and sw: "stream_contract sw"
    and p: "0 \<le> fo_pos con" "fo_used con = 0" and fit: "air con < 2 ^ ack_bits con" "con_max_ack_in_air con < 2 ^ ack_bits con"
  shows "limits con' = limits con \<and> 0 \<le> fo_pos con' \<and>
    (air con' \<le> air con \<or> air con' \<le> min (air con + ack_size con) (con_max_ack_in_air con))"
proof (cases "con_max_ack_in_air con - bytes_in_air con < ack_size con \<or>
    uint ((con_bytes_received con - con_bytes_acknowledged con) AND ack_mask con) < con_unacknogledged_limit con")
  case True
  then have "con' = con" using a by (auto simp: ioc_acknowledge_as_needed_def ack_size_def Let_def split: if_splits)
  then show ?thesis using p by simp
next
  case False
  have e: "air con = bytes_in_air con" using p by (simp add: air_def)
  obtain s where s: "ioc_send_acknowledge sw tnow con = Some (s, con')"
    using a False by (auto simp: ioc_acknowledge_as_needed_def ack_size_def Let_def split: Option.bind_splits)
  have "limits con' = limits con \<and> 0 \<le> fo_pos con' \<and> air con' \<le> air con + ack_size con"
    using send_acknowledge_air [OF s sw p(1)] False fit(2) e by simp
  then show ?thesis using False e by simp
qed

section \<open>Making a frame\<close>

text \<open>Nothing new, or a frame within \<open>max_in_air\<close>.\<close>

definition framed :: "iocConnection \<Rightarrow> iocConnection \<Rightarrow> bool" where
  "framed con con' \<longleftrightarrow> limits con' = limits con \<and> 0 \<le> fo_pos con' \<and> air con' \<le> max (air con) (con_max_in_air con)"

lemma framed_same: "flow con' = flow con \<Longrightarrow> 0 \<le> fo_pos con \<Longrightarrow> framed con con'"
  using flow_eq [of con' con] by (simp add: framed_def)

lemma framed_then_same: "framed con con1 \<Longrightarrow> flow con2 = flow con1 \<Longrightarrow> framed con con2"
  using flow_eq [of con2 con1] by (simp add: framed_def)

lemma same_then_framed: "flow con1 = flow con \<Longrightarrow> framed con1 con2 \<Longrightarrow> framed con con2"
  using flow_eq [of con1 con] limits_eq(3) [of con1 con] by (simp add: framed_def)

lemma framed_used:
  assumes "limits con' = limits con" "con_bytes_sent con' = con_bytes_sent con" "con_processed_bytes con' = con_processed_bytes con"
    and "0 \<le> fo_pos con'" and "fo_used con' \<le> con_max_in_air con - bytes_in_air con"
  shows "framed con con'"
  using assms in_air_cong [OF assms(1-3)] by (auto simp: framed_def air_def)

lemma make_data_frame_air:
  assumes m: "ioc_make_data_frame cs past cbs buf con sbuf = Some (con', sbuf', ev)" and u: "fo_used con = 0"
  shows "framed con con'"
proof -
  obtain d where d: "data_frame_start past buf con sbuf = Some d" using m unfolding ioc_make_data_frame_def by (elim bind_SomeE)
  obtain b ptrs cb sa src where e: "d = (b, ptrs, cb, sa, src)" by (metis surj_pair)
  define used where "used = (if cb < 0 then min (sb_end_addr sbuf - sb_start_addr sbuf + 1) (con_dst_frame_sz con - int (shp_header_sz ptrs)) else cb) + int (shp_header_sz ptrs)"
  show ?thesis
  proof (cases "used > con_max_in_air con - bytes_in_air con")
    case True
    then have "con' = con\<lparr>fo_buf := b, fo_pos := 0\<rparr>"
      using m unfolding ioc_make_data_frame_def d e by (simp add: Let_def used_def)
    then show ?thesis using u in_air_cong [of con' con] by (simp add: framed_def air_def limits_def)
  next
    case False
    obtain b4 where "con' = con\<lparr>fo_buf := b4, fo_pos := 0, fo_used := used, fo_frame_nr := next_frame_out_nr (fo_frame_nr con)\<rparr>"
      using m False unfolding ioc_make_data_frame_def d e bind.bind_lunit prod.case Let_def used_def [symmetric] if_not_P [OF False]
      by (elim bind_SomeE) (auto split: if_splits Option.bind_splits)
    then show ?thesis using False by (intro framed_used) (simp_all add: limits_def)
  qed
qed

lemma system_frame_air:
  assumes m: "make_system_frame cs con mb content = Some (st, con')" and p: "0 \<le> fo_pos con"
  shows "framed con con'"
proof -
  obtain b ptrs where f: "ioc_finish_frame cs (con\<lparr>fo_buf := b\<rparr>) ptrs (int (length content)) = Some (st, con')"
    using m by (auto simp: make_system_frame_def split: Option.bind_splits)
  define con1 where "con1 = con\<lparr>fo_buf := b\<rparr>"
  have s: "flow con1 = flow con" by (simp add: con1_def flow_def limits_def)
  have "framed con1 con'"
  proof (cases "int (length content) + int (shp_header_sz ptrs) > con_max_in_air con1 - bytes_in_air con1")
    case True
    then have "con' = con1" using f unfolding con1_def [symmetric] by (simp add: ioc_finish_frame_def)
    moreover have "0 \<le> fo_pos con1" using p by (simp add: con1_def)
    ultimately show ?thesis using framed_same by blast
  next
    case False
    then obtain b3 where "con' = con1\<lparr>fo_buf := b3, fo_used := int (length content) + int (shp_header_sz ptrs),
        fo_frame_nr := next_frame_out_nr (fo_frame_nr con1)\<rparr>"
      using f by (auto simp: ioc_finish_frame_def con1_def [symmetric] Let_def split: Option.bind_splits)
    then show ?thesis using False p by (intro framed_used) (simp_all add: limits_def con1_def)
  qed
  then show ?thesis by (rule same_then_framed [OF s])
qed

lemma mbinfo_sent_flow: "ioc_mbinfo_sent root b con = Some con' \<Longrightarrow> flow con' = flow con"
  by (auto simp: ioc_mbinfo_sent_def flow_def limits_def Let_def split: if_splits Option.bind_splits)

lemma get_mbinfo_flow: "ioc_get_mbinfo_to_send root con = Some y \<Longrightarrow> flow (snd y) = flow con"
proof (induction rule: ioc_get_mbinfo_to_send.raw_induct [rotated, consumes 1])
  case (1 f root con y)
  obtain m where m: "ioc_get_mbinfo_to_send2 con = Some m"
    "(if m = None then Some (None, con)
     else Option.bind (rt_mblk root (the m)) (\<lambda>mblk.
       if wants_info (rt_authorization root) con mblk then Some (m, con)
       else Option.bind (ioc_mbinfo_sent root (the m) con) (\<lambda>con'. f root con'))) = Some y"
    using 1(2) by (elim bind_SomeE)
  then show ?case using 1(1) mbinfo_sent_flow by (auto split: if_splits Option.bind_splits)
qed

lemma select_sbuf_flow: "select_sbuf root rs con = Some (found, con', ev) \<Longrightarrow> flow con' = flow con"
proof (induction rs arbitrary: con ev)
  case (Cons r rs)
  have s: "flow (set_sbuf r x con) = flow con" for x by (simp add: set_sbuf_def flow_def limits_def)
  from Cons.prems show ?case by (cases rule: select_sbuf_step) (use Cons.IH s in auto)
qed simp

lemma send_data_air:
  assumes s: "send_data env root con = Some (con', ev)" and u: "fo_used con = 0" "0 \<le> fo_pos con"
  shows "framed con con'"
proof -
  obtain found con1 e1 where f: "select_sbuf root (visit_order con) con = Some (found, con1, e1)"
    using s unfolding send_data_def by (elim bind_SomeE) (metis surj_pair)
  note f1 = select_sbuf_flow [OF f]
  show ?thesis
  proof (cases found)
    case None
    then show ?thesis using s f framed_same [OF f1 u(2)] by (simp add: send_data_def)
  next
    case (Some r)
    define con2 where "con2 = con1\<lparr>con_current := next_ref r (map fst (con_sbufs con1))\<rparr>"
    have f2: "flow con2 = flow con" using f1 by (simp add: con2_def flow_def limits_def)
    obtain sbuf buf p and mblk :: iocMemoryBlock where p:
      "ioc_make_data_frame (en_checksum env) (en_past env) (mb_cbs mblk) buf con2 sbuf = Some p"
      "(case p of (con3, sbuf', e2) \<Rightarrow> Some (set_sbuf r sbuf' con3, e1 @ e2)) = Some (con', ev)"
      using s unfolding send_data_def f Some Let_def bind.bind_lunit prod.case option.case con2_def [symmetric]
      by (elim bind_SomeE) blast
    obtain con3 sbuf' e2 where e: "p = (con3, sbuf', e2)" by (cases p) auto
    have "framed con2 con3" by (rule make_data_frame_air [OF p(1) [unfolded e]]) (use flow_eq(4) [OF f2] u in simp)
    moreover have "con' = set_sbuf r sbuf' con3" using p(2) e by simp
    then have "flow con' = flow con3" by (simp add: set_sbuf_def flow_def limits_def)
    ultimately show ?thesis using same_then_framed [OF f2] framed_then_same by blast
  qed
qed

lemma make_frame_air:
  assumes m: "make_frame env root con = Some (con', ev)" and u: "fo_used con = 0" "0 \<le> fo_pos con"
  shows "framed con con'"
proof -
  have id: "framed con con" by (rule framed_same) (use u in simp_all)
  have au: "framed con c" if h: "ioc_make_authentication_message uid nc cs root con = Some c" for uid nc cs c
  proof -
    obtain st c1 where c1: "make_system_frame cs con (word_of_int (con_frame_sz con)) (auth_content uid nc root con) = Some (st, c1)"
      "c = c1 \<or> c = c1\<lparr>con_authentication_sent := True\<rparr>"
      using h by (auto simp: ioc_make_authentication_message_def split: Option.bind_splits if_splits)
    show ?thesis by (rule framed_then_same [OF system_frame_air [OF c1(1) u(2)]]) (use c1(2) in \<open>auto simp: flow_def limits_def\<close>)
  qed
  have later: "framed con c" if h: "(do {
       (st, con1) \<leftarrow> ioc_make_remove_mblk_req_frame (en_put env) (en_checksum env) con;
       if st \<noteq> OSAL_COMPLETED then Some (con1, [])
       else do {
         (m, con2) \<leftarrow> ioc_get_mbinfo_to_send root con1;
         case m of
           Some b \<Rightarrow> do {
             mblk \<leftarrow> rt_mblk root b;
             (st', con3) \<leftarrow> ioc_make_mblk_info_frame (en_checksum env) con2 mblk;
             con4 \<leftarrow> (if st' \<noteq> OSAL_SUCCESS then Some con3 else ioc_mbinfo_sent root b con3);
             Some (con4, []) }
         | None \<Rightarrow> send_data env root con2 } }) = Some (c, e)" for c e
  proof -
    obtain st con1 where r: "ioc_make_remove_mblk_req_frame (en_put env) (en_checksum env) con = Some (st, con1)"
      using h by (auto split: Option.bind_splits)
    show ?thesis
    proof (cases "con_remove_mblk_req con")
      case (Cons x xs)
      obtain s1 c1 where c1: "make_system_frame (en_checksum env) con (of_nat (length x)) (remove_request_content (en_put env) x) = Some (s1, c1)"
        "con1 = c1 \<or> con1 = ioc_remove_mblk_req_processed c1" "st \<noteq> OSAL_COMPLETED"
        using r Cons by (auto simp: ioc_make_remove_mblk_req_frame_def split: Option.bind_splits if_splits)
      have "framed con con1"
        by (rule framed_then_same [OF system_frame_air [OF c1(1) u(2)]]) (use c1(2) in \<open>auto simp: flow_def limits_def ioc_remove_mblk_req_processed_def\<close>)
      then show ?thesis using h r c1(3) by simp
    next
      case Nil
      then have r': "con1 = con" "st = OSAL_COMPLETED" using r by (simp_all add: ioc_make_remove_mblk_req_frame_def)
      obtain m con2 where g: "ioc_get_mbinfo_to_send root con = Some (m, con2)" using h r r' by (auto split: Option.bind_splits)
      have f2: "flow con2 = flow con" using get_mbinfo_flow [OF g] by simp
      have u2: "fo_used con2 = 0" "0 \<le> fo_pos con2" using flow_eq [OF f2] u by simp_all
      show ?thesis
      proof (cases m)
        case None
        then have "send_data env root con2 = Some (c, e)" using h r r' g by simp
        then show ?thesis using same_then_framed [OF f2] send_data_air u2 by blast
      next
        case (Some b)
        obtain mblk s3 con3 where i: "ioc_make_mblk_info_frame (en_checksum env) con2 mblk = Some (s3, con3)"
          "(if s3 \<noteq> OSAL_SUCCESS then Some con3 else ioc_mbinfo_sent root b con3) = Some c"
          using h r r' g Some by (auto split: Option.bind_splits)
        have "framed con2 con3" using system_frame_air u2(2) i(1) unfolding ioc_make_mblk_info_frame_def by blast
        moreover have "flow c = flow con3" using i(2) mbinfo_sent_flow by (auto split: if_splits)
        ultimately show ?thesis using same_then_framed [OF f2] framed_then_same by blast
      qed
    qed
  qed
  show ?thesis using m id au later [of con' ev] unfolding make_frame_def by (auto split: if_splits)
qed

section \<open>Sending\<close>

lemma connection_send_air:
  assumes c: "rt_con root c = Some con" and s: "ioc_connection_send env sw tnow c root = Some (st, root', ev)" and sw: "stream_contract sw"
    and p: "0 \<le> fo_pos con"
    and fit: "air con < 2 ^ ack_bits con" "con_max_in_air con < 2 ^ ack_bits con" "con_max_ack_in_air con < 2 ^ ack_bits con"
  shows "\<exists>con'. root' = set_con c con' root \<and> limits con' = limits con \<and> 0 \<le> fo_pos con' \<and>
    (air con' \<le> max (air con) (con_max_in_air con) \<or> air con' \<le> min (air con + ack_size con) (con_max_ack_in_air con))"
proof -
  define good where "good = (\<lambda>x. limits x = limits con \<and> 0 \<le> fo_pos x \<and>
    (air x \<le> max (air con) (con_max_in_air con) \<or> air x \<le> min (air con + ack_size con) (con_max_ack_in_air con)))"
  have move: "\<exists>y. root' = set_con c y root \<and> good y"
    if g: "good x" and w: "(do { (status, y) \<leftarrow> ioc_write_to_stream sw tnow x; Some (status, set_con c y root, e) }) = Some (st, root', ev)" for x e
  proof -
    obtain y where y: "ioc_write_to_stream sw tnow x = Some (st, y)" "root' = set_con c y root" using w by (auto split: Option.bind_splits)
    have "air x < 2 ^ ack_bits x" using g fit limits_eq(2) [of x con] by (auto simp: good_def)
    then have "limits y = limits x \<and> 0 \<le> fo_pos y \<and> air y = air x" using write_air [OF y(1) sw] g by (simp add: good_def)
    then have "good y" using g by (auto simp: good_def)
    then show ?thesis using y(2) by blast
  qed
  have g0: "good con" using p by (simp add: good_def)
  have "\<exists>y. root' = set_con c y root \<and> good y"
  proof (cases "fo_used con = 0")
    case False
    then show ?thesis using move [OF g0] s c by (simp add: ioc_connection_send_def Let_def)
  next
    case True
    obtain s1 con1 where a: "ioc_acknowledge_as_needed sw tnow con = Some (s1, con1)"
      using s c True by (auto simp: ioc_connection_send_def split: Option.bind_splits)
    note r = s [unfolded ioc_connection_send_def c bind.bind_lunit Let_def, simplified True a if_not_P, simplified]
    have a1: "limits con1 = limits con \<and> 0 \<le> fo_pos con1 \<and>
        (air con1 \<le> air con \<or> air con1 \<le> min (air con + ack_size con) (con_max_ack_in_air con))"
      by (rule acknowledge_air [OF a sw p True fit(1,3)])
    then have g1: "good con1" by (auto simp: good_def)
    show ?thesis
    proof (cases "s1 = OSAL_SUCCESS \<and> fo_used con1 = 0")
      case False
      then show ?thesis using r move [OF g1] g1 by (auto split: if_splits)
    next
      case T: True
      then obtain con2 e where m: "make_frame env root con1 = Some (con2, e)" using r by (auto split: Option.bind_splits)
      have "framed con1 con2" by (rule make_frame_air [OF m]) (use T a1 in simp_all)
      then have "good con2" using g1 limits_eq(3) [of con1 con] by (auto simp: good_def framed_def)
      then show ?thesis using move r m T by (simp add: split: Option.bind_splits)
    qed
  qed
  then show ?thesis by (auto simp: good_def)
qed

lemma keepalive_air:
  assumes a: "ioc_send_timed_keepalive elapsed sw tnow con = Some (st, con')" and sw: "stream_contract sw"
    and p: "0 \<le> fo_pos con" and fit: "air con + ack_size con < 2 ^ ack_bits con"
  shows "limits con' = limits con \<and> 0 \<le> fo_pos con' \<and> air con' \<le> air con + ack_size con"
proof -
  have "con' = con \<or> (\<exists>s. ioc_send_acknowledge sw tnow con = Some (s, con'))"
    using a by (auto simp: ioc_send_timed_keepalive_def split: if_splits Option.bind_splits)
  then show ?thesis using send_acknowledge_air [OF _ sw p fit] p ack_sizes(2) [of con] by auto
qed

section \<open>Runs\<close>

text \<open>
  What happens to a connection as far as sending goes: \<open>ioc_connection_send\<close>, a timed keep alive
  (counted), an acknowledgement of the other end for some of the bytes in the air, and whatever else
  leaves the counters, the frame buffer's state and the limits alone.
\<close>

inductive flow_step :: "nat \<Rightarrow> iocConnection \<Rightarrow> iocConnection \<Rightarrow> bool" where
  sends: "rt_con root c = Some con \<Longrightarrow> stream_contract sw \<Longrightarrow> ioc_connection_send env sw tnow c root = Some (st, root', ev) \<Longrightarrow>
    rt_con root' c = Some con' \<Longrightarrow> flow_step 0 con con'"
| keeps_alive: "stream_contract sw \<Longrightarrow> ioc_send_timed_keepalive elapsed sw tnow con = Some (st, con') \<Longrightarrow> flow_step 1 con con'"
| acknowledged: "bytes_in_air (con\<lparr>con_processed_bytes := p\<rparr>) \<le> bytes_in_air con \<Longrightarrow> flow_step 0 con (con\<lparr>con_processed_bytes := p\<rparr>)"
| otherwise: "flow con' = flow con \<Longrightarrow> flow_step 0 con con'"

inductive flow_run :: "iocConnection \<Rightarrow> nat \<Rightarrow> iocConnection \<Rightarrow> bool" where
  start: "flow_run con 0 con"
| step: "flow_run con k con1 \<Longrightarrow> flow_step j con1 con2 \<Longrightarrow> flow_run con (k + j) con2"

definition within :: "iocConnection \<Rightarrow> nat \<Rightarrow> iocConnection \<Rightarrow> bool" where
  "within con k con' \<longleftrightarrow> limits con' = limits con \<and> 0 \<le> fo_pos con' \<and> air con' \<le> con_max_ack_in_air con + int k * ack_size con"

lemma flow_step_within:
  assumes st: "flow_step j con1 con2" and w: "within con k con1" and m: "con_max_in_air con \<le> con_max_ack_in_air con"
    and fit: "con_max_ack_in_air con + int (k + j) * ack_size con < 2 ^ ack_bits con"
  shows "within con (k + j) con2"
proof -
  have l: "limits con1 = limits con" and p: "0 \<le> fo_pos con1" and a: "air con1 \<le> con_max_ack_in_air con + int k * ack_size con"
    using w by (simp_all add: within_def)
  note e = limits_eq [OF l]
  have nn: "0 \<le> int i * ack_size con" for i using ack_sizes(2) [of con] by simp
  have kj: "int (k + j) * ack_size con = int k * ack_size con + int j * ack_size con" by (simp add: distrib_right)
  have f: "air con1 < 2 ^ ack_bits con1" "con_max_in_air con1 < 2 ^ ack_bits con1" "con_max_ack_in_air con1 < 2 ^ ack_bits con1"
    using fit a m nn [of j] nn [of k] unfolding e kj by simp_all
  from st show ?thesis
  proof cases
    case (sends root c sw env tnow st root' ev)
    then show ?thesis
      using connection_send_air [OF sends(2,4,3) p f] l a m nn [of k] unfolding e within_def by (auto simp: set_con_def)
  next
    case (keeps_alive sw elapsed tnow st)
    have "air con1 + ack_size con1 < 2 ^ ack_bits con1" using fit a keeps_alive(1) unfolding e kj by simp
    then show ?thesis using keepalive_air [OF keeps_alive(3,2) p] l a keeps_alive(1) unfolding e within_def kj by simp
  next
    case (acknowledged p)
    then show ?thesis using l p a w by (auto simp: within_def limits_def air_def)
  next
    case otherwise
    then show ?thesis using flow_eq [OF otherwise(2)] w by (simp add: within_def)
  qed
qed

lemma flow_run_within:
  assumes "flow_run con k con'" and "0 \<le> fo_pos con" "air con \<le> con_max_ack_in_air con"
    and "con_max_in_air con \<le> con_max_ack_in_air con" and "con_max_ack_in_air con + int k * ack_size con < 2 ^ ack_bits con"
  shows "within con k con'"
  using assms
proof (induction rule: flow_run.induct)
  case (start con)
  then show ?case by (simp add: within_def)
next
  case (step con k con1 j con2)
  have "int k * ack_size con \<le> int (k + j) * ack_size con" using ack_sizes(2) [of con] by (intro mult_right_mono) simp_all
  then have "within con k con1" using step by simp
  then show ?case by (rule flow_step_within [OF step.hyps(2)]) (use step.prems in simp_all)
qed

text \<open>
  \<^bold>\<open>C21\<close> Flow control. Whatever a connection sends, whatever the stream takes of it and whenever the
  other end acknowledges: the bytes in the air, counted with those still in the frame buffer, never exceed
  \<open>max_ack_in_air\<close> by more than the keep alives sent in the run, which alone are written without a check
  (\<open>ioc_send_timed_keepalive\<close>); and no call of \<open>ioc_connection_send\<close> raises them but by a frame, of
  data or of the system, up to \<open>max_in_air\<close>, or by one acknowledgement up to \<open>max_ack_in_air\<close>, although the
  counters wrap around. Assumed are limits as \<open>ioc_connect\<close> sets them, that do not change during the
  run and fit the bits of an acknowledgement, and a stream that takes at most what it is offered.
\<close>

theorem flow_control_bound:
  assumes run: "flow_run con k con'" and start: "0 \<le> fo_pos con" "air con \<le> con_max_ack_in_air con"
    and m: "con_max_in_air con \<le> con_max_ack_in_air con" and fit: "con_max_ack_in_air con + int k * ack_size con < 2 ^ ack_bits con"
    and c: "rt_con root c = Some con'" and sw: "stream_contract sw"
    and s: "ioc_connection_send env sw tnow c root = Some (st, root', ev)"
  shows "air con' \<le> con_max_ack_in_air con + int k * ack_size con \<and>
    (\<exists>con2. root' = set_con c con2 root \<and>
      (air con2 \<le> max (air con') (con_max_in_air con) \<or> air con2 \<le> min (air con' + ack_size con) (con_max_ack_in_air con)))"
proof -
  have w: "within con k con'" by (rule flow_run_within [OF run start m fit])
  then have l: "limits con' = limits con" and p: "0 \<le> fo_pos con'" and a: "air con' \<le> con_max_ack_in_air con + int k * ack_size con"
    by (simp_all add: within_def)
  note e = limits_eq [OF l]
  have "0 \<le> int k * ack_size con" using ack_sizes(2) [of con] by simp
  then have f: "air con' < 2 ^ ack_bits con'" "con_max_in_air con' < 2 ^ ack_bits con'" "con_max_ack_in_air con' < 2 ^ ack_bits con'"
    using fit a m unfolding e by simp_all
  show ?thesis using connection_send_air [OF c s sw p f] a unfolding e by blast
qed

text \<open>An authenticated connection with changes to send, a stream that takes nine bytes at a time.\<close>

definition flow_sample :: iocConnection where
  "flow_sample = turns_sample\<lparr>con_authentication_sent := True, con_authentication_received := True\<rparr>"

definition nine_bytes :: stream_write where
  "nine_bytes bs = (OSAL_SUCCESS, min 9 (length bs))"

declare ioc_get_mbinfo_to_send.simps [code]

theorem flow_control_bound_witness:
  "\<exists>con' st root' ev con2. flow_run flow_sample 1 con' \<and>
    ioc_connection_send env_sample nine_bytes 9 5 (set_con 5 con' (root_start 1)) = Some (st, root', ev) \<and>
    air con' \<le> con_max_ack_in_air flow_sample + int 1 * ack_size flow_sample \<and> root' = set_con 5 con2 (set_con 5 con' (root_start 1)) \<and>
    (air con2 \<le> max (air con') (con_max_in_air flow_sample) \<or> air con2 \<le> min (air con' + ack_size flow_sample) (con_max_ack_in_air flow_sample))"
proof -
  let ?send = "\<lambda>con. ioc_connection_send env_sample nine_bytes 9 5 (set_con 5 con (root_start 1))"
  have "\<not> Option.is_none (do {
      (st1, root1, ev1) \<leftarrow> ?send flow_sample;
      con1 \<leftarrow> rt_con root1 5;
      (st2, con2) \<leftarrow> ioc_send_timed_keepalive (\<lambda>_ _ _. True) nine_bytes 9 con1;
      ?send con2 })" by code_simp
  then obtain st1 root1 ev1 con1 st2 con2 st root' ev where r: "?send flow_sample = Some (st1, root1, ev1)" "rt_con root1 5 = Some con1"
    "ioc_send_timed_keepalive (\<lambda>_ _ _. True) nine_bytes 9 con1 = Some (st2, con2)" "?send con2 = Some (st, root', ev)"
    unfolding Option.is_none_def not_None_eq by (elim exE bind_SomeE) (auto split: prod.splits elim!: bind_SomeE)
  have sw: "stream_contract nine_bytes" by (simp add: stream_contract_def nine_bytes_def)
  have "flow_step 0 flow_sample con1" by (rule sends [OF _ sw r(1,2)]) (simp add: set_con_def)
  then have "flow_run flow_sample 0 con1" using step [OF start, of 0] by simp
  then have run: "flow_run flow_sample 1 con2" using step keeps_alive [OF sw r(3)] by fastforce
  have ok: "0 \<le> fo_pos flow_sample" "air flow_sample \<le> con_max_ack_in_air flow_sample" "con_max_in_air flow_sample \<le> con_max_ack_in_air flow_sample"
    "con_max_ack_in_air flow_sample + int 1 * ack_size flow_sample < 2 ^ ack_bits flow_sample"
    by (simp_all add: flow_sample_def turns_sample_def air_def ack_size_def con_sample_simps)
  have c: "rt_con (set_con 5 con2 (root_start 1)) 5 = Some con2" by (simp add: set_con_def)
  show ?thesis using flow_control_bound [OF run ok c sw r(4)] run r(4) by blast
qed

end
