(* ===== verification/Ioc_Streamer.thy ===== *)
theory Ioc_Streamer
  imports Ioc_Prelude
begin

text \<open>
  Streamers, \<open>code/ioc_streamer.c\<close> and \<open>.h\<close>: a byte stream from one end of a connection to the other
  through signals of memory blocks. The writer puts bytes into a ring buffer and moves \<open>head\<close>, the reader
  takes them and moves \<open>tail\<close>, and the signals \<open>cmd\<close> (set by the controller) and \<open>state\<close> (set by the
  device) start, complete and interrupt the transfer.

  The signals of one direction are a record of the values that an end sees in its own memory blocks, with
  the connected bit where the code looks at it. \<open>ioc_set\<close> and \<open>ioc_get\<close> are updates and selections of the
  record; the array signal \<open>buf\<close> is a list of bytes. Flags of the operating system layer are booleans,
  its timers, checksum and error test are functions in \<open>stream_env\<close>.
\<close>

section \<open>State\<close>

definition IOC_STREAM_IDLE :: int where "IOC_STREAM_IDLE = 0"
definition IOC_STREAM_RUNNING :: int where "IOC_STREAM_RUNNING = 1"
definition IOC_STREAM_COMPLETED :: int where "IOC_STREAM_COMPLETED = 2"
definition IOC_STREAM_INTERRUPT :: int where "IOC_STREAM_INTERRUPT = 3"
definition IOC_STREAMER_TIMEOUT :: int where "IOC_STREAMER_TIMEOUT = 5000"

lemmas stream_state_defs = IOC_STREAM_IDLE_def IOC_STREAM_RUNNING_def IOC_STREAM_COMPLETED_def IOC_STREAM_INTERRUPT_def

datatype iocStreamerStep =
    IOC_SSTEP_INITIALIZED | IOC_SSTEP_INITIALIZED2 | IOC_SSTEP_TRANSFER_DATA | IOC_SSTEP_TRANSFER_DONE
  | IOC_SSTEP_TRANSFER_DONE2 | IOC_SSTEP_ALL_COMPLETED | IOC_SSTEP_FAILED | IOC_SSTEP_FAILED2 | IOC_SSTEP_FAILED_AND_IDLE_SET

datatype iocStremErrSetMode = IOC_STREAMER_MODE_UNCONDITIONAL | IOC_STREAMER_MODE_SET_ERROR | IOC_STREAMER_MODE_COMPLETED

record iocStreamerSignals =
  sg_cmd :: int
  sg_cmd_connected :: bool
  sg_select :: int
  sg_err :: "osalStatus option"
  sg_cs :: u16
  sg_buf :: "byte list"
  sg_buf_connected :: bool
  sg_head :: int
  sg_tail :: int
  sg_tail_connected :: bool
  sg_state :: int
  sg_state_connected :: bool

record iocStreamerParams =
  sp_is_device :: bool
  sp_frd :: iocStreamerSignals
  sp_tod :: iocStreamerSignals

record iocStreamer =
  sr_step :: iocStreamerStep
  sr_select :: int
  sr_head :: int
  sr_tail :: int
  sr_read_flag :: bool
  sr_write_flag :: bool
  sr_disable_checksum :: bool
  sr_mytimer :: nat
  sr_used :: bool
  sr_checksum :: u16
  sr_read_timeout_ms :: int
  sr_write_timeout_ms :: int

text \<open>\<open>sv_elapsed start ms\<close> is \<open>os_has_elapsed\<close> at the time of the call, \<open>sv_now\<close> what \<open>os_get_timer\<close> gives.\<close>

record stream_env =
  sv_now :: nat
  sv_elapsed :: "nat \<Rightarrow> int \<Rightarrow> bool"
  sv_checksum :: "byte list \<Rightarrow> int \<Rightarrow> u16 \<Rightarrow> u16"
  sv_checksum_init :: u16
  sv_is_error :: "osalStatus \<Rightarrow> bool"
  sv_interrupt :: bool
  sv_peek :: bool
  sv_final_handshake :: bool

definition OSAL_STATUS_CHECKSUM_ERROR :: osalStatus where "OSAL_STATUS_CHECKSUM_ERROR = OSAL_STATUS_OTHER 0"

section \<open>The ring buffer\<close>

text \<open>Number of bytes read, or -1 when the ring buffer is not connected; the bytes; \<open>tail\<close>.\<close>

definition ioc_streamer_read_internal ::
  "iocStreamerSignals \<Rightarrow> int \<Rightarrow> int \<Rightarrow> int \<Rightarrow> int \<Rightarrow> bool \<Rightarrow> (int \<times> byte list \<times> int \<times> iocStreamerSignals) option" where
  "ioc_streamer_read_internal sg buf_sz n head tail peek = do {
     let rdnow1 = (if tail > head then min (buf_sz - tail) n else 0);
     part1 \<leftarrow> (if rdnow1 > 0 then rds (sg_buf sg) tail rdnow1 else Some []);
     if rdnow1 > 0 \<and> \<not> sg_buf_connected sg then Some (-1, [], tail, sg)
     else do {
       let ltail1 = (if rdnow1 > 0 then (if tail + rdnow1 \<ge> buf_sz then 0 else tail + rdnow1) else tail);
       let n1 = (if rdnow1 > 0 then n - rdnow1 else n);
       let rdnow2 = (if ltail1 < head then min (head - ltail1) n1 else 0);
       part2 \<leftarrow> (if rdnow2 > 0 then rds (sg_buf sg) ltail1 rdnow2 else Some []);
       if rdnow2 > 0 \<and> \<not> sg_buf_connected sg then Some (-1, [], tail, sg)
       else
         let ltail2 = (if rdnow2 > 0 then ltail1 + rdnow2 else ltail1);
             nbytes = (if rdnow1 > 0 then rdnow1 else 0) + (if rdnow2 > 0 then rdnow2 else 0)
         in Some (if nbytes \<noteq> 0 \<and> \<not> peek then (nbytes, part1 @ part2, ltail2, sg\<lparr>sg_tail := ltail2\<rparr>)
                  else (nbytes, part1 @ part2, tail, sg)) } }"

text \<open>Number of bytes written and the new \<open>head\<close>.\<close>

definition ioc_streamer_write_internal ::
  "iocStreamerSignals \<Rightarrow> byte list \<Rightarrow> int \<Rightarrow> int \<Rightarrow> int \<Rightarrow> int \<Rightarrow> (int \<times> int \<times> iocStreamerSignals) option" where
  "ioc_streamer_write_internal sg buf buf_sz n head tail = do {
     let wrnow1 = (if head \<ge> tail then min (if tail = 0 then buf_sz - head - 1 else buf_sz - head) n else 0);
     ring1 \<leftarrow> (if wrnow1 > 0 then os_memcpy (sg_buf sg) head buf 0 wrnow1 else Some (sg_buf sg));
     let head1 = (if wrnow1 > 0 then (if head + wrnow1 \<ge> buf_sz then 0 else head + wrnow1) else head);
     let pos = (if wrnow1 > 0 then wrnow1 else 0);
     let wrnow2 = (if head1 < tail then min (tail - head1 - 1) (n - pos) else 0);
     ring2 \<leftarrow> (if wrnow2 > 0 then os_memcpy ring1 head1 buf pos wrnow2 else Some ring1);
     let head2 = (if wrnow2 > 0 then head1 + wrnow2 else head1);
     let nbytes = pos + (if wrnow2 > 0 then wrnow2 else 0);
     Some (nbytes, head2, if nbytes \<noteq> 0 then sg\<lparr>sg_buf := ring2, sg_head := head2\<rparr> else sg) }"

section \<open>Opening, closing and errors\<close>

text \<open>The error signal of the direction; \<open>None\<close> when there is none.\<close>

definition set_err :: "stream_env \<Rightarrow> osalStatus \<Rightarrow> iocStremErrSetMode \<Rightarrow> iocStreamerSignals \<Rightarrow> iocStreamerSignals" where
  "set_err env s mode sg = (case sg_err sg of None \<Rightarrow> sg
     | Some old_s \<Rightarrow> if mode = IOC_STREAMER_MODE_COMPLETED \<and> sv_is_error env old_s then sg else sg\<lparr>sg_err := Some s\<rparr>)"

definition ioc_set_streamer_error :: "stream_env \<Rightarrow> iocStreamer \<Rightarrow> osalStatus \<Rightarrow> iocStremErrSetMode \<Rightarrow> iocStreamerParams \<Rightarrow> iocStreamerParams" where
  "ioc_set_streamer_error env streamer s mode prm =
    (if sp_is_device prm \<and> (mode \<noteq> IOC_STREAMER_MODE_SET_ERROR \<or> sv_is_error env s) then
       if sr_read_flag streamer then prm\<lparr>sp_tod := set_err env s mode (sp_tod prm)\<rparr> else prm\<lparr>sp_frd := set_err env s mode (sp_frd prm)\<rparr>
     else prm)"

text \<open>\<open>select\<close> is the number in the parameter string; \<open>None\<close> as a result: no memory.\<close>

definition ioc_streamer_open ::
  "stream_env \<Rightarrow> bool \<Rightarrow> int option \<Rightarrow> bool \<Rightarrow> bool \<Rightarrow> bool \<Rightarrow> iocStreamerParams \<Rightarrow> (iocStreamer \<times> iocStreamerParams) option" where
  "ioc_streamer_open env got select rflag wflag no_checksum prm =
    (if \<not> got then None
     else
       let streamer = \<lparr>sr_step = IOC_SSTEP_INITIALIZED, sr_select = (case select of None \<Rightarrow> 0 | Some i \<Rightarrow> i), sr_head = 0, sr_tail = 0,
             sr_read_flag = rflag, sr_write_flag = wflag, sr_disable_checksum = no_checksum, sr_mytimer = 0, sr_used = True,
             sr_checksum = sv_checksum_init env, sr_read_timeout_ms = IOC_STREAMER_TIMEOUT, sr_write_timeout_ms = IOC_STREAMER_TIMEOUT\<rparr>;
           prm1 = ioc_set_streamer_error env streamer OSAL_SUCCESS IOC_STREAMER_MODE_UNCONDITIONAL prm;
           prm2 = (if rflag then
               if sp_is_device prm1 then prm1\<lparr>sp_tod := (sp_tod prm1)\<lparr>sg_state := IOC_STREAM_IDLE, sg_tail := 0\<rparr>\<rparr>
               else prm1\<lparr>sp_frd := (sp_frd prm1)\<lparr>sg_cmd := IOC_STREAM_IDLE, sg_tail := 0\<rparr>\<rparr>
             else prm1);
           prm3 = (if wflag then
               if sp_is_device prm2 then prm2\<lparr>sp_frd := (sp_frd prm2)\<lparr>sg_state := IOC_STREAM_IDLE, sg_head := 0, sg_cs := 0\<rparr>\<rparr>
               else prm2\<lparr>sp_tod := (sp_tod prm2)\<lparr>sg_cmd := IOC_STREAM_IDLE, sg_head := 0, sg_cs := 0\<rparr>\<rparr>
             else prm2)
       in Some (streamer, prm3))"

definition ioc_streamer_close :: "iocStreamer \<Rightarrow> iocStreamerParams \<Rightarrow> iocStreamerParams" where
  "ioc_streamer_close streamer prm =
    (if \<not> sr_used streamer then prm
     else
       let prm1 = (if sr_read_flag streamer then
               if sp_is_device prm then prm\<lparr>sp_tod := (sp_tod prm)\<lparr>sg_state := IOC_STREAM_IDLE, sg_tail := 0\<rparr>\<rparr>
               else prm\<lparr>sp_frd := (sp_frd prm)\<lparr>sg_cmd := IOC_STREAM_IDLE, sg_tail := 0\<rparr>\<rparr>
             else prm)
       in if sr_write_flag streamer then
            if sp_is_device prm1 then prm1\<lparr>sp_frd := (sp_frd prm1)\<lparr>sg_state := IOC_STREAM_IDLE, sg_head := 0\<rparr>\<rparr>
            else prm1\<lparr>sp_tod := (sp_tod prm1)\<lparr>sg_cmd := IOC_STREAM_IDLE, sg_head := 0\<rparr>\<rparr>
          else prm1)"

section \<open>A device writes\<close>

type_synonym stream_end = "iocStreamer \<times> iocStreamerSignals"

definition in_transfer :: "int \<Rightarrow> bool" where
  "in_transfer s \<longleftrightarrow> s = IOC_STREAM_RUNNING \<or> s = IOC_STREAM_COMPLETED"

text \<open>What a step returns; \<open>n\<close> is the number of bytes, and for a reader \<open>xs\<close> the bytes.\<close>

definition fails :: "stream_end \<Rightarrow> (int \<times> stream_end) option" where
  "fails e = Some (0, (fst e)\<lparr>sr_step := IOC_SSTEP_FAILED\<rparr>, snd e)"

text \<open>The case \<open>IOC_SSTEP_TRANSFER_DATA\<close> of \<open>ioc_streamer_device_write\<close>.\<close>

definition device_write_data :: "stream_env \<Rightarrow> byte list \<Rightarrow> int \<Rightarrow> stream_end \<Rightarrow> (int \<times> stream_end) option" where
  "device_write_data env buf n e = (case e of (st, sg) \<Rightarrow>
     if \<not> in_transfer (sg_cmd sg) \<or> sv_interrupt env then fails e
     else
       let buf_sz = int (length (sg_buf sg)); tail = sg_tail sg
       in if tail < 0 \<or> tail \<ge> buf_sz then fails e
          else do {
            (nbytes, head, sg1) \<leftarrow> (if n > 0 then ioc_streamer_write_internal sg buf buf_sz n (sr_head st) tail else Some (0, sr_head st, sg));
            let st1 = st\<lparr>sr_head := head\<rparr>;
            if nbytes \<noteq> 0 then
              Some (nbytes, (if sr_disable_checksum st1 then st1 else st1\<lparr>sr_checksum := sv_checksum env buf nbytes (sr_checksum st1)\<rparr>)
                \<lparr>sr_mytimer := sv_now env\<rparr>, sg1)
            else if n = -1 then
              Some (nbytes, st1\<lparr>sr_step := IOC_SSTEP_TRANSFER_DONE\<rparr>, sg1\<lparr>sg_cs := sr_checksum st1, sg_state := IOC_STREAM_COMPLETED\<rparr>)
            else if n \<noteq> 0 \<and> sr_write_timeout_ms st1 > 0 \<and> sv_elapsed env (sr_mytimer st1) (sr_write_timeout_ms st1)
            then Some (nbytes, st1\<lparr>sr_step := IOC_SSTEP_FAILED\<rparr>, sg1)
            else Some (nbytes, st1, sg1) })"

definition device_disconnected :: "stream_end \<Rightarrow> stream_end" where
  "device_disconnected e = (case e of (st, sg) \<Rightarrow>
     if \<not> sg_cmd_connected sg \<and> sr_step st \<noteq> IOC_SSTEP_FAILED_AND_IDLE_SET
     then (st\<lparr>sr_step := IOC_SSTEP_FAILED_AND_IDLE_SET\<rparr>, sg\<lparr>sg_state := IOC_STREAM_IDLE\<rparr>) else e)"

definition device_write_status :: "iocStreamerStep \<Rightarrow> osalStatus" where
  "device_write_status step = (case step of
     IOC_SSTEP_TRANSFER_DATA \<Rightarrow> OSAL_SUCCESS | IOC_SSTEP_TRANSFER_DONE \<Rightarrow> OSAL_SUCCESS
   | IOC_SSTEP_FAILED \<Rightarrow> OSAL_SUCCESS | IOC_SSTEP_FAILED2 \<Rightarrow> OSAL_SUCCESS
   | IOC_SSTEP_ALL_COMPLETED \<Rightarrow> OSAL_COMPLETED | _ \<Rightarrow> OSAL_STATUS_FAILED)"

definition ioc_streamer_device_write ::
  "stream_env \<Rightarrow> byte list \<Rightarrow> int \<Rightarrow> stream_end \<Rightarrow> (osalStatus \<times> int \<times> stream_end) option" where
  "ioc_streamer_device_write env buf n e0 = do {
     let (st, sg) = device_disconnected e0;
     let cmd = sg_cmd sg;
     let waits = (sg_cmd_connected sg \<and> cmd = IOC_STREAM_RUNNING \<and> \<not> sv_elapsed env (sr_mytimer st) IOC_STREAMER_TIMEOUT);
     (nbytes, e) \<leftarrow> (case sr_step st of
         IOC_SSTEP_INITIALIZED \<Rightarrow>
           if \<not> in_transfer cmd then fails (st, sg)
           else device_write_data env buf n
             (st\<lparr>sr_select := sg_select sg, sr_step := IOC_SSTEP_TRANSFER_DATA, sr_mytimer := sv_now env\<rparr>, sg\<lparr>sg_state := IOC_STREAM_RUNNING\<rparr>)
       | IOC_SSTEP_TRANSFER_DATA \<Rightarrow> device_write_data env buf n (st, sg)
       | IOC_SSTEP_TRANSFER_DONE \<Rightarrow>
           Some (0, if waits then (st, sg)
             else (st\<lparr>sr_step := IOC_SSTEP_ALL_COMPLETED\<rparr>, sg\<lparr>sg_state := IOC_STREAM_IDLE, sg_head := 0\<rparr>))
       | IOC_SSTEP_FAILED \<Rightarrow>
           Some (0, st\<lparr>sr_step := IOC_SSTEP_FAILED2, sr_mytimer := sv_now env\<rparr>, sg\<lparr>sg_state := IOC_STREAM_INTERRUPT\<rparr>)
       | IOC_SSTEP_FAILED2 \<Rightarrow>
           Some (0, if waits then (st, sg)
             else (st\<lparr>sr_step := IOC_SSTEP_FAILED_AND_IDLE_SET\<rparr>, sg\<lparr>sg_state := IOC_STREAM_IDLE, sg_head := 0\<rparr>))
       | _ \<Rightarrow> Some (0, st, sg));
     Some (device_write_status (sr_step (fst e)), nbytes, e) }"

section \<open>A device reads\<close>

text \<open>The case \<open>IOC_SSTEP_TRANSFER_DATA\<close> of \<open>ioc_streamer_device_read\<close>.\<close>

definition device_read_data :: "stream_env \<Rightarrow> int \<Rightarrow> stream_end \<Rightarrow> (int \<times> byte list \<times> stream_end) option" where
  "device_read_data env n e = (case e of (st, sg) \<Rightarrow>
     let failed = (\<lambda>k xs st sg. Some (k, xs, st\<lparr>sr_step := IOC_SSTEP_FAILED\<rparr>, sg))
     in if \<not> in_transfer (sg_cmd sg) \<or> sv_interrupt env then failed 0 [] st sg
     else
       let buf_sz = int (length (sg_buf sg)); head = sg_head sg
       in if head < 0 \<or> head \<ge> buf_sz then failed 0 [] st sg
          else do {
            (nbytes, xs, tail, sg1) \<leftarrow> ioc_streamer_read_internal sg buf_sz n head (sr_tail st) (sv_peek env);
            let st1 = st\<lparr>sr_tail := tail\<rparr>;
            if nbytes < 0 then failed nbytes xs st1 sg1
            else
              let st2 = (if nbytes \<noteq> 0 then st1\<lparr>sr_mytimer := sv_now env\<rparr> else st1)
              in if sg_cmd sg = IOC_STREAM_RUNNING then
                   if nbytes = 0 \<and> sr_read_timeout_ms st2 > 0 \<and> sv_elapsed env (sr_mytimer st2) (sr_read_timeout_ms st2)
                   then failed nbytes xs st2 sg1 else Some (nbytes, xs, st2, sg1)
                 else Some (nbytes, xs, st2\<lparr>sr_step := IOC_SSTEP_TRANSFER_DONE\<rparr>, sg1) })"

definition ioc_streamer_device_read ::
  "stream_env \<Rightarrow> int \<Rightarrow> stream_end \<Rightarrow> (osalStatus \<times> int \<times> byte list \<times> stream_end) option" where
  "ioc_streamer_device_read env n e0 = do {
     let (st, sg) = device_disconnected e0;
     let cmd = sg_cmd sg;
     (nbytes, xs, e) \<leftarrow> (case sr_step st of
         IOC_SSTEP_INITIALIZED \<Rightarrow>
           if \<not> in_transfer cmd then Some (0, [], st\<lparr>sr_select := sg_select sg, sr_step := IOC_SSTEP_FAILED\<rparr>, sg)
           else device_read_data env n
             (st\<lparr>sr_select := sg_select sg, sr_step := IOC_SSTEP_TRANSFER_DATA, sr_mytimer := sv_now env\<rparr>, sg\<lparr>sg_state := IOC_STREAM_RUNNING\<rparr>)
       | IOC_SSTEP_TRANSFER_DATA \<Rightarrow> device_read_data env n (st, sg)
       | IOC_SSTEP_TRANSFER_DONE \<Rightarrow> Some (0, [], st\<lparr>sr_step := IOC_SSTEP_ALL_COMPLETED\<rparr>, sg\<lparr>sg_state := IOC_STREAM_IDLE\<rparr>)
       | IOC_SSTEP_FAILED \<Rightarrow>
           Some (0, [], st\<lparr>sr_step := IOC_SSTEP_FAILED2, sr_mytimer := sv_now env\<rparr>, sg\<lparr>sg_state := IOC_STREAM_INTERRUPT\<rparr>)
       | IOC_SSTEP_FAILED2 \<Rightarrow>
           Some (0, [], if in_transfer cmd \<and> sg_cmd_connected sg \<and> \<not> sv_elapsed env (sr_mytimer st) IOC_STREAMER_TIMEOUT then (st, sg)
             else (st\<lparr>sr_step := IOC_SSTEP_FAILED_AND_IDLE_SET\<rparr>, sg\<lparr>sg_state := IOC_STREAM_IDLE\<rparr>))
       | _ \<Rightarrow> Some (0, [], st, sg));
     Some (device_write_status (sr_step (fst e)), nbytes, xs, e) }"

section \<open>A controller writes\<close>

text \<open>
  The tests on the connected bit look at \<open>state\<close> here, and \<open>sg_select\<close>, \<open>sg_cmd\<close> are the signals the
  controller sets. The case \<open>IOC_SSTEP_TRANSFER_DATA\<close>:
\<close>

definition controller_write_data :: "stream_env \<Rightarrow> byte list \<Rightarrow> int \<Rightarrow> stream_end \<Rightarrow> (int \<times> stream_end) option" where
  "controller_write_data env buf n e = (case e of (st, sg) \<Rightarrow>
     if sg_state sg \<noteq> IOC_STREAM_RUNNING \<or> sv_interrupt env then fails e
     else if n > 0 then
       let buf_sz = int (length (sg_buf sg)); tail = sg_tail sg
       in if tail < 0 \<or> tail \<ge> buf_sz then fails e
          else do {
            (nbytes, head, sg1) \<leftarrow> ioc_streamer_write_internal sg buf buf_sz n (sr_head st) tail;
            let st1 = st\<lparr>sr_head := head\<rparr>;
            Some (nbytes, (if sr_disable_checksum st1 then st1 else st1\<lparr>sr_checksum := sv_checksum env buf nbytes (sr_checksum st1)\<rparr>)
              \<lparr>sr_mytimer := sv_now env\<rparr>, sg1) }
     else if n = 0 then
       if sr_write_timeout_ms st > 0 \<and> sv_elapsed env (sr_mytimer st) (sr_write_timeout_ms st) then fails e else Some (0, e)
     else Some (0, st\<lparr>sr_step := IOC_SSTEP_TRANSFER_DONE\<rparr>, sg\<lparr>sg_cs := sr_checksum st, sg_cmd := IOC_STREAM_COMPLETED\<rparr>))"

definition controller_disconnected :: "stream_end \<Rightarrow> stream_end" where
  "controller_disconnected e = (case e of (st, sg) \<Rightarrow>
     if \<not> sg_state_connected sg \<and> sr_step st \<noteq> IOC_SSTEP_FAILED_AND_IDLE_SET
     then (st\<lparr>sr_step := IOC_SSTEP_FAILED_AND_IDLE_SET\<rparr>, sg\<lparr>sg_cmd := IOC_STREAM_IDLE\<rparr>) else e)"

definition controller_write_status :: "iocStreamerStep \<Rightarrow> osalStatus" where
  "controller_write_status step = (case step of
     IOC_SSTEP_INITIALIZED2 \<Rightarrow> OSAL_SUCCESS
   | IOC_SSTEP_TRANSFER_DATA \<Rightarrow> OSAL_SUCCESS | IOC_SSTEP_TRANSFER_DONE \<Rightarrow> OSAL_SUCCESS
   | IOC_SSTEP_FAILED \<Rightarrow> OSAL_SUCCESS | IOC_SSTEP_FAILED2 \<Rightarrow> OSAL_SUCCESS
   | IOC_SSTEP_ALL_COMPLETED \<Rightarrow> OSAL_COMPLETED | _ \<Rightarrow> OSAL_STATUS_FAILED)"

definition ioc_streamer_controller_write ::
  "stream_env \<Rightarrow> byte list \<Rightarrow> int \<Rightarrow> stream_end \<Rightarrow> (osalStatus \<times> int \<times> stream_end) option" where
  "ioc_streamer_controller_write env buf n e0 = do {
     let state = sg_state (snd e0);
     let (st, sg) = controller_disconnected e0;
     let waits = (state = IOC_STREAM_RUNNING \<and> \<not> sv_elapsed env (sr_mytimer st) IOC_STREAMER_TIMEOUT);
     (nbytes, e) \<leftarrow> (case sr_step st of
         IOC_SSTEP_INITIALIZED \<Rightarrow>
           Some (0, st\<lparr>sr_step := IOC_SSTEP_INITIALIZED2, sr_mytimer := sv_now env\<rparr>, sg\<lparr>sg_select := sr_select st, sg_cmd := IOC_STREAM_RUNNING\<rparr>)
       | IOC_SSTEP_INITIALIZED2 \<Rightarrow>
           if sv_interrupt env then fails (st, sg)
           else if state \<noteq> IOC_STREAM_RUNNING then
             if sv_elapsed env (sr_mytimer st) IOC_STREAMER_TIMEOUT then fails (st, sg) else Some (0, st, sg)
           else controller_write_data env buf n (st\<lparr>sr_step := IOC_SSTEP_TRANSFER_DATA\<rparr>, sg)
       | IOC_SSTEP_TRANSFER_DATA \<Rightarrow> controller_write_data env buf n (st, sg)
       | IOC_SSTEP_TRANSFER_DONE \<Rightarrow>
           Some (0, if waits then (st, sg) else (st\<lparr>sr_step := IOC_SSTEP_ALL_COMPLETED\<rparr>, sg\<lparr>sg_cmd := IOC_STREAM_IDLE\<rparr>))
       | IOC_SSTEP_FAILED \<Rightarrow>
           Some (0, st\<lparr>sr_step := IOC_SSTEP_FAILED2, sr_mytimer := sv_now env\<rparr>, sg\<lparr>sg_cmd := IOC_STREAM_INTERRUPT\<rparr>)
       | IOC_SSTEP_FAILED2 \<Rightarrow>
           Some (0, if waits then (st, sg) else (st\<lparr>sr_step := IOC_SSTEP_FAILED_AND_IDLE_SET\<rparr>, sg\<lparr>sg_cmd := IOC_STREAM_IDLE\<rparr>))
       | _ \<Rightarrow> Some (0, st, sg));
     Some (controller_write_status (sr_step (fst e)), nbytes, e) }"

section \<open>A controller reads\<close>

text \<open>The cases \<open>IOC_SSTEP_TRANSFER_DATA\<close> and, reached by falling through too, \<open>IOC_SSTEP_TRANSFER_DONE\<close>.\<close>

definition controller_read_done :: "stream_end \<Rightarrow> stream_end" where
  "controller_read_done e = ((fst e)\<lparr>sr_step := IOC_SSTEP_TRANSFER_DONE2\<rparr>, (snd e)\<lparr>sg_cmd := IOC_STREAM_IDLE\<rparr>)"

definition controller_read_data :: "stream_env \<Rightarrow> int \<Rightarrow> stream_end \<Rightarrow> (int \<times> byte list \<times> stream_end) option" where
  "controller_read_data env n e = (case e of (st, sg) \<Rightarrow>
     let failed = (\<lambda>k xs st sg. Some (k, xs, st\<lparr>sr_step := IOC_SSTEP_FAILED\<rparr>, sg))
     in if \<not> in_transfer (sg_state sg) \<or> sv_interrupt env then failed 0 [] st sg
     else
       let buf_sz = int (length (sg_buf sg)); head = sg_head sg
       in if head < 0 \<or> head \<ge> buf_sz then failed 0 [] st sg
          else do {
            (nbytes, xs, tail, sg1) \<leftarrow> ioc_streamer_read_internal sg buf_sz n head (sr_tail st) (sv_peek env);
            let st1 = st\<lparr>sr_tail := tail\<rparr>;
            if nbytes < 0 then failed nbytes xs st1 sg1
            else
              let st2 = (if nbytes \<noteq> 0 then st1\<lparr>sr_mytimer := sv_now env\<rparr> else st1)
              in if sg_state sg = IOC_STREAM_RUNNING then
                   if nbytes = 0 \<and> sr_read_timeout_ms st2 > 0 \<and> sv_elapsed env (sr_mytimer st2) (sr_read_timeout_ms st2)
                   then failed nbytes xs st2 sg1 else Some (nbytes, xs, st2, sg1)
                 else Some (nbytes, xs, controller_read_done (st2, sg1)) })"

definition controller_read_status :: "iocStreamerStep \<Rightarrow> osalStatus" where
  "controller_read_status step = (if step = IOC_SSTEP_TRANSFER_DONE2 then OSAL_SUCCESS else controller_write_status step)"

definition ioc_streamer_controller_read ::
  "stream_env \<Rightarrow> int \<Rightarrow> stream_end \<Rightarrow> (osalStatus \<times> int \<times> byte list \<times> stream_end) option" where
  "ioc_streamer_controller_read env n e0 = do {
     let state = sg_state (snd e0);
     let (st, sg) = controller_disconnected e0;
     let late = sv_elapsed env (sr_mytimer st) IOC_STREAMER_TIMEOUT;
     (nbytes, xs, e) \<leftarrow> (case sr_step st of
         IOC_SSTEP_INITIALIZED \<Rightarrow>
           Some (0, [], st\<lparr>sr_step := IOC_SSTEP_INITIALIZED2, sr_mytimer := sv_now env\<rparr>,
             sg\<lparr>sg_select := sr_select st, sg_cmd := IOC_STREAM_RUNNING\<rparr>)
       | IOC_SSTEP_INITIALIZED2 \<Rightarrow>
           if \<not> in_transfer state then Some (0, [], if late then st\<lparr>sr_step := IOC_SSTEP_FAILED\<rparr> else st, sg)
           else Some (0, [], st\<lparr>sr_step := IOC_SSTEP_TRANSFER_DATA\<rparr>, sg)
       | IOC_SSTEP_TRANSFER_DATA \<Rightarrow> controller_read_data env n (st, sg)
       | IOC_SSTEP_TRANSFER_DONE \<Rightarrow> Some (0, [], controller_read_done (st, sg))
       | IOC_SSTEP_TRANSFER_DONE2 \<Rightarrow>
           Some (0, [], if in_transfer state \<and> \<not> late then (st, sg)
             else (st\<lparr>sr_step := IOC_SSTEP_ALL_COMPLETED\<rparr>, sg\<lparr>sg_tail := 0\<rparr>))
       | IOC_SSTEP_FAILED \<Rightarrow>
           Some (0, [], st\<lparr>sr_step := IOC_SSTEP_FAILED2, sr_mytimer := sv_now env\<rparr>, sg\<lparr>sg_cmd := IOC_STREAM_IDLE\<rparr>)
       | IOC_SSTEP_FAILED2 \<Rightarrow>
           Some (0, [], if state = IOC_STREAM_RUNNING \<and> \<not> late then (st, sg)
             else (st\<lparr>sr_step := IOC_SSTEP_FAILED_AND_IDLE_SET\<rparr>, sg))
       | _ \<Rightarrow> Some (0, [], st, sg));
     Some (controller_read_status (sr_step (fst e)), nbytes, xs, e) }"

section \<open>The stream interface\<close>

definition ioc_streamer_write ::
  "stream_env \<Rightarrow> byte list \<Rightarrow> int \<Rightarrow> iocStreamer \<times> iocStreamerParams \<Rightarrow> (osalStatus \<times> int \<times> iocStreamer \<times> iocStreamerParams) option" where
  "ioc_streamer_write env buf n sp = (case sp of (st, prm) \<Rightarrow>
     if n < -1 then Some (OSAL_STATUS_FAILED, 0, sp)
     else if sp_is_device prm then
       map_option (\<lambda>(s, k, st', sg). (s, k, st', prm\<lparr>sp_frd := sg\<rparr>)) (ioc_streamer_device_write env buf n (st, sp_frd prm))
     else map_option (\<lambda>(s, k, st', sg). (s, k, st', prm\<lparr>sp_tod := sg\<rparr>)) (ioc_streamer_controller_write env buf n (st, sp_tod prm)))"

text \<open>The checksum is computed over \<open>n_read\<close> bytes, whatever the number is.\<close>

definition ioc_streamer_read ::
  "stream_env \<Rightarrow> int \<Rightarrow> iocStreamer \<times> iocStreamerParams \<Rightarrow> (osalStatus \<times> int \<times> byte list \<times> iocStreamer \<times> iocStreamerParams) option" where
  "ioc_streamer_read env n sp = (case sp of (st, prm) \<Rightarrow>
     if n < 0 then Some (OSAL_STATUS_FAILED, 0, [], sp)
     else do {
       (s, k, xs, st1, sg) \<leftarrow>
         (if sp_is_device prm then ioc_streamer_device_read env n (st, sp_tod prm) else ioc_streamer_controller_read env n (st, sp_frd prm));
       let prm1 = (if sp_is_device prm then prm\<lparr>sp_tod := sg\<rparr> else prm\<lparr>sp_frd := sg\<rparr>);
       if sr_disable_checksum st1 then Some (s, k, xs, st1, prm1)
       else
         let st2 = st1\<lparr>sr_checksum := sv_checksum env xs k (sr_checksum st1)\<rparr>
         in if s = OSAL_COMPLETED \<and> sr_checksum st2 \<noteq> sg_cs sg then
              Some (OSAL_STATUS_CHECKSUM_ERROR, k, xs, st2,
                ioc_set_streamer_error env st2 OSAL_STATUS_CHECKSUM_ERROR IOC_STREAMER_MODE_SET_ERROR prm1)
            else Some (s, k, xs, st2, prm1) })"

text \<open>\<open>OSAL_PENDING\<close> while the closing handshake goes on.\<close>

definition ioc_streamer_flush :: "stream_env \<Rightarrow> iocStreamer \<times> iocStreamerParams \<Rightarrow> (osalStatus \<times> iocStreamer \<times> iocStreamerParams) option" where
  "ioc_streamer_flush env sp =
    (if sv_final_handshake env then
       map_option (\<lambda>(s, k, sp'). (if s = OSAL_SUCCESS then OSAL_PENDING else if s = OSAL_COMPLETED then OSAL_SUCCESS else s, sp'))
         (ioc_streamer_write env [] (-1) sp)
     else Some (OSAL_SUCCESS, sp))"

definition ioc_streamer_tx_available :: "iocStreamer \<times> iocStreamerParams \<Rightarrow> int" where
  "ioc_streamer_tx_available sp = (case sp of (st, prm) \<Rightarrow>
     let sg = (if sp_is_device prm then sp_frd prm else sp_tod prm);
         buf_sz = int (length (sg_buf sg)); tail = sg_tail sg
     in if \<not> sg_tail_connected sg \<or> tail < 0 \<or> tail \<ge> buf_sz then -1
        else
          let b = sr_head st - tail; buffered_bytes = (if b < 0 then b + buf_sz else b)
          in buf_sz - buffered_bytes - 1)"

section \<open>What the ring buffer holds\<close>

text \<open>
  \<open>W\<close> is everything written since the stream was opened. A ring buffer holds the bytes from number \<open>r\<close> up to,
  not including, number \<open>h\<close> of it when each stands at its number modulo the size of the buffer.
\<close>

definition ring_ok :: "byte list \<Rightarrow> byte list \<Rightarrow> nat \<Rightarrow> nat \<Rightarrow> bool" where
  "ring_ok ring W r h \<longleftrightarrow> h \<le> length W \<and> (\<forall>i. r \<le> i \<and> i < h \<longrightarrow> ring ! (i mod length ring) = W ! i)"

lemma ring_ok_mono: "ring_ok ring W r h \<Longrightarrow> r \<le> r' \<Longrightarrow> h' \<le> h \<Longrightarrow> ring_ok ring W r' h'"
  by (auto simp: ring_ok_def)

lemma ring_ok_append: "ring_ok ring W r h \<Longrightarrow> ring_ok ring (W @ xs) r h"
  by (auto simp: ring_ok_def nth_append)

lemma mod_offset: "q mod s + i < s \<Longrightarrow> (q + i) mod s = q mod s + (i :: nat)"
  by (metis mod_add_left_eq mod_less)

lemma mod_wrap: "q mod s + i = s \<Longrightarrow> (q + i) mod s = (0 :: nat)"
  by (metis mod_add_left_eq mod_self)

lemma ring_segment:
  assumes ok: "ring_ok ring W r h" and q: "r \<le> q" "q + n \<le> h" and fits: "q mod length ring + n \<le> length ring"
  shows "take n (drop (q mod length ring) ring) = take n (drop q W)"
proof (rule nth_equalityI)
  show "length (take n (drop (q mod length ring) ring)) = length (take n (drop q W))"
    using assms by (auto simp: ring_ok_def)
next
  fix i
  assume "i < length (take n (drop (q mod length ring) ring))"
  then have i: "i < n" by simp
  have "(q + i) mod length ring = q mod length ring + i" using fits i by (intro mod_offset) simp
  then have "ring ! (q mod length ring + i) = W ! (q + i)"
    using ok [unfolded ring_ok_def, THEN conjunct2, rule_format, of "q + i"] q i by simp
  then show "take n (drop (q mod length ring) ring) ! i = take n (drop q W) ! i"
    using i fits q ok by (auto simp: ring_ok_def)
qed

text \<open>The position \<open>m\<close> bytes ahead, with and without passing the end of the ring.\<close>

lemma ring_ahead:
  fixes r m s :: nat
  assumes "m < s"
  shows "(r + m) mod s = (if r mod s + m < s then r mod s + m else r mod s + m - s)"
proof (cases "r mod s + m < s")
  case True
  then show ?thesis by (simp add: mod_offset)
next
  case False
  have "(r + m) mod s = (r mod s + m) mod s" by (simp add: mod_simps)
  also have "\<dots> = (r mod s + m - s) mod s" using False by (simp add: le_mod_geq)
  also have "\<dots> = r mod s + m - s"
    using assms False by (intro mod_less) (meson add_less_mono less_diff_conv2 linorder_not_less mod_less_divisor le_less_trans zero_le)
  finally show ?thesis using False by simp
qed

lemma rds_ring:
  assumes "ring_ok ring W r h" and "r \<le> q" and "q + n \<le> h" and "q mod length ring + n \<le> length ring"
  shows "rds ring (int (q mod length ring)) (int n) = Some (take n (drop q W))"
  using ring_segment [OF assms] assms(4) by (simp add: rds_in)

lemma read_internal_eval:
  assumes k1: "(if tail > head then min (buf_sz - tail) n else 0) = int k1"
    and p1: "if k1 = 0 then p1 = [] else rds (sg_buf sg) tail (int k1) = Some p1"
    and l1: "l1 = (if k1 = 0 then tail else if tail + int k1 \<ge> buf_sz then 0 else tail + int k1)"
    and k2: "(if l1 < head then min (head - l1) (n - int k1) else 0) = int k2"
    and p2: "if k2 = 0 then p2 = [] else rds (sg_buf sg) l1 (int k2) = Some p2"
    and con: "sg_buf_connected sg"
  shows "ioc_streamer_read_internal sg buf_sz n head tail peek =
    (if k1 + k2 \<noteq> 0 \<and> \<not> peek then Some (int (k1 + k2), p1 @ p2, l1 + int k2, sg\<lparr>sg_tail := l1 + int k2\<rparr>)
     else Some (int (k1 + k2), p1 @ p2, tail, sg))"
proof -
  have N1: "(if 0 < int k1 then n - int k1 else n) = n - int k1" by simp
  have P1: "(if 0 < int k1 then rds (sg_buf sg) tail (int k1) else Some []) = Some p1" using p1 by (simp split: if_splits)
  have P2: "(if 0 < int k2 then rds (sg_buf sg) l1 (int k2) else Some []) = Some p2" using p2 by (simp split: if_splits)
  have L1: "(if 0 < int k1 then if buf_sz \<le> tail + int k1 then 0 else tail + int k1 else tail) = l1" using l1 by simp
  show ?thesis
    unfolding ioc_streamer_read_internal_def Let_def k1 P1 L1 N1 k2 P2 Option.bind.bind_lunit
    using con by auto
qed

text \<open>
  A reader that knows the bytes up to number \<open>h\<close> gets the next \<open>n\<close> of them, or all when there are fewer.
\<close>

lemma read_internal_ring:
  assumes ok: "ring_ok (sg_buf sg) W r h" and s: "length (sg_buf sg) = s" and rh: "r \<le> h" and win: "h - r < s" and n: "0 \<le> n"
    and con: "sg_buf_connected sg" and k: "k = min (nat n) (h - r)"
  shows "ioc_streamer_read_internal sg (int s) n (int (h mod s)) (int (r mod s)) peek =
    (if k \<noteq> 0 \<and> \<not> peek then Some (int k, take k (drop r W), int ((r + k) mod s), sg\<lparr>sg_tail := int ((r + k) mod s)\<rparr>)
     else Some (int k, take k (drop r W), int (r mod s), sg))"
proof -
  define a m where "a = r mod s" and "m = h - r"
  have s0: "0 < s" and ms: "m < s" and hm: "h = r + m" and a_s: "a < s"
    using win rh by (auto simp: m_def a_def intro: mod_less_divisor)
  have head: "h mod s = (if a + m < s then a + m else a + m - s)"
    using ring_ahead [OF ms, of r] by (simp add: hm a_def)
  have kn: "k = min (nat n) m" using k by (simp add: m_def)
  then have km: "k \<le> m" by simp
  have tail: "(r + k) mod s = (if a + k < s then a + k else a + k - s)"
    using ring_ahead [of k s r] km ms by (simp add: a_def)
  define k1 where "k1 = (if a + m < s then 0 else min (nat n) (s - a))"
  define k2 where "k2 = k - k1"
  have kk: "k = k1 + k2" using kn n a_s ms by (auto simp: k1_def k2_def)
  have e1: "(if int a > int (h mod s) then min (int s - int a) n else 0) = int k1"
    using head ms n a_s by (auto simp: k1_def)
  have ak1: "a + k1 \<le> s" using a_s by (auto simp: k1_def)
  have seg1: "rds (sg_buf sg) (int a) (int k1) = Some (take k1 (drop r W))"
    using rds_ring [OF ok, of r k1] hm kk km s ak1 by (simp add: a_def)
  define l1 where "l1 = (if k1 = 0 then int a else if int a + int k1 \<ge> int s then 0 else int a + int k1)"
  have rk1: "(r + k1) mod s = (if a + k1 < s then a + k1 else a + k1 - s)"
    using ring_ahead [of k1 s r] kk km ms by (simp add: a_def)
  have l1r: "l1 = int ((r + k1) mod s)" unfolding l1_def rk1 using ak1 a_s by auto
  have e2: "(if l1 < int (h mod s) then min (int (h mod s) - l1) (n - int k1) else 0) = int k2"
  proof (cases "a + m < s")
    case True
    then show ?thesis using head kn n by (simp add: l1_def k1_def k2_def) linarith
  next
    case F: False
    then have hi: "int (h mod s) = int a + int m - int s" using head by simp
    show ?thesis
    proof (cases "nat n < s - a")
      case True
      then have "k1 = nat n" "k = nat n" using F kn by (auto simp: k1_def)
      then have "k2 = 0" "l1 \<ge> int a" using True by (auto simp: l1_def k2_def)
      then show ?thesis using hi ms by simp
    next
      case False
      then have "k1 = s - a" "l1 = 0" using F a_s by (auto simp: l1_def k1_def)
      then show ?thesis using hi kn n False F a_s ms by (simp add: k2_def) linarith
    qed
  qed
  have fits: "(r + k1) mod s + k2 \<le> s"
    unfolding rk1 using a_s kn ms by (auto simp: k1_def k2_def)
  have seg2: "rds (sg_buf sg) l1 (int k2) = Some (take k2 (drop (r + k1) W))"
    using rds_ring [OF ok, of "r + k1" k2] hm kk km s fits by (simp add: l1r)
  have l2: "l1 + int k2 = int ((r + k) mod s)"
    unfolding tail using kn a_s ms n by (auto simp: l1_def k1_def k2_def)
  have app: "take k1 (drop r W) @ take k2 (drop (r + k1) W) = take k (drop r W)"
    by (simp add: kk take_add add.commute)
  have p1: "if k1 = 0 then take k1 (drop r W) = [] else rds (sg_buf sg) (int a) (int k1) = Some (take k1 (drop r W))"
    using seg1 by simp
  have p2: "if k2 = 0 then take k2 (drop (r + k1) W) = [] else rds (sg_buf sg) l1 (int k2) = Some (take k2 (drop (r + k1) W))"
    using seg2 by simp
  show ?thesis
    using read_internal_eval [OF e1 p1 l1_def e2 p2 con, of peek] unfolding kk [symmetric] l2 app unfolding a_def .
qed

lemma behind_or_past:
  fixes x y :: nat
  shows "x = (if y + m < s then y + m else y + m - s) \<Longrightarrow> m + l \<le> s \<Longrightarrow> 0 < m \<Longrightarrow> y < x \<or> x + l \<le> y"
  by (auto split: if_splits)

text \<open>Storing the bytes of a segment that does not pass the end of the ring:\<close>

lemma ring_splice:
  assumes ok: "ring_ok ring W a (length W)" and win: "length W + length xs - a < length ring" and aw: "a \<le> length W"
    and fits: "length W mod length ring + length xs \<le> length ring"
  shows "ring_ok (splice ring (length W mod length ring) xs) (W @ xs) a (length W + length xs)"
proof -
  let ?s = "length ring" and ?w = "length W"
  have "splice ring (?w mod ?s) xs ! (i mod ?s) = (W @ xs) ! i" if i: "a \<le> i" "i < ?w + length xs" for i
  proof -
    have im: "i mod ?s < ?s" using win by (intro mod_less_divisor) linarith
    show ?thesis
    proof (cases "i < ?w")
      case True
      define m where "m = ?w - i"
      have ms: "m < ?s" and "0 < m" and w: "?w = i + m" using True win i by (auto simp: m_def)
      have "?w mod ?s = (if i mod ?s + m < ?s then i mod ?s + m else i mod ?s + m - ?s)"
        using ring_ahead [OF ms, of i] by (simp add: w)
      moreover have "m + length xs \<le> ?s" using win w i by linarith
      ultimately have "i mod ?s < ?w mod ?s \<or> ?w mod ?s + length xs \<le> i mod ?s" using \<open>0 < m\<close>
        by (rule behind_or_past)
      then show ?thesis
        using nth_splice [OF fits im] ok i True by (auto simp: ring_ok_def nth_append)
    next
      case False
      define q where "q = i - ?w"
      have iq: "i = ?w + q" and q: "q < length xs" using False i by (auto simp: q_def)
      have "i mod ?s = ?w mod ?s + q" unfolding iq by (rule mod_offset) (use fits q in linarith)
      then show ?thesis using nth_splice [OF fits im] q by (simp add: iq nth_append)
    qed
  qed
  then show ?thesis using fits by (simp add: ring_ok_def)
qed

lemma write_internal_eval:
  assumes k1: "(if head \<ge> tail then min (if tail = 0 then buf_sz - head - 1 else buf_sz - head) n else 0) = int k1"
    and r1: "os_memcpy (sg_buf sg) head buf 0 (int k1) = Some ring1"
    and h1: "h1 = (if k1 = 0 then head else if head + int k1 \<ge> buf_sz then 0 else head + int k1)"
    and k2: "(if h1 < tail then min (tail - h1 - 1) (n - int k1) else 0) = int k2"
    and r2: "os_memcpy ring1 h1 buf (int k1) (int k2) = Some ring2"
  shows "ioc_streamer_write_internal sg buf buf_sz n head tail =
    Some (int (k1 + k2), h1 + int k2, if k1 + k2 = 0 then sg else sg\<lparr>sg_buf := ring2, sg_head := h1 + int k2\<rparr>)"
proof -
  have same: "ring' = ring" if "os_memcpy ring i buf j 0 = Some ring'" for ring ring' :: "byte list" and i j
    using that by (auto simp: os_memcpy_def rds_def wrs_def elim!: bind_SomeE split: if_splits)
  have R1: "(if 0 < int k1 then os_memcpy (sg_buf sg) head buf 0 (int k1) else Some (sg_buf sg)) = Some ring1"
    using r1 same [of "sg_buf sg" head 0 ring1] by auto
  have R2: "(if 0 < int k2 then os_memcpy ring1 h1 buf (int k1) (int k2) else Some ring1) = Some ring2"
    using r2 same [of ring1 h1 "int k1" ring2] by auto
  have H1: "(if 0 < int k1 then if buf_sz \<le> head + int k1 then 0 else head + int k1 else head) = h1" using h1 by simp
  have P1: "(if 0 < int k1 then int k1 else 0) = int k1" by simp
  show ?thesis
    unfolding ioc_streamer_write_internal_def Let_def k1 R1 H1 P1 k2 R2 Option.bind.bind_lunit
    by auto
qed

text \<open>
  A writer that knows that the reader has the bytes up to number \<open>a\<close> stores \<open>n\<close> bytes, or as many as there is room
  for: one byte of the ring always stays unused.
\<close>

lemma write_internal_ring:
  assumes ok: "ring_ok (sg_buf sg) W a (length W)" and s: "length (sg_buf sg) = s" and aw: "a \<le> length W" and win: "length W - a < s"
    and n: "0 \<le> n" "n \<le> int (length buf)" and k: "k = min (nat n) (s - 1 - (length W - a))"
  shows "\<exists>ring. ioc_streamer_write_internal sg buf (int s) n (int (length W mod s)) (int (a mod s)) =
      Some (int k, int ((length W + k) mod s), if k = 0 then sg else sg\<lparr>sg_buf := ring, sg_head := int ((length W + k) mod s)\<rparr>) \<and>
    length ring = s \<and> ring_ok ring (W @ take k buf) a (length W + k)"
proof -
  define w p m A where "w = length W" and "p = length W mod s" and "m = length W - a" and "A = a mod s"
  have s0: "0 < s" and ms: "m < s" and wm: "w = a + m" and p_s: "p < s"
    using win aw by (auto simp: m_def w_def p_def intro: mod_less_divisor)
  have p: "p = (if A + m < s then A + m else A + m - s)"
    using ring_ahead [OF ms, of a] wm by (simp add: p_def w_def A_def)
  have as: "A < s" using s0 by (simp add: A_def)
  have kn: "k = min (nat n) (s - 1 - m)" using k by (simp add: m_def)
  define k1 where "k1 = (if A + m < s then min (nat n) (if A = 0 then s - p - 1 else s - p) else 0)"
  define k2 where "k2 = k - k1"
  have kk: "k = k1 + k2" and k1k: "k1 \<le> k" using kn p ms as by (auto simp: k1_def k2_def)
  have kb: "k \<le> length buf" using kn n by linarith
  have e1: "(if int p \<ge> int A then min (if int A = 0 then int s - int p - 1 else int s - int p) n else 0) = int k1"
    using p ms n p_s as by (auto simp: k1_def)
  have pk1: "p + k1 \<le> s" using p_s by (auto simp: k1_def)
  define ring1 where "ring1 = splice (sg_buf sg) p (take k1 buf)"
  have l1: "length ring1 = s" using pk1 s kb k1k by (simp add: ring1_def)
  have r1: "os_memcpy (sg_buf sg) (int p) buf 0 (int k1) = Some ring1"
    using pk1 s kb k1k by (simp add: os_memcpy_in ring1_def)
  have tk1: "length (take k1 buf) = k1" using kb k1k by simp
  have win1: "length W + k1 - a < s" and win2: "length W + k - a < s" using k1k kn ms wm s0 by (auto simp: w_def)
  have ok1: "ring_ok ring1 (W @ take k1 buf) a (length (W @ take k1 buf))"
    using ring_splice [OF ok, of "take k1 buf"] tk1 s aw pk1 win1 by (simp add: ring1_def p_def)
  define h1 where "h1 = (if k1 = 0 then int p else if int p + int k1 \<ge> int s then 0 else int p + int k1)"
  have wk1: "(w + k1) mod s = (if p + k1 < s then p + k1 else p + k1 - s)"
    unfolding p_def w_def by (rule ring_ahead) (use k1k kn ms in linarith)
  have h1r: "h1 = int ((w + k1) mod s)" unfolding wk1 h1_def using p_s pk1 by auto
  have e2: "(if h1 < int A then min (int A - h1 - 1) (n - int k1) else 0) = int k2"
  proof (cases "A + m < s")
    case True
    then have pA: "p = A + m" using p by simp
    show ?thesis
    proof (cases "p + k1 < s")
      case F: True
      have k1v: "k1 = min (nat n) (if A = 0 then s - p - 1 else s - p)" using True by (simp add: k1_def)
      have "k1 = k"
      proof (cases "A = 0")
        case True
        then show ?thesis using k1v kn pA by simp
      next
        case False
        then have "k1 = nat n" using k1v F by (simp add: min_def split: if_splits)
        then show ?thesis using F False kn pA by simp
      qed
      moreover have "h1 \<ge> int A" using F pA by (simp add: h1_def)
      ultimately show ?thesis by (simp add: k2_def)
    next
      case F: False
      then have "k1 = s - p" "0 < A" "h1 = 0" "s - p \<le> nat n" "0 < k1"
        using pk1 p_s n True by (auto simp: h1_def k1_def split: if_splits)
      then show ?thesis using kn pA True n as by (simp add: k2_def) linarith
    qed
  next
    case False
    then have "k1 = 0" "k2 = k" "h1 = int p" "int p < int A" "int p = int A + int m - int s"
      using p as ms by (auto simp: h1_def k1_def k2_def)
    then show ?thesis using kn n ms by simp linarith
  qed
  have fits: "(w + k1) mod s + k2 < s"
  proof (cases "h1 < int A")
    case True
    then have "int k2 \<le> int A - h1 - 1" using e2 by (metis min.cobounded1)
    then show ?thesis using as h1r by linarith
  next
    case False
    then have "k2 = 0" using e2 by simp
    then show ?thesis using s0 by simp
  qed
  define xs2 where "xs2 = take k2 (drop k1 buf)"
  have tk2: "length xs2 = k2" using kb kk by (simp add: xs2_def)
  define ring2 where "ring2 = splice ring1 ((w + k1) mod s) xs2"
  have r2: "os_memcpy ring1 h1 buf (int k1) (int k2) = Some ring2"
    using fits l1 kb kk by (simp add: os_memcpy_in h1r ring2_def xs2_def)
  have app: "take k1 buf @ xs2 = take k buf" by (simp add: kk take_add xs2_def)
  have ok2: "ring_ok ring2 (W @ take k buf) a (length W + k)"
    using ring_splice [OF ok1, of xs2] tk1 tk2 l1 aw fits kk win2 by (simp add: ring2_def w_def app add.assoc)
  have h2: "h1 + int k2 = int ((w + k) mod s)"
    using mod_offset [OF fits] by (simp add: h1r kk add.assoc)
  have "length ring2 = s" using l1 tk2 fits by (simp add: ring2_def)
  then show ?thesis
    using write_internal_eval [OF e1 r1 h1_def e2 r2] ok2
    unfolding kk [symmetric] h2 unfolding w_def p_def A_def by blast
qed

end
