(* ===== verification/Ioc_Stream_Transfer.thy ===== *)
theory Ioc_Stream_Transfer
  imports Ioc_Streamer
begin

text \<open>
  A whole transfer: the two ends of a stream (\<open>code/ioc_streamer.c\<close>), each with its own copy of the signals,
  and the memory blocks that carry the signals one end sets to the other, in both directions. The ends run
  at their own pace and any number of snapshots may be on the way. \<open>stream_dir\<close> says who writes: the functions
  of the two ends, the signal by which the writer tells the state of the transfer, and which signals travel
  which way. What the proof uses of an end is in the locale \<open>stream_contract\<close>; device to controller and controller to
  device are its two interpretations.
\<close>

section \<open>The two directions\<close>

record stream_dir =
  dr_flag :: "iocStreamerSignals \<Rightarrow> int"
  dr_write :: "stream_env \<Rightarrow> byte list \<Rightarrow> int \<Rightarrow> stream_end \<Rightarrow> (osalStatus \<times> int \<times> stream_end) option"
  dr_read :: "stream_env \<Rightarrow> int \<Rightarrow> stream_end \<Rightarrow> (osalStatus \<times> int \<times> byte list \<times> stream_end) option"
  dr_forward :: "iocStreamerSignals \<Rightarrow> iocStreamerSignals \<Rightarrow> iocStreamerSignals"
  dr_back :: "iocStreamerSignals \<Rightarrow> iocStreamerSignals \<Rightarrow> iocStreamerSignals"

text \<open>What arrives from the writer, and from the reader; \<open>v\<close> is the snapshot, \<open>sg\<close> the signals it arrives in.\<close>

definition from_device :: stream_dir where
  "from_device = \<lparr>dr_flag = sg_state, dr_write = ioc_streamer_device_write, dr_read = ioc_streamer_controller_read,
     dr_forward = (\<lambda>v sg. sg\<lparr>sg_err := sg_err v, sg_cs := sg_cs v, sg_buf := sg_buf v, sg_head := sg_head v, sg_state := sg_state v\<rparr>),
     dr_back = (\<lambda>v sg. sg\<lparr>sg_cmd := sg_cmd v, sg_select := sg_select v, sg_tail := sg_tail v\<rparr>)\<rparr>"

definition to_device :: stream_dir where
  "to_device = \<lparr>dr_flag = sg_cmd, dr_write = ioc_streamer_controller_write, dr_read = ioc_streamer_device_read,
     dr_forward = (\<lambda>v sg. sg\<lparr>sg_cmd := sg_cmd v, sg_select := sg_select v, sg_cs := sg_cs v, sg_buf := sg_buf v, sg_head := sg_head v\<rparr>),
     dr_back = (\<lambda>v sg. sg\<lparr>sg_err := sg_err v, sg_tail := sg_tail v, sg_state := sg_state v\<rparr>)\<rparr>"

section \<open>The transfer as a state machine\<close>

text \<open>
  \<open>tf_written\<close> and \<open>tf_read\<close> are the bytes that the calls have taken and given so far. The numbers beside the
  snapshots, \<open>tf_seen\<close> and \<open>tf_acked\<close> only help to state the invariant: how many bytes were written when the
  snapshot the reader has was taken, and how many were read when the one the writer has was.
\<close>

record transfer =
  tf_writer :: stream_end
  tf_reader :: stream_end
  tf_forward :: "(nat \<times> iocStreamerSignals) list"
  tf_back :: "(nat \<times> iocStreamerSignals) list"
  tf_written :: "byte list"
  tf_read :: "byte list"
  tf_seen :: nat
  tf_acked :: nat

datatype transfer_op =
    TfWrite stream_env "byte list" int
  | TfRead stream_env int
  | TfSend
  | TfReceive
  | TfSendBack
  | TfReceiveBack
  | TfLink "bool \<times> bool \<times> bool" "bool \<times> bool \<times> bool"

definition set_connected :: "bool \<times> bool \<times> bool \<Rightarrow> stream_end \<Rightarrow> stream_end" where
  "set_connected bits e = (case bits of (c, b, s) \<Rightarrow>
     (fst e, (snd e)\<lparr>sg_cmd_connected := c, sg_buf_connected := b, sg_tail_connected := b, sg_state_connected := s\<rparr>))"

text \<open>\<open>None\<close>: there is nothing to receive, or a call asks for more bytes than its buffer has.\<close>

fun transfer_do :: "stream_dir \<Rightarrow> transfer_op \<Rightarrow> transfer \<Rightarrow> transfer option" where
  "transfer_do d (TfWrite env buf n) t =
    (if n < -1 \<or> n > int (length buf) then None
     else map_option (\<lambda>(s, k, e). t\<lparr>tf_writer := e, tf_written := tf_written t @ take (nat k) buf\<rparr>)
       (dr_write d env buf n (tf_writer t)))"
| "transfer_do d (TfRead env n) t =
    (if n < 0 then None
     else map_option (\<lambda>(s, k, xs, e). t\<lparr>tf_reader := e, tf_read := tf_read t @ (if sv_peek env then [] else xs)\<rparr>)
       (dr_read d env n (tf_reader t)))"
| "transfer_do d TfSend t = Some (t\<lparr>tf_forward := tf_forward t @ [(length (tf_written t), snd (tf_writer t))]\<rparr>)"
| "transfer_do d TfReceive t = (case tf_forward t of [] \<Rightarrow> None
     | (h, v) # rest \<Rightarrow> Some (t\<lparr>tf_forward := rest, tf_seen := h, tf_reader := (fst (tf_reader t), dr_forward d v (snd (tf_reader t)))\<rparr>))"
| "transfer_do d TfSendBack t = Some (t\<lparr>tf_back := tf_back t @ [(length (tf_read t), snd (tf_reader t))]\<rparr>)"
| "transfer_do d TfReceiveBack t = (case tf_back t of [] \<Rightarrow> None
     | (a, v) # rest \<Rightarrow> Some (t\<lparr>tf_back := rest, tf_acked := a, tf_writer := (fst (tf_writer t), dr_back d v (snd (tf_writer t)))\<rparr>))"
| "transfer_do d (TfLink bw br) t = Some (t\<lparr>tf_writer := set_connected bw (tf_writer t), tf_reader := set_connected br (tf_reader t)\<rparr>)"

fun transfer_run :: "stream_dir \<Rightarrow> transfer_op list \<Rightarrow> transfer \<Rightarrow> transfer option" where
  "transfer_run d [] t = Some t"
| "transfer_run d (c # cs) t = do { t' \<leftarrow> transfer_do d c t; transfer_run d cs t' }"

text \<open>Both ends are just opened, with rings of the same size, and the reader has not heard of a transfer.\<close>

definition transfer_starts :: "stream_dir \<Rightarrow> transfer \<Rightarrow> bool" where
  "transfer_starts d t \<longleftrightarrow>
     (let (wst, wsg) = tf_writer t; (rst, rsg) = tf_reader t
      in sr_step wst = IOC_SSTEP_INITIALIZED \<and> sr_head wst = 0 \<and> sg_head wsg = 0 \<and> sg_tail wsg = 0 \<and> dr_flag d wsg = IOC_STREAM_IDLE \<and>
         sr_step rst = IOC_SSTEP_INITIALIZED \<and> sr_tail rst = 0 \<and> sg_tail rsg = 0 \<and> \<not> in_transfer (dr_flag d rsg) \<and>
         0 < length (sg_buf wsg) \<and> length (sg_buf rsg) = length (sg_buf wsg)) \<and>
     tf_forward t = [] \<and> tf_back t = [] \<and> tf_written t = [] \<and> tf_read t = [] \<and> tf_seen t = 0 \<and> tf_acked t = 0"

section \<open>What the proof uses of an end\<close>

definition wr_active :: "iocStreamer \<Rightarrow> bool" where
  "wr_active st \<longleftrightarrow> sr_step st = IOC_SSTEP_INITIALIZED \<or> sr_step st = IOC_SSTEP_INITIALIZED2 \<or> sr_step st = IOC_SSTEP_TRANSFER_DATA"

definition rd_finished :: "iocStreamer \<Rightarrow> bool" where
  "rd_finished st \<longleftrightarrow> sr_step st = IOC_SSTEP_TRANSFER_DONE \<or> sr_step st = IOC_SSTEP_TRANSFER_DONE2 \<or> sr_step st = IOC_SSTEP_ALL_COMPLETED"

text \<open>
  The writer, with \<open>s\<close> the size of the ring, \<open>W\<close> the bytes written and \<open>a\<close> the number of bytes that it knows to be read:
\<close>

definition writer_ok :: "(iocStreamerSignals \<Rightarrow> int) \<Rightarrow> nat \<Rightarrow> byte list \<Rightarrow> nat \<Rightarrow> stream_end \<Rightarrow> bool" where
  "writer_ok flag s W a e \<longleftrightarrow>
     length (sg_buf (snd e)) = s \<and> a \<le> length W \<and> length W - a < s \<and> ring_ok (sg_buf (snd e)) W a (length W) \<and>
     (wr_active (fst e) \<longrightarrow> sr_head (fst e) = int (length W mod s) \<and> sg_head (snd e) = int (length W mod s) \<and>
        sg_tail (snd e) = int (a mod s) \<and> flag (snd e) \<noteq> IOC_STREAM_COMPLETED) \<and>
     (in_transfer (flag (snd e)) \<longrightarrow> sg_head (snd e) = int (length W mod s))"

definition wrote :: "(iocStreamerSignals \<Rightarrow> int) \<Rightarrow> nat \<Rightarrow> byte list \<Rightarrow> nat \<Rightarrow> stream_end \<Rightarrow> byte list \<Rightarrow> (int \<times> stream_end) option \<Rightarrow> bool" where
  "wrote flag s W a e buf res \<longleftrightarrow> (\<exists>k e'. res = Some (k, e') \<and> 0 \<le> k \<and> k \<le> int (length buf) \<and>
     writer_ok flag s (W @ take (nat k) buf) a e' \<and> sg_tail (snd e') = sg_tail (snd e) \<and>
     (\<not> wr_active (fst e) \<longrightarrow> k = 0 \<and> \<not> wr_active (fst e')))"

text \<open>The reader, with \<open>r\<close> the number of bytes read and \<open>h\<close> the number its snapshot has:\<close>

definition reader_ok :: "(iocStreamerSignals \<Rightarrow> int) \<Rightarrow> nat \<Rightarrow> byte list \<Rightarrow> nat \<Rightarrow> nat \<Rightarrow> stream_end \<Rightarrow> bool" where
  "reader_ok flag s W r h e \<longleftrightarrow>
     length (sg_buf (snd e)) = s \<and> 0 < s \<and> r \<le> h \<and> h \<le> length W \<and> sr_tail (fst e) = int (r mod s) \<and>
     (in_transfer (flag (snd e)) \<longrightarrow> h - r < s \<and> sg_head (snd e) = int (h mod s) \<and> ring_ok (sg_buf (snd e)) W r h)"

definition got :: "(iocStreamerSignals \<Rightarrow> int) \<Rightarrow> nat \<Rightarrow> byte list \<Rightarrow> nat \<Rightarrow> nat \<Rightarrow> stream_end \<Rightarrow> stream_env \<Rightarrow> int \<Rightarrow>
    (int \<times> byte list \<times> stream_end) option \<Rightarrow> bool" where
  "got flag s W r h e env n res \<longleftrightarrow> (\<exists>k xs e'. res = Some (k, xs, e') \<and>
     length xs \<le> h - r \<and> xs = take (length xs) (drop r W) \<and>
     (let r' = (if sv_peek env then r else r + length xs)
      in sr_tail (fst e') = int (r' mod s) \<and>
         (sg_tail (snd e') = int (r' mod s) \<or> sg_tail (snd e') = sg_tail (snd e) \<and> r' = r \<or> rd_finished (fst e'))) \<and>
     sg_buf (snd e') = sg_buf (snd e) \<and> sg_head (snd e') = sg_head (snd e) \<and> flag (snd e') = flag (snd e) \<and>
     (rd_finished (fst e') \<longrightarrow> rd_finished (fst e) \<and> xs = [] \<or> flag (snd e) = IOC_STREAM_COMPLETED \<and> (int (h - r) \<le> n \<longrightarrow> length xs = h - r)))"

text \<open>
  The invariant of a transfer. \<open>snapshot_ok\<close> is about the signals of the writer after \<open>h\<close> bytes, as a reader with
  \<open>r\<close> bytes will find them; \<open>act\<close>: the writer may still write.
\<close>

definition snapshot_ok :: "(iocStreamerSignals \<Rightarrow> int) \<Rightarrow> nat \<Rightarrow> byte list \<Rightarrow> nat \<Rightarrow> bool \<Rightarrow> nat \<Rightarrow> iocStreamerSignals \<Rightarrow> bool" where
  "snapshot_ok flag s W r act h v \<longleftrightarrow> length (sg_buf v) = s \<and>
     (in_transfer (flag v) \<longrightarrow> h - r < s \<and> sg_head v = int (h mod s) \<and> ring_ok (sg_buf v) W r h) \<and>
     (flag v = IOC_STREAM_COMPLETED \<longrightarrow> h = length W \<and> \<not> act)"

definition transfer_inv :: "stream_dir \<Rightarrow> bool \<Rightarrow> nat \<Rightarrow> transfer \<Rightarrow> bool" where
  "transfer_inv d roomy s t \<longleftrightarrow>
     (let W = tf_written t; r = length (tf_read t); act = wr_active (fst (tf_writer t))
      in 0 < s \<and> writer_ok (dr_flag d) s W (tf_acked t) (tf_writer t) \<and>
         r \<le> length W \<and> take r W = tf_read t \<and> sr_tail (fst (tf_reader t)) = int (r mod s) \<and> r \<le> tf_seen t \<and>
         (\<forall>x \<in> fst ` set (tf_back t). tf_acked t \<le> x \<and> x \<le> r) \<and> sorted (map fst (tf_back t)) \<and> tf_acked t \<le> r \<and>
         (\<forall>x \<in> fst ` set (tf_forward t). tf_seen t \<le> x \<and> x \<le> length W) \<and> sorted (map fst (tf_forward t)) \<and> tf_seen t \<le> length W \<and>
         snapshot_ok (dr_flag d) s W r act (tf_seen t) (snd (tf_reader t)) \<and>
         (\<forall>(h, v) \<in> set (tf_forward t). snapshot_ok (dr_flag d) s W r act h v) \<and>
         (act \<longrightarrow> sg_tail (snd (tf_reader t)) = int (r mod s) \<and> (\<forall>(a, v) \<in> set (tf_back t). sg_tail v = int (a mod s))) \<and>
         (rd_finished (fst (tf_reader t)) \<longrightarrow> \<not> act \<and> (roomy \<longrightarrow> r = length W)))"

lemma transfer_invI:
  assumes "0 < s" "writer_ok (dr_flag d) s W a w" "r \<le> length W" "take r W = R" "sr_tail (fst re) = int (r mod s)" "r \<le> h"
    "\<forall>x \<in> fst ` set bk. a \<le> x \<and> x \<le> r" "sorted (map fst bk)" "a \<le> r"
    "\<forall>x \<in> fst ` set fw. h \<le> x \<and> x \<le> length W" "sorted (map fst fw)" "h \<le> length W"
    "snapshot_ok (dr_flag d) s W r (wr_active (fst w)) h (snd re)"
    "\<And>h v. (h, v) \<in> set fw \<Longrightarrow> snapshot_ok (dr_flag d) s W r (wr_active (fst w)) h v"
    "wr_active (fst w) \<Longrightarrow> sg_tail (snd re) = int (r mod s)"
    "\<And>a v. wr_active (fst w) \<Longrightarrow> (a, v) \<in> set bk \<Longrightarrow> sg_tail v = int (a mod s)"
    "rd_finished (fst re) \<Longrightarrow> \<not> wr_active (fst w) \<and> (roomy \<longrightarrow> r = length W)"
    and t: "tf_writer t = w" "tf_reader t = re" "tf_written t = W" "tf_read t = R" "length R = r" "tf_seen t = h" "tf_acked t = a"
      "tf_forward t = fw" "tf_back t = bk"
  shows "transfer_inv d roomy s t"
  unfolding transfer_inv_def Let_def t using assms(1-17) by blast

lemma transfer_invD:
  assumes "transfer_inv d roomy s t" "w = tf_writer t" "re = tf_reader t" "W = tf_written t" "R = tf_read t" "r = length R"
    "h = tf_seen t" "a = tf_acked t" "fw = tf_forward t" "bk = tf_back t"
  shows "0 < s" "writer_ok (dr_flag d) s W a w" "r \<le> length W" "take r W = R" "sr_tail (fst re) = int (r mod s)" "r \<le> h"
    "\<forall>x \<in> fst ` set bk. a \<le> x \<and> x \<le> r" "sorted (map fst bk)" "a \<le> r"
    "\<forall>x \<in> fst ` set fw. h \<le> x \<and> x \<le> length W" "sorted (map fst fw)" "h \<le> length W"
    "snapshot_ok (dr_flag d) s W r (wr_active (fst w)) h (snd re)"
    "\<And>h v. (h, v) \<in> set fw \<Longrightarrow> snapshot_ok (dr_flag d) s W r (wr_active (fst w)) h v"
    "wr_active (fst w) \<Longrightarrow> sg_tail (snd re) = int (r mod s)"
    "\<And>a v. wr_active (fst w) \<Longrightarrow> (a, v) \<in> set bk \<Longrightarrow> sg_tail v = int (a mod s)"
    "rd_finished (fst re) \<Longrightarrow> \<not> wr_active (fst w) \<and> (roomy \<longrightarrow> r = length W)"
  using assms(1) unfolding transfer_inv_def Let_def assms(2-10) by blast+

text \<open>Every read has room for all that the ring can hold, and takes it.\<close>

definition roomy_op :: "nat \<Rightarrow> transfer_op \<Rightarrow> bool" where
  "roomy_op s c = (case c of TfRead env n \<Rightarrow> int s - 1 \<le> n \<and> \<not> sv_peek env | _ \<Rightarrow> True)"

lemma snapshot_ok_later:
  assumes "snapshot_ok flag s W r act h v" and "r \<le> r'" and "\<not> act \<Longrightarrow> xs = [] \<and> \<not> act'"
  shows "snapshot_ok flag s (W @ xs) r' act' h v"
  using assms by (auto simp: snapshot_ok_def intro: ring_ok_append ring_ok_mono)

lemma snapshot_of_writer:
  assumes "writer_ok flag s W a e" and "a \<le> r" and "r \<le> length W"
  shows "snapshot_ok flag s W r (wr_active (fst e)) (length W) (snd e)"
  using assms by (auto simp: writer_ok_def snapshot_ok_def intro: ring_ok_mono)

lemma snapshot_reader_ok:
  "snapshot_ok flag s W r act h (snd e) \<Longrightarrow> 0 < s \<Longrightarrow> r \<le> h \<Longrightarrow> h \<le> length W \<Longrightarrow> sr_tail (fst e) = int (r mod s) \<Longrightarrow>
   reader_ok flag s W r h e"
  by (auto simp: snapshot_ok_def reader_ok_def)

locale stream_contract =
  fixes d :: stream_dir
  assumes write_law: "writer_ok (dr_flag d) s W a e \<Longrightarrow> 0 < s \<Longrightarrow> -1 \<le> n \<Longrightarrow> n \<le> int (length buf) \<Longrightarrow>
      wrote (dr_flag d) s W a e buf (map_option snd (dr_write d env buf n e))"
    and read_law: "reader_ok (dr_flag d) s W r h e \<Longrightarrow> 0 \<le> n \<Longrightarrow> got (dr_flag d) s W r h e env n (map_option snd (dr_read d env n e))"
    and forward_law: "dr_flag d (dr_forward d v sg) = dr_flag d v \<and> sg_buf (dr_forward d v sg) = sg_buf v \<and>
      sg_head (dr_forward d v sg) = sg_head v \<and> sg_tail (dr_forward d v sg) = sg_tail sg"
    and back_law: "dr_flag d (dr_back d v sg) = dr_flag d sg \<and> sg_buf (dr_back d v sg) = sg_buf sg \<and>
      sg_head (dr_back d v sg) = sg_head sg \<and> sg_tail (dr_back d v sg) = sg_tail v"
    and link_law: "dr_flag d (sg\<lparr>sg_cmd_connected := c1, sg_buf_connected := c2, sg_tail_connected := c3, sg_state_connected := c4\<rparr>) = dr_flag d sg"
begin

lemma inv_write:
  assumes inv: "transfer_inv d roomy s t" and res: "transfer_do d (TfWrite env buf n) t = Some t'"
  shows "transfer_inv d roomy s t'"
proof -
  note I = transfer_invD [OF inv refl refl refl refl refl refl refl refl refl]
  define W where "W = tf_written t"
  have n: "-1 \<le> n" "n \<le> int (length buf)" using res by (auto split: if_splits)
  have ok: "writer_ok (dr_flag d) s W (tf_acked t) (tf_writer t)" and s: "0 < s"
    by (simp_all add: I W_def)
  obtain k e' where w: "map_option snd (dr_write d env buf n (tf_writer t)) = Some (k, e')" and k: "0 \<le> k" "k \<le> int (length buf)"
    and ok': "writer_ok (dr_flag d) s (W @ take (nat k) buf) (tf_acked t) e'" and tail: "sg_tail (snd e') = sg_tail (snd (tf_writer t))"
    and act: "\<not> wr_active (fst (tf_writer t)) \<Longrightarrow> k = 0 \<and> \<not> wr_active (fst e')"
    using write_law [OF ok s n, unfolded wrote_def] by blast
  define xs where "xs = take (nat k) buf"
  have xs: "\<not> wr_active (fst (tf_writer t)) \<Longrightarrow> xs = [] \<and> \<not> wr_active (fst e')" using act by (simp add: xs_def)
  have t': "t' = t\<lparr>tf_writer := e', tf_written := W @ xs\<rparr>" using res w n by (auto simp: W_def xs_def)
  have later: "snapshot_ok (dr_flag d) s (W @ xs) (length (tf_read t)) (wr_active (fst e')) h v"
    if "snapshot_ok (dr_flag d) s W (length (tf_read t)) (wr_active (fst (tf_writer t))) h v" for h v
    by (rule snapshot_ok_later [OF that order_refl xs])
  show ?thesis
  proof (rule transfer_invI [where w = "e'" and re = "tf_reader t" and W = "W @ xs" and R = "tf_read t" and r = "length (tf_read t)" and h = "tf_seen t" and a = "tf_acked t" and fw = "tf_forward t" and bk = "tf_back t"])
    show "writer_ok (dr_flag d) s (W @ xs) (tf_acked t) e'" using ok' by (simp add: xs_def)
    show "snapshot_ok (dr_flag d) s (W @ xs) (length (tf_read t)) (wr_active (fst e')) (tf_seen t) (snd (tf_reader t))"
      by (rule later) (simp add: I W_def)
    show "snapshot_ok (dr_flag d) s (W @ xs) (length (tf_read t)) (wr_active (fst e')) h v" if "(h, v) \<in> set (tf_forward t)" for h v
      by (rule later) (use I(14) [OF that] in \<open>simp add: W_def\<close>)
    have active: "wr_active (fst e') \<Longrightarrow> wr_active (fst (tf_writer t))" using xs by blast
    show "sg_tail (snd (tf_reader t)) = int (length (tf_read t) mod s)" if "wr_active (fst e')" by (rule I(15) [OF active [OF that]])
    show "sg_tail v = int (a mod s)" if "wr_active (fst e')" "(a, v) \<in> set (tf_back t)" for a v
      by (rule I(16) [OF active [OF that(1)] that(2)])
    show "\<not> wr_active (fst e') \<and> (roomy \<longrightarrow> length (tf_read t) = length (W @ xs))" if "rd_finished (fst (tf_reader t))"
      using I(17) [OF that] xs by (simp add: W_def)
    show "length (tf_read t) \<le> length (W @ xs)" "tf_seen t \<le> length (W @ xs)" "\<forall>x \<in> fst ` set (tf_forward t). tf_seen t \<le> x \<and> x \<le> length (W @ xs)"
      using I(3,10,12) by (auto simp: W_def)
    show "take (length (tf_read t)) (W @ xs) = tf_read t" using I(3,4) by (simp add: W_def)
  qed (fact I | simp add: t')+
qed

lemma inv_read:
  assumes inv: "transfer_inv d roomy s t" and res: "transfer_do d (TfRead env n) t = Some t'" and room: "roomy \<Longrightarrow> roomy_op s (TfRead env n)"
  shows "transfer_inv d roomy s t'"
proof -
  note I = transfer_invD [OF inv refl refl refl refl refl refl refl refl refl]
  define W r where "W = tf_written t" and "r = length (tf_read t)"
  define act h where "act = wr_active (fst (tf_writer t))" and "h = tf_seen t"
  note I = I [folded W_def r_def act_def h_def]
  have n: "0 \<le> n" using res by (auto split: if_splits)
  note s = I(1) and rW = I(4) and tl = I(5) and rh = I(6) and hW = I(12) and snap = I(13) and tr = I(15) and fin = I(17)
  have ok: "reader_ok (dr_flag d) s W r h (tf_reader t)"
    by (rule snapshot_reader_ok [OF snap s rh hW tl])
  obtain k xs e' where w: "map_option snd (dr_read d env n (tf_reader t)) = Some (k, xs, e')"
    and xs: "length xs \<le> h - r" "xs = take (length xs) (drop r W)"
    and same: "sg_buf (snd e') = sg_buf (snd (tf_reader t))" "sg_head (snd e') = sg_head (snd (tf_reader t))"
      "dr_flag d (snd e') = dr_flag d (snd (tf_reader t))"
    and tail: "sr_tail (fst e') = int ((if sv_peek env then r else r + length xs) mod s)"
    and tail2: "sg_tail (snd e') = int ((if sv_peek env then r else r + length xs) mod s) \<or>
        sg_tail (snd e') = sg_tail (snd (tf_reader t)) \<and> (if sv_peek env then r else r + length xs) = r \<or> rd_finished (fst e')"
    and fin': "rd_finished (fst e') \<longrightarrow> rd_finished (fst (tf_reader t)) \<and> xs = [] \<or>
      dr_flag d (snd (tf_reader t)) = IOC_STREAM_COMPLETED \<and> (int (h - r) \<le> n \<longrightarrow> length xs = h - r)"
    using read_law [OF ok n, of env] unfolding got_def Let_def by blast
  define ys where "ys = (if sv_peek env then [] else xs)"
  have t': "t' = t\<lparr>tf_reader := e', tf_read := tf_read t @ ys\<rparr>" using res w n by (auto simp: ys_def)
  define r' where "r' = r + length ys"
  have r': "r' = (if sv_peek env then r else r + length xs)" by (simp add: r'_def ys_def)
  have r'h: "r \<le> r'" "r' \<le> h" using xs rh by (auto simp: r')
  have len: "length (tf_read t @ ys) = r'" unfolding r'_def r_def by simp
  have take: "take r' W = tf_read t @ ys" unfolding rW [symmetric] r'_def using xs by (auto simp: ys_def take_add)
  have snap': "snapshot_ok (dr_flag d) s W r' act h (snd e')"
    using snapshot_ok_later [OF snap r'h(1), of "[]" act] same by (simp add: snapshot_ok_def)
  have fin2: "rd_finished (fst e') \<longrightarrow> \<not> act \<and> (roomy \<longrightarrow> r' = length W)"
  proof
    assume f: "rd_finished (fst e')"
    from fin' f consider "rd_finished (fst (tf_reader t))" "xs = []"
      | "dr_flag d (snd (tf_reader t)) = IOC_STREAM_COMPLETED" "int (h - r) \<le> n \<longrightarrow> length xs = h - r" by blast
    then show "\<not> act \<and> (roomy \<longrightarrow> r' = length W)"
    proof cases
      case 1
      then show ?thesis using fin by (simp add: r'_def ys_def)
    next
      case 2
      then have "h = length W" "\<not> act" "h - r < s" using snap by (auto simp: snapshot_ok_def in_transfer_def)
      moreover have "r' = h" if roomy
      proof -
        have "int s - 1 \<le> n" "\<not> sv_peek env" using room [OF that] by (auto simp: roomy_op_def)
        then show ?thesis using 2 \<open>h - r < s\<close> rh by (simp add: r')
      qed
      ultimately show ?thesis by blast
    qed
  qed
  have tail3: "act \<longrightarrow> sg_tail (snd e') = int (r' mod s)" using tail2 tr fin2 unfolding r' [symmetric] by auto
  show ?thesis
  proof (rule transfer_invI [where w = "tf_writer t" and re = "e'" and W = "W" and R = "tf_read t @ ys" and r = "r'" and h = "h" and a = "tf_acked t" and fw = "tf_forward t" and bk = "tf_back t", folded act_def])
    show "snapshot_ok (dr_flag d) s W r' act x v" if "(x, v) \<in> set (tf_forward t)" for x v
      using snapshot_ok_later [OF I(14) [OF that] r'h(1), of "[]" act] by simp
    show "\<forall>x \<in> fst ` set (tf_back t). tf_acked t \<le> x \<and> x \<le> r'" using I(7) r'h(1) by auto
    show "tf_acked t \<le> r'" using I(9) r'h(1) by simp
    show "r' \<le> length W" using r'h(2) hW by simp
    show "sr_tail (fst e') = int (r' mod s)" using tail by (simp add: r')
    show "tf_writer t' = tf_writer t" "tf_reader t' = e'" "tf_written t' = W" "tf_read t' = tf_read t @ ys"
      "tf_seen t' = h" by (simp_all add: t' W_def h_def)
    show "tf_acked t' = tf_acked t" "tf_forward t' = tf_forward t" "tf_back t' = tf_back t" by (simp_all add: t')
  qed (fact len s I take snap' fin2 tail3 r'h | use I snap' fin2 tail3 in blast)+
qed

lemma inv_send:
  assumes inv: "transfer_inv d roomy s t" and res: "transfer_do d TfSend t = Some t'"
  shows "transfer_inv d roomy s t'"
proof -
  note I = transfer_invD [OF inv refl refl refl refl refl refl refl refl refl]
  have t': "t' = t\<lparr>tf_forward := tf_forward t @ [(length (tf_written t), snd (tf_writer t))]\<rparr>" using res by simp
  show ?thesis
  proof (rule transfer_invI [where w = "tf_writer t" and re = "tf_reader t" and W = "tf_written t" and R = "tf_read t" and r = "length (tf_read t)" and h = "tf_seen t" and a = "tf_acked t" and fw = "tf_forward t @ [(length (tf_written t), snd (tf_writer t))]" and bk = "tf_back t"])
    show "snapshot_ok (dr_flag d) s (tf_written t) (length (tf_read t)) (wr_active (fst (tf_writer t))) h v"
      if "(h, v) \<in> set (tf_forward t @ [(length (tf_written t), snd (tf_writer t))])" for h v
      using that I(14) snapshot_of_writer [OF I(2,9,3)] by auto
    show "\<forall>x \<in> fst ` set (tf_forward t @ [(length (tf_written t), snd (tf_writer t))]). tf_seen t \<le> x \<and> x \<le> length (tf_written t)"
      using I(10,12) by auto
    show "sorted (map fst (tf_forward t @ [(length (tf_written t), snd (tf_writer t))]))" using I(10,11) by (auto simp: sorted_append)
  qed (fact I | simp add: t')+
qed

lemma inv_receive:
  assumes inv: "transfer_inv d roomy s t" and res: "transfer_do d TfReceive t = Some t'"
  shows "transfer_inv d roomy s t'"
proof -
  note I = transfer_invD [OF inv refl refl refl refl refl refl refl refl refl]
  obtain h v rest where f: "tf_forward t = (h, v) # rest"
    and t': "t' = t\<lparr>tf_forward := rest, tf_seen := h, tf_reader := (fst (tf_reader t), dr_forward d v (snd (tf_reader t)))\<rparr>"
    using res by (auto split: list.splits)
  show ?thesis
  proof (rule transfer_invI [where w = "tf_writer t" and re = "(fst (tf_reader t), dr_forward d v (snd (tf_reader t)))" and W = "tf_written t" and R = "tf_read t" and r = "length (tf_read t)" and h = "h" and a = "tf_acked t" and fw = "rest" and bk = "tf_back t"])
    show "snapshot_ok (dr_flag d) s (tf_written t) (length (tf_read t)) (wr_active (fst (tf_writer t))) h
        (snd (fst (tf_reader t), dr_forward d v (snd (tf_reader t))))"
      using I(14) [of h v] forward_law [of v "snd (tf_reader t)"] by (simp add: f snapshot_ok_def)
    show "snapshot_ok (dr_flag d) s (tf_written t) (length (tf_read t)) (wr_active (fst (tf_writer t))) x v'"
      if "(x, v') \<in> set rest" for x v' by (rule I(14)) (simp add: f that)
    show "\<forall>x \<in> fst ` set rest. h \<le> x \<and> x \<le> length (tf_written t)" "sorted (map fst rest)" using I(10,11) by (auto simp: f)
    show "length (tf_read t) \<le> h" "h \<le> length (tf_written t)" using I(6,10) by (auto simp: f)
    show "sg_tail (snd (fst (tf_reader t), dr_forward d v (snd (tf_reader t)))) = int (length (tf_read t) mod s)"
      if "wr_active (fst (tf_writer t))" using I(15) [OF that] forward_law by simp
  qed (fact I | simp add: t')+
qed

lemma inv_send_back:
  assumes inv: "transfer_inv d roomy s t" and res: "transfer_do d TfSendBack t = Some t'"
  shows "transfer_inv d roomy s t'"
proof -
  note I = transfer_invD [OF inv refl refl refl refl refl refl refl refl refl]
  have t': "t' = t\<lparr>tf_back := tf_back t @ [(length (tf_read t), snd (tf_reader t))]\<rparr>" using res by simp
  show ?thesis
  proof (rule transfer_invI [where w = "tf_writer t" and re = "tf_reader t" and W = "tf_written t" and R = "tf_read t" and r = "length (tf_read t)" and h = "tf_seen t" and a = "tf_acked t" and fw = "tf_forward t" and bk = "tf_back t @ [(length (tf_read t), snd (tf_reader t))]"])
    show "sg_tail v = int (a mod s)" if "wr_active (fst (tf_writer t))" "(a, v) \<in> set (tf_back t @ [(length (tf_read t), snd (tf_reader t))])" for a v
      using that I(15,16) by auto
    show "\<forall>x \<in> fst ` set (tf_back t @ [(length (tf_read t), snd (tf_reader t))]). tf_acked t \<le> x \<and> x \<le> length (tf_read t)"
      using I(7,9) by auto
    show "sorted (map fst (tf_back t @ [(length (tf_read t), snd (tf_reader t))]))" using I(7,8) by (auto simp: sorted_append)
  qed (fact I | simp add: t')+
qed

lemma inv_receive_back:
  assumes inv: "transfer_inv d roomy s t" and res: "transfer_do d TfReceiveBack t = Some t'"
  shows "transfer_inv d roomy s t'"
proof -
  note I = transfer_invD [OF inv refl refl refl refl refl refl refl refl refl]
  obtain a v rest where b: "tf_back t = (a, v) # rest"
    and t': "t' = t\<lparr>tf_back := rest, tf_acked := a, tf_writer := (fst (tf_writer t), dr_back d v (snd (tf_writer t)))\<rparr>"
    using res by (auto split: list.splits)
  have a: "tf_acked t \<le> a" "a \<le> length (tf_read t)" using I(7) by (auto simp: b)
  have va: "wr_active (fst (tf_writer t)) \<Longrightarrow> sg_tail v = int (a mod s)" using I(16) [of a v] by (simp add: b)
  show ?thesis
  proof (rule transfer_invI [where w = "(fst (tf_writer t), dr_back d v (snd (tf_writer t)))" and re = "tf_reader t" and W = "tf_written t" and R = "tf_read t" and r = "length (tf_read t)" and h = "tf_seen t" and a = "a" and fw = "tf_forward t" and bk = "rest"])
    show "writer_ok (dr_flag d) s (tf_written t) a (fst (tf_writer t), dr_back d v (snd (tf_writer t)))"
      using I(2,3) a va back_law [of v "snd (tf_writer t)"] by (auto simp: writer_ok_def intro: ring_ok_mono)
    show "\<forall>x \<in> fst ` set rest. a \<le> x \<and> x \<le> length (tf_read t)" "sorted (map fst rest)" using I(7,8) by (auto simp: b)
    show "sg_tail v' = int (x mod s)" if "wr_active (fst (fst (tf_writer t), dr_back d v (snd (tf_writer t))))" "(x, v') \<in> set rest" for x v'
      by (rule I(16)) (use that in \<open>simp_all add: b\<close>)
  qed (fact I | simp add: t' | use I a in \<open>simp; blast\<close>)+
qed

lemma inv_link:
  assumes inv: "transfer_inv d roomy s t" and res: "transfer_do d (TfLink bw br) t = Some t'"
  shows "transfer_inv d roomy s t'"
proof -
  have same: "sg_buf (snd (set_connected b e)) = sg_buf (snd e)" "sg_head (snd (set_connected b e)) = sg_head (snd e)"
    "sg_tail (snd (set_connected b e)) = sg_tail (snd e)" "dr_flag d (snd (set_connected b e)) = dr_flag d (snd e)"
    "fst (set_connected b e) = fst e" for b e
    by (cases b; simp add: set_connected_def link_law)+
  have t': "t' = t\<lparr>tf_writer := set_connected bw (tf_writer t), tf_reader := set_connected br (tf_reader t)\<rparr>" using res by simp
  have w: "writer_ok (dr_flag d) s W a (set_connected b e) = writer_ok (dr_flag d) s W a e" for W a b e
    by (simp add: writer_ok_def same)
  have v: "snapshot_ok (dr_flag d) s W r act h (snd (set_connected b e)) = snapshot_ok (dr_flag d) s W r act h (snd e)" for W r act h b e
    by (simp add: snapshot_ok_def same)
  have sel: "tf_writer t' = set_connected bw (tf_writer t)" "tf_reader t' = set_connected br (tf_reader t)" "tf_written t' = tf_written t"
    "tf_read t' = tf_read t" "tf_seen t' = tf_seen t" "tf_acked t' = tf_acked t" "tf_forward t' = tf_forward t" "tf_back t' = tf_back t"
    by (simp_all add: t')
  show ?thesis using inv unfolding transfer_inv_def Let_def sel same(3,5) w v .
qed

lemma inv_do:
  assumes "transfer_inv d roomy s t" and "transfer_do d c t = Some t'" and "roomy \<Longrightarrow> roomy_op s c"
  shows "transfer_inv d roomy s t'"
proof (cases c)
  case (TfWrite env buf n)
  show ?thesis by (rule inv_write [OF assms(1) assms(2) [unfolded TfWrite]])
next
  case (TfRead env n)
  show ?thesis by (rule inv_read [OF assms(1) assms(2) [unfolded TfRead]]) (use assms(3) in \<open>simp add: TfRead\<close>)
next
  case TfSend
  show ?thesis by (rule inv_send [OF assms(1) assms(2) [unfolded TfSend]])
next
  case TfReceive
  show ?thesis by (rule inv_receive [OF assms(1) assms(2) [unfolded TfReceive]])
next
  case TfSendBack
  show ?thesis by (rule inv_send_back [OF assms(1) assms(2) [unfolded TfSendBack]])
next
  case TfReceiveBack
  show ?thesis by (rule inv_receive_back [OF assms(1) assms(2) [unfolded TfReceiveBack]])
next
  case (TfLink bw br)
  show ?thesis by (rule inv_link [OF assms(1) assms(2) [unfolded TfLink]])
qed

lemma inv_run:
  "transfer_inv d roomy s t \<Longrightarrow> transfer_run d cs t = Some t' \<Longrightarrow> (roomy \<Longrightarrow> \<forall>c \<in> set cs. roomy_op s c) \<Longrightarrow> transfer_inv d roomy s t'"
proof (induction cs arbitrary: t)
  case Nil
  then show ?case by simp
next
  case (Cons c cs)
  from Cons.prems(2) obtain t1 where "transfer_do d c t = Some t1" "transfer_run d cs t1 = Some t'"
    by (auto elim: bind_SomeE)
  then show ?case using Cons.IH [of t1] Cons.prems(1,3) inv_do [of roomy s t c t1] by auto
qed

lemma inv_starts:
  assumes "transfer_starts d t"
  shows "transfer_inv d roomy (length (sg_buf (snd (tf_writer t)))) t"
  using assms
  by (auto simp: transfer_starts_def transfer_inv_def Let_def case_prod_beta writer_ok_def snapshot_ok_def wr_active_def rd_finished_def
      ring_ok_def stream_state_defs in_transfer_def)

lemma read_is_prefix:
  assumes "transfer_starts d t0" and "transfer_run d cs t0 = Some t"
  shows "take (length (tf_read t)) (tf_written t) = tf_read t"
  using inv_run [OF inv_starts [OF assms(1), of False] assms(2)] by (simp add: transfer_inv_def Let_def)

lemma finished_has_all:
  assumes "transfer_starts d t0" and "transfer_run d cs t0 = Some t" and "\<forall>c \<in> set cs. roomy_op (length (sg_buf (snd (tf_writer t0)))) c"
    and "rd_finished (fst (tf_reader t))"
  shows "tf_read t = tf_written t \<and> \<not> wr_active (fst (tf_writer t))"
  using inv_run [OF inv_starts [OF assms(1), of True] assms(2)] assms(3,4) unfolding transfer_inv_def Let_def by (metis order_refl take_all)

lemma ends_never_fault:
  assumes "transfer_starts d t0" and "transfer_run d cs t0 = Some t"
  shows "-1 \<le> n \<Longrightarrow> n \<le> int (length buf) \<Longrightarrow> dr_write d env buf n (tf_writer t) \<noteq> None"
    and "0 \<le> n \<Longrightarrow> dr_read d env n (tf_reader t) \<noteq> None"
proof -
  define s where "s = length (sg_buf (snd (tf_writer t0)))"
  have inv: "transfer_inv d False s t" using inv_run [OF inv_starts [OF assms(1), of False] assms(2)] by (simp add: s_def)
  then have w: "writer_ok (dr_flag d) s (tf_written t) (tf_acked t) (tf_writer t)" and s: "0 < s"
    and rd: "reader_ok (dr_flag d) s (tf_written t) (length (tf_read t)) (tf_seen t) (tf_reader t)"
    by (auto simp: transfer_inv_def Let_def intro: snapshot_reader_ok)
  show "-1 \<le> n \<Longrightarrow> n \<le> int (length buf) \<Longrightarrow> dr_write d env buf n (tf_writer t) \<noteq> None"
    using write_law [OF w s, of n buf env] by (auto simp: wrote_def)
  show "0 \<le> n \<Longrightarrow> dr_read d env n (tf_reader t) \<noteq> None"
    using read_law [OF rd, of n env] by (auto simp: got_def)
qed

end

section \<open>The ends of the library keep the contract\<close>

lemma wroteI:
  "res = Some (k, e') \<Longrightarrow> 0 \<le> k \<Longrightarrow> k \<le> int (length buf) \<Longrightarrow> writer_ok flag s (W @ take (nat k) buf) a e' \<Longrightarrow>
   sg_tail (snd e') = sg_tail (snd e) \<Longrightarrow> (\<not> wr_active (fst e) \<Longrightarrow> k = 0 \<and> \<not> wr_active (fst e')) \<Longrightarrow> wrote flag s W a e buf res"
  unfolding wrote_def by blast

lemma wrote_nothing:
  "res = Some (0, e') \<Longrightarrow> writer_ok flag s W a e' \<Longrightarrow> sg_tail (snd e') = sg_tail (snd e) \<Longrightarrow>
   (\<not> wr_active (fst e) \<Longrightarrow> \<not> wr_active (fst e')) \<Longrightarrow> wrote flag s W a e buf res"
  by (rule wroteI) auto

text \<open>A call that leaves the ring alone:\<close>

lemma wrote_change:
  assumes ok: "writer_ok flag s W a (st, sg)" and res: "res = Some (0, st', sg')"
    and same: "sg_buf sg' = sg_buf sg" "sg_tail sg' = sg_tail sg"
    and act: "wr_active st' \<Longrightarrow> wr_active st \<and> sr_head st' = sr_head st \<and> sg_head sg' = sg_head sg \<and> flag sg' \<noteq> IOC_STREAM_COMPLETED"
    and trans: "in_transfer (flag sg') \<Longrightarrow> sg_head sg' = sg_head sg \<and> (wr_active st \<or> in_transfer (flag sg))"
  shows "wrote flag s W a (st, sg) buf res"
  by (rule wrote_nothing [OF res]) (use ok same act trans in \<open>auto simp: writer_ok_def\<close>)

text \<open>A call that moves bytes:\<close>

lemma wrote_bytes:
  assumes ok: "writer_ok flag s W a (st, sg)" and act: "wr_active st" and s: "0 < s" and n: "0 \<le> n" "n \<le> int (length buf)"
    and frame: "\<And>ring h. flag (sg\<lparr>sg_buf := ring, sg_head := h\<rparr>) = flag sg"
  obtains k sg1 where
    "ioc_streamer_write_internal sg buf (int (length (sg_buf sg))) n (sr_head st) (sg_tail sg) =
       Some (int k, int ((length W + k) mod s), sg1)"
    and "k \<le> length buf" and "flag sg1 = flag sg" and "sg_tail sg1 = sg_tail sg" and "k = 0 \<Longrightarrow> sg1 = sg"
    and "\<And>st'. sr_head st' = int ((length W + k) mod s) \<Longrightarrow> writer_ok flag s (W @ take k buf) a (st', sg1)"
proof -
  define k where "k = min (nat n) (s - 1 - (length W - a))"
  have st: "sr_head st = int (length W mod s)" "sg_tail sg = int (a mod s)" "length (sg_buf sg) = s" and aw: "a \<le> length W"
    and hd: "sg_head sg = int (length W mod s)" and nc: "flag sg \<noteq> IOC_STREAM_COMPLETED"
    and win: "length W - a < s" and ring: "ring_ok (sg_buf sg) W a (length W)"
    using ok act by (auto simp: writer_ok_def)
  obtain rb where w: "ioc_streamer_write_internal sg buf (int s) n (int (length W mod s)) (int (a mod s)) =
      Some (int k, int ((length W + k) mod s), if k = 0 then sg else sg\<lparr>sg_buf := rb, sg_head := int ((length W + k) mod s)\<rparr>)"
    and rb: "length rb = s" "ring_ok rb (W @ take k buf) a (length W + k)"
    using write_internal_ring [OF ring st(3) aw win n k_def] by blast
  define sg1 where "sg1 = (if k = 0 then sg else sg\<lparr>sg_buf := rb, sg_head := int ((length W + k) mod s)\<rparr>)"
  have kb: "k \<le> length buf" using n by (simp add: k_def)
  then have len: "length (W @ take k buf) = length W + k" by simp
  have "length W + k - a < s" using win aw s by (simp add: k_def)
  then have "writer_ok flag s (W @ take k buf) a (st', sg1)" if "sr_head st' = int ((length W + k) mod s)" for st'
    using that rb aw st nc hd ring win kb frame len by (cases "k = 0") (auto simp: writer_ok_def sg1_def)
  then show thesis
    using w kb st frame by (intro that [of k sg1]) (auto simp: sg1_def)
qed

lemma wrote_failed: "writer_ok flag s W a (st, sg) \<Longrightarrow> wrote flag s W a (st, sg) buf (fails (st, sg))"
  by (rule wrote_change [where st' = "st\<lparr>sr_step := IOC_SSTEP_FAILED\<rparr>" and sg' = sg]) (auto simp: fails_def wr_active_def writer_ok_def)

lemma not_transfer [simp]: "\<not> in_transfer IOC_STREAM_IDLE" "\<not> in_transfer IOC_STREAM_INTERRUPT"
  by (simp_all add: in_transfer_def stream_state_defs)

lemma device_write_data_ok:
  assumes ok: "writer_ok sg_state s W a (st, sg)" and step: "sr_step st = IOC_SSTEP_TRANSFER_DATA"
    and s: "0 < s" and n: "-1 \<le> n" "n \<le> int (length buf)"
  shows "wrote sg_state s W a (st, sg) buf (device_write_data env buf n (st, sg))"
proof -
  have act: "wr_active st" by (simp add: wr_active_def step)
  have st: "sr_head st = int (length W mod s)" "sg_tail sg = int (a mod s)" "length (sg_buf sg) = s"
    using ok act by (auto simp: writer_ok_def)
  have tail: "\<not> (sg_tail sg < 0 \<or> sg_tail sg \<ge> int (length (sg_buf sg)))" using st s by (simp add: not_le)
  have quiet: "wrote sg_state s W a (st, sg) buf res"
    if "res = Some (0, st', sg)" "sr_head st' = sr_head st" for res st'
    using wrote_change [OF ok that(1)] that(2) act ok by (auto simp: writer_ok_def)
  show ?thesis
  proof (cases "\<not> in_transfer (sg_cmd sg) \<or> sv_interrupt env")
    case True
    then show ?thesis using wrote_failed [OF ok] by (simp add: device_write_data_def)
  next
    case run: False
    show ?thesis
    proof (cases "n > 0")
      case True
      then have n0: "0 \<le> n" by simp
      obtain k sg1 where w: "ioc_streamer_write_internal sg buf (int (length (sg_buf sg))) n (sr_head st) (sg_tail sg) =
          Some (int k, int ((length W + k) mod s), sg1)" and k: "k \<le> length buf" and sg1: "sg_tail sg1 = sg_tail sg" "k = 0 \<Longrightarrow> sg1 = sg"
        and ok1: "\<And>st'. sr_head st' = int ((length W + k) mod s) \<Longrightarrow> writer_ok sg_state s (W @ take k buf) a (st', sg1)"
        by (rule wrote_bytes [OF ok act s n0 n(2)]) simp_all
      have "\<exists>st'. device_write_data env buf n (st, sg) = Some (int k, st', sg1) \<and> sr_head st' = int ((length W + k) mod s)"
        using run tail w True by (simp add: device_write_data_def Let_def)
      then obtain st' where res: "device_write_data env buf n (st, sg) = Some (int k, st', sg1)" and st': "sr_head st' = int ((length W + k) mod s)"
        by blast
      show ?thesis
        by (rule wroteI [OF res]) (use k ok1 [OF st'] sg1 act in auto)
    next
      case F: False
      show ?thesis
      proof (cases "n = -1")
        case True
        then show ?thesis using run tail ok act
          by (intro wrote_change [OF ok, where st' = "st\<lparr>sr_step := IOC_SSTEP_TRANSFER_DONE\<rparr>"
                and sg' = "sg\<lparr>sg_cs := sr_checksum st, sg_state := IOC_STREAM_COMPLETED\<rparr>"])
             (auto simp: device_write_data_def wr_active_def)
      next
        case False
        then have "n = 0" using F n by simp
        then have "device_write_data env buf n (st, sg) = Some (0, st, sg)" using run tail by (simp add: device_write_data_def)
        then show ?thesis using quiet by blast
      qed
    qed
  qed
qed

lemma controller_write_data_ok:
  assumes ok: "writer_ok sg_cmd s W a (st, sg)" and step: "sr_step st = IOC_SSTEP_TRANSFER_DATA"
    and s: "0 < s" and n: "-1 \<le> n" "n \<le> int (length buf)"
  shows "wrote sg_cmd s W a (st, sg) buf (controller_write_data env buf n (st, sg))"
proof -
  have act: "wr_active st" by (simp add: wr_active_def step)
  have st: "sr_head st = int (length W mod s)" "sg_tail sg = int (a mod s)" "length (sg_buf sg) = s"
    using ok act by (auto simp: writer_ok_def)
  have tail: "\<not> (sg_tail sg < 0 \<or> sg_tail sg \<ge> int (length (sg_buf sg)))" using st s by (simp add: not_le)
  have quiet: "wrote sg_cmd s W a (st, sg) buf (Some (0, st, sg))"
    using wrote_change [OF ok, of _ st sg] act ok by (auto simp: writer_ok_def)
  show ?thesis
  proof (cases "sg_state sg \<noteq> IOC_STREAM_RUNNING \<or> sv_interrupt env")
    case True
    then show ?thesis using wrote_failed [OF ok] by (simp add: controller_write_data_def)
  next
    case run: False
    show ?thesis
    proof (cases "n > 0")
      case True
      then have n0: "0 \<le> n" by simp
      obtain k sg1 where w: "ioc_streamer_write_internal sg buf (int (length (sg_buf sg))) n (sr_head st) (sg_tail sg) =
          Some (int k, int ((length W + k) mod s), sg1)" and k: "k \<le> length buf" and sg1: "sg_tail sg1 = sg_tail sg"
        and ok1: "\<And>st'. sr_head st' = int ((length W + k) mod s) \<Longrightarrow> writer_ok sg_cmd s (W @ take k buf) a (st', sg1)"
        by (rule wrote_bytes [OF ok act s n0 n(2)]) simp_all
      obtain st' where res: "controller_write_data env buf n (st, sg) = Some (int k, st', sg1)" and st': "sr_head st' = int ((length W + k) mod s)"
        using run tail w True by (auto simp: controller_write_data_def Let_def)
      show ?thesis
        by (rule wroteI [OF res]) (use k ok1 [OF st'] sg1 act in auto)
    next
      case F: False
      show ?thesis
      proof (cases "n = 0")
        case True
        then show ?thesis using run quiet wrote_failed [OF ok] by (auto simp: controller_write_data_def)
      next
        case False
        then have "controller_write_data env buf n (st, sg) =
            Some (0, st\<lparr>sr_step := IOC_SSTEP_TRANSFER_DONE\<rparr>, sg\<lparr>sg_cs := sr_checksum st, sg_cmd := IOC_STREAM_COMPLETED\<rparr>)"
          using run F by (simp add: controller_write_data_def)
        then show ?thesis by (rule wrote_change [OF ok]) (use act in \<open>auto simp: wr_active_def\<close>)
      qed
    qed
  qed
qed

text \<open>A call that first changes the step, the select number, the timer or the own flag:\<close>

lemma wrote_after:
  assumes "wrote flag s W a (st', sg') buf res" and "sg_tail sg' = sg_tail sg" and "wr_active st"
  shows "wrote flag s W a (st, sg) buf res"
  using assms by (auto simp: wrote_def)

lemma writer_ok_after:
  assumes "writer_ok flag s W a (st, sg)" and "wr_active st" and "sr_head st' = sr_head st"
    and "sg_buf sg' = sg_buf sg" "sg_tail sg' = sg_tail sg" "sg_head sg' = sg_head sg" "flag sg' \<noteq> IOC_STREAM_COMPLETED"
  shows "writer_ok flag s W a (st', sg')"
  using assms by (auto simp: writer_ok_def)

lemma device_disconnected_cases:
  "device_disconnected (st, sg) = (st, sg) \<or>
   device_disconnected (st, sg) = (st\<lparr>sr_step := IOC_SSTEP_FAILED_AND_IDLE_SET\<rparr>, sg\<lparr>sg_state := IOC_STREAM_IDLE\<rparr>)"
  by (simp add: device_disconnected_def)

lemma controller_disconnected_cases:
  "controller_disconnected (st, sg) = (st, sg) \<or>
   controller_disconnected (st, sg) = (st\<lparr>sr_step := IOC_SSTEP_FAILED_AND_IDLE_SET\<rparr>, sg\<lparr>sg_cmd := IOC_STREAM_IDLE\<rparr>)"
  by (simp add: controller_disconnected_def)

text \<open>The calls, without the disconnected bit:\<close>

lemma wrote_bind: "map_option snd (do { (k, e) \<leftarrow> m; Some (g e, k, e) }) = m"
  by (cases m) auto

lemma device_write_ok:
  assumes ok: "writer_ok sg_state s W a e" and s: "0 < s" and n: "-1 \<le> n" "n \<le> int (length buf)"
  shows "wrote sg_state s W a e buf (map_option snd (ioc_streamer_device_write env buf n e))"
proof -
  obtain st sg where e: "e = (st, sg)" by (cases e)
  note ok = ok [unfolded e]
  have quiet: "wrote sg_state s W a (st, sg) buf (Some (0, st', sg'))"
    if "sg_buf sg' = sg_buf sg" "sg_tail sg' = sg_tail sg" "\<not> wr_active st'" "in_transfer (sg_state sg') \<Longrightarrow> sg' = sg" for st' sg'
    by (rule wrote_change [OF ok, of _ st' sg']) (use that ok in auto)
  consider "device_disconnected (st, sg) = (st, sg)"
    | "device_disconnected (st, sg) = (st\<lparr>sr_step := IOC_SSTEP_FAILED_AND_IDLE_SET\<rparr>, sg\<lparr>sg_state := IOC_STREAM_IDLE\<rparr>)"
    using device_disconnected_cases by blast
  then show ?thesis
  proof cases
    case 1
    show ?thesis
    proof (cases "sr_step st")
      case IOC_SSTEP_INITIALIZED
      then have act: "wr_active st" by (simp add: wr_active_def)
      define st1 sg1 where "st1 = st\<lparr>sr_select := sg_select sg, sr_step := IOC_SSTEP_TRANSFER_DATA, sr_mytimer := sv_now env\<rparr>"
        and "sg1 = sg\<lparr>sg_state := IOC_STREAM_RUNNING\<rparr>"
      have ok1: "writer_ok sg_state s W a (st1, sg1)"
        by (rule writer_ok_after [OF ok act]) (simp_all add: st1_def sg1_def stream_state_defs)
      have "wrote sg_state s W a (st1, sg1) buf (device_write_data env buf n (st1, sg1))"
        by (rule device_write_data_ok [OF ok1 _ s n]) (simp add: st1_def)
      then have "wrote sg_state s W a (st, sg) buf (device_write_data env buf n (st1, sg1))"
        by (rule wrote_after) (simp_all add: sg1_def act)
      then show ?thesis using 1 IOC_SSTEP_INITIALIZED wrote_failed [OF ok]
        by (simp add: e ioc_streamer_device_write_def wrote_bind st1_def sg1_def)
    next
      case IOC_SSTEP_TRANSFER_DATA
      then show ?thesis using 1 device_write_data_ok [OF ok _ s n]
        by (simp add: e ioc_streamer_device_write_def wrote_bind)
    next
      case IOC_SSTEP_INITIALIZED2
      then have act: "wr_active st" by (simp add: wr_active_def)
      have "wrote sg_state s W a (st, sg) buf (Some (0, st, sg))"
        by (rule wrote_change [OF ok, of _ st sg]) (use ok act in \<open>auto simp: writer_ok_def\<close>)
      then show ?thesis using 1 IOC_SSTEP_INITIALIZED2 by (simp add: e ioc_streamer_device_write_def)
    qed (use 1 in \<open>auto simp: e ioc_streamer_device_write_def wr_active_def Let_def intro!: quiet\<close>)
  next
    case 2
    then show ?thesis by (simp add: e ioc_streamer_device_write_def) (rule quiet; simp add: wr_active_def)
  qed
qed

lemma controller_write_ok:
  assumes ok: "writer_ok sg_cmd s W a e" and s: "0 < s" and n: "-1 \<le> n" "n \<le> int (length buf)"
  shows "wrote sg_cmd s W a e buf (map_option snd (ioc_streamer_controller_write env buf n e))"
proof -
  obtain st sg where e: "e = (st, sg)" by (cases e)
  note ok = ok [unfolded e]
  have quiet: "wrote sg_cmd s W a (st, sg) buf (Some (0, st', sg'))"
    if "sg_buf sg' = sg_buf sg" "sg_tail sg' = sg_tail sg" "\<not> wr_active st'" "in_transfer (sg_cmd sg') \<Longrightarrow> sg' = sg" for st' sg'
    by (rule wrote_change [OF ok, of _ st' sg']) (use that ok in auto)
  have early: "wrote sg_cmd s W a (st, sg) buf (Some (0, st', sg'))"
    if "wr_active st" "sr_head st' = sr_head st" "sg_buf sg' = sg_buf sg" "sg_tail sg' = sg_tail sg" "sg_head sg' = sg_head sg"
      "sg_cmd sg' \<noteq> IOC_STREAM_COMPLETED" for st' sg'
    by (rule wrote_change [OF ok, of _ st' sg']) (use that in auto)
  have nc: "wr_active st \<Longrightarrow> sg_cmd sg \<noteq> IOC_STREAM_COMPLETED" using ok by (simp add: writer_ok_def)
  consider "controller_disconnected (st, sg) = (st, sg)"
    | "controller_disconnected (st, sg) = (st\<lparr>sr_step := IOC_SSTEP_FAILED_AND_IDLE_SET\<rparr>, sg\<lparr>sg_cmd := IOC_STREAM_IDLE\<rparr>)"
    using controller_disconnected_cases by blast
  then show ?thesis
  proof cases
    case 1
    show ?thesis
    proof (cases "sr_step st")
      case IOC_SSTEP_INITIALIZED
      then have act: "wr_active st" by (simp add: wr_active_def)
      show ?thesis using 1 IOC_SSTEP_INITIALIZED
        by (simp add: e ioc_streamer_controller_write_def) (rule early [OF act]; simp add: stream_state_defs)
    next
      case IOC_SSTEP_INITIALIZED2
      then have act: "wr_active st" by (simp add: wr_active_def)
      define st1 where "st1 = st\<lparr>sr_step := IOC_SSTEP_TRANSFER_DATA\<rparr>"
      have ok1: "writer_ok sg_cmd s W a (st1, sg)"
        by (rule writer_ok_after [OF ok act]) (simp_all add: st1_def nc act)
      have "wrote sg_cmd s W a (st1, sg) buf (controller_write_data env buf n (st1, sg))"
        by (rule controller_write_data_ok [OF ok1 _ s n]) (simp add: st1_def)
      then have "wrote sg_cmd s W a (st, sg) buf (controller_write_data env buf n (st1, sg))"
        by (rule wrote_after) (simp_all add: act)
      moreover have "wrote sg_cmd s W a (st, sg) buf (Some (0, st, sg))"
        by (rule early [OF act]) (simp_all add: nc act)
      ultimately show ?thesis using 1 IOC_SSTEP_INITIALIZED2 wrote_failed [OF ok]
        by (simp add: e ioc_streamer_controller_write_def wrote_bind st1_def)
    next
      case IOC_SSTEP_TRANSFER_DATA
      then show ?thesis using 1 controller_write_data_ok [OF ok _ s n]
        by (simp add: e ioc_streamer_controller_write_def wrote_bind)
    qed (use 1 in \<open>auto simp: e ioc_streamer_controller_write_def wr_active_def Let_def intro!: quiet\<close>)
  next
    case 2
    then show ?thesis by (simp add: e ioc_streamer_controller_write_def) (rule quiet; simp add: wr_active_def)
  qed
qed

subsection \<open>The readers\<close>

lemma read_internal_disconnected:
  assumes "\<not> sg_buf_connected sg" and "0 \<le> head" "head < s" "0 \<le> tail" "tail < s" and "s = int (length (sg_buf sg))" and "0 \<le> n"
  obtains k where "ioc_streamer_read_internal sg s n head tail peek = Some (k, [], tail, sg)"
    and "k < 0 \<or> k = 0 \<and> (n = 0 \<or> tail = head)"
proof -
  have r1: "rds (sg_buf sg) tail (min (s - tail) n) \<noteq> None" using assms by (auto simp: rds_def)
  have r2: "rds (sg_buf sg) tail (min (head - tail) n) \<noteq> None" if "tail < head" using assms that by (auto simp: rds_def)
  have r3: "rds (sg_buf sg) 0 (min head n) \<noteq> None" using assms by (auto simp: rds_def)
  show thesis
    using assms(1,4,5,7) r1 r2 r3 that unfolding ioc_streamer_read_internal_def Let_def
    by (cases "tail > head"; cases "0 < n"; cases "tail < head") auto
qed

lemma gotI:
  assumes "res = Some (k, xs, e')" and "length xs \<le> h - r" "xs = take (length xs) (drop r W)"
    and "r' = (if sv_peek env then r else r + length xs)" "sr_tail (fst e') = int (r' mod s)"
    and "sg_tail (snd e') = int (r' mod s) \<or> sg_tail (snd e') = sg_tail (snd e) \<and> r' = r \<or> rd_finished (fst e')"
    and "sg_buf (snd e') = sg_buf (snd e)" "sg_head (snd e') = sg_head (snd e)" "flag (snd e') = flag (snd e)"
    and "rd_finished (fst e') \<Longrightarrow> rd_finished (fst e) \<and> xs = [] \<or> flag (snd e) = IOC_STREAM_COMPLETED \<and> (int (h - r) \<le> n \<longrightarrow> length xs = h - r)"
  shows "got flag s W r h e env n res"
  using assms unfolding got_def Let_def by blast

text \<open>A call that gets no bytes:\<close>

lemma got_nothing:
  assumes ok: "reader_ok flag s W r h (st, sg)" and res: "res = Some (k, [], st', sg')" and st': "sr_tail st' = sr_tail st"
    and same: "sg_buf sg' = sg_buf sg" "sg_head sg' = sg_head sg" "flag sg' = flag sg"
    and tail: "sg_tail sg' = sg_tail sg \<or> rd_finished st'" and fin: "rd_finished st' \<Longrightarrow> rd_finished st"
  shows "got flag s W r h (st, sg) env n res"
  by (rule gotI [OF res _ _ refl]) (use ok st' same tail fin in \<open>auto simp: reader_ok_def\<close>)

text \<open>A call that reads from the ring:\<close>

lemma got_bytes:
  assumes ok: "reader_ok flag s W r h (st, sg)" and run: "in_transfer (flag sg)" and con: "sg_buf_connected sg" and n: "0 \<le> n"
    and frame: "\<And>x. flag (sg\<lparr>sg_tail := x\<rparr>) = flag sg"
  obtains k tail sg1 where
    "ioc_streamer_read_internal sg (int (length (sg_buf sg))) n (sg_head sg) (sr_tail st) (sv_peek env) = Some (int k, take k (drop r W), tail, sg1)"
    and "k \<le> h - r" and "length (take k (drop r W)) = k" and "int (h - r) \<le> n \<longrightarrow> k = h - r"
    and "tail = int ((if sv_peek env then r else r + k) mod s)"
    and "sg1 = sg \<and> (sv_peek env \<or> k = 0) \<or> sg1 = sg\<lparr>sg_tail := tail\<rparr>"
proof -
  define k where "k = min (nat n) (h - r)"
  have st: "length (sg_buf sg) = s" "sr_tail st = int (r mod s)" "sg_head sg = int (h mod s)" and rh: "r \<le> h" "h - r < s" "h \<le> length W"
    and ring: "ring_ok (sg_buf sg) W r h"
    using ok run by (auto simp: reader_ok_def)
  note rd = read_internal_ring [OF ring st(1) rh(1) rh(2) n con k_def]
  have kl: "length (take k (drop r W)) = k" using rh by (simp add: k_def)
  have kh: "k \<le> h - r" and kn: "int (h - r) \<le> n \<Longrightarrow> k = h - r" by (auto simp: k_def)
  show thesis
  proof (cases "k \<noteq> 0 \<and> \<not> sv_peek env")
    case True
    show thesis
      by (rule that [of k "int ((r + k) mod s)" "sg\<lparr>sg_tail := int ((r + k) mod s)\<rparr>"])
         (use rd [of "sv_peek env", unfolded if_P [OF True]] True kl kh kn in \<open>simp_all add: st\<close>)
  next
    case False
    show thesis
      by (rule that [of k "int (r mod s)" sg])
         (use rd [of "sv_peek env", unfolded if_not_P [OF False]] False kl kh kn in \<open>auto simp: st\<close>)
  qed
qed

lemma same_position:
  fixes r h s :: nat
  assumes "r \<le> h" "h - r < s" "r mod s = h mod s"
  shows "h = r"
  using ring_ahead [OF assms(2), of r] assms by (auto split: if_splits)

text \<open>
  Both readers go on from the ring in the same way; \<open>st'\<close> stands for what they make of their state, which is finished
  only when the writer has completed.
\<close>

lemma got_data:
  assumes ok: "reader_ok flag s W r h (st, sg)" and run: "in_transfer (flag sg)" and n: "0 \<le> n"
    and frame: "\<And>x. flag (sg\<lparr>sg_tail := x\<rparr>) = flag sg" and unfin: "\<not> rd_finished st"
    and res: "\<And>k xs tail sg1. ioc_streamer_read_internal sg (int (length (sg_buf sg))) n (sg_head sg) (sr_tail st) (sv_peek env) = Some (k, xs, tail, sg1) \<Longrightarrow>
      \<exists>st' sg'. res = Some (k, xs, st', sg') \<and> sr_tail st' = tail \<and>
        sg_buf sg' = sg_buf sg1 \<and> sg_head sg' = sg_head sg1 \<and> flag sg' = flag sg1 \<and> sg_tail sg' = sg_tail sg1 \<and>
        (rd_finished st' \<longrightarrow> flag sg = IOC_STREAM_COMPLETED \<and> 0 \<le> k)"
  shows "got flag s W r h (st, sg) env n res"
proof -
  have st: "length (sg_buf sg) = s" "sr_tail st = int (r mod s)" "sg_head sg = int (h mod s)" "0 < s" and rh: "r \<le> h" "h - r < s" "h \<le> length W"
    using ok run by (auto simp: reader_ok_def)
  show ?thesis
  proof (cases "sg_buf_connected sg")
    case True
    obtain k tail sg1 where rd: "ioc_streamer_read_internal sg (int (length (sg_buf sg))) n (sg_head sg) (sr_tail st) (sv_peek env) =
        Some (int k, take k (drop r W), tail, sg1)"
      and k: "k \<le> h - r" "length (take k (drop r W)) = k" "int (h - r) \<le> n \<longrightarrow> k = h - r"
      and tail: "tail = int ((if sv_peek env then r else r + k) mod s)"
      and sg1: "sg1 = sg \<and> (sv_peek env \<or> k = 0) \<or> sg1 = sg\<lparr>sg_tail := tail\<rparr>"
      by (rule got_bytes [OF ok run True n frame, where env = env])
    obtain st' sg' where r1: "res = Some (int k, take k (drop r W), st', sg')" and "sr_tail st' = tail"
      and sg': "sg_buf sg' = sg_buf sg1" "sg_head sg' = sg_head sg1" "flag sg' = flag sg1" "sg_tail sg' = sg_tail sg1"
      and "rd_finished st' \<longrightarrow> flag sg = IOC_STREAM_COMPLETED"
      using res [OF rd] by blast
    moreover have "sg_buf sg1 = sg_buf sg" "sg_head sg1 = sg_head sg" "flag sg1 = flag sg" using sg1 frame by auto
    moreover have "sg_tail sg1 = tail \<or> sg_tail sg1 = sg_tail sg \<and> (if sv_peek env then r else r + k) = r" using sg1 by auto
    ultimately show ?thesis
      using k(1,3) by (intro gotI [OF r1, unfolded k(2), OF _ refl refl]) (auto simp: k(2) tail split: if_splits)
  next
    case False
    have in_ring: "0 \<le> sg_head sg" "sg_head sg < int (length (sg_buf sg))" "0 \<le> sr_tail st" "sr_tail st < int (length (sg_buf sg))"
      using st by simp_all
    obtain k where rd: "ioc_streamer_read_internal sg (int (length (sg_buf sg))) n (sg_head sg) (sr_tail st) (sv_peek env) = Some (k, [], sr_tail st, sg)"
      and k: "k < 0 \<or> k = 0 \<and> (n = 0 \<or> sr_tail st = sg_head sg)"
      by (rule read_internal_disconnected [OF False in_ring refl n])
    obtain st' sg' where r1: "res = Some (k, [], st', sg')" and st': "sr_tail st' = sr_tail st"
      and sg': "sg_buf sg' = sg_buf sg" "sg_head sg' = sg_head sg" "flag sg' = flag sg" "sg_tail sg' = sg_tail sg"
      and fin: "rd_finished st' \<longrightarrow> flag sg = IOC_STREAM_COMPLETED \<and> 0 \<le> k"
      using res [OF rd] by blast
    have "h = r" if "0 \<le> k" "n \<noteq> 0"
    proof -
      have "int (r mod s) = int (h mod s)" using k that st(2,3) by auto
      then show ?thesis using rh same_position [of r h s] by (simp only: of_nat_eq_iff)
    qed
    then have "int (h - r) \<le> n \<longrightarrow> 0 = h - r" if "0 \<le> k" using that by (cases "n = 0") auto
    then show ?thesis
      by (intro gotI [OF r1 _ _ refl]) (use st' sg' fin st in simp_all)
  qed
qed

lemma device_read_data_ok:
  assumes ok: "reader_ok sg_cmd s W r h (st, sg)" and unfin: "\<not> rd_finished st" and n: "0 \<le> n"
  shows "got sg_cmd s W r h (st, sg) env n (device_read_data env n (st, sg))"
proof (cases "\<not> in_transfer (sg_cmd sg) \<or> sv_interrupt env")
  case True
  then show ?thesis
    by (intro got_nothing [OF ok, where st' = "st\<lparr>sr_step := IOC_SSTEP_FAILED\<rparr>" and sg' = sg])
       (auto simp: device_read_data_def rd_finished_def)
next
  case False
  then have run: "in_transfer (sg_cmd sg)" by simp
  have head: "\<not> (sg_head sg < 0 \<or> sg_head sg \<ge> int (length (sg_buf sg)))"
    using ok run by (auto simp: reader_ok_def not_le)
  show ?thesis
    by (rule got_data [OF ok run n _ unfin], simp)
       (use False head unfin run in \<open>auto simp: device_read_data_def rd_finished_def Let_def in_transfer_def\<close>)
qed

lemma controller_read_data_ok:
  assumes ok: "reader_ok sg_state s W r h (st, sg)" and unfin: "\<not> rd_finished st" and n: "0 \<le> n"
  shows "got sg_state s W r h (st, sg) env n (controller_read_data env n (st, sg))"
proof (cases "\<not> in_transfer (sg_state sg) \<or> sv_interrupt env")
  case True
  then show ?thesis
    by (intro got_nothing [OF ok, where st' = "st\<lparr>sr_step := IOC_SSTEP_FAILED\<rparr>" and sg' = sg])
       (auto simp: controller_read_data_def rd_finished_def)
next
  case False
  then have run: "in_transfer (sg_state sg)" by simp
  have head: "\<not> (sg_head sg < 0 \<or> sg_head sg \<ge> int (length (sg_buf sg)))"
    using ok run by (auto simp: reader_ok_def not_le)
  show ?thesis
    by (rule got_data [OF ok run n _ unfin], simp)
       (use False head unfin run in \<open>auto simp: controller_read_data_def controller_read_done_def rd_finished_def Let_def in_transfer_def\<close>)
qed

lemma got_bind: "map_option snd (do { (k, xs, e) \<leftarrow> m; Some (g e, k, xs, e) }) = m"
  by (cases m) auto

lemma got_after:
  assumes "got flag s W r h (st', sg') env n res" and "sg_tail sg' = sg_tail sg" "sg_buf sg' = sg_buf sg" "sg_head sg' = sg_head sg" "flag sg' = flag sg"
    and "\<not> rd_finished st'"
  shows "got flag s W r h (st, sg) env n res"
  using assms(1,6) unfolding got_def fst_conv snd_conv assms(2-5) by blast

lemma device_read_ok:
  assumes ok: "reader_ok sg_cmd s W r h e" and n: "0 \<le> n"
  shows "got sg_cmd s W r h e env n (map_option snd (ioc_streamer_device_read env n e))"
proof -
  obtain st sg where e: "e = (st, sg)" by (cases e)
  note ok = ok [unfolded e]
  have quiet: "got sg_cmd s W r h (st, sg) env n (Some (0, [], st', sg'))"
    if "sr_tail st' = sr_tail st" "sg_buf sg' = sg_buf sg" "sg_head sg' = sg_head sg" "sg_cmd sg' = sg_cmd sg" "sg_tail sg' = sg_tail sg"
      "rd_finished st' \<Longrightarrow> rd_finished st" for st' sg'
    by (rule got_nothing [OF ok, of _ 0 st' sg']) (use that in auto)
  consider "device_disconnected (st, sg) = (st, sg)"
    | "device_disconnected (st, sg) = (st\<lparr>sr_step := IOC_SSTEP_FAILED_AND_IDLE_SET\<rparr>, sg\<lparr>sg_state := IOC_STREAM_IDLE\<rparr>)"
    using device_disconnected_cases by blast
  then show ?thesis
  proof cases
    case 1
    show ?thesis
    proof (cases "sr_step st")
      case IOC_SSTEP_INITIALIZED
      define st1 sg1 where "st1 = st\<lparr>sr_select := sg_select sg, sr_step := IOC_SSTEP_TRANSFER_DATA, sr_mytimer := sv_now env\<rparr>"
        and "sg1 = sg\<lparr>sg_state := IOC_STREAM_RUNNING\<rparr>"
      have ok1: "reader_ok sg_cmd s W r h (st1, sg1)" using ok by (simp add: st1_def sg1_def reader_ok_def)
      have unfin: "\<not> rd_finished st1" by (simp add: st1_def rd_finished_def)
      have "got sg_cmd s W r h (st, sg) env n (device_read_data env n (st1, sg1))"
        by (rule got_after [OF device_read_data_ok [OF ok1 unfin n]]) (simp_all add: sg1_def unfin)
      moreover have "got sg_cmd s W r h (st, sg) env n (Some (0, [], st\<lparr>sr_select := sg_select sg, sr_step := IOC_SSTEP_FAILED\<rparr>, sg))"
        by (rule quiet) (simp_all add: rd_finished_def)
      ultimately show ?thesis using 1 IOC_SSTEP_INITIALIZED
        by (simp add: e ioc_streamer_device_read_def got_bind st1_def sg1_def)
    next
      case IOC_SSTEP_TRANSFER_DATA
      then show ?thesis using 1 device_read_data_ok [OF ok _ n]
        by (simp add: e ioc_streamer_device_read_def got_bind rd_finished_def)
    qed (use 1 in \<open>auto simp: e ioc_streamer_device_read_def rd_finished_def Let_def intro!: quiet\<close>)
  next
    case 2
    then show ?thesis by (simp add: e ioc_streamer_device_read_def) (rule quiet; simp add: rd_finished_def)
  qed
qed

lemma controller_read_ok:
  assumes ok: "reader_ok sg_state s W r h e" and n: "0 \<le> n"
  shows "got sg_state s W r h e env n (map_option snd (ioc_streamer_controller_read env n e))"
proof -
  obtain st sg where e: "e = (st, sg)" by (cases e)
  note ok = ok [unfolded e]
  have quiet: "got sg_state s W r h (st, sg) env n (Some (0, [], st', sg'))"
    if "sr_tail st' = sr_tail st" "sg_buf sg' = sg_buf sg" "sg_head sg' = sg_head sg" "sg_state sg' = sg_state sg"
      "sg_tail sg' = sg_tail sg \<or> rd_finished st'" "rd_finished st' \<Longrightarrow> rd_finished st" for st' sg'
    by (rule got_nothing [OF ok, of _ 0 st' sg']) (use that in auto)
  consider "controller_disconnected (st, sg) = (st, sg)"
    | "controller_disconnected (st, sg) = (st\<lparr>sr_step := IOC_SSTEP_FAILED_AND_IDLE_SET\<rparr>, sg\<lparr>sg_cmd := IOC_STREAM_IDLE\<rparr>)"
    using controller_disconnected_cases by blast
  then show ?thesis
  proof cases
    case 1
    show ?thesis
    proof (cases "sr_step st")
      case IOC_SSTEP_TRANSFER_DATA
      then show ?thesis using 1 controller_read_data_ok [OF ok _ n]
        by (simp add: e ioc_streamer_controller_read_def got_bind rd_finished_def)
    qed (use 1 in \<open>auto simp: e ioc_streamer_controller_read_def controller_read_done_def rd_finished_def Let_def intro!: quiet\<close>)
  next
    case 2
    then show ?thesis by (simp add: e ioc_streamer_controller_read_def) (rule quiet; simp add: rd_finished_def)
  qed
qed

interpretation device_writes: stream_contract from_device
  by unfold_locales (simp_all add: from_device_def device_write_ok controller_read_ok)

interpretation controller_writes: stream_contract to_device
  by unfold_locales (simp_all add: to_device_def controller_write_ok device_read_ok)

section \<open>Properties of a transfer\<close>

text \<open>Just opened ends are a start, once the tail that the reader set to zero has reached the writer.\<close>

lemma opened_starts:
  assumes "ioc_streamer_open env1 True sel1 False True nc1 p1 = Some (w, p1')" and "ioc_streamer_open env2 True sel2 True False nc2 p2 = Some (r, p2')"
    and "sp_is_device p1" "\<not> sp_is_device p2" "sg_tail (sp_frd p1) = 0" "\<not> in_transfer (sg_state (sp_frd p2))"
    and "0 < length (sg_buf (sp_frd p1))" "length (sg_buf (sp_frd p2)) = length (sg_buf (sp_frd p1))"
  shows "transfer_starts from_device \<lparr>tf_writer = (w, sp_frd p1'), tf_reader = (r, sp_frd p2'), tf_forward = [], tf_back = [],
    tf_written = [], tf_read = [], tf_seen = 0, tf_acked = 0\<rparr>"
  using assms
  by (auto simp: ioc_streamer_open_def ioc_set_streamer_error_def set_err_def Let_def transfer_starts_def from_device_def split: option.splits)

text \<open>
  \<^bold>\<open>C35\<close> A stream never loses, repeats or reorders bytes: whatever the two ends do, however late the snapshots of their
  signals arrive, and whether the connection breaks or a transfer is interrupted, the bytes read so far are the first
  of the bytes written, from a device and to a device.
\<close>

theorem stream_bytes_in_order:
  assumes "d = from_device \<or> d = to_device" and "transfer_starts d t0" and "transfer_run d cs t0 = Some t"
  shows "\<exists>rest. tf_written t = tf_read t @ rest"
proof -
  have "take (length (tf_read t)) (tf_written t) = tf_read t"
    using assms device_writes.read_is_prefix controller_writes.read_is_prefix by blast
  then show ?thesis by (metis append_take_drop_id)
qed

text \<open>
  \<^bold>\<open>C36\<close> A reader whose reads always have room for what the ring can hold, and that does not just peek, finishes
  only with everything that was written; by then the writer has finished writing.
\<close>

theorem finished_stream_is_complete:
  assumes "d = from_device \<or> d = to_device" and "transfer_starts d t0" and "transfer_run d cs t0 = Some t"
    and "\<forall>c \<in> set cs. roomy_op (length (sg_buf (snd (tf_writer t0)))) c" and "rd_finished (fst (tf_reader t))"
  shows "tf_read t = tf_written t \<and> \<not> wr_active (fst (tf_writer t))"
  using assms device_writes.finished_has_all controller_writes.finished_has_all by blast

text \<open>
  \<^bold>\<open>C37\<close> Neither end ever reaches outside the ring buffer or the caller's buffer, whatever arrives in which order.
\<close>

theorem stream_stays_in_ring:
  assumes "d = from_device \<or> d = to_device" and "transfer_starts d t0" and "transfer_run d cs t0 = Some t"
    and "-1 \<le> n" "n \<le> int (length buf)" and "0 \<le> m"
  shows "dr_write d env buf n (tf_writer t) \<noteq> None \<and> dr_read d env m (tf_reader t) \<noteq> None"
  using assms(1)
proof
  assume d: "d = from_device"
  show ?thesis
    using device_writes.ends_never_fault [OF assms(2,3) [unfolded d]] assms(4-6) unfolding d by blast
next
  assume d: "d = to_device"
  show ?thesis
    using controller_writes.ends_never_fault [OF assms(2,3) [unfolded d]] assms(4-6) unfolding d by blast
qed

subsection \<open>Sample transfers\<close>

definition sample_env :: stream_env where
  "sample_env = \<lparr>sv_now = 7, sv_elapsed = (\<lambda>t ms. False), sv_checksum = (\<lambda>xs n c. c + of_nat (length xs)), sv_checksum_init = 3,
     sv_is_error = (\<lambda>s. s \<noteq> OSAL_SUCCESS), sv_interrupt = False, sv_peek = False, sv_final_handshake = False\<rparr>"

definition sample_end :: "nat \<Rightarrow> stream_end" where
  "sample_end s = (\<lparr>sr_step = IOC_SSTEP_INITIALIZED, sr_select = 1, sr_head = 0, sr_tail = 0, sr_read_flag = False, sr_write_flag = True,
       sr_disable_checksum = False, sr_mytimer = 0, sr_used = True, sr_checksum = 3, sr_read_timeout_ms = IOC_STREAMER_TIMEOUT,
       sr_write_timeout_ms = IOC_STREAMER_TIMEOUT\<rparr>,
     \<lparr>sg_cmd = IOC_STREAM_IDLE, sg_cmd_connected = True, sg_select = 0, sg_err = None, sg_cs = 0, sg_buf = replicate s 0, sg_buf_connected = True,
       sg_head = 0, sg_tail = 0, sg_tail_connected = True, sg_state = IOC_STREAM_IDLE, sg_state_connected = True\<rparr>)"

definition sample_transfer :: "nat \<Rightarrow> transfer" where
  "sample_transfer s = \<lparr>tf_writer = sample_end s, tf_reader = sample_end s, tf_forward = [], tf_back = [],
     tf_written = [], tf_read = [], tf_seen = 0, tf_acked = 0\<rparr>"

text \<open>Five bytes through a ring of four, from a device; the reader takes at most \<open>n\<close> bytes at a time.\<close>

definition sample_upload :: "int \<Rightarrow> transfer_op list" where
  "sample_upload n = [TfRead sample_env n, TfSendBack, TfReceiveBack, TfWrite sample_env [1, 2, 3, 4, 5] 5, TfSend, TfReceive,
     TfRead sample_env n, TfRead sample_env n, TfSendBack, TfReceiveBack, TfWrite sample_env [4, 5] 2, TfWrite sample_env [] (-1),
     TfSend, TfReceive, TfRead sample_env n]"

text \<open>The same to a device, which opens its end when the command has arrived.\<close>

definition sample_download :: "int \<Rightarrow> transfer_op list" where
  "sample_download n = [TfWrite sample_env [] 0, TfSend, TfReceive, TfRead sample_env n, TfSendBack, TfReceiveBack,
     TfWrite sample_env [1, 2, 3, 4, 5] 5, TfSend, TfReceive, TfRead sample_env n]"

lemma stream_bytes_in_order_witness:
  "(\<exists>rest. tf_written (the (transfer_run to_device (sample_download 2) (sample_transfer 4))) =
      tf_read (the (transfer_run to_device (sample_download 2) (sample_transfer 4))) @ rest) \<and>
   tf_read (the (transfer_run to_device (sample_download 2) (sample_transfer 4))) = [1, 2]"
proof
  have s: "transfer_starts to_device (sample_transfer 4)" by code_simp
  have r: "transfer_run to_device (sample_download 2) (sample_transfer 4) =
      Some (the (transfer_run to_device (sample_download 2) (sample_transfer 4)))"
    by code_simp
  show "\<exists>rest. tf_written (the (transfer_run to_device (sample_download 2) (sample_transfer 4))) =
     tf_read (the (transfer_run to_device (sample_download 2) (sample_transfer 4))) @ rest"
    by (rule stream_bytes_in_order [OF _ s r]) simp
  show "tf_read (the (transfer_run to_device (sample_download 2) (sample_transfer 4))) = [1, 2]" by code_simp
qed

lemma finished_stream_is_complete_witness:
  "tf_read (the (transfer_run from_device (sample_upload 3) (sample_transfer 4))) =
   tf_written (the (transfer_run from_device (sample_upload 3) (sample_transfer 4)))"
proof -
  have s: "transfer_starts from_device (sample_transfer 4)" by code_simp
  have r: "transfer_run from_device (sample_upload 3) (sample_transfer 4) =
      Some (the (transfer_run from_device (sample_upload 3) (sample_transfer 4)))"
    by code_simp
  have room: "\<forall>c \<in> set (sample_upload 3). roomy_op (length (sg_buf (snd (tf_writer (sample_transfer 4))))) c"
    by (simp add: sample_upload_def roomy_op_def sample_transfer_def sample_end_def sample_env_def)
  have f: "rd_finished (fst (tf_reader (the (transfer_run from_device (sample_upload 3) (sample_transfer 4)))))" by code_simp
  show ?thesis using finished_stream_is_complete [OF _ s r room f] by simp
qed

lemma stream_stays_in_ring_witness:
  "dr_write from_device sample_env [9, 9] 2 (tf_writer (the (transfer_run from_device (sample_upload 1) (sample_transfer 2)))) \<noteq> None"
proof -
  have s: "transfer_starts from_device (sample_transfer 2)" by code_simp
  have r: "transfer_run from_device (sample_upload 1) (sample_transfer 2) =
      Some (the (transfer_run from_device (sample_upload 1) (sample_transfer 2)))"
    by code_simp
  show ?thesis using stream_stays_in_ring [OF _ s r, of 2 "[9, 9]" 0 sample_env] by simp
qed

text \<open>
  Without the room, the reader that sees \<open>IOC_STREAM_COMPLETED\<close> is done after one more read and leaves the rest: here it has two of
  the five bytes.
\<close>

lemma small_reads_lose_the_rest:
  "rd_finished (fst (tf_reader (the (transfer_run from_device (sample_upload 1) (sample_transfer 8)))))"
  "tf_read (the (transfer_run from_device (sample_upload 1) (sample_transfer 8))) = [1, 2]"
  "tf_written (the (transfer_run from_device (sample_upload 1) (sample_transfer 8))) = [1, 2, 3, 4, 5, 4, 5]"
  by code_simp+

end
