(* ===== verification/Ioc_Signal.thy ===== *)
theory Ioc_Signal
  imports Ioc_Memory_Block
begin

text \<open>
  Signals, \<open>code/ioc_signal.c\<close> and \<open>.h\<close>: named values in a memory block. Each has a byte with state bits in
  front of the value; a boolean is one of the state bits, an array of booleans is packed into bits, numbers
  are stored with the least significant byte first on every processor.

  A handle is a number, and the memory blocks with their source buffers are a map from handles. The value of
  an \<open>iocValue\<close> is the 64 bits of the union, which hold a long integer or a double. What the code takes
  from the operating system abstraction layer (sizes of the types, the state bits, conversions of floating point
  numbers and strings) is in \<open>signal_env\<close>.
\<close>

section \<open>State\<close>

datatype osalTypeId =
    OS_BOOLEAN | OS_CHAR | OS_UCHAR | OS_SHORT | OS_USHORT | OS_INT | OS_UINT | OS_INT64 | OS_LONG | OS_FLOAT | OS_DOUBLE | OS_STR

definition IOC_SIGNAL_WRITE :: u16 where "IOC_SIGNAL_WRITE = 32"
definition IOC_SIGNAL_NO_THREAD_SYNC :: u16 where "IOC_SIGNAL_NO_THREAD_SYNC = 128"
definition IOC_SIGNAL_NO_TBUF_CHECK :: u16 where "IOC_SIGNAL_NO_TBUF_CHECK = 256"
definition IOC_SIGNAL_CLEAR_BITS :: u16 where "IOC_SIGNAL_CLEAR_BITS = 512"

lemmas signal_flag_defs = IOC_SIGNAL_WRITE_def IOC_SIGNAL_NO_THREAD_SYNC_def IOC_SIGNAL_NO_TBUF_CHECK_def IOC_SIGNAL_CLEAR_BITS_def

record iocSignal =
  si_addr :: int
  si_n :: int
  si_type :: osalTypeId
  si_handle :: "nat option"

record iocValue =
  vv_state_bits :: byte
  vv_value :: "64 word"

text \<open>
  \<open>sn_char_signed\<close>: whether \<open>os_char\<close> is signed. \<open>sn_union\<close> is what the conversion union, a local variable, holds
  at first. The string functions get the buffer they write to and return its new content.
\<close>

record signal_env =
  sn_small_endian :: bool
  sn_char_signed :: bool
  sn_type_size :: "osalTypeId \<Rightarrow> int"
  sn_connected :: byte
  sn_boolean :: byte
  sn_union :: "byte list"
  sn_to_float :: "64 word \<Rightarrow> 32 word"
  sn_of_float :: "32 word \<Rightarrow> 64 word"
  sn_long_to_double :: "64 word \<Rightarrow> 64 word"
  sn_round_long :: "64 word \<Rightarrow> 64 word"
  sn_nbuf :: "byte list"
  sn_int_to_str :: "64 word \<Rightarrow> byte list \<Rightarrow> int \<Rightarrow> byte list"
  sn_str_to_int :: "byte list \<Rightarrow> 64 word"
  sn_double_to_str :: "64 word \<Rightarrow> byte list \<Rightarrow> int \<Rightarrow> byte list"
  sn_str_to_double :: "byte list \<Rightarrow> 64 word"

type_synonym signal_block = "iocMemoryBlock \<times> iocSourceBuffer list"

section \<open>Values and bytes\<close>

text \<open>The bytes of the member of \<open>iocTypeConvUnion\<close> for a type, in the order of the processor.\<close>

definition member_size :: "osalTypeId \<Rightarrow> nat" where
  "member_size t = (case t of OS_SHORT \<Rightarrow> 2 | OS_USHORT \<Rightarrow> 2 | OS_INT \<Rightarrow> 4 | OS_UINT \<Rightarrow> 4 | OS_FLOAT \<Rightarrow> 4
     | OS_INT64 \<Rightarrow> 8 | OS_LONG \<Rightarrow> 8 | OS_DOUBLE \<Rightarrow> 8 | _ \<Rightarrow> 1)"

definition le_bytes :: "nat \<Rightarrow> 64 word \<Rightarrow> byte list" where
  "le_bytes k v = map (\<lambda>i. ucast (drop_bit (8 * i) v)) [0..<k]"

fun of_le_bytes :: "byte list \<Rightarrow> 64 word" where
  "of_le_bytes [] = 0"
| "of_le_bytes (b # bs) = ucast b OR push_bit 8 (of_le_bytes bs)"

definition host_order :: "bool \<Rightarrow> byte list \<Rightarrow> byte list" where
  "host_order small_endian bs = (if small_endian then bs else rev bs)"

definition union_of_value :: "signal_env \<Rightarrow> osalTypeId \<Rightarrow> 64 word \<Rightarrow> byte list" where
  "union_of_value env t v =
     host_order (sn_small_endian env) (le_bytes (member_size t) (if t = OS_FLOAT then ucast (sn_to_float env v) else v))"

text \<open>Widening the member to the 64 bits of the value: unsigned types with zeros, signed ones with the sign.\<close>

definition widen :: "signal_env \<Rightarrow> osalTypeId \<Rightarrow> 64 word \<Rightarrow> 64 word" where
  "widen env t w = (case t of
       OS_UCHAR \<Rightarrow> ucast (ucast w :: 8 word) | OS_USHORT \<Rightarrow> ucast (ucast w :: 16 word) | OS_UINT \<Rightarrow> ucast (ucast w :: 32 word)
     | OS_SHORT \<Rightarrow> scast (ucast w :: 16 word) | OS_INT \<Rightarrow> scast (ucast w :: 32 word)
     | OS_INT64 \<Rightarrow> w | OS_LONG \<Rightarrow> w | OS_DOUBLE \<Rightarrow> w | OS_FLOAT \<Rightarrow> sn_of_float env (ucast w)
     | _ \<Rightarrow> if sn_char_signed env then scast (ucast w :: 8 word) else ucast (ucast w :: 8 word))"

definition value_of_union :: "signal_env \<Rightarrow> osalTypeId \<Rightarrow> byte list \<Rightarrow> 64 word" where
  "value_of_union env t u = widen env t (of_le_bytes (host_order (sn_small_endian env) (take (member_size t) u)))"

section \<open>Strings\<close>

text \<open>State bits that a reader gets: not connected when the block has no target buffer.\<close>

definition read_state_bits :: "signal_env \<Rightarrow> u16 \<Rightarrow> iocMemoryBlock \<Rightarrow> byte \<Rightarrow> byte" where
  "read_state_bits env flags mblk sb =
    (if mb_tbufs mblk = [] \<and> \<not> has_flag flags IOC_SIGNAL_NO_TBUF_CHECK then sb AND NOT (sn_connected env) else sb)"

text \<open>
  \<open>ioc_move_str\<close> for signals of type \<open>OS_STR\<close>, in a block that exists. \<open>os_strlen\<close> counts the terminator. The result is the
  state bits, the buffer of the caller and the block.
\<close>

definition move_string ::
  "signal_env \<Rightarrow> iocSignal \<Rightarrow> byte list \<Rightarrow> int \<Rightarrow> byte \<Rightarrow> u16 \<Rightarrow> signal_block \<Rightarrow> (byte \<times> byte list \<times> signal_block) option" where
  "move_string env sig str str_sz state_bits flags blk = (case blk of (mblk, sbufs) \<Rightarrow>
     let addr = si_addr sig
     in if addr < 0 \<or> addr + si_n sig + 1 > mb_nbytes mblk then Some (0, str, blk)
        else do {
          buf \<leftarrow> mb_buf mblk;
          if has_flag flags IOC_SIGNAL_WRITE then do {
            buf1 \<leftarrow> wr buf addr state_bits;
            len \<leftarrow> c_strlen str;
            let n = min (int len + 1) (si_n sig);
            buf2 \<leftarrow> os_memcpy buf1 (addr + 1) str 0 n;
            sbufs' \<leftarrow> ioc_mblk_invalidate buf2 addr (addr + n) sbufs;
            Some (state_bits, str, mblk\<lparr>mb_buf := Some buf2\<rparr>, sbufs') }
          else do {
            sb \<leftarrow> rd buf addr;
            str' \<leftarrow> os_memcpy str 0 buf (addr + 1) (min str_sz (si_n sig));
            Some (read_state_bits env flags mblk sb, str', blk) } })"

section \<open>Moving values\<close>

definition move_value :: "signal_env \<Rightarrow> u16 \<Rightarrow> iocSignal \<Rightarrow> iocValue \<Rightarrow> signal_block \<Rightarrow> (iocValue \<times> signal_block) option" where
  "move_value env flags sig vv blk = (case blk of (mblk, sbufs) \<Rightarrow>
     let se = sn_small_endian env; t = si_type sig; addr = si_addr sig
     in if t = OS_STR then
          let nbuf = sn_nbuf env; nbuf_sz = int (length nbuf)
          in if has_flag flags IOC_SIGNAL_WRITE then do {
               (sb, str, blk') \<leftarrow> move_string env sig (sn_int_to_str env (vv_value vv) nbuf nbuf_sz) nbuf_sz (sn_connected env) flags blk;
               Some (vv\<lparr>vv_state_bits := sb\<rparr>, blk') }
             else do {
               nbuf1 \<leftarrow> wr nbuf 0 0;
               (sb, str, blk') \<leftarrow> move_string env sig nbuf1 nbuf_sz (sn_connected env) flags blk;
               Some (\<lparr>vv_state_bits = sb, vv_value = sn_str_to_int env str\<rparr>, blk') }
        else
          let type_sz = (if t = OS_BOOLEAN then 0 else sn_type_size env t)
          in if addr < 0 \<or> addr + type_sz \<ge> mb_nbytes mblk then Some (vv, blk)
             else do {
               buf \<leftarrow> mb_buf mblk;
               if has_flag flags IOC_SIGNAL_WRITE then do {
                 let sb = (if vv_value vv \<noteq> 0 then vv_state_bits vv OR sn_boolean env else vv_state_bits vv AND NOT (sn_boolean env));
                 buf1 \<leftarrow> wr buf addr sb;
                 buf2 \<leftarrow> ioc_byte_ordered_copy se buf1 (addr + 1) (union_of_value env t (vv_value vv)) 0 type_sz (word_of_int type_sz);
                 sbufs' \<leftarrow> ioc_mblk_invalidate buf2 addr (addr + type_sz) sbufs;
                 Some (vv\<lparr>vv_state_bits := sb\<rparr>, mblk\<lparr>mb_buf := Some buf2\<rparr>, sbufs') }
               else do {
                 sb0 \<leftarrow> rd buf addr;
                 let sb = read_state_bits env flags mblk sb0;
                 if t = OS_BOOLEAN then Some (\<lparr>vv_state_bits = sb, vv_value = (if sb AND sn_boolean env \<noteq> 0 then 1 else 0)\<rparr>, blk)
                 else do {
                   u \<leftarrow> ioc_byte_ordered_copy se (sn_union env) 0 buf (addr + 1) type_sz (word_of_int type_sz);
                   Some (\<lparr>vv_state_bits = sb, vv_value = value_of_union env t u\<rparr>, blk) } } })"

text \<open>
  \<open>ioc_move\<close>. The lock is taken for signals with the same handle in turn, so the block of a handle is the same for all of them.
  A signal without a handle ends the loop.
\<close>

type_synonym signal_blocks = "nat \<Rightarrow> signal_block option"

fun move_signals ::
  "signal_env \<Rightarrow> u16 \<Rightarrow> iocSignal list \<Rightarrow> iocValue list \<Rightarrow> signal_blocks \<Rightarrow> (iocValue list \<times> signal_blocks) option" where
  "move_signals env flags [] vvs blks = Some (vvs, blks)"
| "move_signals env flags (sig # sigs) [] blks = None"
| "move_signals env flags (sig # sigs) (vv # vvs) blks =
    (case si_handle sig of
       None \<Rightarrow> Some (vv # vvs, blks)
     | Some h \<Rightarrow> do {
         (vv', blks') \<leftarrow> (case blks h of
             None \<Rightarrow> Some (vv, blks)
           | Some blk \<Rightarrow> map_option (\<lambda>(vv', blk'). (vv', blks(h := Some blk'))) (move_value env flags sig vv blk));
         (vvs', blks'') \<leftarrow> move_signals env flags sigs vvs blks';
         Some (vv' # vvs', blks'') })"

definition ioc_move ::
  "signal_env \<Rightarrow> iocSignal list \<Rightarrow> iocValue list \<Rightarrow> u16 \<Rightarrow> signal_blocks \<Rightarrow> (iocValue list \<times> signal_blocks) option" where
  "ioc_move env sigs vvs flags blks =
     move_signals env flags sigs
       (if has_flag flags IOC_SIGNAL_WRITE then vvs else replicate (length vvs) \<lparr>vv_state_bits = 0, vv_value = 0\<rparr>) blks"

definition is_float :: "osalTypeId \<Rightarrow> bool" where
  "is_float t \<longleftrightarrow> t = OS_FLOAT \<or> t = OS_DOUBLE"

definition ioc_set_ext :: "signal_env \<Rightarrow> iocSignal \<Rightarrow> 64 word \<Rightarrow> u16 \<Rightarrow> signal_blocks \<Rightarrow> (byte \<times> signal_blocks) option" where
  "ioc_set_ext env sig v state_bits blks = do {
     (vvs, blks') \<leftarrow> ioc_move env [sig]
       [\<lparr>vv_state_bits = ucast (state_bits AND NOT IOC_SIGNAL_NO_THREAD_SYNC),
         vv_value = (if is_float (si_type sig) then sn_long_to_double env v else v)\<rparr>]
       (IOC_SIGNAL_WRITE OR state_bits AND IOC_SIGNAL_NO_THREAD_SYNC) blks;
     Some (vv_state_bits (hd vvs), blks') }"

definition ioc_set_double_ext :: "signal_env \<Rightarrow> iocSignal \<Rightarrow> 64 word \<Rightarrow> byte \<Rightarrow> signal_blocks \<Rightarrow> (byte \<times> signal_blocks) option" where
  "ioc_set_double_ext env sig v state_bits blks = do {
     (vvs, blks') \<leftarrow> ioc_move env [sig]
       [\<lparr>vv_state_bits = state_bits, vv_value = (if is_float (si_type sig) then v else sn_round_long env v)\<rparr>] IOC_SIGNAL_WRITE blks;
     Some (vv_state_bits (hd vvs), blks') }"

text \<open>The value and the state bits.\<close>

definition ioc_get_ext :: "signal_env \<Rightarrow> iocSignal \<Rightarrow> u16 \<Rightarrow> signal_blocks \<Rightarrow> (64 word \<times> byte) option" where
  "ioc_get_ext env sig flags blks = do {
     (vvs, blks') \<leftarrow> ioc_move env [sig] [\<lparr>vv_state_bits = 0, vv_value = 0\<rparr>] flags blks;
     let vv = hd vvs;
     Some (if is_float (si_type sig) then sn_round_long env (vv_value vv) else vv_value vv, vv_state_bits vv) }"

definition ioc_get_double_ext :: "signal_env \<Rightarrow> iocSignal \<Rightarrow> u16 \<Rightarrow> signal_blocks \<Rightarrow> (64 word \<times> byte) option" where
  "ioc_get_double_ext env sig flags blks = do {
     (vvs, blks') \<leftarrow> ioc_move env [sig] [\<lparr>vv_state_bits = 0, vv_value = 0\<rparr>] flags blks;
     let vv = hd vvs;
     Some (if is_float (si_type sig) then vv_value vv else sn_long_to_double env (vv_value vv), vv_state_bits vv) }"

text \<open>
  \<open>ioc_move_str\<close>: state bits, the buffer of the caller, the blocks. \<open>str\<close> is \<open>None\<close> for a null pointer. The cast of
  the number to \<open>os_int\<close> keeps 32 bits.
\<close>

definition ioc_move_str ::
  "signal_env \<Rightarrow> iocSignal \<Rightarrow> byte list option \<Rightarrow> int \<Rightarrow> byte \<Rightarrow> u16 \<Rightarrow> signal_blocks \<Rightarrow> (byte \<times> byte list option \<times> signal_blocks) option" where
  "ioc_move_str env sig str str_sz state_bits flags blks =
    (let write = has_flag flags IOC_SIGNAL_WRITE
     in if si_type sig = OS_STR then
          if \<not> write \<and> str = None then Some (0, None, blks)
          else do {
            let s = (case str of None \<Rightarrow> [0] | Some s \<Rightarrow> s);
            s1 \<leftarrow> (if write then Some s else wr s 0 0);
            h \<leftarrow> si_handle sig;
            (case blks h of
               None \<Rightarrow> Some (0, if write then str else Some s1, blks)
             | Some blk \<Rightarrow> do {
                 (sb, s2, blk') \<leftarrow> move_string env sig s1 str_sz state_bits flags blk;
                 Some (sb, if write then str else Some s2, if write then blks(h := Some blk') else blks) }) }
        else do {
          s \<leftarrow> str;
          if write then
            if si_type sig = OS_FLOAT then map_option (\<lambda>(sb, b). (sb, str, b)) (ioc_set_double_ext env sig (sn_str_to_double env s) state_bits blks)
            else map_option (\<lambda>(sb, b). (sb, str, b))
              (ioc_set_ext env sig (scast (ucast (sn_str_to_int env s) :: 32 word)) (ucast state_bits) blks)
          else if si_type sig = OS_FLOAT then
            map_option (\<lambda>(v, sb). (sb, Some (sn_double_to_str env v s str_sz), blks)) (ioc_get_double_ext env sig flags blks)
          else map_option (\<lambda>(v, sb). (sb, Some (sn_int_to_str env v s str_sz), blks)) (ioc_get_ext env sig flags blks) })"

section \<open>Arrays\<close>

text \<open>The loops that pack booleans into bytes, eight in each, and unpack them.\<close>

primrec pack_byte :: "byte list \<Rightarrow> int \<Rightarrow> nat \<Rightarrow> nat \<Rightarrow> byte \<Rightarrow> byte option" where
  "pack_byte arr b i 0 ubyte = Some ubyte"
| "pack_byte arr b i (Suc c) ubyte = do {
     v \<leftarrow> rd arr b;
     pack_byte arr (b + 1) (i + 1) c (if v \<noteq> 0 then ubyte OR push_bit i 1 else ubyte) }"

function pack_bits :: "byte list \<Rightarrow> int \<Rightarrow> byte list \<Rightarrow> int \<Rightarrow> nat \<Rightarrow> byte list option" where
  "pack_bits arr b buf p nn =
    (if nn = 0 then Some buf
     else do {
       ubyte \<leftarrow> pack_byte arr b 0 (min 8 nn) 0;
       buf' \<leftarrow> wr buf p ubyte;
       pack_bits arr (b + 8) buf' (p + 1) (nn - 8) })"
  by pat_completeness auto
termination
  by (relation "measure (\<lambda>(arr, b, buf, p, nn). nn)") auto

primrec unpack_byte :: "byte \<Rightarrow> nat \<Rightarrow> byte list \<Rightarrow> int \<Rightarrow> nat \<Rightarrow> byte list option" where
  "unpack_byte ubyte i arr b 0 = Some arr"
| "unpack_byte ubyte i arr b (Suc c) = do {
     arr' \<leftarrow> wr arr b (if bit ubyte i then 1 else 0);
     unpack_byte ubyte (i + 1) arr' (b + 1) c }"

function unpack_bits :: "byte list \<Rightarrow> int \<Rightarrow> byte list \<Rightarrow> int \<Rightarrow> nat \<Rightarrow> byte list option" where
  "unpack_bits buf p arr b n =
    (if n = 0 then Some arr
     else do {
       ubyte \<leftarrow> rd buf p;
       arr' \<leftarrow> unpack_byte ubyte 0 arr b (min 8 n);
       unpack_bits buf (p + 1) arr' (b + 8) (n - 8) })"
  by pat_completeness auto
termination
  by (relation "measure (\<lambda>(buf, p, arr, b, n). n)") auto

declare pack_bits.simps [simp del] unpack_bits.simps [simp del]

text \<open>\<open>ioc_move_array\<close> in a block that exists, for writing and for reading; \<open>n\<close> is the number that is left.\<close>

definition write_array ::
  "signal_env \<Rightarrow> iocSignal \<Rightarrow> int \<Rightarrow> byte list \<Rightarrow> int \<Rightarrow> byte \<Rightarrow> signal_block \<Rightarrow> (byte \<times> signal_block) option" where
  "write_array env sig offset arr n state_bits blk = (case blk of (mblk, sbufs) \<Rightarrow> do {
     let addr = si_addr sig;
     let type_sz = sn_type_size env (si_type sig);
     buf \<leftarrow> mb_buf mblk;
     if si_type sig = OS_BOOLEAN then do {
       v \<leftarrow> rd arr 0;
       let sb = (if v \<noteq> 0 then state_bits OR sn_boolean env else state_bits AND NOT (sn_boolean env));
       buf1 \<leftarrow> wr buf addr sb;
       buf2 \<leftarrow> (if n > 1 then pack_bits arr 0 buf1 (addr + 1) (nat n) else Some buf1);
       sbufs' \<leftarrow> ioc_mblk_invalidate buf2 addr (addr + (if n > 1 then (n + 7) div 8 else 0)) sbufs;
       Some (sb, mblk\<lparr>mb_buf := Some buf2\<rparr>, sbufs') }
     else do {
       old \<leftarrow> rd buf addr;
       buf1 \<leftarrow> wr buf addr state_bits;
       let nn = n * type_sz;
       buf2 \<leftarrow> ioc_byte_ordered_copy (sn_small_endian env) buf1 (addr + 1 + offset * type_sz) arr 0 nn (word_of_int type_sz);
       sbufs' \<leftarrow> (if old \<noteq> state_bits then ioc_mblk_invalidate buf2 addr (addr + nn + offset * type_sz) sbufs
         else if nn \<noteq> 0 then ioc_mblk_invalidate buf2 (addr + offset * type_sz + 1) (addr + offset * type_sz + 1 + nn - 1) sbufs
         else Some sbufs);
       Some (state_bits, mblk\<lparr>mb_buf := Some buf2\<rparr>, sbufs') } })"

definition read_array ::
  "signal_env \<Rightarrow> iocSignal \<Rightarrow> int \<Rightarrow> byte list \<Rightarrow> int \<Rightarrow> u16 \<Rightarrow> iocMemoryBlock \<Rightarrow> (byte \<times> byte list) option" where
  "read_array env sig offset arr n flags mblk = do {
     let addr = si_addr sig;
     let type_sz = sn_type_size env (si_type sig);
     buf \<leftarrow> mb_buf mblk;
     sb0 \<leftarrow> rd buf addr;
     let sb = read_state_bits env flags mblk sb0;
     if si_type sig = OS_BOOLEAN then
       if n > 1 then map_option (Pair sb) (unpack_bits buf (addr + 1) arr 0 (nat n))
       else do { arr' \<leftarrow> wr arr 0 (if sb AND sn_boolean env \<noteq> 0 then 1 else 0); Some (sb AND sn_boolean env, arr') }
     else map_option (Pair sb)
       (ioc_byte_ordered_copy (sn_small_endian env) arr 0 buf (addr + 1 + offset * type_sz) (n * type_sz) (word_of_int type_sz)) }"

definition ioc_move_array ::
  "signal_env \<Rightarrow> iocSignal \<Rightarrow> int \<Rightarrow> byte list \<Rightarrow> int \<Rightarrow> byte \<Rightarrow> u16 \<Rightarrow> signal_blocks \<Rightarrow> (byte \<times> byte list \<times> signal_blocks) option" where
  "ioc_move_array env sig offset arr n state_bits flags blks = do {
     h \<leftarrow> si_handle sig;
     (case blks h of
       None \<Rightarrow> Some (0, arr, blks)
     | Some (mblk, sbufs) \<Rightarrow>
         let addr = si_addr sig;
             nn = (if si_type sig = OS_BOOLEAN then if n = 1 then 0 else (n + 7) div 8 else n)
         in if addr < 0 \<or> addr + (offset + nn) * sn_type_size env (si_type sig) \<ge> mb_nbytes mblk then Some (0, arr, blks)
            else
              let n' = (if si_n sig < n + offset then si_n sig - offset else n)
              in if has_flag flags IOC_SIGNAL_WRITE then
                   map_option (\<lambda>(sb, blk'). (sb, arr, blks(h := Some blk')))
                     (write_array env sig offset arr n' state_bits (mblk, sbufs))
                 else map_option (\<lambda>(sb, arr'). (sb, arr', blks)) (read_array env sig offset arr n' flags mblk)) }"

section \<open>State bits\<close>

definition ioc_set_state_bits :: "signal_env \<Rightarrow> iocSignal \<Rightarrow> byte \<Rightarrow> u16 \<Rightarrow> signal_blocks \<Rightarrow> signal_blocks option" where
  "ioc_set_state_bits env sig state_bits flags blks =
    (case si_handle sig of None \<Rightarrow> Some blks
     | Some h \<Rightarrow> (case blks h of None \<Rightarrow> Some blks
       | Some (mblk, sbufs) \<Rightarrow> do {
           cs \<leftarrow> ioc_read (sn_small_endian env) (Some mblk) (si_addr sig) (take 1 (sn_union env)) 1 IOC_SIGNAL_NO_THREAD_SYNC;
           cur \<leftarrow> rd cs 0;
           let clear = has_flag flags IOC_SIGNAL_CLEAR_BITS;
           let changed = (if clear then cur AND state_bits \<noteq> 0 else state_bits \<noteq> state_bits AND cur);
           let new = (if clear then cur AND NOT state_bits else cur OR state_bits);
           if changed then do {
             (mblk', sbufs') \<leftarrow> ioc_write (sn_small_endian env) mblk sbufs (si_addr sig) [new] 1 IOC_SIGNAL_NO_THREAD_SYNC;
             Some (blks(h := Some (mblk', sbufs'))) }
           else Some blks }))"

section \<open>Bytes of a value\<close>

lemma le_bytes_Suc: "le_bytes (Suc k) v = ucast v # le_bytes k (drop_bit 8 v)"
  by (simp only: le_bytes_def upt_conv_Cons list.map map_Suc_upt [symmetric] map_map) (simp add: comp_def add.commute)

lemma length_le_bytes [simp]: "length (le_bytes k v) = k"
  by (simp add: le_bytes_def)

lemma of_le_bytes: "of_le_bytes (le_bytes k v) = take_bit (8 * k) v"
proof (induction k arbitrary: v)
  case 0
  then show ?case by (simp add: le_bytes_def)
next
  case (Suc k)
  show ?case
    unfolding le_bytes_Suc of_le_bytes.simps Suc.IH
    by (rule bit_word_eqI) (auto simp: bit_simps)
qed

text \<open>What a signal of a type keeps of a value.\<close>

definition kept_value :: "signal_env \<Rightarrow> osalTypeId \<Rightarrow> 64 word \<Rightarrow> 64 word" where
  "kept_value env t v = (if t = OS_BOOLEAN then if v \<noteq> 0 then 1 else 0 else widen env t v)"

lemma ucast_take_bit:
  "(ucast (take_bit n w :: 64 word) :: 'a::len word) = ucast w" if "LENGTH('a) \<le> n"
  by (rule bit_word_eqI) (use that in \<open>auto simp: bit_simps\<close>)

lemma take_bit_64: "take_bit 64 (w :: 64 word) = w"
  by (rule bit_word_eqI) (simp add: bit_simps)

lemma widen_take_bit:
  "t \<noteq> OS_FLOAT \<Longrightarrow> widen env t (take_bit (8 * member_size t) w) = widen env t w"
  by (cases t) (simp_all add: widen_def member_size_def ucast_take_bit take_bit_64)

lemma host_order_simps [simp]:
  "length (host_order se bs) = length bs" "host_order se (host_order se bs) = bs"
  by (simp_all add: host_order_def)

lemma value_of_union:
  "t \<noteq> OS_FLOAT \<Longrightarrow> value_of_union env t (union_of_value env t v @ rest) = widen env t v"
  by (simp add: value_of_union_def union_of_value_def of_le_bytes widen_take_bit)

lemma length_union [simp]: "length (union_of_value env t v) = member_size t"
  by (simp add: union_of_value_def)

section \<open>Setting and getting a signal\<close>

text \<open>The sizes of the types, as the operating system layer reports them, are those of C.\<close>

definition sizes_ok :: "signal_env \<Rightarrow> bool" where
  "sizes_ok env \<longleftrightarrow> (\<forall>t \<in> {OS_BOOLEAN, OS_CHAR, OS_UCHAR, OS_SHORT, OS_USHORT, OS_INT, OS_UINT, OS_INT64, OS_LONG, OS_FLOAT, OS_DOUBLE}.
     sn_type_size env t = int (member_size t)) \<and> length (sn_union env) = 8"

definition bits_ok :: "signal_env \<Rightarrow> bool" where
  "bits_ok env \<longleftrightarrow> sn_boolean env \<noteq> 0 \<and> sn_connected env AND sn_boolean env = 0"

text \<open>Bytes behind the state byte.\<close>

definition value_size :: "osalTypeId \<Rightarrow> nat" where
  "value_size t = (if t = OS_BOOLEAN then 0 else member_size t)"

definition set_bits :: "signal_env \<Rightarrow> byte \<Rightarrow> 64 word \<Rightarrow> byte" where
  "set_bits env sb v = (if v \<noteq> 0 then sb OR sn_boolean env else sb AND NOT (sn_boolean env))"

lemma member_size_cases: "member_size t \<in> {1, 2, 4, 8}"
  by (cases t) (simp_all add: member_size_def)

lemma swap_sz_member: "swap_sz se (word_of_int (int (member_size t))) dvd member_size t"
  using member_size_cases [of t] by (auto simp: swap_sz_def)

text \<open>A block with one byte and the bytes behind it changed, and its source buffers told.\<close>

lemma block_update:
  assumes wf: "mblk_wf m mblk sbufs" and a: "a + length xs < m" and b_def: "b = splice ((mb_content mblk)[a := x]) (Suc a) xs"
  shows "\<exists>sbufs'. ioc_mblk_invalidate b (int a) (int a + int (length xs)) sbufs = Some sbufs' \<and>
    mblk_wf m (mblk\<lparr>mb_buf := Some b\<rparr>) sbufs'"
proof -
  note c = mblk_wf_content [OF wf]
  have l: "length b = m" using a c(2) by (simp add: b_def)
  have out: "\<forall>i < m. int i < int a \<or> int a + int (length xs) < int i \<longrightarrow> b ! i = mb_content mblk ! i"
    using a c(2) by (auto simp: b_def nth_splice)
  have r: "0 \<le> int a" "int a \<le> int a + int (length xs)" "int a + int (length xs) < int m" using a by auto
  obtain sbufs' where s': "ioc_mblk_invalidate b (int a) (int a + int (length xs)) sbufs = Some sbufs'"
    "\<forall>sbuf \<in> set sbufs'. sbuf_wf m sbuf \<and> covers b sbuf"
    using mblk_invalidate_spec [OF c(4,2) l r out] by blast
  then show ?thesis using wf l by (auto simp: mblk_wf_def)
qed

text \<open>What a written signal looks like in the block.\<close>

definition stored :: "signal_env \<Rightarrow> osalTypeId \<Rightarrow> 64 word \<Rightarrow> byte list" where
  "stored env t v = (if t = OS_BOOLEAN then []
     else swap_groups (swap_sz (sn_small_endian env) (word_of_int (int (member_size t)))) (union_of_value env t v))"

lemma length_stored [simp]: "length (stored env t v) = value_size t"
  using swap_sz_member [of "sn_small_endian env" t] by (auto simp: stored_def value_size_def length_swap_groups)

lemma move_value_write:
  assumes wf: "mblk_wf m mblk sbufs" and sz: "sizes_ok env" and t: "si_type sig \<noteq> OS_STR"
    and a: "si_addr sig = int a" "a + value_size (si_type sig) < m" and w: "has_flag flags IOC_SIGNAL_WRITE"
    and b_def: "b = splice ((mb_content mblk)[a := set_bits env (vv_state_bits vv) (vv_value vv)]) (Suc a) (stored env (si_type sig) (vv_value vv))"
  shows "\<exists>sbufs'. move_value env flags sig vv (mblk, sbufs) =
      Some (vv\<lparr>vv_state_bits := set_bits env (vv_state_bits vv) (vv_value vv)\<rparr>, mblk\<lparr>mb_buf := Some b\<rparr>, sbufs') \<and>
    mblk_wf m (mblk\<lparr>mb_buf := Some b\<rparr>) sbufs'"
proof -
  let ?t = "si_type sig" and ?sb = "set_bits env (vv_state_bits vv) (vv_value vv)"
  let ?b1 = "(mb_content mblk)[a := ?sb]" and ?u = "union_of_value env ?t (vv_value vv)"
  note c = mblk_wf_content [OF wf]
  have ts: "(if ?t = OS_BOOLEAN then 0 else sn_type_size env ?t) = int (value_size ?t)"
    using sz t by (cases ?t) (auto simp: sizes_ok_def value_size_def)
  obtain sbufs' where s': "ioc_mblk_invalidate b (int a) (int a + int (value_size ?t)) sbufs = Some sbufs'"
    "mblk_wf m (mblk\<lparr>mb_buf := Some b\<rparr>) sbufs'"
    using block_update [OF wf, of a "stored env ?t (vv_value vv)" b ?sb] a by (auto simp: b_def)
  have w1: "wr (mb_content mblk) (int a) ?sb = Some ?b1" using a c(2) by (simp add: wr_in)
  have cp: "ioc_byte_ordered_copy (sn_small_endian env) ?b1 (int a + 1) ?u 0 (int (value_size ?t)) (word_of_int (int (value_size ?t))) = Some b"
  proof (cases "?t = OS_BOOLEAN")
    case True
    then show ?thesis by (simp add: value_size_def ioc_byte_ordered_copy_def b_def stored_def)
  next
    case False
    then show ?thesis
      using byte_ordered_copy_spec [OF swap_sz_member [of "sn_small_endian env" ?t], of "Suc a" ?b1 0 ?u] a c(2)
      by (simp add: value_size_def b_def stored_def add.commute)
  qed
  have in_range: "\<not> (int a < 0 \<or> int a + int (value_size ?t) \<ge> mb_nbytes mblk)" using a c(3) by simp
  have "move_value env flags sig vv (mblk, sbufs) = Some (vv\<lparr>vv_state_bits := ?sb\<rparr>, mblk\<lparr>mb_buf := Some b\<rparr>, sbufs')"
    unfolding move_value_def Let_def prod.case if_not_P [OF t] ts a(1) if_not_P [OF in_range] c(1) Option.bind.bind_lunit if_P [OF w]
      set_bits_def [symmetric] w1 cp s'(1) ..
  then show ?thesis using s'(2) by blast
qed

text \<open>Reading a signal whose bytes are those of a stored value:\<close>

lemma move_value_read:
  assumes wf: "mblk_wf m mblk sbufs" and sz: "sizes_ok env" and bits: "bits_ok env" and t: "si_type sig \<noteq> OS_STR" "si_type sig \<noteq> OS_FLOAT"
    and a: "si_addr sig = int a" "a + value_size (si_type sig) < m" and r: "\<not> has_flag flags IOC_SIGNAL_WRITE"
    and content: "mb_content mblk = splice (old[a := set_bits env sb v]) (Suc a) (stored env (si_type sig) v)" "length old = m"
  shows "move_value env flags sig vv (mblk, sbufs) =
    Some (\<lparr>vv_state_bits = read_state_bits env flags mblk (set_bits env sb v), vv_value = kept_value env (si_type sig) v\<rparr>, mblk, sbufs)"
proof -
  let ?t = "si_type sig" and ?sb = "read_state_bits env flags mblk (set_bits env sb v)"
  let ?z = "swap_sz (sn_small_endian env) (word_of_int (int (member_size ?t)))" and ?u = "union_of_value env ?t v"
  note c = mblk_wf_content [OF wf]
  have ts: "(if ?t = OS_BOOLEAN then 0 else sn_type_size env ?t) = int (value_size ?t)"
    using sz t by (cases ?t) (auto simp: sizes_ok_def value_size_def)
  have rd1: "rd (mb_content mblk) (int a) = Some (set_bits env sb v)"
    using a content by (simp add: nth_splice rd_in)
  have in_range: "\<not> (int a < 0 \<or> int a + int (value_size ?t) \<ge> mb_nbytes mblk)" using a c(3) by simp
  show ?thesis
  proof (cases "?t = OS_BOOLEAN")
    case True
    have "?sb AND sn_boolean env = set_bits env sb v AND sn_boolean env"
    proof (rule bit_word_eqI)
      fix i
      have "bit (sn_boolean env) i \<Longrightarrow> \<not> bit (sn_connected env) i" using bits by (metis bit_0_eq bit_and_iff bits_ok_def bot_apply bot_bool_def)
      then show "bit (?sb AND sn_boolean env) i = bit (set_bits env sb v AND sn_boolean env) i" if "i < LENGTH(8)"
        using that by (auto simp: read_state_bits_def bit_simps)
    qed
    moreover have "(set_bits env sb v AND sn_boolean env \<noteq> 0) = (v \<noteq> 0)"
    proof (cases "v = 0")
      case True
      then show ?thesis by (simp add: set_bits_def and.assoc)
    next
      case False
      have "(sb OR sn_boolean env) AND sn_boolean env = sn_boolean env" by (rule bit_word_eqI) (auto simp: bit_simps)
      then show ?thesis using bits False by (simp add: set_bits_def bits_ok_def)
    qed
    ultimately have val: "(?sb AND sn_boolean env \<noteq> 0) = (v \<noteq> 0)" by simp
    have in0: "\<not> (int a < 0 \<or> int a + 0 \<ge> mb_nbytes mblk)" using in_range by simp
    show ?thesis
      unfolding move_value_def Let_def prod.case if_not_P [OF t(1)] if_P [OF True] a(1) if_not_P [OF in0] c(1) Option.bind.bind_lunit
        if_not_P [OF r] rd1 val
      by (simp add: kept_value_def True)
  next
    case False
    have vs: "value_size ?t = member_size ?t" using False by (simp add: value_size_def)
    have st: "stored env ?t v = swap_groups ?z ?u" using False by (simp add: stored_def)
    have seg: "take (member_size ?t) (drop (Suc a) (mb_content mblk)) = swap_groups ?z ?u"
    proof -
      have "take (length (stored env ?t v)) (drop (Suc a) (mb_content mblk)) = stored env ?t v"
        unfolding content(1) by (rule take_drop_splice) (use a content(2) in simp)
      then show ?thesis unfolding length_stored vs unfolding st .
    qed
    have inv: "swap_groups ?z (swap_groups ?z ?u) = ?u"
      using swap_sz_member [of "sn_small_endian env" ?t] by (intro swap_groups_invol) simp_all
    have m8: "member_size ?t \<le> 8" using member_size_cases [of ?t] by auto
    have cp: "ioc_byte_ordered_copy (sn_small_endian env) (sn_union env) 0 (mb_content mblk) (int a + 1) (int (member_size ?t))
        (word_of_int (int (member_size ?t))) = Some (?u @ drop (member_size ?t) (sn_union env))"
    proof -
      have "ioc_byte_ordered_copy (sn_small_endian env) (sn_union env) (int 0) (mb_content mblk) (int (Suc a)) (int (member_size ?t))
          (word_of_int (int (member_size ?t))) = Some (splice (sn_union env) 0 ?u)"
        using byte_ordered_copy_spec [OF swap_sz_member, of 0 ?t "sn_union env" "Suc a" "mb_content mblk" "sn_small_endian env", unfolded seg inv]
          m8 sz a c(2) vs by (simp only: sizes_ok_def)
      then show ?thesis by (simp add: splice_def add.commute)
    qed
    have tsz: "sn_type_size env ?t = int (member_size ?t)" using ts False vs by simp
    show ?thesis
      unfolding move_value_def Let_def prod.case if_not_P [OF t(1)] if_not_P [OF False] tsz a(1) if_not_P [OF in_range [unfolded vs]] c(1)
        Option.bind.bind_lunit if_not_P [OF r] rd1 cp
      using False t(2) by (simp add: kept_value_def value_of_union)
  qed
qed

text \<open>
  \<^bold>\<open>C38\<close> Setting and getting a signal: for every integer type and booleans, and on processors of either byte order,
  \<open>ioc_get_ext\<close> gives what the type of the signal can hold of the value that \<open>ioc_set_ext\<close> was given, with the state bits (without
  the connected bit when the block is not received and this is not overridden). Only the bytes of the signal change, and every
  source buffer of the block knows of them.
\<close>

theorem signal_set_get:
  assumes blk: "si_handle sig = Some h" "blks h = Some (mblk, sbufs)" and wf: "mblk_wf m mblk sbufs"
    and env: "sizes_ok env" "bits_ok env" and t: "si_type sig \<notin> {OS_STR, OS_FLOAT, OS_DOUBLE}"
    and a: "si_addr sig = int a" "a + value_size (si_type sig) < m" and r: "\<not> has_flag flags IOC_SIGNAL_WRITE"
  shows "\<exists>mblk' sbufs'. ioc_set_ext env sig v bits blks =
      Some (set_bits env (ucast (bits AND NOT IOC_SIGNAL_NO_THREAD_SYNC)) v, blks(h := Some (mblk', sbufs'))) \<and>
    mblk_wf m mblk' sbufs' \<and>
    ioc_get_ext env sig flags (blks(h := Some (mblk', sbufs'))) =
      Some (kept_value env (si_type sig) v, read_state_bits env flags mblk (set_bits env (ucast (bits AND NOT IOC_SIGNAL_NO_THREAD_SYNC)) v)) \<and>
    (\<forall>i < m. i < a \<or> a + value_size (si_type sig) < i \<longrightarrow> mb_content mblk' ! i = mb_content mblk ! i)"
proof -
  let ?t = "si_type sig" and ?fl = "IOC_SIGNAL_WRITE OR bits AND IOC_SIGNAL_NO_THREAD_SYNC"
  define vv where "vv = \<lparr>vv_state_bits = ucast (bits AND NOT IOC_SIGNAL_NO_THREAD_SYNC), vv_value = v\<rparr>"
  define b where "b = splice ((mb_content mblk)[a := set_bits env (vv_state_bits vv) (vv_value vv)]) (Suc a) (stored env ?t (vv_value vv))"
  have str: "?t \<noteq> OS_STR" and fl: "\<not> is_float ?t" "?t \<noteq> OS_FLOAT" using t by (auto simp: is_float_def)
  have w: "has_flag ?fl IOC_SIGNAL_WRITE" by (simp add: has_flag_def signal_flag_defs bit.conj_disj_distrib2 and.assoc)
  obtain sbufs' where mv: "move_value env ?fl sig vv (mblk, sbufs) =
      Some (vv\<lparr>vv_state_bits := set_bits env (vv_state_bits vv) (vv_value vv)\<rparr>, mblk\<lparr>mb_buf := Some b\<rparr>, sbufs')"
    and wf': "mblk_wf m (mblk\<lparr>mb_buf := Some b\<rparr>) sbufs'"
    using move_value_write [OF wf env(1) str a w b_def] by blast
  let ?blks = "blks(h := Some (mblk\<lparr>mb_buf := Some b\<rparr>, sbufs'))"
  have set: "ioc_set_ext env sig v bits blks = Some (set_bits env (ucast (bits AND NOT IOC_SIGNAL_NO_THREAD_SYNC)) v, ?blks)"
    unfolding ioc_set_ext_def ioc_move_def if_P [OF w] if_not_P [OF fl(1)]
    using mv by (simp add: blk vv_def)
  have "mb_content (mblk\<lparr>mb_buf := Some b\<rparr>) = splice ((mb_content mblk)[a := set_bits env (ucast (bits AND NOT IOC_SIGNAL_NO_THREAD_SYNC)) v]) (Suc a) (stored env ?t v)"
    by (simp add: mb_content_def b_def vv_def)
  from move_value_read [OF wf' env str fl(2) a r this mblk_wf_content(2) [OF wf]]
  have rd: "move_value env flags sig x (mblk\<lparr>mb_buf := Some b\<rparr>, sbufs') =
      Some (\<lparr>vv_state_bits = read_state_bits env flags mblk (set_bits env (ucast (bits AND NOT IOC_SIGNAL_NO_THREAD_SYNC)) v), vv_value = kept_value env ?t v\<rparr>,
        mblk\<lparr>mb_buf := Some b\<rparr>, sbufs')" for x
    by (simp add: read_state_bits_def)
  have get: "ioc_get_ext env sig flags ?blks = Some (kept_value env ?t v, read_state_bits env flags mblk (set_bits env (ucast (bits AND NOT IOC_SIGNAL_NO_THREAD_SYNC)) v))"
    unfolding ioc_get_ext_def ioc_move_def if_not_P [OF r] if_not_P [OF fl(1)] using rd by (simp add: blk)
  have "\<forall>i < m. i < a \<or> a + value_size ?t < i \<longrightarrow> mb_content (mblk\<lparr>mb_buf := Some b\<rparr>) ! i = mb_content mblk ! i"
    using a mblk_wf_content(2) [OF wf] by (auto simp: mb_content_def b_def nth_splice)
  then show ?thesis using set get wf' by blast
qed

section \<open>Arrays of booleans\<close>

lemma pack_byte_spec:
  assumes "b + c \<le> length arr" and "i + c \<le> 8"
  shows "\<exists>u'. pack_byte arr (int b) i c u = Some u' \<and>
    (\<forall>j < 8. bit u' j \<longleftrightarrow> bit u j \<or> (i \<le> j \<and> j < i + c \<and> arr ! (b + (j - i)) \<noteq> 0))"
  using assms
proof (induction c arbitrary: b i u)
  case 0
  then show ?case by auto
next
  case (Suc c)
  let ?u = "if arr ! b \<noteq> 0 then u OR push_bit i 1 else u"
  have "Suc b + c \<le> length arr" "Suc i + c \<le> 8" using Suc.prems by auto
  from Suc.IH [OF this, of ?u] obtain u' where u': "pack_byte arr (int (Suc b)) (Suc i) c ?u = Some u'"
    "\<forall>j < 8. bit u' j \<longleftrightarrow> bit ?u j \<or> (Suc i \<le> j \<and> j < Suc i + c \<and> arr ! (Suc b + (j - Suc i)) \<noteq> 0)" by blast
  have "bit u' j \<longleftrightarrow> bit u j \<or> (i \<le> j \<and> j < i + Suc c \<and> arr ! (b + (j - i)) \<noteq> 0)" if "j < 8" for j
  proof (cases "j = i")
    case True
    then show ?thesis using u'(2) that by (auto simp: bit_simps)
  next
    case False
    then have "i \<le> j \<longleftrightarrow> Suc i \<le> j" "Suc i \<le> j \<Longrightarrow> Suc b + (j - Suc i) = b + (j - i)" by auto
    then show ?thesis using u'(2) that False by (auto simp: bit_simps)
  qed
  moreover have "pack_byte arr (int b) i (Suc c) u = Some u'"
    using u'(1) Suc.prems by (simp add: add.commute split del: if_split)
  ultimately show ?case by blast
qed

lemma eighth: "i < 8 * q + 8 \<Longrightarrow> 8 * q \<le> i \<Longrightarrow> i div 8 = q" for i q :: nat
  by simp

text \<open>Bit number \<open>i\<close> of the packed array is in byte \<open>i div 8\<close>.\<close>

lemma pack_bits_spec:
  assumes "b + nn \<le> length arr" and "p + (nn + 7) div 8 \<le> length buf"
  shows "\<exists>buf'. pack_bits arr (int b) buf (int p) nn = Some buf' \<and> length buf' = length buf \<and>
    (\<forall>q < length buf. q < p \<or> p + (nn + 7) div 8 \<le> q \<longrightarrow> buf' ! q = buf ! q) \<and>
    (\<forall>i < nn. bit (buf' ! (p + i div 8)) (i mod 8) \<longleftrightarrow> arr ! (b + i) \<noteq> 0)"
  using assms
proof (induction nn arbitrary: b buf p rule: less_induct)
  case (less nn)
  show ?case
  proof (cases "nn = 0")
    case True
    then show ?thesis by (simp add: pack_bits.simps)
  next
    case False
    define c where "c = min 8 nn"
    have "b + c \<le> length arr" using less.prems by (simp add: c_def)
    then obtain u where u: "pack_byte arr (int b) 0 c 0 = Some u" "\<forall>j < 8. bit u j \<longleftrightarrow> j < c \<and> arr ! (b + j) \<noteq> 0"
      using pack_byte_spec [of b c arr 0 0] by (auto simp: c_def)
    have p: "p < length buf" using less.prems False by auto
    have step: "(nn + 7) div 8 = Suc ((nn - 8 + 7) div 8)" using False by (cases "nn \<le> 8") auto
    have fits: "Suc p + (nn - 8 + 7) div 8 \<le> length (buf[p := u])" using less.prems(2) step by simp
    have rest: "\<exists>buf'. pack_bits arr (int (b + 8)) (buf[p := u]) (int (Suc p)) (nn - 8) = Some buf' \<and> length buf' = length buf \<and>
        (\<forall>q < length buf. q < Suc p \<or> Suc p + (nn - 8 + 7) div 8 \<le> q \<longrightarrow> buf' ! q = buf[p := u] ! q) \<and>
        (\<forall>i < nn - 8. bit (buf' ! (Suc p + i div 8)) (i mod 8) \<longleftrightarrow> arr ! (b + 8 + i) \<noteq> 0)"
    proof (cases "nn \<le> 8")
      case True
      then show ?thesis by (simp add: pack_bits.simps)
    next
      case False
      then show ?thesis using less.IH [of "nn - 8" "b + 8" "Suc p" "buf[p := u]"] less.prems(1) fits by simp
    qed
    then obtain buf' where r: "pack_bits arr (int (b + 8)) (buf[p := u]) (int (Suc p)) (nn - 8) = Some buf'" "length buf' = length buf"
      and same: "\<forall>q < length buf. q < Suc p \<or> Suc p + (nn - 8 + 7) div 8 \<le> q \<longrightarrow> buf' ! q = buf[p := u] ! q"
      and bits: "\<forall>i < nn - 8. bit (buf' ! (Suc p + i div 8)) (i mod 8) \<longleftrightarrow> arr ! (b + 8 + i) \<noteq> 0" by blast
    have "pack_bits arr (int b) buf (int p) nn = Some buf'"
      using False u(1) r(1) p by (subst pack_bits.simps) (simp add: c_def [symmetric] wr_in add.commute)
    moreover have "\<forall>q < length buf. q < p \<or> p + (nn + 7) div 8 \<le> q \<longrightarrow> buf' ! q = buf ! q"
      using same step by auto
    moreover have "bit (buf' ! (p + i div 8)) (i mod 8) \<longleftrightarrow> arr ! (b + i) \<noteq> 0" if i: "i < nn" for i
    proof (cases "i < 8")
      case True
      then show ?thesis using same p u(2) i by (auto simp: c_def)
    next
      case False
      then have "i div 8 = Suc ((i - 8) div 8)" "i mod 8 = (i - 8) mod 8" "b + i = b + 8 + (i - 8)" "i - 8 < nn - 8"
        using i by (auto simp: le_div_geq le_mod_geq)
      then show ?thesis using bits by (metis add_Suc add_Suc_right)
    qed
    ultimately show ?thesis using r(2) by blast
  qed
qed

lemma unpack_byte_spec:
  assumes "b + c \<le> length arr"
  shows "\<exists>arr'. unpack_byte u i arr (int b) c = Some arr' \<and> length arr' = length arr \<and>
    (\<forall>q < length arr. arr' ! q = (if b \<le> q \<and> q < b + c then if bit u (i + (q - b)) then 1 else 0 else arr ! q))"
  using assms
proof (induction c arbitrary: b i arr)
  case 0
  then show ?case by auto
next
  case (Suc c)
  let ?v = "if bit u i then 1 else 0 :: byte"
  have "Suc b + c \<le> length (arr[b := ?v])" using Suc.prems by simp
  from Suc.IH [OF this, of "Suc i"] obtain arr' where r: "unpack_byte u (Suc i) (arr[b := ?v]) (int (Suc b)) c = Some arr'"
    "length arr' = length arr"
    "\<forall>q < length arr. arr' ! q = (if Suc b \<le> q \<and> q < Suc b + c then if bit u (Suc i + (q - Suc b)) then 1 else 0 else arr[b := ?v] ! q)"
    by auto
  have "arr' ! q = (if b \<le> q \<and> q < b + Suc c then if bit u (i + (q - b)) then 1 else 0 else arr ! q)" if q: "q < length arr" for q
  proof (cases "q = b")
    case True
    then show ?thesis using r(3) q by simp
  next
    case False
    then have "Suc b \<le> q \<longleftrightarrow> b \<le> q" "b \<le> q \<Longrightarrow> Suc i + (q - Suc b) = i + (q - b)" by auto
    then show ?thesis using r(3) q False by auto
  qed
  moreover have "unpack_byte u i arr (int b) (Suc c) = Some arr'"
    using r(1) Suc.prems by (simp add: wr_in add.commute split del: if_split)
  ultimately show ?case using r(2) by blast
qed

lemma unpack_bits_spec:
  assumes "b + n \<le> length arr" and "p + (n + 7) div 8 \<le> length buf"
  shows "\<exists>arr'. unpack_bits buf (int p) arr (int b) n = Some arr' \<and> length arr' = length arr \<and>
    (\<forall>q < length arr. arr' ! q =
       (if b \<le> q \<and> q < b + n then if bit (buf ! (p + (q - b) div 8)) ((q - b) mod 8) then 1 else 0 else arr ! q))"
  using assms
proof (induction n arbitrary: b arr p rule: less_induct)
  case (less n)
  show ?case
  proof (cases "n = 0")
    case True
    then show ?thesis by (auto simp: unpack_bits.simps)
  next
    case False
    define c where "c = min 8 n"
    have bc: "b + c \<le> length arr" using less.prems by (simp add: c_def)
    obtain arr1 where a1: "unpack_byte (buf ! p) 0 arr (int b) c = Some arr1" "length arr1 = length arr"
      "\<forall>q < length arr. arr1 ! q = (if b \<le> q \<and> q < b + c then if bit (buf ! p) (q - b) then 1 else 0 else arr ! q)"
      using unpack_byte_spec [OF bc, of "buf ! p" 0] by auto
    have p: "p < length buf" using less.prems False by auto
    have step: "(n + 7) div 8 = Suc ((n - 8 + 7) div 8)" using False by (cases "n \<le> 8") auto
    have rest: "\<exists>arr'. unpack_bits buf (int (Suc p)) arr1 (int (b + 8)) (n - 8) = Some arr' \<and> length arr' = length arr \<and>
        (\<forall>q < length arr. arr' ! q =
          (if b + 8 \<le> q \<and> q < b + 8 + (n - 8) then if bit (buf ! (Suc p + (q - (b + 8)) div 8)) ((q - (b + 8)) mod 8) then 1 else 0 else arr1 ! q))"
    proof (cases "n \<le> 8")
      case True
      then show ?thesis using a1(2) by (simp add: unpack_bits.simps) (auto simp: a1(3))
    next
      case False
      then show ?thesis using less.IH [of "n - 8" "b + 8" arr1 "Suc p"] less.prems step a1(2) by simp
    qed
    then obtain arr' where r: "unpack_bits buf (int (Suc p)) arr1 (int (b + 8)) (n - 8) = Some arr'" "length arr' = length arr"
      "\<forall>q < length arr. arr' ! q =
          (if b + 8 \<le> q \<and> q < b + 8 + (n - 8) then if bit (buf ! (Suc p + (q - (b + 8)) div 8)) ((q - (b + 8)) mod 8) then 1 else 0 else arr1 ! q)"
      by blast
    have "unpack_bits buf (int p) arr (int b) n = Some arr'"
      using False a1(1) r(1) p by (subst unpack_bits.simps) (simp add: c_def [symmetric] add.commute)
    moreover have "arr' ! q =
       (if b \<le> q \<and> q < b + n then if bit (buf ! (p + (q - b) div 8)) ((q - b) mod 8) then 1 else 0 else arr ! q)" if q: "q < length arr" for q
    proof (cases "b + 8 \<le> q \<and> q < b + n")
      case True
      then have "(q - b) div 8 = Suc ((q - (b + 8)) div 8)" "(q - b) mod 8 = (q - (b + 8)) mod 8"
        by (auto simp: le_div_geq le_mod_geq)
      then show ?thesis using r(3) q True by auto
    next
      case False
      then show ?thesis using r(3) a1(3) q by (auto simp: c_def)
    qed
    ultimately show ?thesis using r(2) by blast
  qed
qed

lemma packed_update:
  assumes wf: "mblk_wf m mblk sbufs" and a: "a + k < m" and len: "length buf' = m"
    and same: "\<forall>q < m. q < a \<or> a + k < q \<longrightarrow> buf' ! q = mb_content mblk ! q"
  obtains sbufs' where "ioc_mblk_invalidate buf' (int a) (int a + int k) sbufs = Some sbufs'" and "mblk_wf m (mblk\<lparr>mb_buf := Some buf'\<rparr>) sbufs'"
proof -
  note c = mblk_wf_content [OF wf]
  have out: "\<forall>i < m. int i < int a \<or> int a + int k < int i \<longrightarrow> buf' ! i = mb_content mblk ! i" using same by auto
  have r: "0 \<le> int a" "int a \<le> int a + int k" "int a + int k < int m" using a by auto
  obtain sbufs' where s': "ioc_mblk_invalidate buf' (int a) (int a + int k) sbufs = Some sbufs'"
    "\<forall>sbuf \<in> set sbufs'. sbuf_wf m sbuf \<and> covers buf' sbuf"
    using mblk_invalidate_spec [OF c(4,2) len r out] by blast
  then show thesis using that [of sbufs'] wf len by (auto simp: mblk_wf_def)
qed

text \<open>
  \<^bold>\<open>C39\<close> An array of booleans written with \<open>ioc_move_array\<close> is read back as the same truth values, whatever was in the array
  before; only the state byte and the bytes with the packed bits change, and every source buffer knows of them.
\<close>

theorem boolean_array_roundtrip:
  assumes blk: "si_handle sig = Some h" "blks h = Some (mblk, sbufs)" and wf: "mblk_wf m mblk sbufs" and env: "sizes_ok env"
    and t: "si_type sig = OS_BOOLEAN" and a: "si_addr sig = int a" "a + (length arr + 7) div 8 < m"
    and n: "1 < length arr" "int (length arr) \<le> si_n sig" "length arr \<le> length dest"
    and f: "has_flag flags IOC_SIGNAL_WRITE" "\<not> has_flag flags' IOC_SIGNAL_WRITE"
  shows "\<exists>sb mblk' sbufs'. ioc_move_array env sig 0 arr (int (length arr)) bits flags blks = Some (sb, arr, blks(h := Some (mblk', sbufs'))) \<and>
    mblk_wf m mblk' sbufs' \<and>
    ioc_move_array env sig 0 dest (int (length arr)) bits' flags' (blks(h := Some (mblk', sbufs'))) =
      Some (read_state_bits env flags' mblk sb, map (\<lambda>v. if v \<noteq> 0 then 1 else 0) arr @ drop (length arr) dest, blks(h := Some (mblk', sbufs'))) \<and>
    (\<forall>i < m. i < a \<or> a + (length arr + 7) div 8 < i \<longrightarrow> mb_content mblk' ! i = mb_content mblk ! i)"
proof -
  let ?n = "length arr" and ?k = "(length arr + 7) div 8"
  define sb where "sb = (if arr ! 0 \<noteq> 0 then bits OR sn_boolean env else bits AND NOT (sn_boolean env))"
  note c = mblk_wf_content [OF wf]
  have ts: "sn_type_size env OS_BOOLEAN = 1" using env by (simp add: sizes_ok_def member_size_def)
  have div: "(int ?n + 7) div 8 = int ?k" by simp
  have w1: "wr (mb_content mblk) (int a) sb = Some ((mb_content mblk)[a := sb])" using a c(2) by (simp add: wr_in)
  have "0 + ?n \<le> length arr" "Suc a + ?k \<le> length ((mb_content mblk)[a := sb])" using a c(2) by simp_all
  from pack_bits_spec [OF this] obtain buf' where pk: "pack_bits arr 0 ((mb_content mblk)[a := sb]) (int a + 1) ?n = Some buf'"
    and len: "length buf' = m" and same: "\<forall>q < m. q < Suc a \<or> Suc a + ?k \<le> q \<longrightarrow> buf' ! q = (mb_content mblk)[a := sb] ! q"
    and bits: "\<forall>i < ?n. bit (buf' ! (Suc a + i div 8)) (i mod 8) \<longleftrightarrow> arr ! i \<noteq> 0"
    using c(2) by (auto simp: add.commute)
  have out: "\<forall>q < m. q < a \<or> a + ?k < q \<longrightarrow> buf' ! q = mb_content mblk ! q" using same by auto
  obtain sbufs' where s': "ioc_mblk_invalidate buf' (int a) (int a + int ?k) sbufs = Some sbufs'"
    and wf': "mblk_wf m (mblk\<lparr>mb_buf := Some buf'\<rparr>) sbufs'"
    by (rule packed_update [OF wf a(2) len out])
  let ?mblk = "mblk\<lparr>mb_buf := Some buf'\<rparr>" and ?blks = "blks(h := Some (mblk\<lparr>mb_buf := Some buf'\<rparr>, sbufs'))"
  have in_range: "\<not> (int a < 0 \<or> int a + (0 + (if int ?n = 1 then 0 else (int ?n + 7) div 8)) * 1 \<ge> int m)" using a(2) n(1) by simp
  have "rd arr 0 = Some (arr ! 0)" using n(1) by (cases arr) (simp_all add: rd_Cons)
  then have "write_array env sig 0 arr (int ?n) bits (mblk, sbufs) = Some (sb, ?mblk, sbufs')"
    using n(1) w1 pk s' by (simp add: write_array_def t a(1) c(1) sb_def [symmetric] div)
  then have wr: "ioc_move_array env sig 0 arr (int ?n) bits flags blks = Some (sb, arr, ?blks)"
    using in_range n(2) f(1) by (simp add: ioc_move_array_def blk t ts a(1) c(3))
  have "0 + ?n \<le> length dest" "Suc a + ?k \<le> length buf'" using n(3) a(2) len by simp_all
  from unpack_bits_spec [OF this] obtain dest' where up: "unpack_bits buf' (int a + 1) dest 0 ?n = Some dest'" "length dest' = length dest"
    and d: "\<forall>q < length dest. dest' ! q = (if q < ?n then if bit (buf' ! (Suc a + q div 8)) (q mod 8) then 1 else 0 else dest ! q)"
    by (auto simp: add.commute)
  have dest': "dest' = map (\<lambda>v. if v \<noteq> 0 then 1 else 0) arr @ drop ?n dest"
    by (rule nth_equalityI) (use up(2) d bits n(3) in \<open>auto simp: nth_append\<close>)
  have "buf' ! a = sb" using same a(2) c(2) by auto
  then have "rd buf' (int a) = Some sb" using len a(2) by (simp add: rd_in)
  then have "read_array env sig 0 dest (int ?n) flags' ?mblk = Some (read_state_bits env flags' mblk sb, dest')"
    using n(1) up(1) by (simp add: read_array_def t a(1) read_state_bits_def)
  then have "ioc_move_array env sig 0 dest (int ?n) bits' flags' ?blks = Some (read_state_bits env flags' mblk sb, dest', ?blks)"
    using in_range n(2) f(2) by (simp add: ioc_move_array_def t ts a(1) c(3) blk(1))
  moreover have "\<forall>q < m. q < a \<or> a + ?k < q \<longrightarrow> mb_content ?mblk ! q = mb_content mblk ! q"
    using out by (simp add: mb_content_def)
  ultimately show ?thesis using wr wf' unfolding dest' by blast
qed

section \<open>Samples\<close>

definition signal_env_sample :: "bool \<Rightarrow> signal_env" where
  "signal_env_sample small_endian = \<lparr>sn_small_endian = small_endian, sn_char_signed = True, sn_type_size = (\<lambda>t. int (member_size t)),
     sn_connected = 2, sn_boolean = 1, sn_union = replicate 8 0, sn_to_float = (\<lambda>d. 0), sn_of_float = (\<lambda>f. 0), sn_long_to_double = (\<lambda>v. v),
     sn_round_long = (\<lambda>d. d), sn_nbuf = replicate 8 0, sn_int_to_str = (\<lambda>v str n. str), sn_str_to_int = (\<lambda>str. 0),
     sn_double_to_str = (\<lambda>d str n. str), sn_str_to_double = (\<lambda>str. 0)\<rparr>"

definition signal_sample :: "osalTypeId \<Rightarrow> int \<Rightarrow> iocSignal" where
  "signal_sample t n = \<lparr>si_addr = 1, si_n = n, si_type = t, si_handle = Some 5\<rparr>"

definition signal_blocks_sample :: signal_blocks where
  "signal_blocks_sample = [5 \<mapsto> (mblk_sample [1, 2, 3, 4, 5, 6, 7], [])]"

lemma signal_sample_ok:
  "si_handle (signal_sample t n) = Some 5" "signal_blocks_sample 5 = Some (mblk_sample [1, 2, 3, 4, 5, 6, 7], [])"
  "mblk_wf 7 (mblk_sample [1, 2, 3, 4, 5, 6, 7]) []" "sizes_ok (signal_env_sample se)" "bits_ok (signal_env_sample se)"
  "si_type (signal_sample t n) = t" "si_n (signal_sample t n) = n" "si_addr (signal_sample t n) = int 1"
  by (simp_all add: signal_sample_def signal_blocks_sample_def mblk_wf_def mblk_sample_def sizes_ok_def bits_ok_def signal_env_sample_def)

text \<open>A negative number in a signal of two bytes, on a big endian processor.\<close>

lemma signal_set_get_witness:
  "\<exists>mblk' sbufs'. ioc_set_ext (signal_env_sample False) (signal_sample OS_SHORT 1) (- 2) 2 signal_blocks_sample =
      Some (3, signal_blocks_sample(5 := Some (mblk', sbufs'))) \<and>
    ioc_get_ext (signal_env_sample False) (signal_sample OS_SHORT 1) IOC_SIGNAL_NO_TBUF_CHECK (signal_blocks_sample(5 := Some (mblk', sbufs'))) =
      Some (- 2, 3)"
proof -
  have "1 + value_size (si_type (signal_sample OS_SHORT 1)) < 7" by (simp add: signal_sample_ok value_size_def member_size_def)
  moreover have "si_type (signal_sample OS_SHORT 1) \<notin> {OS_STR, OS_FLOAT, OS_DOUBLE}" by (simp add: signal_sample_ok)
  moreover have "\<not> has_flag IOC_SIGNAL_NO_TBUF_CHECK IOC_SIGNAL_WRITE" by (simp add: has_flag_def signal_flag_defs)
  ultimately obtain mblk' sbufs' where
    s: "ioc_set_ext (signal_env_sample False) (signal_sample OS_SHORT 1) (- 2) 2 signal_blocks_sample =
      Some (set_bits (signal_env_sample False) (ucast ((2 :: u16) AND NOT IOC_SIGNAL_NO_THREAD_SYNC)) (- 2), signal_blocks_sample(5 := Some (mblk', sbufs')))"
    and g: "ioc_get_ext (signal_env_sample False) (signal_sample OS_SHORT 1) IOC_SIGNAL_NO_TBUF_CHECK (signal_blocks_sample(5 := Some (mblk', sbufs'))) =
      Some (kept_value (signal_env_sample False) (si_type (signal_sample OS_SHORT 1)) (- 2),
        read_state_bits (signal_env_sample False) IOC_SIGNAL_NO_TBUF_CHECK (mblk_sample [1, 2, 3, 4, 5, 6, 7])
          (set_bits (signal_env_sample False) (ucast ((2 :: u16) AND NOT IOC_SIGNAL_NO_THREAD_SYNC)) (- 2)))"
    using signal_set_get [where sig = "signal_sample OS_SHORT 1" and blks = signal_blocks_sample and h = 5 and a = 1 and bits = 2 and v = "- 2"
      and env = "signal_env_sample False" and flags = IOC_SIGNAL_NO_TBUF_CHECK,
      OF signal_sample_ok(1,2) signal_sample_ok(3,4,5) _ signal_sample_ok(8)] by blast
  have "set_bits (signal_env_sample False) (ucast ((2 :: u16) AND NOT IOC_SIGNAL_NO_THREAD_SYNC)) (- 2) = 3" by code_simp
  moreover have "kept_value (signal_env_sample False) OS_SHORT (- 2) = - 2" by code_simp
  moreover have "read_state_bits (signal_env_sample False) IOC_SIGNAL_NO_TBUF_CHECK (mblk_sample [1, 2, 3, 4, 5, 6, 7]) 3 = 3" by code_simp
  ultimately show ?thesis using s g by (auto simp: signal_sample_ok)
qed

lemma boolean_array_roundtrip_witness:
  "\<exists>sb mblk' sbufs'. ioc_move_array (signal_env_sample True) (signal_sample OS_BOOLEAN 9) 0 [1, 0, 7, 0, 0, 1, 0, 0, 1] (int 9) 2 IOC_SIGNAL_WRITE
      signal_blocks_sample = Some (sb, [1, 0, 7, 0, 0, 1, 0, 0, 1], signal_blocks_sample(5 := Some (mblk', sbufs'))) \<and>
    fst (snd (the (ioc_move_array (signal_env_sample True) (signal_sample OS_BOOLEAN 9) 0 (replicate 10 3) (int 9) 0 0
      (signal_blocks_sample(5 := Some (mblk', sbufs')))))) = [1, 0, 1, 0, 0, 1, 0, 0, 1, 3]"
proof -
  let ?arr = "[1, 0, 7, 0, 0, 1, 0, 0, 1] :: byte list"
  have "1 + (length ?arr + 7) div 8 < 7" "1 < length ?arr" "int (length ?arr) \<le> si_n (signal_sample OS_BOOLEAN 9)" "length ?arr \<le> length (replicate 10 (3 :: byte))"
    "has_flag IOC_SIGNAL_WRITE IOC_SIGNAL_WRITE" "\<not> has_flag 0 IOC_SIGNAL_WRITE"
    by (simp_all add: signal_sample_ok has_flag_def signal_flag_defs)
  from boolean_array_roundtrip [where sig = "signal_sample OS_BOOLEAN 9" and blks = signal_blocks_sample and h = 5 and a = 1 and bits = 2 and bits' = 0
      and env = "signal_env_sample True", OF signal_sample_ok(1-4) signal_sample_ok(6) signal_sample_ok(8) this]
  obtain sb mblk' sbufs' where
    "ioc_move_array (signal_env_sample True) (signal_sample OS_BOOLEAN 9) 0 ?arr (int (length ?arr)) 2 IOC_SIGNAL_WRITE signal_blocks_sample =
      Some (sb, ?arr, signal_blocks_sample(5 := Some (mblk', sbufs')))"
    "ioc_move_array (signal_env_sample True) (signal_sample OS_BOOLEAN 9) 0 (replicate 10 3) (int (length ?arr)) 0 0 (signal_blocks_sample(5 := Some (mblk', sbufs'))) =
      Some (read_state_bits (signal_env_sample True) 0 (mblk_sample [1, 2, 3, 4, 5, 6, 7]) sb,
        map (\<lambda>v. if v \<noteq> 0 then 1 else 0) ?arr @ drop (length ?arr) (replicate 10 3), signal_blocks_sample(5 := Some (mblk', sbufs')))"
    by blast
  then show ?thesis by (intro exI [of _ sb] exI [of _ mblk'] exI [of _ sbufs']) simp
qed

text \<open>Reading a single boolean as an array loses the state bits: here the connected bit is set and not returned.\<close>

lemma single_boolean_loses_state_bits:
  "map_option fst (ioc_move_array (signal_env_sample True) (signal_sample OS_BOOLEAN 1) 0 [0] 1 0 IOC_SIGNAL_NO_TBUF_CHECK
     [5 \<mapsto> (mblk_sample [1, 3, 3, 4, 5, 6, 7], [])]) = Some 1"
  by code_simp

end
