(* ===== verification/Ioc_Handle.thy ===== *)
theory Ioc_Handle
  imports Ioc_Prelude
begin

text \<open>
  Memory block handles, \<open>code/ioc_handle.c\<close> and \<open>.h\<close>. The handles of a memory block, the one inside the block and
  those of applications, form a ring of linked structures; when the block is deleted, the ring is taken apart and every
  handle forgets the block, so that none is left dangling. Handle structures are in a store by their address, a number;
  \<open>own m\<close> is the address of the handle inside memory block \<open>m\<close>, \<open>mflags m\<close> the flags of the block. \<open>None\<close> as a result: the code
  follows a pointer to memory that holds no handle, or the loop does not end.
\<close>

section \<open>State and operations\<close>

record iocHandle =
  hn_flags :: u16
  hn_root :: "nat option"
  hn_mblk :: "nat option"
  hn_next :: nat
  hn_prev :: nat

type_synonym handles = "nat \<Rightarrow> iocHandle option"

definition ioc_setup_handle :: "(nat \<Rightarrow> nat) \<Rightarrow> (nat \<Rightarrow> u16) \<Rightarrow> handles \<Rightarrow> nat \<Rightarrow> nat option \<Rightarrow> nat option \<Rightarrow> handles option" where
  "ioc_setup_handle own mflags hp h root mblk =
    (case mblk of
       None \<Rightarrow> Some (hp(h \<mapsto> \<lparr>hn_flags = 0, hn_root = root, hn_mblk = None, hn_next = h, hn_prev = h\<rparr>))
     | Some m \<Rightarrow>
         if h = own m then Some (hp(h \<mapsto> \<lparr>hn_flags = mflags m, hn_root = root, hn_mblk = Some m, hn_next = h, hn_prev = h\<rparr>))
         else do {
           ow \<leftarrow> hp (own m);
           let hp1 = hp(h \<mapsto> \<lparr>hn_flags = mflags m, hn_root = root, hn_mblk = Some m, hn_next = own m, hn_prev = hn_prev ow\<rparr>);
           let hp2 = hp1(own m \<mapsto> ow\<lparr>hn_prev := h\<rparr>);
           p \<leftarrow> hp2 (hn_prev ow);
           Some (hp2(hn_prev ow \<mapsto> p\<lparr>hn_next := h\<rparr>)) })"

definition ioc_release_handle :: "handles \<Rightarrow> nat \<Rightarrow> handles option" where
  "ioc_release_handle hp h = do {
     x \<leftarrow> hp h;
     if hn_root x = None then Some hp
     else do {
       hp1 \<leftarrow> (if hn_next x \<noteq> h then do {
           p \<leftarrow> hp (hn_prev x);
           let hp1 = hp(hn_prev x \<mapsto> p\<lparr>hn_next := hn_next x\<rparr>);
           n \<leftarrow> hp1 (hn_next x);
           let hp2 = hp1(hn_next x \<mapsto> n\<lparr>hn_prev := hn_prev x\<rparr>);
           y \<leftarrow> hp2 h;
           Some (hp2(h \<mapsto> y\<lparr>hn_next := h, hn_prev := h\<rparr>)) }
         else Some hp);
       z \<leftarrow> hp1 h;
       Some (hp1(h \<mapsto> z\<lparr>hn_mblk := None\<rparr>)) } }"

definition ioc_duplicate_handle :: "(nat \<Rightarrow> nat) \<Rightarrow> (nat \<Rightarrow> u16) \<Rightarrow> handles \<Rightarrow> nat \<Rightarrow> nat \<Rightarrow> handles option" where
  "ioc_duplicate_handle own mflags hp h source_h = do {
     s \<leftarrow> hp source_h;
     (case hn_root s of None \<Rightarrow> Some hp | Some r \<Rightarrow> ioc_setup_handle own mflags hp h (Some r) (hn_mblk s)) }"

partial_function (option) terminate_loop :: "handles \<Rightarrow> nat \<Rightarrow> nat \<Rightarrow> handles option" where
  "terminate_loop hp start h =
     Option.bind (hp h) (\<lambda>x. if hn_next x = start then Some (hp(h \<mapsto> x\<lparr>hn_next := h, hn_prev := h, hn_mblk := None\<rparr>))
       else terminate_loop (hp(h \<mapsto> x\<lparr>hn_next := h, hn_prev := h, hn_mblk := None\<rparr>)) start (hn_next x))"

definition ioc_terminate_handles :: "handles \<Rightarrow> nat \<Rightarrow> handles option" where
  "ioc_terminate_handles hp h = terminate_loop hp h h"

text \<open>The memory block and what \<open>*proot\<close> is set to.\<close>

definition ioc_handle_lock_to_mblk :: "handles \<Rightarrow> nat \<Rightarrow> (nat option \<times> nat option) option" where
  "ioc_handle_lock_to_mblk hp h = do {
     x \<leftarrow> hp h;
     if hn_root x = None then Some (None, None)
     else if hn_mblk x = None then Some (None, None)
     else Some (hn_mblk x, hn_root x) }"

section \<open>Rings\<close>

definition nxt :: "handles \<Rightarrow> nat \<Rightarrow> nat option" where
  "nxt hp h = map_option hn_next (hp h)"

definition prv :: "handles \<Rightarrow> nat \<Rightarrow> nat option" where
  "prv hp h = map_option hn_prev (hp h)"

text \<open>Neighbours in the list point to each other.\<close>

fun linked :: "handles \<Rightarrow> nat list \<Rightarrow> bool" where
  "linked hp (x # y # zs) \<longleftrightarrow> nxt hp x = Some y \<and> prv hp y = Some x \<and> linked hp (y # zs)"
| "linked hp _ \<longleftrightarrow> True"

definition ring :: "handles \<Rightarrow> nat list \<Rightarrow> bool" where
  "ring hp xs \<longleftrightarrow> xs \<noteq> [] \<and> distinct xs \<and> linked hp (xs @ [hd xs])"

lemma linked_append: "linked hp (xs @ y # zs) \<longleftrightarrow> linked hp (xs @ [y]) \<and> linked hp (y # zs)"
  by (induction xs rule: induct_list012) auto

lemma linked_cong:
  "(\<And>x. x \<in> set (butlast xs) \<Longrightarrow> nxt hp' x = nxt hp x) \<Longrightarrow> (\<And>x. x \<in> set (tl xs) \<Longrightarrow> prv hp' x = prv hp x) \<Longrightarrow>
   linked hp' xs = linked hp xs"
  by (induction xs rule: induct_list012) auto

lemma linked_snoc: "linked hp (xs @ [x, y]) \<longleftrightarrow> linked hp (xs @ [x]) \<and> nxt hp x = Some y \<and> prv hp y = Some x"
  using linked_append [of hp xs x "[y]"] by simp

lemma ring_ends:
  assumes "ring hp (q # xs)"
  shows "nxt hp (last (q # xs)) = Some q \<and> prv hp q = Some (last (q # xs)) \<and> linked hp (q # xs)"
proof -
  have e: "q # xs = butlast (q # xs) @ [last (q # xs)]" by simp
  have "linked hp (butlast (q # xs) @ [last (q # xs), q])"
    using assms unfolding ring_def by (metis append.assoc append_Cons append_Nil e list.sel(1))
  then show ?thesis unfolding linked_snoc using e by simp
qed

text \<open>Adding a handle at the end of the ring:\<close>

lemma setup_ring:
  assumes ring: "ring hp (q # xs)" and own: "own m = q" and h: "h \<notin> set (q # xs)"
  obtains hp' where "ioc_setup_handle own mflags hp h root (Some m) = Some hp'" and "ring hp' (q # xs @ [h])"
    and "\<And>k. k \<notin> set (q # xs @ [h]) \<Longrightarrow> hp' k = hp k"
    and "map_option hn_mblk (hp' h) = Some (Some m)" "map_option hn_root (hp' h) = Some root"
    and "\<And>k. k \<in> set (q # xs) \<Longrightarrow> map_option hn_mblk (hp' k) = map_option hn_mblk (hp k) \<and> map_option hn_root (hp' k) = map_option hn_root (hp k)"
proof -
  define l where "l = last (q # xs)"
  define init where "init = butlast (q # xs)"
  have qx: "q # xs = init @ [l]" by (simp add: l_def init_def)
  have d: "distinct (init @ [l])" using ring unfolding ring_def qx by simp
  have li: "linked hp (init @ [l])" and lq: "nxt hp l = Some q" "prv hp q = Some l"
    using ring_ends [OF ring] unfolding qx [symmetric] by (simp_all add: l_def)
  have hl: "h \<noteq> q" "h \<noteq> l" "h \<notin> set init" "h \<notin> set xs" using h arg_cong [OF qx, of set] by auto
  obtain ow where ow: "hp q = Some ow" "hn_prev ow = l" using lq(2) by (auto simp: prv_def)
  obtain lh where lh: "hp l = Some lh" "hn_next lh = q" using lq(1) by (auto simp: nxt_def)
  define hx where "hx = \<lparr>hn_flags = mflags m, hn_root = root, hn_mblk = Some m, hn_next = q, hn_prev = l\<rparr>"
  define hp2 where "hp2 = hp(h \<mapsto> hx, q \<mapsto> ow\<lparr>hn_prev := h\<rparr>)"
  obtain p where p: "hp2 l = Some p" "hn_mblk p = hn_mblk lh" "hn_root p = hn_root lh" "hn_prev p = (if l = q then h else hn_prev lh)"
    using ow(1) lh(1) hl by (cases "l = q") (auto simp: hp2_def)
  define hp' where "hp' = hp2(l \<mapsto> p\<lparr>hn_next := h\<rparr>)"
  have res: "ioc_setup_handle own mflags hp h root (Some m) = Some hp'"
    unfolding ioc_setup_handle_def option.case Let_def own if_not_P [OF hl(1)] ow(1) Option.bind.bind_lunit ow(2) hx_def [symmetric]
      hp2_def [symmetric] p(1) hp'_def ..
  have n: "nxt hp' x = (if x = h then Some q else if x = l then Some h else nxt hp x)" for x
    using hl ow by (auto simp: nxt_def hp'_def hp2_def hx_def)
  have pr: "prv hp' x = (if x = h then Some l else if x = q then Some h else prv hp x)" for x
    using hl ow lh p by (auto simp: prv_def hp'_def hp2_def hx_def)
  have "hd (init @ [l]) = q" unfolding qx [symmetric] by simp
  then have "q \<notin> set (tl (init @ [l]))" using d by (metis Nil_is_append_conv distinct.simps(2) list.collapse not_Cons_self2)
  moreover have "set (tl (init @ [l])) \<subseteq> set (init @ [l])" by (meson list.set_sel(2) subsetI append_is_Nil_conv not_Cons_self2)
  ultimately have "linked hp' (init @ [l]) = linked hp (init @ [l])"
    by (intro linked_cong) (use d hl n pr in auto)
  then have "linked hp' (init @ [l])" using li by simp
  then have "linked hp' (init @ [l, h])" using n pr hl by (simp add: linked_snoc)
  then have "linked hp' (init @ [l, h, q])" using n pr hl linked_snoc [of hp' "init @ [l]" h q] by simp
  moreover have "(q # xs @ [h]) @ [q] = init @ [l, h, q]" using qx by (metis append.assoc append_Cons append_Nil)
  ultimately have "linked hp' ((q # xs @ [h]) @ [q])" by (simp only:)
  moreover have "distinct (q # xs @ [h])" using ring h by (auto simp: ring_def)
  ultimately have r: "ring hp' (q # xs @ [h])" by (simp add: ring_def)
  show thesis
  proof (rule that [OF res r])
    show "hp' k = hp k" if "k \<notin> set (q # xs @ [h])" for k
      using that qx by (auto simp: hp'_def hp2_def l_def)
    show "map_option hn_mblk (hp' h) = Some (Some m)" "map_option hn_root (hp' h) = Some root" using hl by (simp_all add: hp'_def hp2_def hx_def)
    show "map_option hn_mblk (hp' k) = map_option hn_mblk (hp k) \<and> map_option hn_root (hp' k) = map_option hn_root (hp k)" if "k \<in> set (q # xs)" for k
      using that hl h ow lh p by (auto simp: hp'_def hp2_def)
  qed
qed

text \<open>Taking a handle out of the ring:\<close>

lemma release_ring:
  assumes ring: "ring hp (q # xs)" and h: "h \<in> set xs" and root: "map_option hn_root (hp h) = Some (Some r)"
  obtains hp' where "ioc_release_handle hp h = Some hp'" and "ring hp' (q # remove1 h xs)"
    and "\<And>k. k \<notin> set (q # xs) \<Longrightarrow> hp' k = hp k"
    and "map_option hn_mblk (hp' h) = Some None" "nxt hp' h = Some h" "prv hp' h = Some h"
    and "\<And>k. k \<noteq> h \<Longrightarrow> map_option hn_mblk (hp' k) = map_option hn_mblk (hp k)" "\<And>k. map_option hn_root (hp' k) = map_option hn_root (hp k)"
proof -
  obtain as bs where xs: "xs = as @ h # bs" using h by (meson split_list)
  define p where "p = last (q # as)"
  define init where "init = butlast (q # as)"
  define rest where "rest = tl (bs @ [q])"
  define n where "n = hd (bs @ [q])"
  have qa: "q # as = init @ [p]" by (simp add: p_def init_def)
  have bn: "bs @ [q] = n # rest" by (simp add: rest_def n_def)
  have all: "(q # xs) @ [q] = init @ p # h # n # rest"
    using qa bn xs by (metis append.assoc append_Cons append_Nil)
  have d: "distinct (q # as @ h # bs)" using ring by (simp add: ring_def xs)
  have lk: "linked hp (init @ p # h # n # rest)" using ring all by (simp add: ring_def)
  have li: "linked hp (init @ [p])" and ph: "nxt hp p = Some h" "prv hp h = Some p" and hn: "nxt hp h = Some n" "prv hp n = Some h"
    and lr: "linked hp (n # rest)"
    using lk linked_append [of hp init p "h # n # rest"] by auto
  have sets: "set (q # as) = insert p (set init)" "insert q (set bs) = insert n (set rest)"
    using arg_cong [OF qa, of set] arg_cong [OF bn, of set] by auto
  have hne: "h \<noteq> p" "h \<noteq> n" "h \<notin> set init" "h \<notin> set rest"
    using d sets by auto
  obtain x where x: "hp h = Some x" "hn_next x = n" "hn_prev x = p" "hn_root x = Some r" using hn ph root by (auto simp: nxt_def prv_def)
  obtain px where px: "hp p = Some px" using ph(1) by (auto simp: nxt_def)
  obtain nx0 where nx0: "hp n = Some nx0" using hn(2) by (auto simp: prv_def)
  define hp1 where "hp1 = hp(p \<mapsto> px\<lparr>hn_next := n\<rparr>)"
  obtain nx where nx: "hp1 n = Some nx" "hn_mblk nx = hn_mblk nx0" "hn_root nx = hn_root nx0" "hn_next nx = (if n = p then n else hn_next nx0)"
    using nx0 px by (cases "n = p") (auto simp: hp1_def)
  define hp2 where "hp2 = hp1(n \<mapsto> nx\<lparr>hn_prev := p\<rparr>)"
  have x2: "hp2 h = Some x" using x(1) hne by (simp add: hp2_def hp1_def)
  define hp' where "hp' = hp2(h \<mapsto> x\<lparr>hn_next := h, hn_prev := h, hn_mblk := None\<rparr>)"
  have res: "ioc_release_handle hp h = Some hp'"
    unfolding ioc_release_handle_def Let_def x(1) Option.bind.bind_lunit x(2-4) px hp1_def [symmetric] nx(1) hp2_def [symmetric] x2
    using hne by (simp add: hp'_def)
  have nt: "nxt hp' y = (if y = h then Some h else if y = p then Some n else nxt hp y)" for y
    using hne px nx nx0 by (auto simp: nxt_def hp'_def hp2_def hp1_def)
  have pr: "prv hp' y = (if y = h then Some h else if y = n then Some p else prv hp y)" for y
    using hne px nx nx0 by (auto simp: prv_def hp'_def hp2_def hp1_def)
  have i1: "n \<notin> set (tl (init @ [p]))" "p \<notin> set init" "set (tl (init @ [p])) \<subseteq> set (q # as)"
  proof -
    have tl: "tl (init @ [p]) = as" unfolding qa [symmetric] by simp
    have "n = q \<or> n \<in> set bs" using sets by auto
    then show "n \<notin> set (tl (init @ [p]))" using d tl by auto
    have "distinct (init @ [p])" unfolding qa [symmetric] using d by simp
    then show "p \<notin> set init" by simp
    show "set (tl (init @ [p])) \<subseteq> set (q # as)" using tl by auto
  qed
  have i2: "p \<notin> set (butlast (n # rest))" "n \<notin> set rest" "set (butlast (n # rest)) \<subseteq> set bs"
  proof -
    have bl: "butlast (n # rest) = bs" unfolding bn [symmetric] by simp
    have "p = q \<or> p \<in> set as" using sets by auto
    then show "p \<notin> set (butlast (n # rest))" using d bl by auto
    have "distinct (bs @ [q])" using d by auto
    then show "n \<notin> set rest" unfolding bn by simp
    show "set (butlast (n # rest)) \<subseteq> set bs" using bl by simp
  qed
  have "linked hp' (init @ [p]) = linked hp (init @ [p])"
    by (rule linked_cong) (use nt pr hne i1 d in auto)
  moreover have "linked hp' (n # rest) = linked hp (n # rest)"
    by (rule linked_cong) (use nt pr hne i2 d in auto)
  ultimately have "linked hp' (init @ p # n # rest)"
    using linked_append [of hp' init p "n # rest"] nt pr hne li lr by simp
  moreover have "h \<notin> set as" using d by simp
  then have rm: "q # remove1 h xs = q # as @ bs" by (simp add: xs remove1_append)
  moreover have "(q # as @ bs) @ [q] = init @ p # n # rest" using qa bn by (metis append.assoc append_Cons append_Nil)
  ultimately have r: "ring hp' (q # remove1 h xs)" using d by (simp add: ring_def)
  show thesis
  proof (rule that [OF res r])
    show "hp' k = hp k" if "k \<notin> set (q # xs)" for k
    proof -
      have "k \<noteq> p" "k \<noteq> n" "k \<noteq> h" using that sets xs by auto
      then show ?thesis by (simp add: hp'_def hp2_def hp1_def)
    qed
    show "map_option hn_mblk (hp' h) = Some None" "nxt hp' h = Some h" "prv hp' h = Some h"
      using nt [of h] pr [of h] by (simp_all add: hp'_def)
    show "map_option hn_mblk (hp' k) = map_option hn_mblk (hp k)" if "k \<noteq> h" for k
      using that px nx nx0 by (auto simp: hp'_def hp2_def hp1_def)
    show "map_option hn_root (hp' k) = map_option hn_root (hp k)" for k
      using x px nx nx0 hne by (auto simp: hp'_def hp2_def hp1_def)
  qed
qed

text \<open>The loop over the ring only looks at the next pointers.\<close>

fun forward :: "handles \<Rightarrow> nat list \<Rightarrow> bool" where
  "forward hp (x # y # zs) \<longleftrightarrow> nxt hp x = Some y \<and> forward hp (y # zs)"
| "forward hp _ \<longleftrightarrow> True"

lemma linked_forward: "linked hp xs \<Longrightarrow> forward hp xs"
  by (induction xs rule: induct_list012) auto

lemma forward_cong: "(\<And>x. x \<in> set (butlast xs) \<Longrightarrow> nxt hp' x = nxt hp x) \<Longrightarrow> forward hp' xs = forward hp xs"
  by (induction xs rule: induct_list012) auto

lemma terminate_loop_spec:
  assumes "forward hp (h # zs @ [start])" and "distinct (h # zs)" and "start \<notin> set zs"
  shows "\<exists>hp'. terminate_loop hp start h = Some hp' \<and>
    (\<forall>k. hp' k = (if k \<in> set (h # zs) then map_option (\<lambda>x. x\<lparr>hn_next := k, hn_prev := k, hn_mblk := None\<rparr>) (hp k) else hp k))"
  using assms
proof (induction zs arbitrary: hp h)
  case Nil
  then show ?case by (subst terminate_loop.simps) (auto simp: nxt_def)
next
  case (Cons z zs)
  then obtain x where x: "hp h = Some x" "hn_next x = z" by (auto simp: nxt_def)
  define hp1 where "hp1 = hp(h \<mapsto> x\<lparr>hn_next := h, hn_prev := h, hn_mblk := None\<rparr>)"
  have "forward hp1 (z # zs @ [start]) = forward hp (z # zs @ [start])"
    by (rule forward_cong) (use Cons.prems(2) in \<open>auto simp: hp1_def nxt_def butlast_append\<close>)
  then have "forward hp1 (z # zs @ [start])" "distinct (z # zs)" "start \<notin> set zs" using Cons.prems by auto
  from Cons.IH [OF this] obtain hp' where r: "terminate_loop hp1 start z = Some hp'"
    and k: "\<forall>k. hp' k = (if k \<in> set (z # zs) then map_option (\<lambda>x. x\<lparr>hn_next := k, hn_prev := k, hn_mblk := None\<rparr>) (hp1 k) else hp1 k)" by blast
  have "z \<noteq> start" using Cons.prems(3) by auto
  then have "terminate_loop hp start h = Some hp'"
    using r x by (subst terminate_loop.simps) (simp add: hp1_def)
  moreover have "hp' k = (if k \<in> set (h # z # zs) then map_option (\<lambda>x. x\<lparr>hn_next := k, hn_prev := k, hn_mblk := None\<rparr>) (hp k) else hp k)" for k
    using k x Cons.prems(2) by (auto simp: hp1_def)
  ultimately show ?case by blast
qed

lemma terminate_ring:
  assumes "ring hp (q # xs)"
  obtains hp' where "ioc_terminate_handles hp q = Some hp'"
    and "\<And>k. hp' k = (if k \<in> set (q # xs) then map_option (\<lambda>x. x\<lparr>hn_next := k, hn_prev := k, hn_mblk := None\<rparr>) (hp k) else hp k)"
  using terminate_loop_spec [of hp q xs q] assms linked_forward [of hp "q # xs @ [q]"] that
  by (auto simp: ring_def ioc_terminate_handles_def)

lemma ring_cong:
  assumes "\<And>k. k \<in> set xs \<Longrightarrow> hp' k = hp k" shows "ring hp' xs = ring hp xs"
proof (cases xs)
  case Nil
  then show ?thesis by (simp add: ring_def)
next
  case (Cons x ys)
  have "linked hp' (xs @ [hd xs]) = linked hp (xs @ [hd xs])"
    by (rule linked_cong) (use assms Cons in \<open>auto simp: nxt_def prv_def\<close>)
  then show ?thesis by (simp add: ring_def)
qed

section \<open>What handles promise\<close>

text \<open>
  The specification of the handles is a map: \<open>None\<close> for an address without a handle, else the memory block
  that the handle stands for, if any.
\<close>

type_synonym handle_map = "nat \<Rightarrow> nat option option"

datatype handle_op = HNew nat | HDuplicate nat nat | HRelease nat | HDelete nat

fun handle_do :: "(nat \<Rightarrow> nat) \<Rightarrow> (nat \<Rightarrow> u16) \<Rightarrow> nat \<Rightarrow> handle_op \<Rightarrow> handles \<Rightarrow> handles option" where
  "handle_do own mflags root (HNew m) hp = ioc_setup_handle own mflags hp (own m) (Some root) (Some m)"
| "handle_do own mflags root (HDuplicate h s) hp = ioc_duplicate_handle own mflags hp h s"
| "handle_do own mflags root (HRelease h) hp = ioc_release_handle hp h"
| "handle_do own mflags root (HDelete m) hp = ioc_terminate_handles hp (own m)"

fun handle_spec :: "(nat \<Rightarrow> nat) \<Rightarrow> handle_op \<Rightarrow> handle_map \<Rightarrow> handle_map" where
  "handle_spec own (HNew m) a = a(own m \<mapsto> Some m)"
| "handle_spec own (HDuplicate h s) a = a(h := a s)"
| "handle_spec own (HRelease h) a = a(h \<mapsto> None)"
| "handle_spec own (HDelete m) a = (\<lambda>h. if a h = Some (Some m) then Some None else a h)"

text \<open>
  What the callers have to keep to: a handle in use is not set up again, the source of a copy and a handle to
  release have been set up, and the handle inside a block lives as long as the block.
\<close>

fun handle_legal :: "(nat \<Rightarrow> nat) \<Rightarrow> handle_op \<Rightarrow> handle_map \<Rightarrow> bool" where
  "handle_legal own (HNew m) a \<longleftrightarrow> (\<forall>b. a (own m) \<noteq> Some (Some b))"
| "handle_legal own (HDuplicate h s) a \<longleftrightarrow> (\<forall>b. a h \<noteq> Some (Some b)) \<and> a s \<noteq> None"
| "handle_legal own (HRelease h) a \<longleftrightarrow> a h \<noteq> None \<and> (\<forall>m. a h = Some (Some m) \<longrightarrow> h \<noteq> own m)"
| "handle_legal own (HDelete m) a \<longleftrightarrow> a (own m) = Some (Some m)"

fun handle_run :: "(nat \<Rightarrow> nat) \<Rightarrow> (nat \<Rightarrow> u16) \<Rightarrow> nat \<Rightarrow> handle_op list \<Rightarrow> handles \<Rightarrow> handles option" where
  "handle_run own mflags root [] hp = Some hp"
| "handle_run own mflags root (c # cs) hp = Option.bind (handle_do own mflags root c hp) (handle_run own mflags root cs)"

fun handle_legals :: "(nat \<Rightarrow> nat) \<Rightarrow> handle_op list \<Rightarrow> handle_map \<Rightarrow> bool" where
  "handle_legals own [] a \<longleftrightarrow> True"
| "handle_legals own (c # cs) a \<longleftrightarrow> handle_legal own c a \<and> handle_legals own cs (handle_spec own c a)"

text \<open>\<open>R m\<close> is the ring of block \<open>m\<close>, empty when there is no such block.\<close>

definition handles_ok :: "(nat \<Rightarrow> nat) \<Rightarrow> nat \<Rightarrow> (nat \<Rightarrow> nat list) \<Rightarrow> handles \<Rightarrow> handle_map \<Rightarrow> bool" where
  "handles_ok own root R hp a \<longleftrightarrow>
     (\<forall>m. R m = [] \<or> (\<exists>xs. R m = own m # xs \<and> ring hp (own m # xs))) \<and>
     (\<forall>h m. a h = Some (Some m) \<longleftrightarrow> h \<in> set (R m)) \<and>
     (\<forall>h. a h = map_option hn_mblk (hp h)) \<and>
     (\<forall>h x. hp h = Some x \<longrightarrow> hn_root x = Some root \<and> (hn_mblk x = None \<longrightarrow> hn_next x = h))"

lemma handles_okD:
  assumes "handles_ok own root R hp a"
  shows "R m = [] \<or> (\<exists>xs. R m = own m # xs \<and> ring hp (own m # xs))" "a h = Some (Some m) \<longleftrightarrow> h \<in> set (R m)"
    "a h = map_option hn_mblk (hp h)" "hp h = Some x \<Longrightarrow> hn_root x = Some root" "hp h = Some x \<Longrightarrow> hn_mblk x = None \<Longrightarrow> hn_next x = h"
  using assms unfolding handles_ok_def by blast+

text \<open>One block's ring changes, the others stay.\<close>

lemma handles_ok_change:
  assumes ok: "handles_ok own root R hp a" and ring: "ys = [] \<or> (\<exists>xs. ys = own m # xs \<and> ring hp' (own m # xs))"
    and same: "\<And>k. k \<notin> set (R m) \<Longrightarrow> k \<notin> set ys \<Longrightarrow> hp' k = hp k"
    and new: "\<And>k b. k \<in> set ys \<Longrightarrow> a k = Some (Some b) \<Longrightarrow> b = m"
    and mblk: "\<And>k. k \<in> set (R m) \<union> set ys \<Longrightarrow> map_option hn_mblk (hp' k) = Some (if k \<in> set ys then Some m else None)"
    and root: "\<And>k x. k \<in> set (R m) \<union> set ys \<Longrightarrow> hp' k = Some x \<Longrightarrow> hn_root x = Some root \<and> (hn_mblk x = None \<longrightarrow> hn_next x = k)"
    and a': "\<And>k. a' k = (if k \<in> set ys then Some (Some m) else if k \<in> set (R m) then Some None else a k)"
  shows "handles_ok own root (R(m := ys)) hp' a'"
proof -
  note D = handles_okD [OF ok]
  have other: "k \<notin> set (R m) \<and> k \<notin> set ys" if "k \<in> set (R b)" "b \<noteq> m" for k b
  proof -
    have "a k = Some (Some b)" using D(2) that(1) by simp
    then show ?thesis using D(2) [of k m] new [of k b] that(2) by auto
  qed
  have "ring hp' (R b) = ring hp (R b)" if "b \<noteq> m" for b
    by (rule ring_cong) (use other that same in blast)
  then have 1: "\<forall>b. (R(m := ys)) b = [] \<or> (\<exists>xs. (R(m := ys)) b = own b # xs \<and> ring hp' (own b # xs))"
    using D(1) ring by (metis fun_upd_apply)
  have 2: "a' k = Some (Some b) \<longleftrightarrow> k \<in> set ((R(m := ys)) b)" for k b
  proof (cases "b = m")
    case True
    then show ?thesis using D(2) [of k m] by (auto simp: a')
  next
    case False
    then show ?thesis using D(2) [of k b] other [of k b] by (auto simp: a')
  qed
  have 3: "a' k = map_option hn_mblk (hp' k)" for k
  proof (cases "k \<in> set (R m) \<union> set ys")
    case True
    then show ?thesis using mblk [OF True] by (auto simp: a')
  next
    case False
    then show ?thesis using D(3) [of k] same [of k] by (auto simp: a')
  qed
  have 4: "hn_root x = Some root \<and> (hn_mblk x = None \<longrightarrow> hn_next x = k)" if "hp' k = Some x" for k x
  proof (cases "k \<in> set (R m) \<union> set ys")
    case True
    then show ?thesis using root that by blast
  next
    case False
    then show ?thesis using D(4,5) [of k x] same [of k] that by auto
  qed
  show ?thesis unfolding handles_ok_def using 1 2 3 4 by blast
qed

lemma handles_ok_idle:
  assumes ok: "handles_ok own root R hp a" and h: "\<forall>b. a h \<noteq> Some (Some b)"
    and x: "hn_mblk x = None" "hn_root x = Some root" "hn_next x = h"
  shows "handles_ok own root R (hp(h \<mapsto> x)) (a(h \<mapsto> None))"
proof -
  note D = handles_okD [OF ok]
  have out: "h \<notin> set (R b)" for b using D(2) h by blast
  have "ring (hp(h \<mapsto> x)) (R b) = ring hp (R b)" for b by (rule ring_cong) (use out in auto)
  then have "\<forall>b. R b = [] \<or> (\<exists>xs. R b = own b # xs \<and> ring (hp(h \<mapsto> x)) (own b # xs))" using D(1) by metis
  moreover have "(a(h \<mapsto> None)) k = Some (Some b) \<longleftrightarrow> k \<in> set (R b)" for k b using D(2) out by auto
  moreover have "(a(h \<mapsto> None)) k = map_option hn_mblk ((hp(h \<mapsto> x)) k)" for k using D(3) x by auto
  moreover have "hn_root y = Some root \<and> (hn_mblk y = None \<longrightarrow> hn_next y = k)" if "(hp(h \<mapsto> x)) k = Some y" for k y
    using that D(4,5) [of k y] x by (auto split: if_splits)
  ultimately show ?thesis unfolding handles_ok_def by blast
qed

lemma new_ok:
  assumes ok: "handles_ok own root R hp a" and legal: "handle_legal own (HNew m) a"
  shows "\<exists>hp' R'. handle_do own mflags root (HNew m) hp = Some hp' \<and> handles_ok own root R' hp' (handle_spec own (HNew m) a)"
proof -
  note D = handles_okD [OF ok]
  have Rm: "R m = []" using D(1) [of m] D(2) [of "own m" m] legal by auto
  define x where "x = \<lparr>hn_flags = mflags m, hn_root = Some root, hn_mblk = Some m, hn_next = own m, hn_prev = own m\<rparr>"
  have "handles_ok own root (R(m := [own m])) (hp(own m \<mapsto> x)) (handle_spec own (HNew m) a)"
    by (rule handles_ok_change [OF ok]) (use Rm legal in \<open>auto simp: x_def ring_def nxt_def prv_def\<close>)
  then show ?thesis by (auto simp: ioc_setup_handle_def x_def)
qed

lemma duplicate_ok:
  assumes ok: "handles_ok own root R hp a" and legal: "handle_legal own (HDuplicate h s) a"
  shows "\<exists>hp' R'. handle_do own mflags root (HDuplicate h s) hp = Some hp' \<and> handles_ok own root R' hp' (handle_spec own (HDuplicate h s) a)"
proof -
  note D = handles_okD [OF ok]
  obtain sx where sx: "hp s = Some sx" using legal D(3) [of s] by auto
  have rs: "hn_root sx = Some root" by (rule D(4) [OF sx])
  have as: "a s = Some (hn_mblk sx)" using D(3) [of s] sx by simp
  show ?thesis
  proof (cases "hn_mblk sx")
    case None
    then show ?thesis
      using handles_ok_idle [OF ok, of h "\<lparr>hn_flags = 0, hn_root = Some root, hn_mblk = None, hn_next = h, hn_prev = h\<rparr>"] legal sx rs as
      by (auto simp: ioc_duplicate_handle_def ioc_setup_handle_def)
  next
    case (Some m)
    then have "s \<in> set (R m)" using as D(2) by simp
    then obtain xs where R: "R m = own m # xs" and ring: "ring hp (own m # xs)" using D(1) [of m] by auto
    have h: "h \<notin> set (own m # xs)" using legal D(2) [of h m] R by auto
    obtain hp' where res: "ioc_setup_handle own mflags hp h (Some root) (Some m) = Some hp'" and ring': "ring hp' (own m # xs @ [h])"
      and same: "\<And>k. k \<notin> set (own m # xs @ [h]) \<Longrightarrow> hp' k = hp k"
      and hh: "map_option hn_mblk (hp' h) = Some (Some m)" "map_option hn_root (hp' h) = Some (Some root)"
      and kk: "\<And>k. k \<in> set (own m # xs) \<Longrightarrow> map_option hn_mblk (hp' k) = map_option hn_mblk (hp k) \<and> map_option hn_root (hp' k) = map_option hn_root (hp k)"
      using setup_ring [where own = own and m = m and mflags = mflags and root = "Some root", OF ring refl h] by metis
    have old: "map_option hn_mblk (hp k) = Some (Some m)" if "k \<in> set (own m # xs)" for k
      using that D(2) [of k m] D(3) [of k] R by simp
    have "handles_ok own root (R(m := own m # xs @ [h])) hp' (handle_spec own (HDuplicate h s) a)"
    proof (rule handles_ok_change [OF ok])
      show "own m # xs @ [h] = [] \<or> (\<exists>ys. own m # xs @ [h] = own m # ys \<and> ring hp' (own m # ys))" using ring' by auto
      show "hp' k = hp k" if "k \<notin> set (own m # xs @ [h])" for k by (rule same [OF that])
      show "b = m" if "k \<in> set (own m # xs @ [h])" "a k = Some (Some b)" for k b
        using that legal D(2) [of k m] R by auto
      show m: "map_option hn_mblk (hp' k) = Some (if k \<in> set (own m # xs @ [h]) then Some m else None)"
        if "k \<in> set (R m) \<union> set (own m # xs @ [h])" for k
        using that kk [of k] old [of k] hh R by (cases "k = h") auto
      show "hn_root x = Some root \<and> (hn_mblk x = None \<longrightarrow> hn_next x = k)" if k: "k \<in> set (R m) \<union> set (own m # xs @ [h])" "hp' k = Some x" for k x
      proof -
        have "map_option hn_root (hp' k) = Some (Some root)"
        proof (cases "k = h")
          case True
          then show ?thesis using hh by simp
        next
          case False
          then have kx: "k \<in> set (own m # xs)" using k(1) R by auto
          obtain y where "hp k = Some y" using old [OF kx] by auto
          then show ?thesis using kk [OF kx] D(4) [of k y] by simp
        qed
        moreover have "hn_mblk x = Some m" using m [OF k(1)] k R by (auto split: if_splits)
        ultimately show ?thesis using k(2) by simp
      qed
      show "handle_spec own (HDuplicate h s) a k =
          (if k \<in> set (own m # xs @ [h]) then Some (Some m) else if k \<in> set (R m) then Some None else a k)" for k
        using D(2) [of k m] R as Some by auto
    qed
    then show ?thesis using res sx rs Some by (auto simp: ioc_duplicate_handle_def)
  qed
qed

lemma release_ok:
  assumes ok: "handles_ok own root R hp a" and legal: "handle_legal own (HRelease h) a"
  shows "\<exists>hp' R'. handle_do own mflags root (HRelease h) hp = Some hp' \<and> handles_ok own root R' hp' (handle_spec own (HRelease h) a)"
proof -
  note D = handles_okD [OF ok]
  obtain hx where hx: "hp h = Some hx" using legal D(3) [of h] by auto
  have rh: "hn_root hx = Some root" by (rule D(4) [OF hx])
  have ah: "a h = Some (hn_mblk hx)" using D(3) [of h] hx by simp
  show ?thesis
  proof (cases "hn_mblk hx")
    case None
    then have nx: "hn_next hx = h" by (rule D(5) [OF hx])
    have "ioc_release_handle hp h = Some (hp(h \<mapsto> hx\<lparr>hn_mblk := None\<rparr>))" using hx rh nx by (simp add: ioc_release_handle_def)
    moreover have "handles_ok own root R (hp(h \<mapsto> hx\<lparr>hn_mblk := None\<rparr>)) (a(h \<mapsto> None))"
      by (rule handles_ok_idle [OF ok]) (use ah None rh nx in auto)
    ultimately show ?thesis by auto
  next
    case (Some m)
    then have hm: "h \<in> set (R m)" using ah D(2) by simp
    then obtain xs where R: "R m = own m # xs" and ring: "ring hp (own m # xs)" using D(1) [of m] by auto
    have hxs: "h \<in> set xs" using hm R legal ah Some by auto
    have d: "distinct (own m # xs)" using ring by (simp add: ring_def)
    have root: "map_option hn_root (hp h) = Some (Some root)" using hx rh by simp
    obtain hp' where res: "ioc_release_handle hp h = Some hp'" and ring': "ring hp' (own m # remove1 h xs)"
      and same: "\<And>k. k \<notin> set (own m # xs) \<Longrightarrow> hp' k = hp k"
      and hh: "map_option hn_mblk (hp' h) = Some None" "nxt hp' h = Some h"
      and mm: "\<And>k. k \<noteq> h \<Longrightarrow> map_option hn_mblk (hp' k) = map_option hn_mblk (hp k)"
      and rr: "\<And>k. map_option hn_root (hp' k) = map_option hn_root (hp k)"
      using release_ring [OF ring hxs root] by metis
    have ys: "set (own m # remove1 h xs) = set (own m # xs) - {h}" using d hxs by auto
    have old: "map_option hn_mblk (hp k) = Some (Some m)" if "k \<in> set (own m # xs)" for k
      using that D(2) [of k m] D(3) [of k] R by simp
    have "handles_ok own root (R(m := own m # remove1 h xs)) hp' (handle_spec own (HRelease h) a)"
    proof (rule handles_ok_change [OF ok])
      show "own m # remove1 h xs = [] \<or> (\<exists>ys. own m # remove1 h xs = own m # ys \<and> ring hp' (own m # ys))" using ring' by auto
      show "hp' k = hp k" if "k \<notin> set (R m)" for k using same that R by simp
      show "b = m" if "k \<in> set (own m # remove1 h xs)" "a k = Some (Some b)" for k b
        using that D(2) [of k m] R ys by auto
      show m: "map_option hn_mblk (hp' k) = Some (if k \<in> set (own m # remove1 h xs) then Some m else None)"
        if "k \<in> set (R m) \<union> set (own m # remove1 h xs)" for k
        unfolding ys using that ys old [of k] mm [of k] hh R by (cases "k = h") auto
      show "hn_root x = Some root \<and> (hn_mblk x = None \<longrightarrow> hn_next x = k)" if k: "k \<in> set (R m) \<union> set (own m # remove1 h xs)" "hp' k = Some x" for k x
      proof -
        have kx: "k \<in> set (own m # xs)" using k(1) R ys by auto
        obtain y where y: "hp k = Some y" using old [OF kx] by auto
        have "hn_root x = Some root" using rr [of k] k(2) y D(4) [OF y] by simp
        moreover have "hn_mblk x = None \<Longrightarrow> k = h" using m [OF k(1)] k(2) kx unfolding ys by (auto split: if_splits)
        ultimately show ?thesis using hh(2) k(2) by (auto simp: nxt_def)
      qed
      show "handle_spec own (HRelease h) a k =
          (if k \<in> set (own m # remove1 h xs) then Some (Some m) else if k \<in> set (R m) then Some None else a k)" for k
        unfolding ys using D(2) [of k m] R hxs by auto
    qed
    then show ?thesis using res by auto
  qed
qed

lemma delete_ok:
  assumes ok: "handles_ok own root R hp a" and legal: "handle_legal own (HDelete m) a"
  shows "\<exists>hp' R'. handle_do own mflags root (HDelete m) hp = Some hp' \<and> handles_ok own root R' hp' (handle_spec own (HDelete m) a)"
proof -
  note D = handles_okD [OF ok]
  have "own m \<in> set (R m)" using legal D(2) by simp
  then obtain xs where R: "R m = own m # xs" and ring: "ring hp (own m # xs)" using D(1) [of m] by auto
  obtain hp' where res: "ioc_terminate_handles hp (own m) = Some hp'"
    and k: "\<And>k. hp' k = (if k \<in> set (own m # xs) then map_option (\<lambda>x. x\<lparr>hn_next := k, hn_prev := k, hn_mblk := None\<rparr>) (hp k) else hp k)"
    using terminate_ring [OF ring] by metis
  have some: "\<exists>y. hp k = Some y \<and> hn_root y = Some root" if "k \<in> set (own m # xs)" for k
  proof -
    have "a k = Some (Some m)" using that D(2) R by simp
    then obtain y where "hp k = Some y" using D(3) [of k] by auto
    then show ?thesis using D(4) by blast
  qed
  have "handles_ok own root (R(m := [])) hp' (handle_spec own (HDelete m) a)"
  proof (rule handles_ok_change [OF ok])
    show "hp' j = hp j" if "j \<notin> set (R m)" for j using k [of j] that R by auto
    show "map_option hn_mblk (hp' j) = Some (if j \<in> set [] then Some m else None)" if "j \<in> set (R m) \<union> set []" for j
      using k [of j] some [of j] that R by auto
    show "hn_root x = Some root \<and> (hn_mblk x = None \<longrightarrow> hn_next x = j)" if "j \<in> set (R m) \<union> set []" "hp' j = Some x" for j x
      using k [of j] some [of j] that R by auto
    show "handle_spec own (HDelete m) a j = (if j \<in> set [] then Some (Some m) else if j \<in> set (R m) then Some None else a j)" for j
      using D(2) [of j m] by auto
  qed simp_all
  then show ?thesis using res by auto
qed

lemma handle_do_ok:
  assumes "handles_ok own root R hp a" and "handle_legal own c a"
  shows "\<exists>hp' R'. handle_do own mflags root c hp = Some hp' \<and> handles_ok own root R' hp' (handle_spec own c a)"
proof (cases c)
  case (HNew m)
  show ?thesis using new_ok [OF assms(1), of m] assms(2) unfolding HNew .
next
  case (HDuplicate h s)
  show ?thesis using duplicate_ok [OF assms(1), of h s] assms(2) unfolding HDuplicate .
next
  case (HRelease h)
  show ?thesis using release_ok [OF assms(1), of h] assms(2) unfolding HRelease .
next
  case (HDelete m)
  show ?thesis using delete_ok [OF assms(1), of m] assms(2) unfolding HDelete .
qed

lemma handle_run_ok:
  "handles_ok own root R hp a \<Longrightarrow> handle_legals own cs a \<Longrightarrow>
   \<exists>hp' R'. handle_run own mflags root cs hp = Some hp' \<and> handles_ok own root R' hp' (fold (handle_spec own) cs a)"
proof (induction cs arbitrary: hp a R)
  case Nil
  then show ?case by auto
next
  case (Cons c cs)
  then obtain hp1 R1 where 1: "handle_do own mflags root c hp = Some hp1" "handles_ok own root R1 hp1 (handle_spec own c a)"
    using handle_do_ok [of own root R hp a c mflags] by auto
  then show ?case using Cons.IH [OF 1(2)] Cons.prems(2) by simp
qed

text \<open>
  \<^bold>\<open>C40\<close> Handles never dangle. For every sequence of blocks created and deleted and handles duplicated and released within the
  rules, the code returns without following a wrong pointer, and then \<open>ioc_handle_lock_to_mblk\<close> gives a block for
  a handle exactly when the handle was made for that block and neither was released nor the block deleted since.
\<close>

theorem handles_never_dangle:
  assumes "handle_legals own cs Map.empty"
  shows "\<exists>hp. handle_run own mflags root cs Map.empty = Some hp \<and>
    (\<forall>h. ioc_handle_lock_to_mblk hp h =
      map_option (\<lambda>b. (b, if b = None then None else Some root)) (fold (handle_spec own) cs Map.empty h))"
proof -
  let ?a = "fold (handle_spec own) cs Map.empty"
  have "handles_ok own root (\<lambda>m. []) Map.empty Map.empty" by (simp add: handles_ok_def)
  then obtain hp R where run: "handle_run own mflags root cs Map.empty = Some hp" and ok: "handles_ok own root R hp ?a"
    using handle_run_ok assms by blast
  have "ioc_handle_lock_to_mblk hp h = map_option (\<lambda>b. (b, if b = None then None else Some root)) (?a h)" for h
  proof (cases "hp h")
    case None
    then show ?thesis using handles_okD(3) [OF ok, of h] by (simp add: ioc_handle_lock_to_mblk_def)
  next
    case (Some x)
    then show ?thesis using handles_okD(3) [OF ok, of h] handles_okD(4) [OF ok Some] by (simp add: ioc_handle_lock_to_mblk_def)
  qed
  then show ?thesis using run by blast
qed

text \<open>Two handles to one block, one released, the block deleted; a handle to another block stays.\<close>

lemma handles_never_dangle_witness:
  "\<exists>hp. handle_run (\<lambda>m. 10 * m) (\<lambda>m. 3) 0 [HNew 1, HNew 2, HDuplicate 31 10, HDuplicate 32 31, HDuplicate 33 20, HRelease 31, HDelete 1] Map.empty = Some hp \<and>
     ioc_handle_lock_to_mblk hp 32 = Some (None, None) \<and> ioc_handle_lock_to_mblk hp 33 = Some (Some 2, Some 0)"
proof -
  have "handle_legals (\<lambda>m. 10 * m) [HNew 1, HNew 2, HDuplicate 31 10, HDuplicate 32 31, HDuplicate 33 20, HRelease 31, HDelete 1] Map.empty"
    by simp
  from handles_never_dangle [OF this, of "\<lambda>m. 3" 0] show ?thesis by auto
qed

end
