(* ===== verification/Spec2Isabelle.thy ===== *)
theory Spec2Isabelle
  imports Ioc_Link Ioc_Memory_Pool Ioc_Auto_Device_Nr Ioc_Connection_Run Ioc_Flow_Control Ioc_Stream_Transfer Ioc_Signal Ioc_Handle
begin

text \<open>
  Verification of the iocom library, the C code under \<open>code/\<close> and the remove requests of \<open>extensions/dynamicio/\<close>.

  \<^bold>\<open>What the program does.\<close> iocom keeps memory blocks of IO devices and controllers in step over sockets and serial
  lines. An application changes bytes or signals of a memory block. Every connection that the block is bound to has a source buffer,
  which records the changed range and captures it as a whole; the connection sends it in compressed frames under flow control.
  The connection at the other end stores the frames in a target buffer, whose complete snapshots the receiving application
  takes over. Which blocks of two ends belong together is found out by memory block information frames; authentication
  goes before all data. Streamers move byte streams over signals of such blocks.

  \<^bold>\<open>Theories and sources.\<close>
  \<^item> \<open>Ioc_Prelude\<close>: C integers, checked access to memory regions, status codes, events; the locale \<open>step_invariant\<close> for
    invariants of step relations.
  \<^item> \<open>Ioc_Compress\<close>: \<open>ioc_compress.c\<close>. Round trip, safety for arbitrary input, the read past the end.
  \<^item> \<open>Ioc_Message\<close>: the field encodings \<open>ioc_msg_set_...\<close> and \<open>ioc_msg_get_...\<close> of \<open>ioc_connection_send.c\<close> and \<open>_receive.c\<close>.
  \<^item> \<open>Ioc_Frame\<close>: \<open>ioc_generate_header\<close>, the parsing of headers, frame numbers.
  \<^item> \<open>Ioc_Callback\<close>, \<open>Ioc_Source_Buffer\<close>, \<open>Ioc_Target_Buffer\<close>, \<open>Ioc_Memory_Block\<close>: \<open>ioc_memory_block.c\<close>, \<open>ioc_source_buffer.c\<close>,
    \<open>ioc_target_buffer.c\<close>. \<open>covers\<close> is the invariant that no changed byte is forgotten; capture, storing and receiving are shown to
    move exactly the bytes they should, of plain and of bidirectional blocks; the one frame that leaves the buffers is characterised.
  \<^item> \<open>Ioc_Handle\<close>: \<open>ioc_handle.c\<close>, rings of handle structures; they implement a map from handles to blocks.
  \<^item> \<open>Ioc_Signal\<close>: \<open>ioc_signal.c\<close>, typed values in memory blocks; set and get, arrays of booleans.
  \<^item> \<open>Ioc_Connection\<close>, \<open>Ioc_Connection_Send\<close>, \<open>Ioc_Connection_Receive\<close>: \<open>ioc_connection.c\<close>, \<open>_send.c\<close>, \<open>_receive.c\<close>. Frames made and
    cancelled, frames put together from pieces of a stream, acknowledgements.
  \<^item> \<open>Ioc_Flow_Control\<close>: runs of sends, acknowledgements and keep alives at one connection, and the bound of the bytes in the air.
  \<^item> \<open>Ioc_Link\<close>: the two ends of one block over one connection as a step relation \<open>link_step\<close>. A quiescent receiver has the sender's
    block, sees only whole contents, and every state can drain.
  \<^item> \<open>Ioc_Buffers\<close>, \<open>Ioc_Mbinfo\<close>, \<open>Ioc_Root\<close>, \<open>Ioc_Root_Inv\<close>: \<open>ioc_memory_block_info.c\<close> and the objects under a root, with the references
    between them as numbers. \<open>links_ok\<close>, in \<open>Ioc_Root_Inv\<close>, says that no reference dangles; binding, releasing, deleting and closing keep it. When no memory is left
    for a buffer the code goes on with a null pointer and so does the model.
  \<^item> \<open>Ioc_Remove_Mblk\<close>: \<open>ioc_remove_mblk_list.c\<close>; the packed integers of the operating system layer are a locale, \<open>intser_contract\<close>.
  \<^item> \<open>Ioc_Authentication\<close>: \<open>ioc_authentication.c\<close>. \<open>Ioc_Auto_Device_Nr\<close>: \<open>ioc_auto_device_nr.c\<close>, the table of reserved numbers
    over sequences of requests and restarts.
  \<^item> \<open>Ioc_Connection_Run\<close>: \<open>ioc_connection_send\<close>, \<open>ioc_connection_receive\<close> with its system frames, and a root with any number of connections as
    a step relation \<open>root_step\<close>; its interpretation \<open>root_run\<close> of \<open>step_invariant\<close> carries \<open>links_ok\<close> over every run from an empty root.
    Lost connections (\<open>connection_dropped\<close>, the end of \<open>ioc_run_connection\<close>) and \<open>ioc_release_connection\<close> are among the steps.
  \<^item> \<open>Ioc_Memory_Pool\<close>: \<open>ioc_memory.c\<close> with a fixed pool.
  \<^item> \<open>Ioc_Streamer\<close>, \<open>Ioc_Stream_Transfer\<close>: \<open>ioc_streamer.c\<close>; the four end functions and the ring buffer, then both directions of a
    transfer as interpretations of one locale, \<open>stream_contract\<close>.

  \<^bold>\<open>How C is modelled.\<close> Structures are records, pointers between objects are reference numbers, lists linked through objects are lists
  of references. A function takes and returns the records it changes. \<open>None\<close> is undefined behaviour: an access outside a region, a
  null or dangling pointer. Theorems whose conclusion gives \<open>Some\<close> are therefore memory safety statements. Flow control counters
  and bit sets are words and wrap around; addresses and sizes are \<open>int\<close>, as the sources use \<open>os_int\<close>, which the bounds of the theorems
  keep small. Calls into the operating system layer are parameters (streams, timers, random numbers, persistent storage,
  checksums, string conversions); where a theorem needs something of them it says so in a hypothesis. Locks serialize
  the operations, so each operation is one step and threads appear as their interleaving. The build with dynamic memory
  allocation and multithreading is modelled, unless a theory says otherwise.

  \<^bold>\<open>Bounds.\<close> Loops are structural or have a measure; \<open>read_frame_loop\<close> and the loop over a ring of handles are proved to return. The draw of a
  unique identifier has the 100000 rounds of the source. The samples that witnesses evaluate are small, the theorems are for
  all sizes.

  \<^bold>\<open>Not modelled.\<close> Threads, sockets and end points; the serial handshake; root set up and event queues; switch boxes; persistent
  parameters and the control streams that move files; signal address strings; bricks; the dynamic network tables and the Python
  interface above them; configuration helpers, lighthouse and examples. They are calls of the operating system
  layer, of external libraries, or text processing; the transport core they use is here.
\<close>

end
